(* ===== verification/RV_Prelude.thy ===== *)
theory RV_Prelude
  imports Main "HOL-Library.Word"
begin

text \<open>
  Shared vocabulary of the RVDOS development: the machine-integer types of
  \<^verbatim>\<open>include/abi/types.h\<close>, the result type of kernel code that may panic, and the generic
  lemmas on words, lists and results that the component theories use.
\<close>

unbundle bit_operations_syntax

subsection \<open>Types\<close>

type_synonym u8 = "8 word"
type_synonym u16 = "16 word"
type_synonym u32 = "32 word"
type_synonym u64 = "64 word"

text \<open>
  Physical memory is addressed by byte addresses; every access of the modelled code to raw
  memory is an aligned 64-bit one (page-table entries, slab block links and headers,
  slab-page records), so memory maps an 8-byte aligned address to the 64-bit word there.
\<close>

type_synonym mem = "u64 \<Rightarrow> u64"

text \<open>
  A call of \<^verbatim>\<open>panic\<close> stops the kernel: it is the left value \<open>Panic msg\<close>. A run of the C code
  that leaves defined behaviour (a null dereference, a write past the end of a local buffer)
  is the left value \<open>Undefined what\<close>.
\<close>

datatype kerror = Panic string | Undefined string

type_synonym 'a res = "kerror + 'a"

definition rbind :: "'a res \<Rightarrow> ('a \<Rightarrow> 'b res) \<Rightarrow> 'b res" where
  "rbind r f = (case r of Inl e \<Rightarrow> Inl e | Inr x \<Rightarrow> f x)"

text \<open>A counted loop whose body may panic.\<close>

primrec rfold :: "('a \<Rightarrow> 's \<Rightarrow> 's res) \<Rightarrow> 'a list \<Rightarrow> 's \<Rightarrow> 's res" where
  "rfold f [] s = Inr s"
| "rfold f (x # xs) s = rbind (f x s) (rfold f xs)"

named_theorems rv_const \<open>the numeric constants of the headers\<close>
named_theorems rv_frame \<open>fields and regions an operation leaves alone\<close>

subsection \<open>Results\<close>

lemma rbind_simps [simp]:
  "rbind (Inl e) f = Inl e"
  "rbind (Inr x) f = f x"
  by (simp_all add: rbind_def)

lemma rbind_eq_Inr [simp]: "rbind r f = Inr y \<longleftrightarrow> (\<exists>x. r = Inr x \<and> f x = Inr y)"
  by (cases r) auto

lemma rbind_eq_Inl: "rbind r f = Inl e \<longleftrightarrow> r = Inl e \<or> (\<exists>x. r = Inr x \<and> f x = Inl e)"
  by (cases r) auto

lemma rbind_cong [fundef_cong]:
  "r = r' \<Longrightarrow> (\<And>x. r' = Inr x \<Longrightarrow> f x = g x) \<Longrightarrow> rbind r f = rbind r' g"
  by (cases r') auto

lemma rfold_append: "rfold f (xs @ ys) s = rbind (rfold f xs s) (rfold f ys)"
  by (induction xs arbitrary: s) (auto simp: rbind_def split: sum.splits)

lemma rfold_invariant:
  assumes "P s" and "\<And>x t. x \<in> set xs \<Longrightarrow> P t \<Longrightarrow> \<exists>t'. f x t = Inr t' \<and> P t'"
  shows "\<exists>s'. rfold f xs s = Inr s' \<and> P s'"
  using assms
proof (induction xs arbitrary: s)
  case Nil
  then show ?case by simp
next
  case (Cons x xs)
  obtain t where "f x s = Inr t" "P t" using Cons.prems by fastforce
  moreover have "\<exists>s'. rfold f xs t = Inr s' \<and> P s'"
    using Cons.IH [OF \<open>P t\<close>] Cons.prems(2) by simp
  ultimately show ?case by auto
qed

lemma first_counterexample:
  fixes k n :: nat
  assumes "k < n" and "\<not> P k"
  shows "\<exists>j<n. \<not> P j \<and> (\<forall>i<j. P i)"
proof -
  define j where "j = (LEAST j. \<not> P j)"
  have "\<not> P j" unfolding j_def using assms(2) by (rule LeastI)
  moreover have "j \<le> k" unfolding j_def using assms(2) by (rule Least_le)
  moreover have "P i" if "i < j" for i using that not_less_Least unfolding j_def by blast
  ultimately show ?thesis using assms(1) by (metis le_less_trans)
qed

subsection \<open>Words\<close>

lemma and_not_mask_eq: "w AND NOT (mask n) = push_bit n (drop_bit n w)" for w :: "'a::len word"
  by (rule bit_word_eqI) (auto simp: bit_simps)

lemma unat_div_mult_same: "unat (w div k * k) = unat w div unat k * unat k" for w k :: "'a::len word"
proof -
  have "unat w div unat k * unat k < 2 ^ LENGTH('a)"
    using unsigned_less [of w] by (meson div_times_less_eq_dividend le_less_trans)
  then show ?thesis
    by (simp add: unat_word_ariths(2) unat_div)
qed

lemma and_not_mask_div: "w AND NOT (mask n) = w div 2 ^ n * 2 ^ n" for w :: "'a::len word"
  by (simp add: and_not_mask_eq push_bit_eq_mult drop_bit_eq_div)

lemma and_exp_neq_0 [simp]: "(w AND 2 ^ n = 0) \<longleftrightarrow> \<not> bit w n" for w :: "'a::len word"
  by (simp add: and_exp_eq_0_iff_not_bit)

lemma bit_or_exp: "bit (w OR 2 ^ n) m \<longleftrightarrow> bit w m \<or> (m = n \<and> n < LENGTH('a))" for w :: "'a::len word"
  by (auto simp: bit_simps)

lemma bit_andnot_exp: "bit (w AND NOT (2 ^ n)) m \<longleftrightarrow> bit w m \<and> m \<noteq> n" for w :: "'a::len word"
  using bit_imp_le_length [of w m] by (auto simp: bit_simps)

lemma unat_of_nat_small: "n < 2 ^ LENGTH('a) \<Longrightarrow> unat (of_nat n :: 'a::len word) = n"
  by (simp add: unat_of_nat)

lemma take_bit_word_self:
  fixes w :: "'a::len word"
  assumes "unat w < 2 ^ n"
  shows "take_bit n w = w"
proof -
  have "unat (take_bit n w) = unat w"
    using assms by (simp add: unsigned_take_bit_eq take_bit_nat_eq_self)
  then show ?thesis by (simp only: word_unat_eq_iff)
qed

lemma sint_split: "sint xx = uint xx - (if bit (uint xx) 31 then 2 ^ 32 else 0)" for xx :: u32
proof -
  have "take_bit (Suc 31) (uint xx) = uint xx"
    using uint_bounded [of xx] by (intro take_bit_int_eq_self) simp_all
  then show ?thesis by (simp add: sint_uint signed_take_bit_eq_take_bit_minus)
qed

lemma sint_unat: "0 \<le> sint xx \<Longrightarrow> sint xx = int (unat xx)" for xx :: u32
  using sint_split [of xx] uint_bounded [of xx] by (auto split: if_splits)

lemma unat_abs: "unat (if sint xx < 0 then - xx else xx) = nat \<bar>sint xx\<bar>" for xx :: u32
proof (cases "sint xx < 0")
  case True
  have u: "0 \<le> uint xx" "uint xx < 2 ^ 32" using uint_bounded [of xx] by simp_all
  then have m: "sint xx = uint xx - 2 ^ 32" using True sint_split [of xx] by (auto split: if_splits)
  have "0 < uint xx" using True u by (metis less_le sint_0 uint_0_iff less_irrefl)
  then have "uint (- xx) = 2 ^ 32 - uint xx"
    using u by (simp add: uint_word_ariths zmod_zminus1_eq_if)
  then show ?thesis using True m u by (simp flip: nat_uint_eq)
next
  case False
  then show ?thesis using sint_unat [of xx] by simp
qed

lemma sint_small: "unat x < 2 ^ 31 \<Longrightarrow> sint x = int (unat x)" for x :: u32
proof -
  assume "unat x < 2 ^ 31"
  then have "uint x div 2 ^ 31 = 0" by (intro div_pos_pos_trivial) (simp_all flip: nat_uint_eq)
  then show ?thesis using sint_split [of x] by (simp add: bit_iff_odd)
qed

subsection \<open>Characters as bytes\<close>

lemma unat_of_char: "unat (of_char c :: u8) = of_char c"
proof -
  have "(of_char c :: u8) = of_nat (of_char c)" by (rule of_nat_of_char [symmetric])
  then show ?thesis using nat_of_char_less_256 [of c] unat_of_nat_small [of "of_char c", where 'a = 8] by simp
qed

lemma of_char_u8: "(of_char c :: u8) = of_char d \<longleftrightarrow> c = d"
proof
  assume "(of_char c :: u8) = of_char d"
  then have "(of_char c :: nat) = of_char d" by (metis unat_of_char)
  then have "char_of (of_char c :: nat) = char_of (of_char d :: nat)" by (simp only:)
  then show "c = d" by (simp only: char_of_char)
qed simp

lemma char_of_unat [simp]: "char_of (unat (of_char c :: u8)) = c"
  by (simp only: unat_of_char char_of_char)

lemma of_char_char_of [simp]: "of_char (char_of (unat b)) = b" for b :: u8
proof -
  have "unat (of_char (char_of (unat b)) :: u8) = unat b"
    using unsigned_less [of b, where ?'a = nat] by (simp add: unat_of_char of_char_of)
  then show ?thesis by (simp only: word_unat_eq_iff)
qed

subsection \<open>Division by a fixed block size\<close>

lemma mod_0_iff_div_mult: "n mod k = 0 \<longleftrightarrow> n div k * k = n" for n k :: nat
  using div_mult_mod_eq [of n k] by linarith

lemma block_decomp:
  fixes n m k :: nat
  assumes "n mod k = 0" and "m < k"
  shows "(n + m) div k * k = n"
proof -
  from assms(1) obtain q where "n = k * q" by (auto elim: dvdE simp: mod_eq_0_iff_dvd)
  with assms(2) show ?thesis by simp
qed

lemma block_room:
  fixes n k b :: nat
  assumes "n mod k = 0" and "b mod k = 0" and "n < b"
  shows "n + k \<le> b"
proof -
  from assms(1,2) obtain q r where q: "n = k * q" and r: "b = k * r"
    by (auto elim!: dvdE simp: mod_eq_0_iff_dvd)
  with assms(3) have "Suc q \<le> r" by simp
  then have "k * Suc q \<le> k * r" by (rule mult_le_mono2)
  with q r show ?thesis by simp
qed

lemma block_index:
  fixes a v k n :: nat
  assumes "a mod k = 0" and "0 < k"
  shows "(\<exists>j<n. v div k * k = a + j * k) \<longleftrightarrow> a \<le> v \<and> v < a + n * k"
proof -
  define q where "q = a div k"
  have q: "a = q * k" using assms(1) by (auto simp: q_def)
  have "v div k * k = a + j * k \<longleftrightarrow> v div k = q + j" for j
    using assms(2) by (simp add: q flip: add_mult_distrib)
  then have "(\<exists>j<n. v div k * k = a + j * k) \<longleftrightarrow> q \<le> v div k \<and> v div k < q + n"
    by (auto intro: exI [of _ "v div k - q"])
  also have "\<dots> \<longleftrightarrow> a \<le> v \<and> v < a + n * k"
    using assms(2) by (simp add: q less_eq_div_iff_mult_less_eq div_less_iff_less_mult flip: add_mult_distrib)
  finally show ?thesis .
qed

end
