(* ===== verification/RV_Arch.thy ===== *)
theory RV_Arch
  imports RV_Prelude
begin

text \<open>
  The architecture header \<^verbatim>\<open>include/arch/riscv.h\<close>: the address-space layout, the Sv39
  page-table-entry macros and the two register-save structures. The lemmas show the facts
  about these macros that the memory-management theories rely on: rounding, the PTE
  round trip, and that the three table indices identify a virtual page.
\<close>

subsection \<open>Constants\<close>

definition PGSIZE :: u64 where [rv_const]: "PGSIZE = 4096"

definition PTE_V :: u64 where [rv_const]: "PTE_V = 1"
definition PTE_R :: u64 where [rv_const]: "PTE_R = 2"
definition PTE_W :: u64 where [rv_const]: "PTE_W = 4"
definition PTE_X :: u64 where [rv_const]: "PTE_X = 8"
definition PTE_U :: u64 where [rv_const]: "PTE_U = 16"

definition MAXVA :: u64 where [rv_const]: "MAXVA = 0x4000000000"
definition TRAPFRAME :: u64 where [rv_const]: "TRAPFRAME = MAXVA - PGSIZE"
definition TRAPFRAME_GUARD :: u64 where [rv_const]: "TRAPFRAME_GUARD = TRAPFRAME - PGSIZE"
definition USTACK_TOP :: u64 where [rv_const]: "USTACK_TOP = TRAPFRAME_GUARD"
definition PHYSTOP :: u64 where [rv_const]: "PHYSTOP = 0x80000000 + 128 * 1024 * 1024"
definition USERBASE :: u64 where [rv_const]: "USERBASE = PHYSTOP"
definition PLIC :: u64 where [rv_const]: "PLIC = 0x0c000000"
definition SYSCON :: u64 where [rv_const]: "SYSCON = 0x100000"
definition CLINT :: u64 where [rv_const]: "CLINT = 0x2000000"

definition SSTATUS_SPP :: u64 where [rv_const]: "SSTATUS_SPP = 0x100"
definition SSTATUS_SPIE :: u64 where [rv_const]: "SSTATUS_SPIE = 0x20"
definition SSTATUS_SIE :: u64 where [rv_const]: "SSTATUS_SIE = 0x2"
definition SSTATUS_SUM :: u64 where [rv_const]: "SSTATUS_SUM = 0x40000"

subsection \<open>Paging macros\<close>

definition PGROUNDUP :: "u64 \<Rightarrow> u64" where
  "PGROUNDUP sz = (sz + PGSIZE - 1) AND NOT (PGSIZE - 1)"

definition PGROUNDDOWN :: "u64 \<Rightarrow> u64" where
  "PGROUNDDOWN a = a AND NOT (PGSIZE - 1)"

definition PA2PTE :: "u64 \<Rightarrow> u64" where
  "PA2PTE pa = push_bit 10 (drop_bit 12 pa)"

definition PTE2PA :: "u64 \<Rightarrow> u64" where
  "PTE2PA pte = push_bit 12 (drop_bit 10 pte)"

definition PTE_FLAGS :: "u64 \<Rightarrow> u64" where
  "PTE_FLAGS pte = pte AND 0x3FF"

definition PXSHIFT :: "nat \<Rightarrow> nat" where
  "PXSHIFT level = 12 + 9 * level"

definition PX :: "nat \<Rightarrow> u64 \<Rightarrow> u64" where
  "PX level va = drop_bit (PXSHIFT level) va AND 0x1FF"

subsection \<open>Register-save structures\<close>

record swtch_context =
  c_ra :: u64
  c_sp :: u64
  c_s0 :: u64
  c_s1 :: u64
  c_s2 :: u64
  c_s3 :: u64
  c_s4 :: u64
  c_s5 :: u64
  c_s6 :: u64
  c_s7 :: u64
  c_s8 :: u64
  c_s9 :: u64
  c_s10 :: u64
  c_s11 :: u64

subsection \<open>Pages\<close>

abbreviation page_aligned :: "u64 \<Rightarrow> bool" where
  "page_aligned a \<equiv> a mod PGSIZE = 0"

lemma pgmask: "(PGSIZE - 1 :: u64) = mask 12"
  by (simp add: rv_const mask_eq_exp_minus_1)

lemma PGROUNDDOWN_div: "PGROUNDDOWN a = a div 4096 * 4096"
  by (simp only: PGROUNDDOWN_def pgmask and_not_mask_div) simp

lemma unat_PGROUNDDOWN: "unat (PGROUNDDOWN a) = unat a div 4096 * 4096"
  by (simp add: PGROUNDDOWN_div unat_div_mult_same)

lemma page_aligned_unat: "page_aligned a \<longleftrightarrow> unat a mod 4096 = 0"
  by (simp add: PGSIZE_def unat_mod flip: unat_0_iff)

lemma page_aligned_iff_down: "page_aligned a \<longleftrightarrow> PGROUNDDOWN a = a"
proof -
  have "PGROUNDDOWN a = a \<longleftrightarrow> unat a div 4096 * 4096 = unat a"
    by (metis unat_PGROUNDDOWN word_unat_eq_iff)
  also have "\<dots> \<longleftrightarrow> unat a mod 4096 = 0"
    by (rule mod_0_iff_div_mult [symmetric])
  finally show ?thesis
    by (simp only: page_aligned_unat)
qed

lemma page_aligned_0 [simp]: "page_aligned 0"
  by (simp add: page_aligned_unat)

lemma page_aligned_PGROUNDDOWN [simp]: "page_aligned (PGROUNDDOWN a)"
  by (simp add: page_aligned_unat unat_PGROUNDDOWN)

lemma page_room: "page_aligned a \<Longrightarrow> unat a + 4096 \<le> 2 ^ 64"
proof -
  assume "page_aligned a"
  then have "unat a mod 4096 = 0" by (simp only: page_aligned_unat)
  moreover have "unat a < 2 ^ 64" using unsigned_less [of a] by simp
  ultimately show ?thesis using block_room [of "unat a" 4096 "2 ^ 64"] by simp
qed

lemma unat_in_page: "page_aligned a \<Longrightarrow> n < 4096 \<Longrightarrow> unat (a + of_nat n) = unat a + n"
proof -
  assume a: "page_aligned a" and n: "n < 4096"
  from n have "unat (of_nat n :: u64) = n"
    by (simp add: unat_of_nat_small)
  moreover from this page_room [OF a] n have "unat a + unat (of_nat n :: u64) < 2 ^ LENGTH(64)"
    by simp
  ultimately show ?thesis
    by (simp add: unat_add_lem [THEN iffD1])
qed

lemma PGROUNDDOWN_in_page: "page_aligned a \<Longrightarrow> n < 4096 \<Longrightarrow> PGROUNDDOWN (a + of_nat n) = a"
proof -
  assume a: "page_aligned a" and n: "n < 4096"
  from a have "unat a mod 4096 = 0" by (simp only: page_aligned_unat)
  then have "(unat a + n) div 4096 * 4096 = unat a" using n by (rule block_decomp)
  then have "unat (PGROUNDDOWN (a + of_nat n)) = unat a"
    by (simp only: unat_PGROUNDDOWN unat_in_page [OF a n])
  then show ?thesis
    by (simp only: word_unat_eq_iff)
qed

subsection \<open>Rounding up\<close>

lemma PGROUNDUP_down: "PGROUNDUP a = PGROUNDDOWN (a + 4095)"
  by (simp add: PGROUNDUP_def PGROUNDDOWN_def rv_const add.commute)

lemma page_aligned_PGROUNDUP [simp]: "page_aligned (PGROUNDUP a)"
  by (simp add: PGROUNDUP_down)

lemma unat_PGROUNDUP:
  assumes "unat a + 4095 < 2 ^ 64"
  shows "unat (PGROUNDUP a) = (unat a + 4095) div 4096 * 4096"
proof -
  have "unat (a + 4095) = unat a + 4095"
    using assms unat_add_lem [of a 4095] by simp
  then show ?thesis
    by (simp add: PGROUNDUP_down unat_PGROUNDDOWN)
qed

subsection \<open>Page-table entries\<close>

lemma PTE2PA_PA2PTE:
  assumes pa: "page_aligned pa" and fl: "flags < 1024"
  shows "PTE2PA (PA2PTE pa OR flags) = pa"
proof (rule bit_word_eqI)
  fix n assume n: "n < LENGTH(64)"
  have flags: "\<not> bit flags m" if "10 \<le> m" for m
  proof -
    have "take_bit 10 flags = flags"
      using fl by (intro take_bit_word_self) (simp add: word_less_nat_alt)
    then show ?thesis
      using that by (metis bit_take_bit_iff linorder_not_le)
  qed
  have low: "\<not> bit pa m" if "m < 12" for m
  proof -
    have "pa = PGROUNDDOWN pa" using pa page_aligned_iff_down by simp
    then have "pa = push_bit 12 (drop_bit 12 pa)"
      by (simp add: PGROUNDDOWN_def pgmask and_not_mask_eq)
    then show ?thesis
      using that by (metis bit_push_bit_iff linorder_not_le)
  qed
  show "bit (PTE2PA (PA2PTE pa OR flags)) n = bit pa n"
  proof (cases "n < 12")
    case True
    with low show ?thesis by (simp add: PTE2PA_def bit_simps)
  next
    case False
    then have "10 \<le> n - 2" "n - 2 < 64" using n by auto
    with False n flags show ?thesis by (simp add: PTE2PA_def PA2PTE_def bit_simps)
  qed
qed

lemma PTE_FLAGS_PA2PTE:
  assumes fl: "flags < 1024"
  shows "PTE_FLAGS (PA2PTE pa OR flags) = flags"
proof -
  have "PTE_FLAGS (PA2PTE pa OR flags) = take_bit 10 (PA2PTE pa OR flags)"
    by (simp add: PTE_FLAGS_def take_bit_eq_mask mask_eq_exp_minus_1)
  also have "\<dots> = take_bit 10 flags"
    by (rule bit_word_eqI) (auto simp: PA2PTE_def bit_simps)
  also have "\<dots> = flags"
    using fl by (intro take_bit_word_self) (simp add: word_less_nat_alt)
  finally show ?thesis .
qed

lemma page_aligned_PTE2PA [simp]: "page_aligned (PTE2PA e)"
proof -
  have "PGROUNDDOWN (PTE2PA e) = PTE2PA e"
    by (simp add: PGROUNDDOWN_def PTE2PA_def pgmask and_not_mask_eq)
       (rule bit_word_eqI, auto simp: bit_simps)
  then show ?thesis by (simp add: page_aligned_iff_down)
qed

lemma PX_bound: "unat (PX l va) < 512"
proof -
  have "PX l va = take_bit 9 (drop_bit (PXSHIFT l) va)"
    by (simp add: PX_def take_bit_eq_mask mask_eq_exp_minus_1)
  then have "unat (PX l va) = take_bit 9 (unat (drop_bit (PXSHIFT l) va))"
    by (simp add: unsigned_take_bit_eq)
  then show ?thesis
    by (simp add: take_bit_eq_mod)
qed

lemma bit_PX: "bit (PX l va) k \<longleftrightarrow> k < 9 \<and> bit va (PXSHIFT l + k)"
proof -
  have "PX l va = take_bit 9 (drop_bit (PXSHIFT l) va)"
    by (simp add: PX_def take_bit_eq_mask mask_eq_exp_minus_1)
  then show ?thesis by (simp add: bit_simps)
qed

lemma bit_PGROUNDDOWN: "bit (PGROUNDDOWN va) n \<longleftrightarrow> 12 \<le> n \<and> bit va n"
  unfolding PGROUNDDOWN_def pgmask and_not_mask_eq
  using bit_imp_le_length [of va n] by (auto simp: bit_simps)

lemma bit_beyond:
  fixes va :: u64
  assumes "unat va < 2 ^ b" and "b \<le> n"
  shows "\<not> bit va n"
  using take_bit_word_self [OF assms(1)] assms(2)
  by (metis bit_take_bit_iff linorder_not_le)

text \<open>The three 9-bit indices of an Sv39 address identify its page.\<close>

lemma PX_page_eq:
  assumes va: "unat va < 2 ^ 39" and vb: "unat vb < 2 ^ 39"
    and eq: "\<And>l. l < 3 \<Longrightarrow> PX l va = PX l vb"
  shows "PGROUNDDOWN va = PGROUNDDOWN vb"
proof (rule bit_word_eqI)
  fix n assume "n < LENGTH(64)"
  have idx: "bit va n = bit vb n" if "12 \<le> n" "n < 39"
  proof -
    define l where "l = (n - 12) div 9"
    define k where "k = (n - 12) mod 9"
    have l: "l < 3" and k: "k < 9" and n: "n = PXSHIFT l + k"
      using that by (auto simp: l_def k_def PXSHIFT_def)
    from eq [OF l] have "bit (PX l va) k = bit (PX l vb) k" by simp
    then show ?thesis using k n by (simp add: bit_PX)
  qed
  show "bit (PGROUNDDOWN va) n = bit (PGROUNDDOWN vb) n"
    using idx bit_beyond [OF va, of n] bit_beyond [OF vb, of n]
    by (cases "n < 39") (auto simp: bit_PGROUNDDOWN not_le)
qed

lemma PX_PGROUNDDOWN [simp]: "PX l (PGROUNDDOWN va) = PX l va"
  by (rule bit_word_eqI) (auto simp: bit_PX bit_PGROUNDDOWN PXSHIFT_def)

end
