(* ===== verification/RV_Kalloc.thy ===== *)
theory RV_Kalloc
  imports RV_Arch
begin

text \<open>
  The physical page allocator \<^verbatim>\<open>kernelspace/mm/kalloc.c\<close>: a bitmap over the RAM pages between
  the end of the kernel image and \<^verbatim>\<open>PHYSTOP\<close>. The state is the record \<open>phys\<close>: memory and
  the fields of \<^verbatim>\<open>kmem\<close>. The bitmap's bytes live in the first managed page; they are kept as
  the list \<open>km_bitmap\<close>, and \<open>phys_wf\<close> says that this page is marked used, so it is never
  handed out. \<^verbatim>\<open>kmem.lock\<close> is held for the whole body of \<^verbatim>\<open>kfree\<close> and of the scan of
  \<^verbatim>\<open>kalloc\<close>, so each is one atomic step of the model; \<open>RV_Locks\<close> models the lock itself.

  The interface \<open>page_allocator\<close> states what the clients of the allocator rely on; it is
  interpreted on \<open>kalloc\<close> and \<open>kfree\<close>.
\<close>

subsection \<open>State\<close>

record phys =
  mem :: mem
  km_start :: u64
  km_npage :: int
  km_bitmap :: "u8 list"

text \<open>\<open>memset(pa, v, PGSIZE)\<close> with the byte \<open>v\<close> repeated in a 64-bit word.\<close>

definition fill_page :: "mem \<Rightarrow> u64 \<Rightarrow> u64 \<Rightarrow> mem" where
  "fill_page m pa v = (\<lambda>a. if PGROUNDDOWN a = pa then v else m a)"

definition page_used :: "u8 list \<Rightarrow> nat \<Rightarrow> bool" where
  "page_used bm i \<longleftrightarrow> (bm ! (i div 8)) AND push_bit (i mod 8) 1 \<noteq> 0"

definition page_addr :: "'a phys_scheme \<Rightarrow> nat \<Rightarrow> u64" where
  "page_addr s i = km_start s + of_nat i * PGSIZE"

subsection \<open>Operations\<close>

definition kfree :: "u64 \<Rightarrow> 'a phys_scheme \<Rightarrow> 'a phys_scheme" where
  "kfree pa s =
     (if pa mod PGSIZE \<noteq> 0 \<or> pa < km_start s \<or> PHYSTOP \<le> pa then s
      else
        let pageno = unat ((pa - km_start s) div PGSIZE);
            byte_idx = pageno div 8;
            bit_idx = pageno mod 8;
            bm = km_bitmap s
        in s\<lparr>km_bitmap := bm[byte_idx := bm ! byte_idx AND NOT (push_bit bit_idx 1)]\<rparr>)"

function kalloc_scan :: "u8 list \<Rightarrow> int \<Rightarrow> nat \<Rightarrow> nat option" where
  "kalloc_scan bm npage i =
     (if int i < npage then
        if \<not> page_used bm i then Some i else kalloc_scan bm npage (Suc i)
      else None)"
  by pat_completeness auto
termination
  by (relation "measure (\<lambda>(bm, n, i). nat n - i)") auto

declare kalloc_scan.simps [simp del]

definition kalloc :: "'a phys_scheme \<Rightarrow> u64 \<times> 'a phys_scheme" where
  "kalloc s =
     (case kalloc_scan (km_bitmap s) (km_npage s) 0 of
        None \<Rightarrow> (0, s)
      | Some i \<Rightarrow>
          let byte_idx = i div 8;
              bit_idx = i mod 8;
              bm = km_bitmap s;
              pa = page_addr s i
          in (pa, s\<lparr>km_bitmap := bm[byte_idx := bm ! byte_idx OR push_bit bit_idx 1],
                   mem := fill_page (mem s) pa 0x0505050505050505\<rparr>))"

function kinit_free :: "u64 \<Rightarrow> 'a phys_scheme \<Rightarrow> 'a phys_scheme" where
  "kinit_free p s = (if p + PGSIZE \<le> PHYSTOP then kinit_free (p + PGSIZE) (kfree p s) else s)"
  by pat_completeness auto
termination
proof (relation "measure (\<lambda>(p, s). if p + PGSIZE \<le> PHYSTOP then unat (PHYSTOP - (p + PGSIZE)) + 1 else 0)")
  fix p :: u64 and s :: "'a phys_scheme"
  assume "p + PGSIZE \<le> PHYSTOP"
  then have q: "unat (p + PGSIZE) \<le> 0x88000000" by (simp add: word_le_nat_alt rv_const)
  then have "unat (p + PGSIZE + PGSIZE) = unat (p + PGSIZE) + 4096"
    using unat_add_lem [of "p + PGSIZE" PGSIZE] by (simp add: PGSIZE_def)
  then have "unat (PHYSTOP - (p + PGSIZE + PGSIZE)) < unat (PHYSTOP - (p + PGSIZE))"
    if "p + PGSIZE + PGSIZE \<le> PHYSTOP"
    using that \<open>p + PGSIZE \<le> PHYSTOP\<close> by (simp add: unat_sub word_le_nat_alt)
  with \<open>p + PGSIZE \<le> PHYSTOP\<close> show "((p + PGSIZE, kfree p s), p, s)
      \<in> measure (\<lambda>(p, s). if p + PGSIZE \<le> PHYSTOP then unat (PHYSTOP - (p + PGSIZE)) + 1 else 0)"
    by simp
qed simp

declare kinit_free.simps [simp del]

text \<open>Start address, page count, and \<^verbatim>\<open>memset(kmem.bitmap, 0xff, PGSIZE)\<close>.\<close>

definition kinit_reserve :: "u64 \<Rightarrow> 'a phys_scheme \<Rightarrow> 'a phys_scheme" where
  "kinit_reserve kend s =
     (let start = PGROUNDUP kend
      in s\<lparr>km_start := start,
           km_npage := sint (ucast ((PHYSTOP - start) div PGSIZE) :: u32),
           km_bitmap := replicate 4096 0xff\<rparr>)"

definition kinit :: "u64 \<Rightarrow> 'a phys_scheme \<Rightarrow> 'a phys_scheme" where
  "kinit kend s = (let t = kinit_reserve kend s in kinit_free (km_start t + PGSIZE) t)"

subsection \<open>Well-formedness and abstraction\<close>

definition phys_wf :: "'a phys_scheme \<Rightarrow> bool" where
  "phys_wf s \<longleftrightarrow>
     page_aligned (km_start s) \<and> 0 < km_start s \<and> 1 \<le> km_npage s \<and>
     unat (km_start s) + nat (km_npage s) * 4096 = unat PHYSTOP \<and>
     nat (km_npage s) \<le> 8 * length (km_bitmap s) \<and>
     page_used (km_bitmap s) 0"

definition free_pages :: "'a phys_scheme \<Rightarrow> u64 set" where
  "free_pages s = page_addr s ` {i. int i < km_npage s \<and> \<not> page_used (km_bitmap s) i}"

text \<open>The pages the allocator may hand out: all managed pages but the bitmap's own.\<close>

definition pool_pages :: "'a phys_scheme \<Rightarrow> u64 set" where
  "pool_pages s = page_addr s ` {i. 0 < i \<and> int i < km_npage s}"

subsection \<open>The bitmap\<close>

lemma page_used_bit: "page_used bm i \<longleftrightarrow> bit (bm ! (i div 8)) (i mod 8)"
  by (simp add: page_used_def)

lemma page_used_set:
  assumes "i < 8 * length bm"
  shows "page_used (bm[i div 8 := bm ! (i div 8) OR push_bit (i mod 8) 1]) j \<longleftrightarrow> page_used bm j \<or> j = i"
proof (cases "j div 8 = i div 8")
  case True
  moreover have "i div 8 < length bm" using assms by simp
  moreover have "j = i \<longleftrightarrow> j mod 8 = i mod 8" using True by (metis div_mult_mod_eq)
  ultimately show ?thesis
    by (auto simp: page_used_bit bit_or_exp)
next
  case False
  then have "j \<noteq> i" by auto
  with False show ?thesis by (simp add: page_used_bit)
qed

lemma page_used_clear:
  assumes "i < 8 * length bm"
  shows "page_used (bm[i div 8 := bm ! (i div 8) AND NOT (push_bit (i mod 8) 1)]) j \<longleftrightarrow> page_used bm j \<and> j \<noteq> i"
proof (cases "j div 8 = i div 8")
  case True
  moreover have "i div 8 < length bm" using assms by simp
  moreover have "j = i \<longleftrightarrow> j mod 8 = i mod 8" using True by (metis div_mult_mod_eq)
  ultimately show ?thesis
    by (auto simp: page_used_bit bit_andnot_exp)
next
  case False
  then have "j \<noteq> i" by auto
  with False show ?thesis by (simp add: page_used_bit)
qed

lemma kalloc_scan_Some:
  "kalloc_scan bm n i = Some k \<Longrightarrow>
     i \<le> k \<and> int k < n \<and> \<not> page_used bm k \<and> (\<forall>j. i \<le> j \<and> j < k \<longrightarrow> page_used bm j)"
proof (induction bm n i rule: kalloc_scan.induct)
  case (1 bm n i)
  show ?case
  proof (cases "int i < n \<and> page_used bm i")
    case True
    with "1.prems" have "kalloc_scan bm n (Suc i) = Some k"
      by (simp add: kalloc_scan.simps [of bm n i])
    with "1.IH" True show ?thesis
      by (metis Suc_leD Suc_leI le_neq_implies_less)
  next
    case False
    with "1.prems" show ?thesis
      by (auto simp: kalloc_scan.simps [of bm n i] split: if_splits)
  qed
qed

lemma kalloc_scan_None:
  "kalloc_scan bm n i = None \<Longrightarrow> i \<le> j \<Longrightarrow> int j < n \<Longrightarrow> page_used bm j"
proof (induction bm n i rule: kalloc_scan.induct)
  case (1 bm n i)
  then show ?case
    by (cases "j = i") (auto simp: kalloc_scan.simps [of bm n i] split: if_splits)
qed

subsection \<open>Page addresses\<close>

lemma phys_wf_start: "phys_wf s \<Longrightarrow> page_aligned (km_start s)"
  by (simp add: phys_wf_def)

lemma page_bound:
  assumes "phys_wf s" and "int i < km_npage s"
  shows "i < nat (km_npage s)" and "i < 8 * length (km_bitmap s)"
    and "unat (km_start s) + i * 4096 + 4096 \<le> unat PHYSTOP"
proof -
  show i: "i < nat (km_npage s)" using assms by (simp add: zless_nat_eq_int_zless)
  with assms(1) show "i < 8 * length (km_bitmap s)" by (simp add: phys_wf_def)
  from i have "Suc i * 4096 \<le> nat (km_npage s) * 4096" by (intro mult_le_mono1) simp
  with assms(1) show "unat (km_start s) + i * 4096 + 4096 \<le> unat PHYSTOP"
    unfolding phys_wf_def by simp
qed

lemma unat_page_addr:
  assumes "phys_wf s" and "int i < km_npage s"
  shows "unat (page_addr s i) = unat (km_start s) + i * 4096"
proof -
  have b: "unat (km_start s) + i * 4096 < 2 ^ 64"
    using page_bound(3) [OF assms] by (simp add: rv_const)
  have "i * 4096 < 2 ^ 64" using b by simp
  then have "unat (of_nat (i * 4096) :: u64) = i * 4096"
    by (intro unat_of_nat_small) simp
  then have "unat (of_nat i * PGSIZE) = i * 4096"
    by (simp add: PGSIZE_def)
  with b show ?thesis
    unfolding page_addr_def by (simp add: unat_add_lem [THEN iffD1])
qed

lemma page_addr_inj:
  "phys_wf s \<Longrightarrow> int i < km_npage s \<Longrightarrow> int j < km_npage s \<Longrightarrow> page_addr s i = page_addr s j \<longleftrightarrow> i = j"
  by (auto dest: arg_cong [where f = unat] simp: unat_page_addr)

lemma page_addr_inj_on: "phys_wf s \<Longrightarrow> inj_on (page_addr s) {i. int i < km_npage s}"
  by (auto simp: inj_on_def page_addr_inj)

lemma page_addr_props:
  assumes "phys_wf s" and "int i < km_npage s"
  shows "page_aligned (page_addr s i)" and "page_addr s i \<noteq> 0"
    and "km_start s \<le> page_addr s i" and "page_addr s i < PHYSTOP"
    and "(page_addr s i - km_start s) div PGSIZE = of_nat i"
proof -
  note u = unat_page_addr [OF assms]
  have "unat (km_start s) mod 4096 = 0"
    using assms(1) by (simp only: phys_wf_def page_aligned_unat)
  then show "page_aligned (page_addr s i)"
    by (simp only: page_aligned_unat u) simp
  have "0 < unat (km_start s)"
    using assms(1) by (simp add: phys_wf_def word_less_nat_alt)
  with u show "page_addr s i \<noteq> 0"
    by (metis add_gr_0 unat_0 less_irrefl)
  show "km_start s \<le> page_addr s i"
    by (simp add: word_le_nat_alt u)
  show "page_addr s i < PHYSTOP"
    using page_bound(3) [OF assms] by (simp add: word_less_nat_alt u)
  have "i * 4096 < 2 ^ 64"
    using page_bound(3) [OF assms] by (simp add: rv_const)
  then have "unat (of_nat (i * 4096) :: u64) = i * 4096"
    by (intro unat_of_nat_small) simp
  then have "unat (of_nat i * PGSIZE :: u64) = i * 4096"
    by (simp add: PGSIZE_def)
  then have "(of_nat i * PGSIZE :: u64) div PGSIZE = of_nat (i * 4096 div unat PGSIZE)"
    by (simp only: word_arith_nat_div)
  then show "(page_addr s i - km_start s) div PGSIZE = of_nat i"
    by (simp add: page_addr_def PGSIZE_def)
qed

text \<open>Every page-aligned address between the start and \<^verbatim>\<open>PHYSTOP\<close> is a page of the bitmap.\<close>

lemma page_addr_surj:
  assumes wf: "phys_wf s" and al: "page_aligned pa"
    and lo: "km_start s \<le> pa" and hi: "pa < PHYSTOP"
  obtains i where "int i < km_npage s" and "pa = page_addr s i"
proof -
  define i where "i = (unat pa - unat (km_start s)) div 4096"
  have st: "unat (km_start s) mod 4096 = 0" using wf by (simp only: phys_wf_def page_aligned_unat)
  have "unat pa mod 4096 = 0" using al by (simp only: page_aligned_unat)
  then have "(unat pa - unat (km_start s)) mod 4096 = 0"
    using st by (simp add: mod_eq_0_iff_dvd dvd_diff_nat)
  then have d: "unat pa = unat (km_start s) + i * 4096"
    using lo by (simp add: i_def mod_0_iff_div_mult word_le_nat_alt)
  have "unat (km_start s) + i * 4096 < unat (km_start s) + nat (km_npage s) * 4096"
    using hi wf d by (simp add: phys_wf_def word_less_nat_alt)
  then have i: "int i < km_npage s" by linarith
  have "pa = page_addr s i"
    using d unat_page_addr [OF wf i] by (simp only: word_unat_eq_iff)
  with i show thesis by (rule that)
qed

subsection \<open>Operations on the abstraction\<close>

lemma kfree_page:
  assumes "phys_wf s" and "int i < km_npage s"
  shows "kfree (page_addr s i) s =
    s\<lparr>km_bitmap := (km_bitmap s)[i div 8 := km_bitmap s ! (i div 8) AND NOT (push_bit (i mod 8) 1)]\<rparr>"
proof -
  note p = page_addr_props [OF assms]
  have "i < 2 ^ 64"
    using page_bound(3) [OF assms] by (simp add: rv_const)
  then have "unat ((page_addr s i - km_start s) div PGSIZE) = i"
    by (simp only: p(5)) (simp add: unat_of_nat_small)
  then show ?thesis
    using p(1,3,4) by (simp add: kfree_def Let_def not_less)
qed

lemma kfree_outside:
  "\<not> page_aligned pa \<or> pa < km_start s \<or> PHYSTOP \<le> pa \<Longrightarrow> kfree pa s = s"
  by (auto simp: kfree_def)

lemma kfree_fields [simp]:
  "mem (kfree pa s) = mem s" "km_start (kfree pa s) = km_start s" "km_npage (kfree pa s) = km_npage s"
  "length (km_bitmap (kfree pa s)) = length (km_bitmap s)" "page_addr (kfree pa s) = page_addr s"
  by (simp_all add: kfree_def Let_def page_addr_def fun_eq_iff)

lemma kalloc_cases:
  assumes "phys_wf s"
  obtains (none) "kalloc s = (0, s)" "\<And>i. int i < km_npage s \<Longrightarrow> page_used (km_bitmap s) i"
  | (page) i where "int i < km_npage s" "0 < i" "\<not> page_used (km_bitmap s) i"
      "\<And>j. j < i \<Longrightarrow> page_used (km_bitmap s) j"
      "kalloc s = (page_addr s i,
         s\<lparr>km_bitmap := (km_bitmap s)[i div 8 := km_bitmap s ! (i div 8) OR push_bit (i mod 8) 1],
           mem := fill_page (mem s) (page_addr s i) 0x0505050505050505\<rparr>)"
proof (cases "kalloc_scan (km_bitmap s) (km_npage s) 0")
  case None
  then show thesis
    using kalloc_scan_None [OF None] by (intro none) (simp_all add: kalloc_def)
next
  case (Some i)
  note k = kalloc_scan_Some [OF Some]
  have "i \<noteq> 0" using assms k unfolding phys_wf_def by metis
  with k Some show thesis
    by (intro page [of i]) (simp_all add: kalloc_def Let_def)
qed

lemma free_pages_index:
  "phys_wf s \<Longrightarrow> int i < km_npage s \<Longrightarrow> page_addr s i \<in> free_pages s \<longleftrightarrow> \<not> page_used (km_bitmap s) i"
  by (auto simp: free_pages_def page_addr_inj)

lemma kalloc_none:
  assumes "phys_wf s" and "kalloc s = (0, s')"
  shows "s' = s" and "free_pages s = {}"
  using assms(2)
  by (cases rule: kalloc_cases [OF assms(1)];
      auto simp: free_pages_def dest: page_addr_props(2) [OF assms(1)])+

lemma kalloc_page:
  assumes wf: "phys_wf s" and k: "kalloc s = (pa, s')" and nz: "pa \<noteq> 0"
  shows "pa \<in> free_pages s" and "free_pages s' = free_pages s - {pa}" and "phys_wf s'"
    and "mem s' = fill_page (mem s) pa 0x0505050505050505"
    and "km_start s' = km_start s" and "km_npage s' = km_npage s"
    and "\<forall>p \<in> free_pages s. pa \<le> p"
proof -
  from k nz obtain i where i: "int i < km_npage s" "0 < i" "\<not> page_used (km_bitmap s) i"
    and least: "\<And>j. j < i \<Longrightarrow> page_used (km_bitmap s) j"
    and pa: "pa = page_addr s i"
    and s': "s' = s\<lparr>km_bitmap := (km_bitmap s)[i div 8 := km_bitmap s ! (i div 8) OR push_bit (i mod 8) 1],
           mem := fill_page (mem s) (page_addr s i) 0x0505050505050505\<rparr>"
    by (cases rule: kalloc_cases [OF wf]) auto
  note used = page_used_set [OF page_bound(2) [OF wf i(1)]]
  have addr: "page_addr s' = page_addr s"
    by (simp add: s' page_addr_def fun_eq_iff)
  show "pa \<in> free_pages s" using i pa by (auto simp: free_pages_def)
  show "km_start s' = km_start s" and "km_npage s' = km_npage s"
    and "mem s' = fill_page (mem s) pa 0x0505050505050505"
    by (simp_all add: s' pa)
  show "phys_wf s'"
    using wf i used [of 0] by (simp add: phys_wf_def s')
  show "free_pages s' = free_pages s - {pa}"
  proof -
    have "page_used (km_bitmap s') j \<longleftrightarrow> page_used (km_bitmap s) j \<or> j = i" for j
      using used by (simp add: s')
    then have "{j. int j < km_npage s' \<and> \<not> page_used (km_bitmap s') j} =
        {j. int j < km_npage s \<and> \<not> page_used (km_bitmap s) j} - {i}"
      by (auto simp: s')
    then show ?thesis
      using i(1) inj_on_image_set_diff [OF page_addr_inj_on [OF wf],
          of "{j. int j < km_npage s \<and> \<not> page_used (km_bitmap s) j}" "{i}"]
      by (auto simp: free_pages_def addr pa)
  qed
  show "\<forall>p \<in> free_pages s. pa \<le> p"
  proof
    fix p assume "p \<in> free_pages s"
    then obtain j where j: "int j < km_npage s" "\<not> page_used (km_bitmap s) j" "p = page_addr s j"
      by (auto simp: free_pages_def)
    with least have "i \<le> j" by (meson linorder_not_le)
    with i(1) j show "pa \<le> p"
      by (simp add: pa word_le_nat_alt unat_page_addr [OF wf])
  qed
qed

lemma kfree_pool:
  assumes wf: "phys_wf s" and p: "pa \<in> pool_pages s"
  shows "phys_wf (kfree pa s)" and "free_pages (kfree pa s) = insert pa (free_pages s)"
proof -
  from p obtain i where i: "0 < i" "int i < km_npage s" "pa = page_addr s i"
    by (auto simp: pool_pages_def)
  note used = page_used_clear [OF page_bound(2) [OF wf i(2)]]
  show "phys_wf (kfree pa s)"
    using wf i used [of 0] by (simp add: phys_wf_def kfree_page)
  show "free_pages (kfree pa s) = insert pa (free_pages s)"
  proof -
    have "page_used (km_bitmap (kfree pa s)) j \<longleftrightarrow> page_used (km_bitmap s) j \<and> j \<noteq> i" for j
      using used by (simp add: i(3) kfree_page [OF wf i(2)])
    then have "{j. int j < km_npage s \<and> \<not> page_used (km_bitmap (kfree pa s)) j} =
        insert i {j. int j < km_npage s \<and> \<not> page_used (km_bitmap s) j}"
      using i(2) by auto
    then show ?thesis
      by (simp add: free_pages_def i(3))
  qed
qed

lemma free_pages_pool: "phys_wf s \<Longrightarrow> free_pages s \<subseteq> pool_pages s"
  unfolding free_pages_def pool_pages_def phys_wf_def
  by (rule image_mono) (auto intro: Nat.gr0I)

lemma kalloc_pool [simp]: "pool_pages (snd (kalloc s)) = pool_pages s"
  by (auto simp: kalloc_def pool_pages_def page_addr_def Let_def split: option.splits)

lemma kfree_pool_pages [simp]: "pool_pages (kfree pa s) = pool_pages s"
  by (simp add: pool_pages_def)

subsection \<open>Initialisation\<close>

lemma unat_page_addr_le:
  assumes "phys_wf s" and "int i \<le> km_npage s"
  shows "unat (page_addr s i) = unat (km_start s) + i * 4096"
proof -
  from assms(2) have "i \<le> nat (km_npage s)" by linarith
  then have "i * 4096 \<le> nat (km_npage s) * 4096" by (rule mult_le_mono1)
  then have b: "unat (km_start s) + i * 4096 \<le> unat PHYSTOP"
    using assms(1) by (simp add: phys_wf_def)
  then have "unat (of_nat (i * 4096) :: u64) = i * 4096"
    by (intro unat_of_nat_small) (simp add: rv_const)
  then have m: "unat (of_nat i * PGSIZE) = i * 4096"
    by (simp add: PGSIZE_def)
  have "unat (km_start s) + i * 4096 < 2 ^ 64"
    using b by (simp add: rv_const)
  with m show ?thesis
    unfolding page_addr_def by (simp add: unat_add_lem [THEN iffD1])
qed

lemma page_addr_Suc: "page_addr s i + PGSIZE = page_addr s (Suc i)"
  by (simp add: page_addr_def algebra_simps)

lemma kinit_guard:
  assumes wf: "phys_wf s" and k: "int k \<le> km_npage s"
  shows "page_addr s k + PGSIZE \<le> PHYSTOP \<longleftrightarrow> int k < km_npage s"
proof -
  have top: "unat PHYSTOP = unat (km_start s) + nat (km_npage s) * 4096"
    using wf by (simp add: phys_wf_def)
  have "unat (page_addr s k) + 4096 < 2 ^ 64"
    using unat_page_addr_le [OF wf k] top k by (simp add: rv_const)
  then have "unat (page_addr s k + PGSIZE) = unat (km_start s) + k * 4096 + 4096"
    using unat_page_addr_le [OF wf k] unat_add_lem [of "page_addr s k" PGSIZE]
    by (simp add: PGSIZE_def)
  then have "page_addr s k + PGSIZE \<le> PHYSTOP \<longleftrightarrow> k * 4096 + 4096 \<le> nat (km_npage s) * 4096"
    using top by (simp add: word_le_nat_alt)
  also have "\<dots> \<longleftrightarrow> int k < km_npage s" by linarith
  finally show ?thesis .
qed

lemma kinit_free_pages:
  assumes "phys_wf s" and "0 < k" and "int k \<le> km_npage s"
    and "free_pages s = page_addr s ` {i. 0 < i \<and> i < k}"
  shows "phys_wf (kinit_free (page_addr s k) s) \<and>
    free_pages (kinit_free (page_addr s k) s) = pool_pages (kinit_free (page_addr s k) s) \<and>
    km_start (kinit_free (page_addr s k) s) = km_start s \<and> km_npage (kinit_free (page_addr s k) s) = km_npage s"
  using assms
proof (induction "nat (km_npage s) - k" arbitrary: k s)
  case 0
  then have k: "int k = km_npage s" by linarith
  then have stop: "kinit_free (page_addr s k) s = s"
    using kinit_guard [OF 0(2), of k] by (simp add: kinit_free.simps [of "page_addr s k" s])
  have "{i. 0 < i \<and> i < k} = {i. 0 < i \<and> int i < km_npage s}"
    by (simp add: k [symmetric])
  then show ?case
    using stop 0 by (simp add: pool_pages_def)
next
  case (Suc n)
  let ?t = "kfree (page_addr s k) s"
  have lt: "int k < km_npage s" using Suc(2) by linarith
  have pool: "page_addr s k \<in> pool_pages s"
    using Suc(4) lt by (auto simp: pool_pages_def)
  have step: "kinit_free (page_addr s k) s = kinit_free (page_addr ?t (Suc k)) ?t"
    using kinit_guard [OF Suc(3), of k] lt
    by (simp add: kinit_free.simps [of "page_addr s k" s] page_addr_Suc)
  have "{i. 0 < i \<and> i < Suc k} = insert k {i. 0 < i \<and> i < k}"
    using Suc(4) by auto
  then have fp: "free_pages ?t = page_addr ?t ` {i. 0 < i \<and> i < Suc k}"
    by (simp add: kfree_pool(2) [OF Suc(3) pool] Suc(6))
  have n: "n = nat (km_npage ?t) - Suc k" and le: "int (Suc k) \<le> km_npage ?t"
    using Suc(2) lt by simp_all
  show ?case
    using Suc(1) [OF n kfree_pool(1) [OF Suc(3) pool] _ le fp] by (simp add: step)
qed

lemma kinit_init_wf:
  assumes lo: "0x80000000 \<le> kend" and hi: "unat kend + 8192 \<le> unat PHYSTOP"
  shows "phys_wf (kinit_reserve kend s)" and "free_pages (kinit_reserve kend s) = {}"
proof -
  define start where "start = PGROUNDUP kend"
  have t: "kinit_reserve kend s = s\<lparr>km_start := start,
      km_npage := sint (ucast ((PHYSTOP - start) div PGSIZE) :: u32), km_bitmap := replicate 4096 0xff\<rparr>"
    by (simp add: kinit_reserve_def start_def Let_def)
  have lo': "0x80000000 \<le> unat kend" using lo by (simp add: word_le_nat_alt)
  have hi': "unat kend + 8192 \<le> 0x88000000" using hi by (simp add: rv_const)
  have st: "unat start = (unat kend + 4095) div 4096 * 4096"
    unfolding start_def using hi' by (intro unat_PGROUNDUP) simp
  then have st_lo: "0x80000000 \<le> unat start" and st_hi: "unat start + 4096 \<le> 0x88000000"
    using lo' hi' by linarith+
  have al: "unat start mod 4096 = 0" by (simp add: st)
  let ?n = "(0x88000000 - unat start) div 4096"
  have "unat (PHYSTOP - start) = 0x88000000 - unat start"
    using st_hi unat_sub [of start PHYSTOP] by (simp add: rv_const word_le_nat_alt)
  then have un: "unat ((PHYSTOP - start) div PGSIZE) = ?n"
    by (simp add: unat_div PGSIZE_def)
  have n_lo: "1 \<le> ?n" using st_hi by linarith
  have n_hi: "?n \<le> 32768" using st_lo by linarith
  have np: "sint (ucast ((PHYSTOP - start) div PGSIZE) :: u32) = int ?n"
  proof -
    let ?w = "(PHYSTOP - start) div PGSIZE"
    have "unat (ucast ?w :: u32) = unat ?w"
      using un n_hi by (simp add: unsigned_ucast_eq take_bit_nat_eq_self)
    then have "uint (ucast ?w :: u32) = int ?n"
      using un by (simp only: uint_nat)
    moreover have "int ?n < 2 ^ 31"
      by (rule le_less_trans [OF n_hi [THEN of_nat_mono]]) simp
    ultimately show ?thesis
      by (simp add: sint_uint signed_take_bit_int_eq_self)
  qed
  have "?n * 4096 = 0x88000000 - unat start"
    using al by (simp add: mod_0_iff_div_mult [symmetric] mod_eq_0_iff_dvd)
  then have total: "unat start + ?n * 4096 = 0x88000000" using st_hi by linarith
  have all_used: "page_used (replicate 4096 0xff) i" if "i < 32768" for i
  proof -
    have "i mod 8 \<in> {0,1,2,3,4,5,6,7}" by auto
    then have "bit (0xff :: u8) (i mod 8)" by auto
    then show ?thesis using that by (simp add: page_used_bit)
  qed
  have "0 < start" using st_lo by (simp add: word_less_nat_alt)
  then show "phys_wf (kinit_reserve kend s)"
    using al n_lo n_hi total all_used [of 0]
    by (simp add: phys_wf_def t np page_aligned_unat) (simp add: rv_const)
  show "free_pages (kinit_reserve kend s) = {}"
    using all_used n_hi by (auto simp: free_pages_def t np)
qed

subsection \<open>The interface of the allocator\<close>

text \<open>
  What the slab allocator, the page tables and the process code rely on. \<open>avail\<close> is the
  set of pages that an allocation may return and \<open>pool\<close> the pages that may be given back.
\<close>

locale page_allocator =
  fixes alloc :: "'s \<Rightarrow> u64 \<times> 's"
    and dealloc :: "u64 \<Rightarrow> 's \<Rightarrow> 's"
    and avail :: "'s \<Rightarrow> u64 set"
    and pool :: "'s \<Rightarrow> u64 set"
    and inv :: "'s \<Rightarrow> bool"
  assumes alloc_page: "inv s \<Longrightarrow> alloc s = (p, s') \<Longrightarrow> p \<noteq> 0 \<Longrightarrow>
        p \<in> avail s \<and> avail s' = avail s - {p} \<and> pool s' = pool s \<and> inv s'"
    and alloc_null: "inv s \<Longrightarrow> alloc s = (0, s') \<Longrightarrow> avail s = {} \<and> s' = s"
    and dealloc_page: "inv s \<Longrightarrow> p \<in> pool s \<Longrightarrow>
        avail (dealloc p s) = insert p (avail s) \<and> pool (dealloc p s) = pool s \<and> inv (dealloc p s)"
    and avail_pool: "inv s \<Longrightarrow> avail s \<subseteq> pool s"
    and pool_page: "inv s \<Longrightarrow> p \<in> pool s \<Longrightarrow> page_aligned p \<and> p \<noteq> 0"
    and pool_finite: "inv s \<Longrightarrow> finite (pool s)"
begin

lemma alloc_succeeds: "inv s \<Longrightarrow> avail s \<noteq> {} \<Longrightarrow> fst (alloc s) \<in> avail s \<and> fst (alloc s) \<noteq> 0"
  using alloc_page [of s] alloc_null [of s] by (metis prod.collapse)

lemma alloc_dealloc: "inv s \<Longrightarrow> alloc s = (p, s') \<Longrightarrow> p \<noteq> 0 \<Longrightarrow> avail (dealloc p s') = avail s"
  using alloc_page [of s p s'] dealloc_page [of s' p] avail_pool [of s] by auto

lemma alloc_twice:
  assumes "inv s" "alloc s = (p, s1)" "p \<noteq> 0" "alloc s1 = (q, s2)" "q \<noteq> 0"
  shows "p \<noteq> q"
  using alloc_page [OF assms(1,2,3)] alloc_page [OF _ assms(4,5)] by auto

text \<open>Allocating \<open>n\<close> times in a row, as the loaders of the process code do.\<close>

primrec alloc_n :: "nat \<Rightarrow> 's \<Rightarrow> u64 list \<times> 's" where
  "alloc_n 0 s = ([], s)"
| "alloc_n (Suc n) s =
     (let (p, s1) = alloc s in
      if p = 0 then ([], s1) else let (ps, s2) = alloc_n n s1 in (p # ps, s2))"

lemma alloc_n_spec:
  "inv s \<Longrightarrow> alloc_n n s = (ps, s') \<Longrightarrow>
     distinct ps \<and> set ps \<subseteq> avail s \<and> avail s' = avail s - set ps \<and> inv s' \<and>
     length ps = min n (card (avail s))"
proof (induction n arbitrary: s ps)
  case 0
  then show ?case by simp
next
  case (Suc n)
  obtain p s1 where a: "alloc s = (p, s1)" by fastforce
  show ?case
  proof (cases "p = 0")
    case True
    with Suc.prems a alloc_null [of s s1] show ?thesis by simp
  next
    case False
    obtain qs where qs: "alloc_n n s1 = (qs, s')" and ps: "ps = p # qs"
      using Suc.prems(2) a False by (auto split: prod.splits)
    have p: "p \<in> avail s" "avail s1 = avail s - {p}" "inv s1"
      using alloc_page [OF Suc.prems(1) a False] by auto
    have fin: "finite (avail s)"
      using Suc.prems(1) avail_pool pool_finite finite_subset by blast
    have card: "card (avail s) = Suc (card (avail s1))"
      using p(1,2) fin by (metis card_Suc_Diff1)
    from Suc.IH [OF p(3) qs] have IH: "distinct qs" "set qs \<subseteq> avail s - {p}"
      "avail s' = avail s - {p} - set qs" "inv s'" "length qs = min n (card (avail s1))"
      by (simp_all add: p(2))
    have "avail s' = avail s - set ps" using IH(3) by (auto simp: ps)
    moreover have "distinct ps \<and> set ps \<subseteq> avail s" using IH(1,2) p(1) by (auto simp: ps)
    ultimately show ?thesis using IH(4,5) by (simp add: ps card)
  qed
qed

end

lemma finite_pool: "phys_wf s \<Longrightarrow> finite (pool_pages s)"
proof -
  have "{i. 0 < i \<and> int i < km_npage s} \<subseteq> {..< nat (km_npage s)}" by auto
  then have "finite {i. 0 < i \<and> int i < km_npage s}" by (rule finite_subset) simp
  then show ?thesis by (simp add: pool_pages_def)
qed

lemma pool_pageD: "phys_wf s \<Longrightarrow> p \<in> pool_pages s \<Longrightarrow> page_aligned p \<and> p \<noteq> 0"
  by (auto simp: pool_pages_def dest: page_addr_props(1,2))

interpretation pa: page_allocator kalloc kfree free_pages pool_pages phys_wf
proof unfold_locales
  fix s s' :: "'a phys_scheme" and p
  assume "phys_wf s" "kalloc s = (p, s')" "p \<noteq> 0"
  then show "p \<in> free_pages s \<and> free_pages s' = free_pages s - {p} \<and> pool_pages s' = pool_pages s \<and> phys_wf s'"
    using kalloc_page [of s p s'] kalloc_pool [of s] by simp
next
  fix s s' :: "'a phys_scheme"
  assume "phys_wf s" "kalloc s = (0, s')"
  then show "free_pages s = {} \<and> s' = s" using kalloc_none by blast
next
  fix s :: "'a phys_scheme" and p
  assume "phys_wf s" "p \<in> pool_pages s"
  then show "free_pages (kfree p s) = insert p (free_pages s) \<and> pool_pages (kfree p s) = pool_pages s \<and> phys_wf (kfree p s)"
    using kfree_pool [of s p] by simp
qed (auto intro: finite_pool dest: free_pages_pool pool_pageD)

subsection \<open>Pages in use\<close>

definition live_pages :: "'a phys_scheme \<Rightarrow> u64 set" where
  "live_pages s = pool_pages s - free_pages s"

lemma fill_page_fill_page [simp]: "fill_page (fill_page m p v) p w = fill_page m p w"
  by (simp add: fill_page_def fun_eq_iff)

lemma live_pages_kalloc:
  assumes "phys_wf s" "kalloc s = (np, s1)" "np \<noteq> 0"
  shows "live_pages s1 = insert np (live_pages s)" and "np \<notin> live_pages s"
    and "page_aligned np" and "phys_wf s1"
  using pa.alloc_page [OF assms] free_pages_pool [OF assms(1)] pool_pageD [OF assms(1), of np]
  by (auto simp: live_pages_def)

lemma phys_wf_mem [simp]: "phys_wf (s\<lparr>mem := m\<rparr>) = phys_wf s"
  by (simp add: phys_wf_def)

lemma page_addr_mem [simp]: "page_addr (s\<lparr>mem := m\<rparr>) = page_addr s"
  by (simp add: page_addr_def fun_eq_iff)

lemma free_pages_mem [simp]: "free_pages (s\<lparr>mem := m\<rparr>) = free_pages s"
  by (simp add: free_pages_def)

lemma pool_pages_mem [simp]: "pool_pages (s\<lparr>mem := m\<rparr>) = pool_pages s"
  by (simp add: pool_pages_def)

lemma live_pages_mem [simp]: "live_pages (s\<lparr>mem := m\<rparr>) = live_pages s"
  by (simp add: live_pages_def)

lemma kfree_mem [simp]: "mem (kfree p s) = mem s"
  by (simp add: kfree_def Let_def)

lemma kfree_update_mem: "kfree p (s\<lparr>mem := m\<rparr>) = (kfree p s)\<lparr>mem := m\<rparr>"
  by (simp add: kfree_def Let_def)

subsection \<open>Properties\<close>

text \<open>
  C11. \<^verbatim>\<open>kalloc\<close> on a well-formed allocator: a non-null result is the lowest free page, it is
  page aligned, it leaves the free set and nothing else does, its contents are the junk
  pattern, all other memory is unchanged, and well-formedness is kept.
\<close>

theorem kalloc_correct:
  assumes "phys_wf s" and "kalloc s = (pa, s')" and "pa \<noteq> 0"
  shows "pa \<in> free_pages s \<and> (\<forall>p \<in> free_pages s. pa \<le> p) \<and> page_aligned pa \<and>
    free_pages s' = free_pages s - {pa} \<and> phys_wf s' \<and>
    (\<forall>a. PGROUNDDOWN a = pa \<longrightarrow> mem s' a = 0x0505050505050505) \<and>
    (\<forall>a. PGROUNDDOWN a \<noteq> pa \<longrightarrow> mem s' a = mem s a)"
proof -
  note k = kalloc_page [OF assms]
  have "page_aligned pa"
    using k(1) free_pages_pool [OF assms(1)] pool_pageD [OF assms(1)] by blast
  with k show ?thesis by (auto simp: fill_page_def)
qed

text \<open>A concrete allocator of eight pages whose first two and last are in use.\<close>

definition demo_phys :: phys where
  "demo_phys = \<lparr>mem = (\<lambda>_. 0), km_start = 0x87FF8000, km_npage = 8, km_bitmap = [0x83]\<rparr>"

lemma demo_phys_wf: "phys_wf demo_phys"
  by (simp add: phys_wf_def demo_phys_def page_used_def rv_const)

lemma demo_phys_alloc: "fst (kalloc demo_phys) = 0x87FFA000"
  by (simp add: demo_phys_def kalloc_def kalloc_scan.simps page_used_def page_addr_def rv_const Let_def)

theorem kalloc_correct_witness:
  "phys_wf demo_phys \<and> fst (kalloc demo_phys) = 0x87FFA000 \<and>
   fst (kalloc demo_phys) \<in> free_pages demo_phys \<and> phys_wf (snd (kalloc demo_phys))"
  using kalloc_correct [OF demo_phys_wf surjective_pairing]
  by (simp add: demo_phys_wf demo_phys_alloc)

text \<open>
  \<^verbatim>\<open>kalloc\<close> and \<^verbatim>\<open>kfree\<close> are inverse on the free set, and \<^verbatim>\<open>kalloc\<close> fails exactly when no page
  is free: from a well-formed state a null result leaves the state as it is and means the
  free set is empty; giving an allocated page back restores the free set.
\<close>

theorem kalloc_kfree_roundtrip:
  assumes "phys_wf s"
  shows "(fst (kalloc s) = 0 \<longleftrightarrow> free_pages s = {}) \<and>
    (fst (kalloc s) = 0 \<longrightarrow> snd (kalloc s) = s) \<and>
    (fst (kalloc s) \<noteq> 0 \<longrightarrow>
       phys_wf (kfree (fst (kalloc s)) (snd (kalloc s))) \<and>
       free_pages (kfree (fst (kalloc s)) (snd (kalloc s))) = free_pages s)"
proof -
  obtain p s' where k: "kalloc s = (p, s')" by fastforce
  have "p \<noteq> 0 \<Longrightarrow> phys_wf (kfree p s')"
    using pa.alloc_page [OF assms k] pa.dealloc_page [of s' p] free_pages_pool [OF assms] by blast
  moreover have "p = 0 \<longleftrightarrow> free_pages s = {}"
    using pa.alloc_page [OF assms k] pa.alloc_null [OF assms, of s'] k by auto
  ultimately show ?thesis
    using pa.alloc_null [OF assms, of s'] pa.alloc_dealloc [OF assms k] k by auto
qed

theorem kalloc_kfree_roundtrip_witness:
  "phys_wf demo_phys \<and> free_pages demo_phys \<noteq> {} \<and>
   free_pages (kfree (fst (kalloc demo_phys)) (snd (kalloc demo_phys))) = free_pages demo_phys"
  using kalloc_kfree_roundtrip [OF demo_phys_wf] demo_phys_wf demo_phys_alloc by force

text \<open>
  \<^verbatim>\<open>kinit\<close> with a kernel image that ends inside RAM, at least two pages below \<^verbatim>\<open>PHYSTOP\<close>:
  the allocator is well-formed, it manages the pages from the rounded-up image end, every
  managed page but the bitmap's own is free, and the 4096-byte bitmap has a bit for each.
\<close>

theorem kinit_correct:
  assumes "0x80000000 \<le> kend" and "unat kend + 8192 \<le> unat PHYSTOP"
  shows "phys_wf (kinit kend s) \<and> free_pages (kinit kend s) = pool_pages (kinit kend s) \<and>
    km_start (kinit kend s) = PGROUNDUP kend"
proof -
  let ?t = "kinit_reserve kend s"
  note t = kinit_init_wf [OF assms, of s]
  have "km_start ?t + PGSIZE = page_addr ?t 1" by (simp add: page_addr_def)
  then have "kinit kend s = kinit_free (page_addr ?t 1) ?t" by (simp add: kinit_def Let_def)
  moreover have "int 1 \<le> km_npage ?t" using t(1) by (simp add: phys_wf_def)
  moreover have "free_pages ?t = page_addr ?t ` {i. 0 < i \<and> i < 1}" using t(2) by auto
  moreover have "km_start ?t = PGROUNDUP kend" by (simp add: kinit_reserve_def Let_def)
  ultimately show ?thesis using kinit_free_pages [OF t(1), of 1] by simp
qed

theorem kinit_correct_witness:
  "phys_wf (kinit 0x80230000 demo_phys) \<and> free_pages (kinit 0x80230000 demo_phys) \<noteq> {}"
proof -
  have h: "(0x80000000 :: u64) \<le> 0x80230000" "unat (0x80230000 :: u64) + 8192 \<le> unat PHYSTOP"
    by (simp_all add: rv_const)
  let ?k = "kinit 0x80230000 demo_phys"
  note k = kinit_correct [OF h, of demo_phys]
  have "km_start ?k = 0x80230000" using k by (simp add: PGROUNDUP_def rv_const)
  then have "unat (km_start ?k) = 0x80230000" by simp
  moreover have "unat (km_start ?k) + nat (km_npage ?k) * 4096 = 0x88000000"
    using conjunct1 [OF k] by (simp add: phys_wf_def rv_const)
  ultimately have "2 \<le> nat (km_npage ?k)" by linarith
  then have "page_addr ?k 1 \<in> pool_pages ?k" by (simp add: pool_pages_def)
  with k show ?thesis by auto
qed

end
