(* ===== verification/RV_Kmalloc.thy ===== *)
theory RV_Kmalloc
  imports RV_Kalloc
begin

text \<open>
  The slab caches and the bucket allocator of \<^verbatim>\<open>kernelspace/mm/kmalloc.c\<close>. A cache keeps a free list
  threaded through the first word of its blocks and a list of page records; both live in
  memory. The first word of a block is the union of \<^verbatim>\<open>struct block\<close> (the link) and
  \<^verbatim>\<open>struct header\<close> (the size in the low half and the magic number in the high half).

  The invariant \<open>cache_wf\<close> says that the free and the handed-out blocks of a cache together are
  exactly the blocks of its slab pages, each once. The lemmas show that allocation and release
  move one block between the two, that a second release of a block panics, and that
  destroying a cache gives every page back. The lock of a cache is held over each body.
\<close>

subsection \<open>State and operations\<close>

record kmem_cache =
  freelist :: u64
  objsize :: u32
  pages :: u64

record kheap = phys +
  buckets :: "kmem_cache list"

definition MAGIC :: u32 where [rv_const]: "MAGIC = 0xdeadbeef"
definition MAX_BUCKET :: u32 where [rv_const]: "MAX_BUCKET = 2048"

definition bucket_sizes :: "u32 list" where
  "bucket_sizes = [8, 16, 32, 64, 128, 256, 512, 1024, 2048]"

text \<open>The word of a \<^verbatim>\<open>struct header\<close>, and its magic field.\<close>

definition header_word :: "u32 \<Rightarrow> u32 \<Rightarrow> u64" where
  "header_word sz magic = ucast sz OR push_bit 32 (ucast magic)"

definition header_magic :: "u64 \<Rightarrow> u32" where
  "header_magic w = ucast (drop_bit 32 w)"

definition header_size :: "u64 \<Rightarrow> u32" where
  "header_size w = ucast w"

definition ALIGN_UP :: "u64 \<Rightarrow> u64" where
  "ALIGN_UP x = (x + (16 - 1)) AND NOT (16 - 1)"

text \<open>\<^verbatim>\<open>uint32 actual_size = ALIGN_UP(cache->objsize + sizeof(struct header))\<close>.\<close>

definition actual_size :: "kmem_cache \<Rightarrow> u32" where
  "actual_size c = ucast (ALIGN_UP (ucast (objsize c) + 8))"

definition kmalloc_init :: "'a kheap_scheme \<Rightarrow> 'a kheap_scheme" where
  "kmalloc_init s = s\<lparr>buckets := map2 (\<lambda>c sz. c\<lparr>objsize := sz, freelist := 0\<rparr>) (buckets s) bucket_sizes\<rparr>"

definition kmem_cache_create :: "u32 \<Rightarrow> 'a phys_scheme \<Rightarrow> (u64 \<times> kmem_cache) option \<times> 'a phys_scheme" where
  "kmem_cache_create sz s =
     (let (cache, s1) = kalloc s in
      if cache = 0 then (None, s1)
      else (Some (cache, \<lparr>freelist = 0, objsize = sz, pages = 0\<rparr>), s1))"

text \<open>Split a page into \<open>n\<close> blocks of \<open>a\<close> bytes, pushing each on the free list.\<close>

definition blk :: "u64 \<Rightarrow> nat \<Rightarrow> nat \<Rightarrow> u64" where
  "blk page a i = page + of_nat (i * a)"

primrec split_blocks :: "nat \<Rightarrow> u64 \<Rightarrow> nat \<Rightarrow> u64 \<times> mem \<Rightarrow> u64 \<times> mem" where
  "split_blocks 0 page a st = st"
| "split_blocks (Suc n) page a st =
     (let (fl, m) = split_blocks n page a st in (blk page a n, m(blk page a n := fl)))"

definition take_block :: "kmem_cache \<Rightarrow> 'a phys_scheme \<Rightarrow> (u64 \<times> kmem_cache \<times> 'a phys_scheme) res" where
  "take_block c s =
     (let h = freelist c in
      if h = 0 then Inl (Undefined ''kmem_cache_alloc: empty free list'')
      else Inr (h + 8, c\<lparr>freelist := mem s h\<rparr>, s\<lparr>mem := (mem s)(h := header_word (objsize c) MAGIC)\<rparr>))"

text \<open>The loop that splits a page runs while \<open>j + actual_size \<le> PGSIZE\<close>; with size 0 it never ends.\<close>

definition kmem_cache_alloc :: "kmem_cache \<Rightarrow> 'a phys_scheme \<Rightarrow> (u64 \<times> kmem_cache \<times> 'a phys_scheme) res" where
  "kmem_cache_alloc c s =
     (let a = unat (actual_size c) in
      if freelist c = 0 then
        let (page, s1) = kalloc s in
        if page = 0 then Inr (0, c, s1)
        else
          let (sp, s2) = kalloc (s1\<lparr>mem := fill_page (mem s1) page 0\<rparr>) in
          if sp = 0 then Inr (0, c, kfree page s2)
          else if a = 0 then Inl (Undefined ''kmem_cache_alloc: endless split'')
          else
            let (fl, m) = split_blocks (4096 div a) page a (freelist c, (mem s2)(sp := page, sp + 8 := pages c))
            in take_block (c\<lparr>pages := sp, freelist := fl\<rparr>) (s2\<lparr>mem := m\<rparr>)
      else take_block c s)"

definition kmem_cache_free :: "kmem_cache \<Rightarrow> u64 \<Rightarrow> 'a phys_scheme \<Rightarrow> (kmem_cache \<times> 'a phys_scheme) res" where
  "kmem_cache_free c addr s =
     (if addr = 0 then Inr (c, s)
      else
        let h = addr - 8 in
        if header_magic (mem s h) \<noteq> MAGIC then Inl (Panic ''double free or invalid free'')
        else Inr (c\<lparr>freelist := h\<rparr>, s\<lparr>mem := (mem s)(h := freelist c)\<rparr>))"

fun get_bucket_from :: "u32 list \<Rightarrow> int \<Rightarrow> u32 \<Rightarrow> int" where
  "get_bucket_from [] i sz = -1"
| "get_bucket_from (b # bs) i sz = (if sz \<le> b then i else get_bucket_from bs (i + 1) sz)"

definition get_bucket_idx :: "u32 \<Rightarrow> int" where
  "get_bucket_idx sz = get_bucket_from bucket_sizes 0 sz"

definition kmalloc :: "u32 \<Rightarrow> 'a kheap_scheme \<Rightarrow> (u64 \<times> 'a kheap_scheme) res" where
  "kmalloc sz s =
     (if sz = 0 then Inr (0, s)
      else if MAX_BUCKET < sz then Inr (kalloc s)
      else
        let idx = nat (get_bucket_idx sz) in
        rbind (kmem_cache_alloc (buckets s ! idx) s)
          (\<lambda>(p, c, s1). Inr (p, s1\<lparr>buckets := (buckets s1)[idx := c]\<rparr>)))"

definition kmfree :: "u64 \<Rightarrow> 'a kheap_scheme \<Rightarrow> 'a kheap_scheme res" where
  "kmfree addr s =
     (if addr = 0 then Inr s
      else if addr mod PGSIZE = 0 then Inr (kfree addr s)
      else if header_magic (mem s (addr - 8)) \<noteq> MAGIC then Inr s
      else
        let idx = get_bucket_idx (header_size (mem s (addr - 8))) in
        if idx = -1 then Inr s
        else
          rbind (kmem_cache_free (buckets s ! nat idx) addr s)
            (\<lambda>(c, s1). Inr (s1\<lparr>buckets := (buckets s1)[nat idx := c]\<rparr>)))"

text \<open>
  Walking the page records; the fuel is the number of managed pages, and running out of it is
  the endless loop over a cyclic list.
\<close>

primrec destroy_loop :: "nat \<Rightarrow> u64 \<Rightarrow> 'a phys_scheme \<Rightarrow> 'a phys_scheme res" where
  "destroy_loop 0 p s = (if p = 0 then Inr s else Inl (Undefined ''kmem_cache_destroy: endless list''))"
| "destroy_loop (Suc n) p s =
     (if p = 0 then Inr s
      else
        let nxt = mem s (p + 8)
        in destroy_loop n nxt (kfree p (kfree (mem s p) s)))"

definition kmem_cache_destroy :: "u64 \<Rightarrow> kmem_cache \<Rightarrow> 'a phys_scheme \<Rightarrow> 'a phys_scheme res" where
  "kmem_cache_destroy cache c s =
     rbind (destroy_loop (nat (km_npage s)) (pages c) s) (\<lambda>s1. Inr (kfree cache s1))"

subsection \<open>Block addresses\<close>

lemma unat_actual_size:
  assumes "unat (objsize c) \<le> 4088"
  shows "unat (actual_size c) = (unat (objsize c) + 23) div 16 * 16"
proof -
  let ?x = "ucast (objsize c) + 8 + (16 - 1) :: u64"
  have ux: "unat ?x = unat (objsize c) + 23"
  proof -
    have "unat (ucast (objsize c) :: u64) = unat (objsize c)"
      using assms by (simp add: unsigned_ucast_eq take_bit_nat_eq_self)
    moreover have "?x = ucast (objsize c) + 23" by simp
    moreover have "unat (ucast (objsize c) + 23 :: u64) = unat (ucast (objsize c) :: u64) + unat (23 :: u64)"
      using calculation(1) assms by (intro unat_add_lem [THEN iffD1]) simp
    ultimately show ?thesis by (simp only:) simp
  qed
  have m: "(16 - 1 :: u64) = mask 4" by (simp add: mask_eq_exp_minus_1)
  have "ALIGN_UP (ucast (objsize c) + 8) = ?x div 2 ^ 4 * 2 ^ 4"
    unfolding ALIGN_UP_def m by (rule and_not_mask_div)
  then have "unat (ALIGN_UP (ucast (objsize c) + 8)) = (unat (objsize c) + 23) div 16 * 16"
    using unat_div_mult_same [of ?x 16] ux by simp
  moreover have "(unat (objsize c) + 23) div 16 * 16 < 2 ^ 32" using assms by simp
  ultimately show ?thesis by (simp add: actual_size_def unsigned_ucast_eq take_bit_nat_eq_self)
qed

text \<open>The block sizes in use: a multiple of 16 between 16 and a page.\<close>

definition block_size :: "nat \<Rightarrow> bool" where
  "block_size a \<longleftrightarrow> a mod 16 = 0 \<and> 0 < a \<and> a \<le> 4096"

lemma block_size_actual: "unat (objsize c) \<le> 4088 \<Longrightarrow> block_size (unat (actual_size c))"
proof -
  assume o: "unat (objsize c) \<le> 4088"
  let ?q = "(unat (objsize c) + 23) div 16"
  have "1 \<le> ?q" "?q \<le> 256" using o by linarith+
  then show ?thesis by (simp add: unat_actual_size [OF o] block_size_def)
qed

lemma block_in_page:
  fixes a i :: nat
  shows "0 < a \<Longrightarrow> i < 4096 div a \<Longrightarrow> i * a + a \<le> 4096"
proof -
  assume "0 < a" and i: "i < 4096 div a"
  from i have "Suc i * a \<le> 4096 div a * a" by (intro mult_le_mono1) simp
  also have "\<dots> \<le> 4096" by (rule div_times_less_eq_dividend)
  finally show ?thesis by simp
qed

lemma block_size_16: "block_size a \<Longrightarrow> 16 \<le> a"
  unfolding block_size_def by presburger

lemma blk_facts:
  assumes a: "block_size a" and i: "i < 4096 div a" and pg: "page_aligned page" "page \<noteq> 0"
  shows "unat (blk page a i) = unat page + i * a" and "PGROUNDDOWN (blk page a i) = page"
    and "blk page a i \<noteq> 0" and "(blk page a i + 8) mod PGSIZE \<noteq> 0"
proof -
  have b: "i * a + 16 \<le> 4096" using block_in_page [OF _ i] block_size_16 [OF a] by simp
  show u: "unat (blk page a i) = unat page + i * a"
    unfolding blk_def using b by (intro unat_in_page [OF pg(1)]) simp
  show "PGROUNDDOWN (blk page a i) = page"
    unfolding blk_def using b by (intro PGROUNDDOWN_in_page [OF pg(1)]) simp
  have "0 < unat page" using pg(2) by (simp add: unat_gt_0)
  then have "unat (blk page a i) \<noteq> unat (0 :: u64)" using u by simp
  then show "blk page a i \<noteq> 0" by metis
  have "unat (page + of_nat (i * a + 8)) = unat page + (i * a + 8)"
    using b by (intro unat_in_page [OF pg(1)]) simp
  moreover have "blk page a i + 8 = page + of_nat (i * a + 8)" by (simp add: blk_def)
  moreover have "unat page mod 4096 = 0" using pg(1) by (simp only: page_aligned_unat)
  moreover have "(unat page + (i * a + 8)) mod 4096 = (i * a + 8) mod 4096"
    using calculation(3) by (metis add_0 mod_add_left_eq)
  ultimately have "unat (blk page a i + 8) mod 4096 = i * a + 8" using b by (simp only:) simp
  then show "(blk page a i + 8) mod PGSIZE \<noteq> 0" using page_aligned_unat [of "blk page a i + 8"] by simp
qed

lemma blk_inj:
  assumes "block_size a" and "page_aligned p" "p \<noteq> 0" "page_aligned q" "q \<noteq> 0" and "i < 4096 div a" "j < 4096 div a"
  shows "blk p a i = blk q a j \<longleftrightarrow> p = q \<and> i = j"
proof
  assume eq: "blk p a i = blk q a j"
  have "p = q" using blk_facts(2) [OF assms(1,6,2,3)] blk_facts(2) [OF assms(1,7,4,5)] eq by simp
  moreover have "unat p + i * a = unat q + j * a"
    using blk_facts(1) [OF assms(1,6,2,3)] blk_facts(1) [OF assms(1,7,4,5)] eq by simp
  ultimately show "p = q \<and> i = j" using assms(1) by (simp add: block_size_def)
qed simp

definition blocks_of :: "nat \<Rightarrow> u64 \<Rightarrow> u64 list" where
  "blocks_of a page = map (blk page a) [0..<4096 div a]"

lemma blocks_of_page:
  assumes a: "block_size a" and pg: "page_aligned page" "page \<noteq> 0" and b: "b \<in> set (blocks_of a page)"
  shows "PGROUNDDOWN b = page \<and> b \<noteq> 0 \<and> (b + 8) mod PGSIZE \<noteq> 0"
proof -
  obtain i where i: "i < 4096 div a" "b = blk page a i" using b by (auto simp: blocks_of_def)
  show ?thesis using blk_facts(2-4) [OF a i(1) pg] unfolding i(2) by simp
qed

lemma distinct_blocks_of: "block_size a \<Longrightarrow> page_aligned page \<Longrightarrow> page \<noteq> 0 \<Longrightarrow> distinct (blocks_of a page)"
  using blk_inj [of a page page] by (simp add: blocks_of_def distinct_map inj_on_def)

subsection \<open>Lists in memory\<close>

fun chain :: "mem \<Rightarrow> u64 \<Rightarrow> u64 list \<Rightarrow> bool" where
  "chain m p [] \<longleftrightarrow> p = 0"
| "chain m p (b # bs) \<longleftrightarrow> p = b \<and> b \<noteq> 0 \<and> chain m (m b) bs"

fun pchain :: "mem \<Rightarrow> u64 \<Rightarrow> (u64 \<times> u64) list \<Rightarrow> bool" where
  "pchain m p [] \<longleftrightarrow> p = 0"
| "pchain m p ((sp, pg) # xs) \<longleftrightarrow> p = sp \<and> sp \<noteq> 0 \<and> m sp = pg \<and> pchain m (m (sp + 8)) xs"

lemma chain_frame: "(\<And>b. b \<in> set bs \<Longrightarrow> m' b = m b) \<Longrightarrow> chain m' p bs = chain m p bs"
  by (induction bs arbitrary: p) auto

lemma pchain_frame:
  "(\<And>sp. sp \<in> set (map fst xs) \<Longrightarrow> m' sp = m sp \<and> m' (sp + 8) = m (sp + 8)) \<Longrightarrow> pchain m' p xs = pchain m p xs"
  by (induction m p xs rule: pchain.induct) auto

lemma chain_next: "chain m p bs \<Longrightarrow> b \<in> set bs \<Longrightarrow> m b = 0 \<or> m b \<in> set bs"
  by (induction bs arbitrary: p) (auto, metis chain.elims(2) list.set_intros(1))

lemma chain_0: "chain m 0 bs \<Longrightarrow> bs = []"
  by (cases bs) auto

lemma split_blocks_chain:
  assumes "block_size a" "page_aligned page" "page \<noteq> 0" "n \<le> 4096 div a" "split_blocks n page a (0, m) = (fl, m')"
  shows "chain m' fl (rev (map (blk page a) [0..<n])) \<and> (\<forall>x. PGROUNDDOWN x \<noteq> page \<longrightarrow> m' x = m x)"
  using assms(4,5)
proof (induction n arbitrary: fl m')
  case (Suc n)
  obtain f1 m1 where s1: "split_blocks n page a (0, m) = (f1, m1)" by fastforce
  have n: "n < 4096 div a" using Suc.prems(1) by simp
  note IH = Suc.IH [OF _ s1] and b = blk_facts [OF assms(1) n assms(2,3)]
  have fl: "fl = blk page a n" "m' = m1(blk page a n := f1)" using Suc.prems(2) s1 by auto
  have "blk page a i \<noteq> blk page a n" if "i < n" for i
    using blk_inj [OF assms(1,2,3,2,3), of i n] that n by simp
  then have "chain m' f1 (rev (map (blk page a) [0..<n])) = chain m1 f1 (rev (map (blk page a) [0..<n]))"
    by (intro chain_frame) (auto simp: fl)
  then have "chain m' fl (rev (map (blk page a) [0..<Suc n]))" using IH n b(3) by (simp add: fl(1)) (simp add: fl(2))
  moreover have "m' x = m x" if "PGROUNDDOWN x \<noteq> page" for x using that IH n b(2) by (auto simp: fl(2))
  ultimately show ?case by blast
qed simp

subsection \<open>The invariant of a cache\<close>

definition cache_pages :: "(u64 \<times> u64) list \<Rightarrow> u64 set" where
  "cache_pages sps = set (map fst sps) \<union> set (map snd sps)"

definition cache_wf ::
    "'a phys_scheme \<Rightarrow> kmem_cache \<Rightarrow> (u64 \<times> u64) list \<Rightarrow> u64 list \<Rightarrow> u64 set \<Rightarrow> bool" where
  "cache_wf s c sps bs U \<longleftrightarrow>
     phys_wf s \<and> unat (objsize c) \<le> 4088 \<and> chain (mem s) (freelist c) bs \<and> pchain (mem s) (pages c) sps \<and>
     distinct (map fst sps @ map snd sps) \<and> cache_pages sps \<subseteq> live_pages s \<and>
     distinct bs \<and> set bs \<inter> U = {} \<and>
     set bs \<union> U = (\<Union>pg \<in> set (map snd sps). set (blocks_of (unat (actual_size c)) pg)) \<and>
     (\<forall>h \<in> U. mem s h = header_word (objsize c) MAGIC)"

lemma cache_header: "cache_wf s c sps bs U \<Longrightarrow> h \<in> U \<Longrightarrow> mem s h = header_word (objsize c) MAGIC"
  by (simp add: cache_wf_def)

lemma cache_page: "cache_wf s c sps bs U \<Longrightarrow> pg \<in> cache_pages sps \<Longrightarrow> page_aligned pg \<and> pg \<noteq> 0"
  using pool_pageD [of s pg] by (auto simp: cache_wf_def live_pages_def)

lemma cache_block:
  assumes wf: "cache_wf s c sps bs U" and h: "h \<in> set bs \<union> U"
  shows "PGROUNDDOWN h \<in> set (map snd sps)" and "h \<noteq> 0" and "(h + 8) mod PGSIZE \<noteq> 0"
proof -
  obtain pg where pg: "pg \<in> set (map snd sps)" "h \<in> set (blocks_of (unat (actual_size c)) pg)"
    using assms by (auto simp: cache_wf_def)
  have "page_aligned pg \<and> pg \<noteq> 0" using cache_page [OF wf] pg(1) by (simp add: cache_pages_def)
  moreover have "block_size (unat (actual_size c))" using wf block_size_actual by (simp add: cache_wf_def)
  ultimately have "PGROUNDDOWN h = pg \<and> h \<noteq> 0 \<and> (h + 8) mod PGSIZE \<noteq> 0"
    using blocks_of_page pg(2) by metis
  with pg(1) show "PGROUNDDOWN h \<in> set (map snd sps)" and "h \<noteq> 0" and "(h + 8) mod PGSIZE \<noteq> 0" by auto
qed

lemma PGROUNDDOWN_record: "page_aligned sp \<Longrightarrow> PGROUNDDOWN sp = sp \<and> PGROUNDDOWN (sp + 8) = sp"
  using PGROUNDDOWN_in_page [of sp 8] by (simp add: page_aligned_iff_down [symmetric])

text \<open>A cache depends on the memory of its own pages only.\<close>

lemma cache_wf_frame:
  assumes wf: "cache_wf s c sps bs U" and "phys_wf s'" and "cache_pages sps \<subseteq> live_pages s'"
    and m: "\<And>a. PGROUNDDOWN a \<in> cache_pages sps \<Longrightarrow> mem s' a = mem s a"
  shows "cache_wf s' c sps bs U"
proof -
  have blk: "mem s' h = mem s h" if "h \<in> set bs \<union> U" for h
    using cache_block(1) [OF wf that] m by (simp add: cache_pages_def)
  have "mem s' sp = mem s sp \<and> mem s' (sp + 8) = mem s (sp + 8)" if "sp \<in> set (map fst sps)" for sp
    using that m cache_page [OF wf, of sp] PGROUNDDOWN_record [of sp] by (simp add: cache_pages_def)
  then have "pchain (mem s') (pages c) sps = pchain (mem s) (pages c) sps" by (rule pchain_frame)
  moreover have "chain (mem s') (freelist c) bs = chain (mem s) (freelist c) bs" using blk by (intro chain_frame) simp
  moreover have "\<forall>h \<in> U. mem s' h = header_word (objsize c) MAGIC" using cache_header [OF wf] blk by simp
  ultimately show ?thesis using assms(1-3) unfolding cache_wf_def by simp
qed

text \<open>Writing the first word of one block.\<close>

lemma cache_write_block:
  assumes wf: "cache_wf s c sps bs U" and h: "h \<in> set bs \<union> U" and s': "s' = s\<lparr>mem := (mem s)(h := w)\<rparr>"
  shows "pchain (mem s') (pages c) sps" and "h \<notin> set bs1 \<Longrightarrow> chain (mem s) p bs1 \<Longrightarrow> chain (mem s') p bs1"
proof -
  have ne: "sp \<noteq> h \<and> sp + 8 \<noteq> h" if "sp \<in> set (map fst sps)" for sp
  proof -
    have "sp \<notin> set (map snd sps)" using wf that by (auto simp: cache_wf_def)
    moreover have "PGROUNDDOWN sp = sp \<and> PGROUNDDOWN (sp + 8) = sp"
      using cache_page [OF wf, of sp] PGROUNDDOWN_record [of sp] that by (simp add: cache_pages_def)
    ultimately show ?thesis using cache_block(1) [OF wf h] by metis
  qed
  have "pchain (mem s') (pages c) sps = pchain (mem s) (pages c) sps"
    using ne by (intro pchain_frame) (simp add: s')
  then show "pchain (mem s') (pages c) sps" using wf by (simp add: cache_wf_def)
  show "chain (mem s') p bs1" if "h \<notin> set bs1" "chain (mem s) p bs1"
    using that(2) by (subst chain_frame [where m = "mem s"]) (use that(1) in \<open>auto simp: s'\<close>)
qed

subsection \<open>Taking and returning a block\<close>

lemma take_block_wf:
  assumes wf: "cache_wf s c sps (h # bs) U"
  shows "\<exists>c' s'. take_block c s = Inr (h + 8, c', s') \<and> cache_wf s' c' sps bs (insert h U) \<and>
    s' = s\<lparr>mem := (mem s)(h := header_word (objsize c) MAGIC)\<rparr> \<and> objsize c' = objsize c"
proof -
  let ?s = "s\<lparr>mem := (mem s)(h := header_word (objsize c) MAGIC)\<rparr>" and ?c = "c\<lparr>freelist := mem s h\<rparr>"
  have h: "freelist c = h" "h \<noteq> 0" "chain (mem s) (mem s h) bs" "h \<notin> set bs" "h \<notin> U"
    using wf by (auto simp: cache_wf_def)
  note w = cache_write_block [OF wf _ refl, where h = h and w = "header_word (objsize c) MAGIC"]
  have "take_block c s = Inr (h + 8, ?c, ?s)" using h by (simp add: take_block_def)
  moreover have "cache_wf ?s ?c sps bs (insert h U)"
  proof -
    have "pchain (mem ?s) (pages ?c) sps" "chain (mem ?s) (freelist ?c) bs" using w h(3,4) by simp_all
    moreover have "actual_size ?c = actual_size c" by (simp add: actual_size_def)
    ultimately show ?thesis using wf h(4,5) unfolding cache_wf_def by auto
  qed
  ultimately show ?thesis by (intro exI [of _ ?c] exI [of _ ?s]) simp
qed

lemma header_magic_word [simp]: "header_magic (header_word sz mg) = mg"
  by (rule bit_word_eqI) (auto simp: header_magic_def header_word_def bit_simps dest: bit_imp_le_length)

lemma header_size_word [simp]: "header_size (header_word sz mg) = sz"
  by (rule bit_word_eqI) (auto simp: header_size_def header_word_def bit_simps)

lemma kmem_cache_free_wf:
  assumes wf: "cache_wf s c sps bs U" and h: "h \<in> U" "h + 8 \<noteq> 0"
  shows "\<exists>c' s'. kmem_cache_free c (h + 8) s = Inr (c', s') \<and> cache_wf s' c' sps (h # bs) (U - {h}) \<and>
    s' = s\<lparr>mem := (mem s)(h := freelist c)\<rparr> \<and> objsize c' = objsize c"
proof -
  let ?s = "s\<lparr>mem := (mem s)(h := freelist c)\<rparr>" and ?c = "c\<lparr>freelist := h\<rparr>"
  have "h \<notin> set bs" using wf h by (auto simp: cache_wf_def)
  have "h \<noteq> 0" using h cache_block(2) [OF wf, of h] by simp
  note w = cache_write_block [OF wf _ refl, where h = h and w = "freelist c"]
  have "kmem_cache_free c (h + 8) s = Inr (?c, ?s)"
    using h cache_header [OF wf] by (simp add: kmem_cache_free_def)
  moreover have "cache_wf ?s ?c sps (h # bs) (U - {h})"
  proof -
    have "chain (mem s) (freelist c) bs" using wf by (simp add: cache_wf_def)
    then have "pchain (mem ?s) (pages ?c) sps" "chain (mem ?s) (freelist c) bs"
      using w h(1) \<open>h \<notin> set bs\<close> by simp_all
    moreover have "actual_size ?c = actual_size c" by (simp add: actual_size_def)
    ultimately show ?thesis using wf h(1) \<open>h \<notin> set bs\<close> \<open>h \<noteq> 0\<close> unfolding cache_wf_def by auto
  qed
  ultimately show ?thesis by (intro exI [of _ ?c] exI [of _ ?s]) simp
qed

text \<open>A free block holds a RAM address or null, so its magic field is zero.\<close>

lemma live_page_low: "phys_wf s \<Longrightarrow> p \<in> live_pages s \<Longrightarrow> unat p + 4096 \<le> 0x88000000"
  using page_addr_props(3) [of s] page_bound(3) [of s] unat_page_addr [of s]
  by (fastforce simp: live_pages_def pool_pages_def rv_const)

lemma low_magic: "unat w < 2 ^ 32 \<Longrightarrow> header_magic w = 0"
  using bit_beyond [of w 32] by (intro bit_word_eqI) (simp add: header_magic_def bit_simps)

lemma cache_block_low:
  assumes wf: "cache_wf s c sps bs U" and h: "h \<in> set bs \<union> U"
  shows "unat h < 0x88000000"
proof -
  have "PGROUNDDOWN h \<in> live_pages s"
    using cache_block(1) [OF wf h] wf by (auto simp: cache_wf_def cache_pages_def)
  then have "unat (PGROUNDDOWN h) + 4096 \<le> 0x88000000" using wf live_page_low by (auto simp: cache_wf_def)
  then show ?thesis unfolding unat_PGROUNDDOWN using div_mult_mod_eq [of "unat h" 4096] mod_less_divisor [of 4096 "unat h"]
    by linarith
qed

lemma kmem_cache_double_free:
  assumes wf: "cache_wf s c sps bs U" and h: "h \<in> set bs" "h + 8 \<noteq> 0"
  shows "kmem_cache_free c (h + 8) s = Inl (Panic ''double free or invalid free'')"
proof -
  have "chain (mem s) (freelist c) bs" using wf by (simp add: cache_wf_def)
  from chain_next [OF this h(1)] have "unat (mem s h) < 2 ^ 32"
    using cache_block_low [OF wf, of "mem s h"] by auto
  then have "header_magic (mem s h) \<noteq> MAGIC" using low_magic by (simp add: MAGIC_def)
  then show ?thesis using h(2) by (simp add: kmem_cache_free_def)
qed

lemma cache_block_payload: "cache_wf s c sps bs U \<Longrightarrow> h \<in> set bs \<union> U \<Longrightarrow> h + 8 \<noteq> 0"
  using cache_block_low [of s c sps bs U h] unat_add_lem [of h 8] by force

subsection \<open>Adding a slab page\<close>

text \<open>
  \<open>cache_step s sps s' sps'\<close>: from \<open>s\<close> to \<open>s'\<close> the cache may have taken free pages; no memory outside
  its pages and the free pages changed.
\<close>

definition cache_step :: "'a phys_scheme \<Rightarrow> (u64 \<times> u64) list \<Rightarrow> 'a phys_scheme \<Rightarrow> (u64 \<times> u64) list \<Rightarrow> bool" where
  "cache_step s sps s' sps' \<longleftrightarrow>
     phys_wf s' \<and> pool_pages s' = pool_pages s \<and> free_pages s' = free_pages s - cache_pages sps' \<and>
     cache_pages sps \<subseteq> cache_pages sps' \<and> cache_pages sps' \<subseteq> cache_pages sps \<union> free_pages s \<and>
     (\<forall>a. PGROUNDDOWN a \<notin> cache_pages sps \<union> free_pages s \<longrightarrow> mem s' a = mem s a)"

lemma cache_pages_not_free: "cache_wf s c sps bs U \<Longrightarrow> cache_pages sps \<inter> free_pages s = {}"
  by (auto simp: cache_wf_def live_pages_def)

lemma cache_step_write:
  assumes wf: "cache_wf s c sps bs U" and h: "h \<in> set bs \<union> U"
  shows "cache_step s sps (s\<lparr>mem := (mem s)(h := w)\<rparr>) sps"
proof -
  have "PGROUNDDOWN h \<in> cache_pages sps" using cache_block(1) [OF wf h] by (simp add: cache_pages_def)
  then show ?thesis using wf cache_pages_not_free [OF wf] by (auto simp: cache_step_def cache_wf_def)
qed

lemma cache_step_trans:
  assumes "cache_step s sps s1 sps1" and "cache_step s1 sps1 s2 sps2"
  shows "cache_step s sps s2 sps2"
proof -
  have "mem s2 a = mem s a" if "PGROUNDDOWN a \<notin> cache_pages sps \<union> free_pages s" for a
  proof -
    have "PGROUNDDOWN a \<notin> cache_pages sps1 \<union> free_pages s1" using that assms(1) unfolding cache_step_def by blast
    then have "mem s2 a = mem s1 a" using assms(2) unfolding cache_step_def by blast
    with that assms(1) show ?thesis by (simp add: cache_step_def)
  qed
  then show ?thesis using assms unfolding cache_step_def by auto
qed

text \<open>Two pages in a row, the first one cleared.\<close>

lemma kalloc_pair:
  assumes wf: "phys_wf s" and 1: "kalloc s = (page, s1)" "page \<noteq> 0"
    and 2: "kalloc (s1\<lparr>mem := fill_page (mem s1) page 0\<rparr>) = (sp, s2)" "sp \<noteq> 0"
  shows "page \<in> free_pages s" "sp \<in> free_pages s" "page \<noteq> sp" "phys_wf s2" "pool_pages s2 = pool_pages s"
    "free_pages s2 = free_pages s - {page, sp}" "live_pages s2 = live_pages s \<union> {page, sp}"
    "\<And>a. PGROUNDDOWN a \<notin> {page, sp} \<Longrightarrow> mem s2 a = mem s a"
proof -
  let ?t = "s1\<lparr>mem := fill_page (mem s1) page 0\<rparr>"
  note a = pa.alloc_page [OF wf 1] and k1 = kalloc_page(4) [OF wf 1]
  have wt: "phys_wf ?t" using a by simp
  note b = pa.alloc_page [OF wt 2] and k2 = kalloc_page(4) [OF wt 2]
  show "page \<in> free_pages s" "sp \<in> free_pages s" "page \<noteq> sp" "phys_wf s2" "pool_pages s2 = pool_pages s"
    "free_pages s2 = free_pages s - {page, sp}" using a b by auto
  show "live_pages s2 = live_pages s \<union> {page, sp}"
    using a b free_pages_pool [OF wf] by (auto simp: live_pages_def)
  show "mem s2 x = mem s x" if "PGROUNDDOWN x \<notin> {page, sp}" for x
    using that by (simp add: k2 k1 fill_page_def)
qed

lemma kmem_cache_refill:
  assumes wf: "cache_wf s c sps [] U" and 1: "kalloc s = (page, s1)" "page \<noteq> 0"
    and 2: "kalloc (s1\<lparr>mem := fill_page (mem s1) page 0\<rparr>) = (sp, s2)" "sp \<noteq> 0"
    and sb: "split_blocks (4096 div unat (actual_size c)) page (unat (actual_size c))
      (0, (mem s2)(sp := page, sp + 8 := pages c)) = (fl, m)"
  shows "cache_wf (s2\<lparr>mem := m\<rparr>) (c\<lparr>pages := sp, freelist := fl\<rparr>) ((sp, page) # sps)
      (rev (blocks_of (unat (actual_size c)) page)) U" (is "cache_wf ?s ?c ?sps ?bs U")
    and "cache_step s sps (s2\<lparr>mem := m\<rparr>) ((sp, page) # sps)"
proof -
  let ?a = "unat (actual_size c)"
  have pw: "phys_wf s" and o: "unat (objsize c) \<le> 4088" using wf by (simp_all add: cache_wf_def)
  note bs = block_size_actual [OF o] and k = kalloc_pair [OF pw 1 2]
  have pl: "page_aligned page" "page_aligned sp"
    using k(1,2) free_pages_pool [OF pw] pool_pageD [OF pw] by blast+
  have new: "page \<notin> cache_pages sps" "sp \<notin> cache_pages sps"
    using k(1,2) cache_pages_not_free [OF wf] by auto
  note sc = split_blocks_chain [OF bs pl(1) 1(2) order_refl sb]
  have r: "PGROUNDDOWN sp = sp \<and> PGROUNDDOWN (sp + 8) = sp" using PGROUNDDOWN_record [OF pl(2)] .
  have mem_old: "m a = mem s a" if "PGROUNDDOWN a \<notin> {page, sp}" for a
    using that sc k(8) r by auto
  have rec: "m sp = page" "m (sp + 8) = pages c" using sc r k(3) by auto
  have old: "cache_wf ?s c sps [] U"
  proof (rule cache_wf_frame [OF wf])
    show "phys_wf ?s" using k(4) by simp
    show "cache_pages sps \<subseteq> live_pages ?s" using k(7) wf by (auto simp: cache_wf_def)
    show "mem ?s a = mem s a" if "PGROUNDDOWN a \<in> cache_pages sps" for a
    proof -
      have "PGROUNDDOWN a \<notin> {page, sp}" using that new by auto
      then show ?thesis using mem_old by simp
    qed
  qed
  have a: "actual_size ?c = actual_size c" by (simp add: actual_size_def)
  have pages_b: "PGROUNDDOWN b = page" if "b \<in> set (blocks_of ?a page)" for b
    using blocks_of_page [OF bs pl(1) 1(2) that] by blast
  have disj: "set ?bs \<inter> U = {}"
    using pages_b cache_block(1) [OF wf] new(1) by (fastforce simp: cache_pages_def)
  have "chain (mem ?s) (freelist ?c) ?bs" using sc by (simp add: blocks_of_def)
  moreover have "pchain (mem ?s) (pages ?c) ?sps" using rec 2(2) old by (simp add: cache_wf_def)
  moreover have "distinct (map fst ?sps @ map snd ?sps)" using old new k(3) by (auto simp: cache_wf_def cache_pages_def)
  moreover have "cache_pages ?sps \<subseteq> live_pages ?s" using k(7) wf by (auto simp: cache_wf_def cache_pages_def)
  moreover have "set ?bs \<union> U = (\<Union>pg \<in> set (map snd ?sps). set (blocks_of ?a pg))"
    using old by (simp add: cache_wf_def)
  moreover have "distinct ?bs" using distinct_blocks_of [OF bs pl(1) 1(2)] by simp
  ultimately show "cache_wf ?s ?c ?sps ?bs U"
    using disj k(4) o cache_header [OF old] unfolding cache_wf_def by (simp add: a)
  show "cache_step s sps ?s ?sps"
  proof -
    have "m a = mem s a" if "PGROUNDDOWN a \<notin> cache_pages sps \<union> free_pages s" for a
      using that mem_old [of a] k(1,2) by blast
    then show ?thesis using k(1-7) cache_pages_not_free [OF wf] by (auto simp: cache_step_def cache_pages_def)
  qed
qed

text \<open>One free page is not enough for a new slab: the page itself is given back.\<close>

lemma kmem_cache_alloc_null:
  assumes wf: "cache_wf s c sps [] U" and 1: "kalloc s = (page, s1)" "page \<noteq> 0"
    and 2: "kalloc (s1\<lparr>mem := fill_page (mem s1) page 0\<rparr>) = (0, s2)"
  shows "free_pages s = {page}" and "cache_wf (kfree page s2) c sps [] U" and "cache_step s sps (kfree page s2) sps"
proof -
  let ?t = "s1\<lparr>mem := fill_page (mem s1) page 0\<rparr>"
  have pw: "phys_wf s" using wf by (simp add: cache_wf_def)
  note a = pa.alloc_page [OF pw 1] and k1 = kalloc_page(4) [OF pw 1]
  have wt: "phys_wf ?t" using a by simp
  note n = pa.alloc_null [OF wt 2]
  show f: "free_pages s = {page}" using a n by auto
  have pool: "page \<in> pool_pages s2" using a n free_pages_pool [OF pw] by auto
  note d = pa.dealloc_page [of s2 page]
  have fp: "free_pages (kfree page s2) = free_pages s" "pool_pages (kfree page s2) = pool_pages s" "phys_wf (kfree page s2)"
    using d pool n wt a f by auto
  have m: "mem (kfree page s2) x = mem s x" if "PGROUNDDOWN x \<noteq> page" for x
    using that n by (simp add: k1 fill_page_def)
  have new: "page \<notin> cache_pages sps" using f cache_pages_not_free [OF wf] by auto
  show "cache_step s sps (kfree page s2) sps" using fp m new f by (auto simp: cache_step_def)
  show "cache_wf (kfree page s2) c sps [] U"
  proof (rule cache_wf_frame [OF wf fp(3)])
    show "cache_pages sps \<subseteq> live_pages (kfree page s2)" using wf unfolding cache_wf_def live_pages_def fp by blast
    show "mem (kfree page s2) a = mem s a" if "PGROUNDDOWN a \<in> cache_pages sps" for a
      using m [of a] new that by metis
  qed
qed

lemma cache_step_refl: "cache_wf s c sps bs U \<Longrightarrow> cache_step s sps s sps"
  using cache_pages_not_free [of s c sps bs U] by (auto simp: cache_step_def cache_wf_def)

lemma kmem_cache_alloc_wf:
  assumes wf: "cache_wf s c sps bs U"
  obtains p c' s' sps' where "kmem_cache_alloc c s = Inr (p, c', s')" and "cache_step s sps s' sps'"
    and "objsize c' = objsize c"
    and "p = 0 \<and> c' = c \<and> sps' = sps \<and> cache_wf s' c sps bs U \<and> bs = [] \<and> card (free_pages s) \<le> 1 \<or>
      (\<exists>h bs'. p = h + 8 \<and> p \<noteq> 0 \<and> h \<notin> U \<and> cache_wf s' c' sps' bs' (insert h U))"
proof (cases "freelist c = 0")
  case False
  then obtain h bs' where bs: "bs = h # bs'" "freelist c = h" using wf by (cases bs) (auto simp: cache_wf_def)
  obtain c' s' where t: "take_block c s = Inr (h + 8, c', s')" "cache_wf s' c' sps bs' (insert h U)"
      "s' = s\<lparr>mem := (mem s)(h := header_word (objsize c) MAGIC)\<rparr>" "objsize c' = objsize c"
    using take_block_wf wf bs by blast
  have "h \<notin> U" using wf by (auto simp: cache_wf_def bs)
  moreover have "h + 8 \<noteq> 0" using cache_block_payload [OF wf, of h] by (simp add: bs)
  moreover have "cache_step s sps s' sps" using cache_step_write [OF wf, of h] by (simp add: t(3) bs)
  ultimately show ?thesis using that [of "h + 8" c' s' sps] t False by (auto simp: kmem_cache_alloc_def)
next
  case True
  then have bs: "bs = []" using wf chain_0 by (auto simp: cache_wf_def)
  obtain page s1 where k1: "kalloc s = (page, s1)" by fastforce
  have pw: "phys_wf s" using wf by (simp add: cache_wf_def)
  show ?thesis
  proof (cases "page = 0")
    case p0: True
    then have "free_pages s = {} \<and> s1 = s" using pa.alloc_null [OF pw] k1 by simp
    then show ?thesis
      using that [of 0 c s sps] True p0 k1 wf bs cache_step_refl [OF wf] by (simp add: kmem_cache_alloc_def)
  next
    case p: False
    obtain sp s2 where k2: "kalloc (s1\<lparr>mem := fill_page (mem s1) page 0\<rparr>) = (sp, s2)" by fastforce
    show ?thesis
    proof (cases "sp = 0")
      case sp0: True
      note n = kmem_cache_alloc_null [OF wf [unfolded bs] k1 p k2 [unfolded sp0]]
      show ?thesis
        using that [of 0 c "kfree page s2" sps] True p sp0 k1 k2 n bs by (simp add: kmem_cache_alloc_def)
    next
      case sp: False
      let ?a = "unat (actual_size c)"
      obtain fl m where sb: "split_blocks (4096 div ?a) page ?a (0, (mem s2)(sp := page, sp + 8 := pages c)) = (fl, m)"
        by fastforce
      note r = kmem_cache_refill [OF wf [unfolded bs] k1 p k2 sp sb]
      let ?s = "s2\<lparr>mem := m\<rparr>" and ?c = "c\<lparr>pages := sp, freelist := fl\<rparr>" and ?sps = "(sp, page) # sps"
      have a: "block_size ?a" using wf block_size_actual by (simp add: cache_wf_def)
      then have "0 < 4096 div ?a" by (simp add: block_size_def div_greater_zero_iff)
      then have "rev (blocks_of ?a page) \<noteq> []" by (simp add: blocks_of_def)
      then obtain h bs' where hb: "rev (blocks_of ?a page) = h # bs'" by (cases "rev (blocks_of ?a page)") auto
      obtain c' s' where t: "take_block ?c ?s = Inr (h + 8, c', s')" "cache_wf s' c' ?sps bs' (insert h U)"
          "s' = ?s\<lparr>mem := (mem ?s)(h := header_word (objsize ?c) MAGIC)\<rparr>" "objsize c' = objsize c"
        using take_block_wf [OF r(1) [unfolded hb]] by auto
      have alloc: "kmem_cache_alloc c s = Inr (h + 8, c', s')"
        using True p sp k1 k2 sb t(1) a by (simp add: kmem_cache_alloc_def block_size_def)
      have "h \<in> set (rev (blocks_of ?a page))" by (simp add: hb)
      then have hU: "h \<in> set (rev (blocks_of ?a page)) \<union> U" by blast
      have "h \<notin> U" using r(1) \<open>h \<in> set (rev (blocks_of ?a page))\<close> unfolding cache_wf_def by blast
      moreover have "h + 8 \<noteq> 0" by (rule cache_block_payload [OF r(1) hU])
      moreover have "cache_step ?s ?sps s' ?sps" unfolding t(3) by (rule cache_step_write [OF r(1) hU])
      ultimately have "h \<notin> U" "h + 8 \<noteq> 0" "cache_step ?s ?sps s' ?sps" by blast+
      then show ?thesis
        using that [OF alloc _ t(4)] cache_step_trans [OF r(2)] t(2) by blast
    qed
  qed
qed

subsection \<open>Destroying a cache\<close>

lemma destroy_loop_frees:
  assumes "phys_wf s" and "pchain (mem s) p sps" and "cache_pages sps \<subseteq> pool_pages s" and "length sps \<le> n"
  shows "\<exists>s'. destroy_loop n p s = Inr s' \<and> phys_wf s' \<and> mem s' = mem s \<and> pool_pages s' = pool_pages s \<and>
    free_pages s' = free_pages s \<union> cache_pages sps"
  using assms
proof (induction sps arbitrary: n p s)
  case Nil
  then show ?case by (cases n) (auto simp: cache_pages_def)
next
  case (Cons x sps)
  obtain sp pg where x: "x = (sp, pg)" by (cases x)
  obtain k where n: "n = Suc k" using Cons.prems(4) by (cases n) auto
  have p: "p = sp" "sp \<noteq> 0" "mem s sp = pg" "pchain (mem s) (mem s (sp + 8)) sps"
    using Cons.prems(2) by (auto simp: x)
  let ?t = "kfree sp (kfree pg s)"
  have pool: "pg \<in> pool_pages s" "sp \<in> pool_pages s" using Cons.prems(3) by (auto simp: x cache_pages_def)
  note d1 = pa.dealloc_page [OF Cons.prems(1) pool(1)]
  note d2 = pa.dealloc_page [of "kfree pg s" sp]
  have t: "phys_wf ?t" "pool_pages ?t = pool_pages s" "free_pages ?t = free_pages s \<union> {sp, pg}"
    using d1 d2 pool by auto
  have "cache_pages sps \<subseteq> pool_pages ?t" "length sps \<le> k" "pchain (mem ?t) (mem s (sp + 8)) sps"
    using Cons.prems(3,4) p(4) t(2) by (auto simp: x cache_pages_def n)
  from Cons.IH [OF t(1) this(3,1,2)] obtain s' where
    "destroy_loop k (mem s (sp + 8)) ?t = Inr s'" "phys_wf s'" "mem s' = mem s" "pool_pages s' = pool_pages s"
    "free_pages s' = free_pages s \<union> {sp, pg} \<union> cache_pages sps"
    using t by auto
  then show ?case using p by (auto simp: n x cache_pages_def)
qed

lemma pool_card: "phys_wf s \<Longrightarrow> card (pool_pages s) \<le> nat (km_npage s)"
proof -
  have sub: "{i. 0 < i \<and> int i < km_npage s} \<subseteq> {..< nat (km_npage s)}" by auto
  then have "finite {i. 0 < i \<and> int i < km_npage s}" by (rule finite_subset) simp
  then have "card (pool_pages s) \<le> card {i. 0 < i \<and> int i < km_npage s}"
    unfolding pool_pages_def by (rule card_image_le)
  also have "\<dots> \<le> nat (km_npage s)" using card_mono [OF _ sub] by simp
  finally show ?thesis .
qed

lemma kmem_cache_destroy_frees:
  assumes wf: "cache_wf s c sps bs U" and d: "d \<in> pool_pages s"
  shows "\<exists>s'. kmem_cache_destroy d c s = Inr s' \<and> phys_wf s' \<and>
    free_pages s' = free_pages s \<union> cache_pages sps \<union> {d} \<and> mem s' = mem s"
proof -
  have pw: "phys_wf s" and pc: "pchain (mem s) (pages c) sps" and sub: "cache_pages sps \<subseteq> pool_pages s"
    and dist: "distinct (map fst sps)" using wf by (auto simp: cache_wf_def live_pages_def)
  have "length sps = card (set (map fst sps))" using distinct_card [OF dist] by simp
  also have "\<dots> \<le> card (pool_pages s)"
    using sub finite_pool [OF pw] by (intro card_mono) (auto simp: cache_pages_def)
  finally have "length sps \<le> nat (km_npage s)" using pool_card [OF pw] by linarith
  from destroy_loop_frees [OF pw pc sub this] obtain s1 where
    "destroy_loop (nat (km_npage s)) (pages c) s = Inr s1" "phys_wf s1" "mem s1 = mem s"
    "pool_pages s1 = pool_pages s" "free_pages s1 = free_pages s \<union> cache_pages sps" by blast
  then show ?thesis using pa.dealloc_page [of s1 d] d by (auto simp: kmem_cache_destroy_def)
qed

subsection \<open>The interface of an object pool\<close>

text \<open>
  What the process table and the file layer rely on: \<open>inv s U\<close> says that exactly the objects \<open>U\<close>
  are handed out.
\<close>

locale object_pool =
  fixes get :: "'s \<Rightarrow> (u64 \<times> 's) res"
    and put :: "u64 \<Rightarrow> 's \<Rightarrow> 's res"
    and inv :: "'s \<Rightarrow> u64 set \<Rightarrow> bool"
  assumes get_spec: "inv s U \<Longrightarrow> \<exists>p s'. get s = Inr (p, s') \<and>
        (p = 0 \<and> inv s' U \<or> p \<noteq> 0 \<and> p \<notin> U \<and> inv s' (insert p U))"
    and put_spec: "inv s U \<Longrightarrow> p \<in> U \<Longrightarrow> \<exists>s'. put p s = Inr s' \<and> inv s' (U - {p})"
    and put_null: "put 0 s = Inr s"
    and no_null: "inv s U \<Longrightarrow> 0 \<notin> U"
begin

text \<open>A client run: each step asks for an object or returns the one it got \<open>n\<close> requests ago.\<close>

fun run :: "nat option list \<Rightarrow> u64 list \<Rightarrow> 's \<Rightarrow> (u64 list \<times> 's) res" where
  "run [] held s = Inr (held, s)"
| "run (None # ops) held s =
     rbind (get s) (\<lambda>(p, s1). run ops (if p = 0 then held else p # held) s1)"
| "run (Some n # ops) held s =
     (if n < length held then rbind (put (held ! n) s) (run ops (take n held @ drop (Suc n) held))
      else run ops held s)"

lemma held_remove:
  assumes "distinct held" and "n < length held"
  shows "distinct (take n held @ drop (Suc n) held)" and "set (take n held @ drop (Suc n) held) = set held - {held ! n}"
proof -
  have h: "held = take n held @ held ! n # drop (Suc n) held" using assms(2) by (rule id_take_nth_drop)
  have "distinct (take n held @ held ! n # drop (Suc n) held)" using assms(1) h by simp
  then show "distinct (take n held @ drop (Suc n) held)"
    and "set (take n held @ drop (Suc n) held) = set held - {held ! n}"
    using arg_cong [OF h, of set] by auto
qed

lemma run_safe:
  assumes "inv s (set held)" and "distinct held"
  shows "\<exists>held' s'. run ops held s = Inr (held', s') \<and> inv s' (set held') \<and> distinct held'"
  using assms
proof (induction ops arbitrary: held s)
  case (Cons x ops)
  show ?case
  proof (cases x)
    case None
    obtain p s1 where g: "get s = Inr (p, s1)"
      "p = 0 \<and> inv s1 (set held) \<or> p \<noteq> 0 \<and> p \<notin> set held \<and> inv s1 (insert p (set held))"
      using get_spec [OF Cons.prems(1)] by blast
    then have "inv s1 (set (if p = 0 then held else p # held))" "distinct (if p = 0 then held else p # held)"
      using Cons.prems(2) by auto
    from Cons.IH [OF this] g(1) show ?thesis by (simp add: None)
  next
    case (Some n)
    show ?thesis
    proof (cases "n < length held")
      case True
      obtain s1 where "put (held ! n) s = Inr s1" "inv s1 (set held - {held ! n})"
        using put_spec [OF Cons.prems(1) nth_mem [OF True]] by blast
      with Cons.IH [of s1] held_remove [OF Cons.prems(2) True] True show ?thesis by (simp add: Some)
    next
      case False
      with Cons show ?thesis by (simp add: Some)
    qed
  qed
qed simp

end

definition slab_get :: "kmem_cache \<times> 'a phys_scheme \<Rightarrow> (u64 \<times> kmem_cache \<times> 'a phys_scheme) res" where
  "slab_get = (\<lambda>(c, s). kmem_cache_alloc c s)"

definition slab_put :: "u64 \<Rightarrow> kmem_cache \<times> 'a phys_scheme \<Rightarrow> (kmem_cache \<times> 'a phys_scheme) res" where
  "slab_put p = (\<lambda>(c, s). kmem_cache_free c p s)"

definition slab_inv :: "kmem_cache \<times> 'a phys_scheme \<Rightarrow> u64 set \<Rightarrow> bool" where
  "slab_inv = (\<lambda>(c, s) U. \<exists>sps bs V. U = (\<lambda>h. h + 8) ` V \<and> cache_wf s c sps bs V)"

lemma add8_image [simp]: "(h + 8 :: u64) \<in> (\<lambda>h. h + 8) ` V \<longleftrightarrow> h \<in> V"
  by (auto simp: image_iff)

interpretation slab: object_pool slab_get slab_put slab_inv
proof unfold_locales
  fix st :: "kmem_cache \<times> 'a phys_scheme" and U
  assume inv: "slab_inv st U"
  obtain c s where st: "st = (c, s)" by (cases st)
  obtain sps bs V where V: "U = (\<lambda>h. h + 8) ` V" "cache_wf s c sps bs V" using inv by (auto simp: slab_inv_def st)
  obtain p c' s' sps' where a: "kmem_cache_alloc c s = Inr (p, c', s')"
    "p = 0 \<and> c' = c \<and> sps' = sps \<and> cache_wf s' c sps bs V \<and> bs = [] \<and> card (free_pages s) \<le> 1 \<or>
      (\<exists>h bs'. p = h + 8 \<and> p \<noteq> 0 \<and> h \<notin> V \<and> cache_wf s' c' sps' bs' (insert h V))"
    using kmem_cache_alloc_wf [OF V(2)] by metis
  show "\<exists>p s'. slab_get st = Inr (p, s') \<and> (p = 0 \<and> slab_inv s' U \<or> p \<noteq> 0 \<and> p \<notin> U \<and> slab_inv s' (insert p U))"
  proof (cases "p = 0")
    case True
    then have "slab_inv (c', s') U" using a(2) V(1) by (auto simp: slab_inv_def)
    then show ?thesis using a(1) True by (auto simp: slab_get_def st)
  next
    case False
    then obtain h bs' where h: "p = h + 8" "h \<notin> V" "cache_wf s' c' sps' bs' (insert h V)" using a(2) by blast
    then have "insert p U = (\<lambda>h. h + 8) ` insert h V" using V(1) by simp
    then have "slab_inv (c', s') (insert p U)" using h(3) unfolding slab_inv_def by blast
    then show ?thesis using a(1) False h V(1) by (auto simp: slab_get_def st)
  qed
  show "0 \<notin> U" using cache_block_payload [OF V(2)] V(1) by (auto simp: image_iff)
  show "\<exists>s'. slab_put p st = Inr s' \<and> slab_inv s' (U - {p})" if p: "p \<in> U" for p
  proof -
    obtain h where h: "p = h + 8" "h \<in> V" using p V(1) by auto
    obtain c' s' where f: "kmem_cache_free c (h + 8) s = Inr (c', s')" "cache_wf s' c' sps (h # bs) (V - {h})"
      using kmem_cache_free_wf [OF V(2) h(2)] cache_block_payload [OF V(2)] h(2) by blast
    have "U - {p} = (\<lambda>h. h + 8) ` (V - {h})" using V(1) h(1) by auto
    then have "slab_inv (c', s') (U - {p})" using f(2) unfolding slab_inv_def by blast
    then show ?thesis using f(1) h(1) by (simp add: slab_put_def st)
  qed
qed (auto simp: slab_put_def kmem_cache_free_def)

subsection \<open>The buckets\<close>

lemma get_bucket_from_spec:
  assumes "\<exists>b \<in> set bs. sz \<le> b"
  shows "\<exists>i<length bs. get_bucket_from bs k sz = k + int i \<and> sz \<le> bs ! i \<and> (\<forall>j<i. bs ! j < sz)"
  using assms
proof (induction bs k sz rule: get_bucket_from.induct)
  case (2 b bs k sz)
  show ?case
  proof (cases "sz \<le> b")
    case False
    then obtain i where "i < length bs" "get_bucket_from bs (k + 1) sz = k + 1 + int i" "sz \<le> bs ! i"
        "\<forall>j<i. bs ! j < sz"
      using 2 by auto
    with False show ?thesis by (intro exI [of _ "Suc i"]) (auto simp: less_Suc_eq_0_disj)
  qed auto
qed simp

lemma get_bucket_idx_fits:
  assumes "sz \<le> MAX_BUCKET"
  obtains i where "i < 9" and "get_bucket_idx sz = int i" and "sz \<le> bucket_sizes ! i"
    and "\<forall>j<i. bucket_sizes ! j < sz"
proof -
  have "\<exists>b \<in> set bucket_sizes. sz \<le> b" using assms by (simp add: bucket_sizes_def MAX_BUCKET_def)
  from get_bucket_from_spec [OF this, of 0] obtain i where
    "i < length bucket_sizes" "get_bucket_idx sz = int i" "sz \<le> bucket_sizes ! i" "\<forall>j<i. bucket_sizes ! j < sz"
    unfolding get_bucket_idx_def by auto
  moreover have "length bucket_sizes = 9" by (simp add: bucket_sizes_def)
  ultimately show ?thesis using that by simp
qed

lemma get_bucket_idx_size:
  assumes "i < 9"
  shows "get_bucket_idx (bucket_sizes ! i) = int i"
proof -
  have "\<forall>i \<in> set [0..<9]. get_bucket_idx (bucket_sizes ! i) = int i" by code_simp
  then show ?thesis using assms by auto
qed

lemma buckets_update_phys [simp]:
  "phys_wf (s\<lparr>buckets := b\<rparr>) = phys_wf s" "free_pages (s\<lparr>buckets := b\<rparr>) = free_pages s"
  "pool_pages (s\<lparr>buckets := b\<rparr>) = pool_pages s" "live_pages (s\<lparr>buckets := b\<rparr>) = live_pages s"
  by (simp_all add: phys_wf_def free_pages_def pool_pages_def live_pages_def page_addr_def)

lemma cache_wf_buckets [simp]: "cache_wf (s\<lparr>buckets := b\<rparr>) = cache_wf s"
  by (simp add: cache_wf_def fun_eq_iff)

lemma kalloc_buckets: "kalloc s = (p, s') \<Longrightarrow> buckets s' = buckets s"
  by (auto simp: kalloc_def Let_def split: option.splits)

lemma kmem_cache_alloc_buckets: "kmem_cache_alloc c s = Inr (p, c', s') \<Longrightarrow> buckets s' = buckets s"
  by (auto simp: kmem_cache_alloc_def take_block_def kfree_def Let_def dest!: kalloc_buckets
      split: prod.splits if_splits)

text \<open>The nine buckets are caches with disjoint pages; \<open>G\<close> lists their records, free and used blocks.\<close>

definition heap_wf :: "'a kheap_scheme \<Rightarrow> ((u64 \<times> u64) list \<times> u64 list \<times> u64 set) list \<Rightarrow> bool" where
  "heap_wf s G \<longleftrightarrow>
     length (buckets s) = 9 \<and> length G = 9 \<and>
     (\<forall>i<9. objsize (buckets s ! i) = bucket_sizes ! i \<and>
        cache_wf s (buckets s ! i) (fst (G ! i)) (fst (snd (G ! i))) (snd (snd (G ! i)))) \<and>
     (\<forall>i<9. \<forall>j<9. i \<noteq> j \<longrightarrow> cache_pages (fst (G ! i)) \<inter> cache_pages (fst (G ! j)) = {})"

lemma heap_wf_update:
  assumes wf: "heap_wf s G" and i: "i < 9" and st: "cache_step s (fst (G ! i)) s' sps"
    and c: "cache_wf s' c sps bs U" "objsize c = bucket_sizes ! i" and b: "buckets s' = buckets s"
  shows "heap_wf (s'\<lparr>buckets := (buckets s')[i := c]\<rparr>) (G[i := (sps, bs, U)])"
proof -
  have other: "cache_wf s' (buckets s ! j) (fst (G ! j)) (fst (snd (G ! j))) (snd (snd (G ! j)))"
    and disj: "cache_pages sps \<inter> cache_pages (fst (G ! j)) = {}" if j: "j < 9" "j \<noteq> i" for j
  proof -
    have w: "cache_wf s (buckets s ! j) (fst (G ! j)) (fst (snd (G ! j))) (snd (snd (G ! j)))"
      and d: "cache_pages (fst (G ! i)) \<inter> cache_pages (fst (G ! j)) = {}"
      using wf j i by (auto simp: heap_wf_def)
    note nf = cache_pages_not_free [OF w]
    show "cache_pages sps \<inter> cache_pages (fst (G ! j)) = {}" using st d nf unfolding cache_step_def by blast
    show "cache_wf s' (buckets s ! j) (fst (G ! j)) (fst (snd (G ! j))) (snd (snd (G ! j)))"
    proof (rule cache_wf_frame [OF w])
      show "phys_wf s'" using st by (simp add: cache_step_def)
      have "cache_pages (fst (G ! j)) \<subseteq> live_pages s" using w by (simp add: cache_wf_def)
      with st show "cache_pages (fst (G ! j)) \<subseteq> live_pages s'" unfolding cache_step_def live_pages_def by blast
      show "mem s' a = mem s a" if "PGROUNDDOWN a \<in> cache_pages (fst (G ! j))" for a
        using that st d nf unfolding cache_step_def by blast
    qed
  qed
  have len: "length (buckets s) = 9" "length G = 9" using wf by (simp_all add: heap_wf_def)
  have "objsize ((buckets s)[i := c] ! j) = bucket_sizes ! j \<and>
      cache_wf s' ((buckets s)[i := c] ! j) (fst (G[i := (sps, bs, U)] ! j))
        (fst (snd (G[i := (sps, bs, U)] ! j))) (snd (snd (G[i := (sps, bs, U)] ! j)))" if "j < 9" for j
    using that wf other c len i by (cases "j = i") (auto simp: heap_wf_def)
  moreover have "cache_pages (fst (G[i := (sps, bs, U)] ! j)) \<inter> cache_pages (fst (G[i := (sps, bs, U)] ! k)) = {}"
    if "j < 9" "k < 9" "j \<noteq> k" for j k
    using that wf disj len i by (auto simp: heap_wf_def nth_list_update Int_commute)
  ultimately show ?thesis using len b by (simp add: heap_wf_def)
qed

lemma kmalloc_bucket:
  assumes wf: "heap_wf s G" and sz: "0 < sz" "sz \<le> MAX_BUCKET"
  obtains p s' G' i where "kmalloc sz s = Inr (p, s')" and "heap_wf s' G'" and "i < 9"
    and "sz \<le> bucket_sizes ! i" and "\<forall>j<i. bucket_sizes ! j < sz"
    and "p = 0 \<and> G' = G \<and> card (free_pages s) \<le> 1 \<or>
      p \<noteq> 0 \<and> p - 8 \<notin> snd (snd (G ! i)) \<and> (\<exists>sps bs. G' = G[i := (sps, bs, insert (p - 8) (snd (snd (G ! i))))])"
proof -
  obtain i where i: "i < 9" "get_bucket_idx sz = int i" "sz \<le> bucket_sizes ! i" "\<forall>j<i. bucket_sizes ! j < sz"
    using get_bucket_idx_fits [OF sz(2)] .
  obtain sps bs U where g: "G ! i = (sps, bs, U)" by (cases "G ! i")
  have w: "cache_wf s (buckets s ! i) sps bs U" "objsize (buckets s ! i) = bucket_sizes ! i"
    using wf i(1) g by (auto simp: heap_wf_def)
  obtain p c' s' sps' where a: "kmem_cache_alloc (buckets s ! i) s = Inr (p, c', s')"
    "cache_step s sps s' sps'" "objsize c' = objsize (buckets s ! i)"
    "p = 0 \<and> c' = buckets s ! i \<and> sps' = sps \<and> cache_wf s' (buckets s ! i) sps bs U \<and> bs = [] \<and> card (free_pages s) \<le> 1 \<or>
      (\<exists>h bs'. p = h + 8 \<and> p \<noteq> 0 \<and> h \<notin> U \<and> cache_wf s' c' sps' bs' (insert h U))"
    using kmem_cache_alloc_wf [OF w(1)] .
  let ?s = "s'\<lparr>buckets := (buckets s')[i := c']\<rparr>"
  have k: "kmalloc sz s = Inr (p, ?s)"
    using sz(1) leD [OF sz(2)] a(1) i(2) by (auto simp: kmalloc_def Let_def)
  note up = heap_wf_update [OF wf i(1) _ _ _ kmem_cache_alloc_buckets [OF a(1)]]
  show ?thesis
  proof (cases "p = 0")
    case True
    then have c: "c' = buckets s ! i" "sps' = sps" "cache_wf s' c' sps bs U" "card (free_pages s) \<le> 1" using a(4) by auto
    have "heap_wf ?s (G[i := (sps, bs, U)])" using up [of sps c' bs U] a(2,3) c w(2) g by simp
    then have "heap_wf ?s G" using g by (metis list_update_id)
    with that [OF k _ i(1,3,4)] True c(4) show ?thesis by blast
  next
    case False
    then obtain h bs' where h: "p = h + 8" "h \<notin> U" "cache_wf s' c' sps' bs' (insert h U)" using a(4) by blast
    have "heap_wf ?s (G[i := (sps', bs', insert h U)])" using up [of sps' c' bs' "insert h U"] a(2,3) h(3) w(2) g by simp
    with that [OF k _ i(1,3,4)] False h(1,2) g show ?thesis by auto
  qed
qed

lemma kmfree_bucket:
  assumes wf: "heap_wf s G" and i: "i < 9" and h: "h \<in> snd (snd (G ! i))"
  obtains s' where "kmfree (h + 8) s = Inr s'"
    and "heap_wf s' (G[i := (fst (G ! i), h # fst (snd (G ! i)), snd (snd (G ! i)) - {h})])"
proof -
  obtain sps bs U where g: "G ! i = (sps, bs, U)" by (cases "G ! i")
  have w: "cache_wf s (buckets s ! i) sps bs U" "objsize (buckets s ! i) = bucket_sizes ! i" and hU: "h \<in> U"
    using wf i g h by (auto simp: heap_wf_def)
  have nz: "h + 8 \<noteq> 0" and al: "(h + 8) mod PGSIZE \<noteq> 0"
    using cache_block_payload [OF w(1), of h] cache_block(3) [OF w(1), of h] hU by simp_all
  have hd: "mem s h = header_word (bucket_sizes ! i) MAGIC" using cache_header [OF w(1) hU] w(2) by simp
  obtain c' s' where f: "kmem_cache_free (buckets s ! i) (h + 8) s = Inr (c', s')"
    "cache_wf s' c' sps (h # bs) (U - {h})" "s' = s\<lparr>mem := (mem s)(h := freelist (buckets s ! i))\<rparr>"
    "objsize c' = objsize (buckets s ! i)"
    using kmem_cache_free_wf [OF w(1) hU nz] by blast
  have "cache_step s sps s' sps" unfolding f(3) by (rule cache_step_write [OF w(1)]) (use hU in simp)
  then have "heap_wf (s'\<lparr>buckets := (buckets s')[i := c']\<rparr>) (G[i := (sps, h # bs, U - {h})])"
    using heap_wf_update [OF wf i _ f(2)] f(3,4) w(2) g by simp
  moreover have "kmfree (h + 8) s = Inr (s'\<lparr>buckets := (buckets s')[i := c']\<rparr>)"
    using nz al hd f(1) get_bucket_idx_size [OF i] by (simp add: kmfree_def)
  ultimately show ?thesis using that g by simp
qed

subsection \<open>Properties\<close>

text \<open>
  C21. \<^verbatim>\<open>kmem_cache_alloc\<close> on a well-formed cache never runs into the null free list: it returns null
  only when no block is free and at most one page is left, with the cache unchanged; otherwise
  it returns the payload of a block that was not handed out, which then is, and the pointer is
  never page aligned. Memory outside the cache's pages and the free pages is untouched.
\<close>

theorem kmem_cache_alloc_correct:
  assumes "cache_wf s c sps bs U"
  shows "\<exists>p c' s' sps'. kmem_cache_alloc c s = Inr (p, c', s') \<and>
    (\<forall>a. PGROUNDDOWN a \<notin> cache_pages sps \<union> free_pages s \<longrightarrow> mem s' a = mem s a) \<and>
    (p = 0 \<longrightarrow> bs = [] \<and> card (free_pages s) \<le> 1 \<and> cache_wf s' c' sps bs U) \<and>
    (p \<noteq> 0 \<longrightarrow> p - 8 \<notin> U \<and> p mod PGSIZE \<noteq> 0 \<and> (\<exists>bs'. cache_wf s' c' sps' bs' (insert (p - 8) U)))"
proof -
  obtain p c' s' sps' where a: "kmem_cache_alloc c s = Inr (p, c', s')" "cache_step s sps s' sps'"
    "p = 0 \<and> c' = c \<and> sps' = sps \<and> cache_wf s' c sps bs U \<and> bs = [] \<and> card (free_pages s) \<le> 1 \<or>
      (\<exists>h bs'. p = h + 8 \<and> p \<noteq> 0 \<and> h \<notin> U \<and> cache_wf s' c' sps' bs' (insert h U))"
    using kmem_cache_alloc_wf [OF assms] by metis
  show ?thesis
  proof (cases "p = 0")
    case True
    with a show ?thesis by (auto simp: cache_step_def)
  next
    case False
    then obtain h bs' where h: "p = h + 8" "h \<notin> U" "cache_wf s' c' sps' bs' (insert h U)" using a(3) by blast
    then have "p mod PGSIZE \<noteq> 0" using cache_block(3) [OF h(3), of h] by simp
    with a(1,2) h False show ?thesis by (intro exI [of _ p] exI [of _ c'] exI [of _ s'] exI [of _ sps'])
        (auto simp: cache_step_def)
  qed
qed

definition demo_cache :: kmem_cache where
  "demo_cache = \<lparr>freelist = 0, objsize = 64, pages = 0\<rparr>"

lemma demo_cache_wf: "cache_wf demo_phys demo_cache [] [] {}"
  using demo_phys_wf by (simp add: cache_wf_def demo_cache_def cache_pages_def)

lemma demo_cache_alloc:
  "map_sum id fst (kmem_cache_alloc demo_cache demo_phys) = Inr 0x87FFAFA8"
  by code_simp

theorem kmem_cache_alloc_correct_witness:
  "\<exists>c' s' sps' bs'. kmem_cache_alloc demo_cache demo_phys = Inr (0x87FFAFA8, c', s') \<and>
     cache_wf s' c' sps' bs' {0x87FFAFA0}"
  using kmem_cache_alloc_correct [OF demo_cache_wf] demo_cache_alloc by fastforce

text \<open>
  \<^verbatim>\<open>kmem_cache_free\<close> of a handed-out object puts its block at the head of the free list and
  keeps the invariant; freeing it a second time, or freeing any block that is on the free
  list, ends in the panic \<^verbatim>\<open>double free or invalid free\<close>.
\<close>

theorem kmem_cache_free_correct:
  assumes "cache_wf s c sps bs U"
  shows "(\<forall>h \<in> U. \<exists>c' s'. kmem_cache_free c (h + 8) s = Inr (c', s') \<and>
        cache_wf s' c' sps (h # bs) (U - {h}) \<and>
        kmem_cache_free c' (h + 8) s' = Inl (Panic ''double free or invalid free'')) \<and>
    (\<forall>h \<in> set bs. kmem_cache_free c (h + 8) s = Inl (Panic ''double free or invalid free''))"
proof (intro conjI ballI)
  fix h assume h: "h \<in> U"
  have nz: "h + 8 \<noteq> 0" using cache_block_payload [OF assms, of h] h by simp
  obtain c' s' where f: "kmem_cache_free c (h + 8) s = Inr (c', s')" "cache_wf s' c' sps (h # bs) (U - {h})"
    using kmem_cache_free_wf [OF assms h nz] by blast
  then show "\<exists>c' s'. kmem_cache_free c (h + 8) s = Inr (c', s') \<and> cache_wf s' c' sps (h # bs) (U - {h}) \<and>
      kmem_cache_free c' (h + 8) s' = Inl (Panic ''double free or invalid free'')"
    using kmem_cache_double_free [OF f(2), of h] nz by auto
next
  fix h assume "h \<in> set bs"
  then show "kmem_cache_free c (h + 8) s = Inl (Panic ''double free or invalid free'')"
    using kmem_cache_double_free [OF assms] cache_block_payload [OF assms, of h] by simp
qed

theorem kmem_cache_free_correct_witness:
  "\<exists>c s. map_sum id fst (kmem_cache_alloc demo_cache demo_phys) = Inr 0x87FFAFA8 \<and>
     kmem_cache_alloc demo_cache demo_phys = Inr (0x87FFAFA8, c, s) \<and>
     (\<exists>c' s'. kmem_cache_free c 0x87FFAFA8 s = Inr (c', s') \<and>
        kmem_cache_free c' 0x87FFAFA8 s' = Inl (Panic ''double free or invalid free''))"
proof -
  obtain p c s sps where a: "kmem_cache_alloc demo_cache demo_phys = Inr (p, c, s)"
    "p = 0 \<and> c = demo_cache \<and> sps = [] \<and> cache_wf s demo_cache [] [] {} \<and> [] = ([] :: u64 list) \<and> card (free_pages demo_phys) \<le> 1 \<or>
      (\<exists>h bs'. p = h + 8 \<and> p \<noteq> 0 \<and> h \<notin> {} \<and> cache_wf s c sps bs' (insert h {}))"
    using kmem_cache_alloc_wf [OF demo_cache_wf] by metis
  have p: "p = 0x87FFAFA8" using a(1) demo_cache_alloc by simp
  then obtain h bs' where h: "p = h + 8" "cache_wf s c sps bs' {h}" using a(2) by auto
  from kmem_cache_free_correct [OF h(2)] obtain c' s' where
    "kmem_cache_free c (h + 8) s = Inr (c', s')"
    "kmem_cache_free c' (h + 8) s' = Inl (Panic ''double free or invalid free'')" by auto
  then show ?thesis using a(1) demo_cache_alloc p h(1) by auto
qed

text \<open>
  \<^verbatim>\<open>kmem_cache_destroy\<close> terminates and gives back exactly the slab pages, their records and the
  page of the descriptor, whatever objects are still handed out.
\<close>

theorem kmem_cache_destroy_correct:
  assumes "cache_wf s c sps bs U" and "cache \<in> live_pages s"
  shows "\<exists>s'. kmem_cache_destroy cache c s = Inr s' \<and> phys_wf s' \<and>
    free_pages s' = free_pages s \<union> cache_pages sps \<union> {cache} \<and> mem s' = mem s"
  using kmem_cache_destroy_frees [OF assms(1)] assms(2) by (auto simp: live_pages_def)

theorem kmem_cache_destroy_correct_witness:
  "\<exists>s'. kmem_cache_destroy 0x87FF9000 demo_cache demo_phys = Inr s' \<and> 0x87FF9000 \<in> free_pages s'"
proof -
  have "page_addr demo_phys 1 \<in> live_pages demo_phys"
  proof -
    have n: "km_npage demo_phys = 8" "page_used (km_bitmap demo_phys) 1" by (simp_all add: demo_phys_def page_used_def)
    then have "page_addr demo_phys 1 \<noteq> page_addr demo_phys i" if "int i < 8" "\<not> page_used (km_bitmap demo_phys) i" for i
      using page_addr_inj [OF demo_phys_wf, of 1 i] that by auto
    then show ?thesis using n unfolding live_pages_def pool_pages_def free_pages_def by force
  qed
  then have "0x87FF9000 \<in> live_pages demo_phys" by (simp add: page_addr_def demo_phys_def rv_const)
  from kmem_cache_destroy_correct [OF demo_cache_wf this] show ?thesis by blast
qed

text \<open>
  C22. \<^verbatim>\<open>kmalloc\<close> and \<^verbatim>\<open>kmfree\<close> for sizes up to \<^verbatim>\<open>MAX_BUCKET\<close>: the request is served from the smallest
  bucket that holds it, the result is null only when at most one page is free, and \<^verbatim>\<open>kmfree\<close>
  of the result finds the same bucket through the header and restores the set of handed-out
  blocks of every bucket.
\<close>

theorem kmalloc_kmfree_roundtrip:
  assumes "heap_wf s G" and "0 < sz" and "sz \<le> MAX_BUCKET"
  shows "\<exists>p s'. kmalloc sz s = Inr (p, s') \<and> (p = 0 \<longrightarrow> card (free_pages s) \<le> 1) \<and>
    (p \<noteq> 0 \<longrightarrow> p mod PGSIZE \<noteq> 0 \<and> sz \<le> header_size (mem s' (p - 8)) \<and>
       (\<forall>b \<in> set bucket_sizes. sz \<le> b \<longrightarrow> header_size (mem s' (p - 8)) \<le> b) \<and>
       (\<exists>s'' G''. kmfree p s' = Inr s'' \<and> heap_wf s'' G'' \<and> map (snd \<circ> snd) G'' = map (snd \<circ> snd) G))"
proof -
  obtain p s' G' i where k: "kmalloc sz s = Inr (p, s')" "heap_wf s' G'" "i < 9" "sz \<le> bucket_sizes ! i"
    "\<forall>j<i. bucket_sizes ! j < sz"
    "p = 0 \<and> G' = G \<and> card (free_pages s) \<le> 1 \<or>
      p \<noteq> 0 \<and> p - 8 \<notin> snd (snd (G ! i)) \<and> (\<exists>sps bs. G' = G[i := (sps, bs, insert (p - 8) (snd (snd (G ! i))))])"
    using kmalloc_bucket [OF assms] .
  show ?thesis
  proof (cases "p = 0")
    case True
    with k show ?thesis by auto
  next
    case False
    then obtain sps bs where G': "p - 8 \<notin> snd (snd (G ! i))" "G' = G[i := (sps, bs, insert (p - 8) (snd (snd (G ! i))))]"
      using k(6) by blast
    have len: "length G = 9" using assms(1) by (simp add: heap_wf_def)
    then have gi: "G' ! i = (sps, bs, insert (p - 8) (snd (snd (G ! i))))" using k(3) G'(2) by simp
    have w: "cache_wf s' (buckets s' ! i) sps bs (insert (p - 8) (snd (snd (G ! i))))"
      "objsize (buckets s' ! i) = bucket_sizes ! i"
      using k(2,3) gi by (auto simp: heap_wf_def)
    have hd: "header_size (mem s' (p - 8)) = bucket_sizes ! i" using cache_header [OF w(1), of "p - 8"] w(2) by simp
    have al: "p mod PGSIZE \<noteq> 0" using cache_block(3) [OF w(1), of "p - 8"] by simp
    have best: "bucket_sizes ! i \<le> b" if b: "b \<in> set bucket_sizes" "sz \<le> b" for b
    proof -
      obtain j where j: "j < length bucket_sizes" "bucket_sizes ! j = b" using b(1) by (auto simp: in_set_conv_nth)
      then have "i \<le> j" using k(5) b(2) by (metis leD not_less)
      moreover have "sorted bucket_sizes" by (simp add: bucket_sizes_def)
      ultimately show ?thesis using j sorted_nth_mono by blast
    qed
    obtain s'' where f: "kmfree (p - 8 + 8) s' = Inr s''"
      "heap_wf s'' (G'[i := (fst (G' ! i), (p - 8) # fst (snd (G' ! i)), snd (snd (G' ! i)) - {p - 8})])"
      using kmfree_bucket [OF k(2,3), of "p - 8"] gi by auto
    have "map (snd \<circ> snd) (G'[i := (fst (G' ! i), (p - 8) # fst (snd (G' ! i)), snd (snd (G' ! i)) - {p - 8})])
        = map (snd \<circ> snd) G"
    proof (rule nth_equalityI)
      fix j assume "j < length (map (snd \<circ> snd) (G'[i := (fst (G' ! i), (p - 8) # fst (snd (G' ! i)), snd (snd (G' ! i)) - {p - 8})]))"
      then show "map (snd \<circ> snd) (G'[i := (fst (G' ! i), (p - 8) # fst (snd (G' ! i)), snd (snd (G' ! i)) - {p - 8})]) ! j
        = map (snd \<circ> snd) G ! j"
        using G' len k(3) gi by (cases "j = i") auto
    qed (simp add: G'(2))
    with k(1,4) False hd al best f show ?thesis by auto
  qed
qed

definition demo_heap :: kheap where
  "demo_heap = \<lparr>mem = (\<lambda>_. 0), km_start = 0x87FF8000, km_npage = 8, km_bitmap = [0x83],
     buckets = map (\<lambda>sz. \<lparr>freelist = 0, objsize = sz, pages = 0\<rparr>) bucket_sizes\<rparr>"

lemma demo_heap_wf: "heap_wf demo_heap (replicate 9 ([], [], {}))"
proof -
  have p: "phys_wf demo_heap" by (simp add: phys_wf_def demo_heap_def page_used_def rv_const)
  have len: "length bucket_sizes = 9" by (simp add: bucket_sizes_def)
  have small: "unat b \<le> 4088" if "b \<in> set bucket_sizes" for b using that by (auto simp: bucket_sizes_def)
  have b: "buckets demo_heap ! i = \<lparr>freelist = 0, objsize = bucket_sizes ! i, pages = 0\<rparr>" if "i < 9" for i
    using that len by (simp add: demo_heap_def)
  have "cache_wf demo_heap \<lparr>freelist = 0, objsize = bucket_sizes ! i, pages = 0\<rparr> [] [] {}" if "i < 9" for i
    using p small [of "bucket_sizes ! i"] that len by (simp add: cache_wf_def cache_pages_def)
  then show ?thesis using len b by (simp add: heap_wf_def cache_pages_def) (simp add: demo_heap_def len)
qed

lemma demo_kmalloc: "map_sum id fst (kmalloc 100 demo_heap) = Inr 0x87FFAF38"
  by code_simp

theorem kmalloc_kmfree_roundtrip_witness:
  "\<exists>s' s''. kmalloc 100 demo_heap = Inr (0x87FFAF38, s') \<and> kmfree 0x87FFAF38 s' = Inr s''"
  using kmalloc_kmfree_roundtrip [OF demo_heap_wf, of 100] demo_kmalloc
  by (auto simp: MAX_BUCKET_def)

end
