(* ===== verification/RV_Pagetable.thy ===== *)
theory RV_Pagetable
  imports RV_Kalloc
begin

text \<open>
  The Sv39 page tables of \<^verbatim>\<open>kernelspace/mm/pagetable.c\<close>: \<^verbatim>\<open>walk\<close>, \<^verbatim>\<open>mappages\<close>, \<^verbatim>\<open>uvmunmap\<close>,
  \<^verbatim>\<open>freewalk\<close>, and the construction and teardown of the kernel's and of a process's address
  space. Tables are pages of physical memory; a pointer to an entry is its address, and 0 is
  the null pointer.

  The abstraction: \<open>tab m root p\<close> is the table page reached from \<open>root\<close> along the index list
  \<open>p\<close>, and \<open>leaf m root [i, j, k]\<close> the last-level entry (0 where a table is missing).
  \<open>pt_wf\<close> says that the tables of one root are distinct allocated pages. The lemmas show that
  \<^verbatim>\<open>walk\<close> never changes a translation, that \<^verbatim>\<open>mappages\<close> changes exactly the pages of its range,
  and that the teardown returns every table page.
\<close>

subsection \<open>Operations\<close>

definition pte_addr :: "u64 \<Rightarrow> nat \<Rightarrow> u64" where
  "pte_addr pt i = pt + 8 * of_nat i"

text \<open>Clear the 512 entries of a fresh table and link it: lines 44 and 45 of \<^verbatim>\<open>walk\<close>.\<close>

definition add_table :: "u64 \<Rightarrow> u64 \<Rightarrow> 'a phys_scheme \<Rightarrow> 'a phys_scheme" where
  "add_table pte np s = s\<lparr>mem := (fill_page (mem s) np 0)(pte := PA2PTE np OR PTE_V)\<rparr>"

fun walk_loop :: "nat \<Rightarrow> u64 \<Rightarrow> u64 \<Rightarrow> bool \<Rightarrow> 'a phys_scheme \<Rightarrow> u64 \<times> 'a phys_scheme" where
  "walk_loop 0 pt va alloc s = (pte_addr pt (unat (PX 0 va)), s)"
| "walk_loop (Suc l) pt va alloc s =
     (let pte = pte_addr pt (unat (PX (Suc l) va)) in
      if mem s pte AND PTE_V \<noteq> 0 then walk_loop l (PTE2PA (mem s pte)) va alloc s
      else if \<not> alloc then (0, s)
      else
        let (np, s1) = kalloc s in
        if np = 0 then (0, s1)
        else walk_loop l np va alloc (add_table pte np s1))"

definition walk :: "u64 \<Rightarrow> u64 \<Rightarrow> bool \<Rightarrow> 'a phys_scheme \<Rightarrow> u64 \<times> 'a phys_scheme" where
  "walk pt va alloc s = (if MAXVA < va then (0, s) else walk_loop 2 pt va alloc s)"

text \<open>One iteration of the loop of \<^verbatim>\<open>mappages\<close>: the result says whether the page was entered.\<close>

definition map_page :: "u64 \<Rightarrow> u64 \<Rightarrow> u64 \<Rightarrow> u64 \<Rightarrow> 'a phys_scheme \<Rightarrow> bool \<times> 'a phys_scheme" where
  "map_page pt perm a pa s =
     (let (pte, s1) = walk pt a True s in
      if pte = 0 then (False, s1)
      else if mem s1 pte AND PTE_V \<noteq> 0 then (False, s1)
      else (True, s1\<lparr>mem := (mem s1)(pte := PA2PTE pa OR perm OR PTE_V)\<rparr>))"

lemma map_page_progress:
  assumes "map_page pt perm a pa s = (True, s1)"
  shows "a \<le> MAXVA" and "unat a < unat (a + PGSIZE)"
proof -
  show a: "a \<le> MAXVA"
    using assms by (auto simp: map_page_def walk_def not_less split: prod.splits if_splits)
  then have "unat a \<le> 0x4000000000" by (simp add: word_le_nat_alt rv_const)
  then have "unat (a + PGSIZE) = unat a + 4096"
    using unat_add_lem [of a PGSIZE] by (simp add: PGSIZE_def)
  then show "unat a < unat (a + PGSIZE)" by simp
qed

function mappages_loop ::
    "u64 \<Rightarrow> u64 \<Rightarrow> u64 \<Rightarrow> u64 \<Rightarrow> u64 \<Rightarrow> 'a phys_scheme \<Rightarrow> int \<times> 'a phys_scheme" where
  "mappages_loop pt a lastva pa perm s =
     (let (entered, s1) = map_page pt perm a pa s in
      if \<not> entered then (-1, s1)
      else if a = lastva then (0, s1)
      else mappages_loop pt (a + PGSIZE) lastva (pa + PGSIZE) perm s1)"
  by pat_completeness auto
termination
  by (relation "measure (\<lambda>(pt, a, lastva, pa, perm, s). Suc (unat MAXVA) - unat a)")
     (auto dest!: sym [of "(_, _)"] dest: map_page_progress simp: word_le_nat_alt intro!: diff_less_mono2
       le_imp_less_Suc)

declare mappages_loop.simps [simp del]

definition mappages :: "u64 \<Rightarrow> u64 \<Rightarrow> u64 \<Rightarrow> u64 \<Rightarrow> u64 \<Rightarrow> 'a phys_scheme \<Rightarrow> int \<times> 'a phys_scheme" where
  "mappages pt va pa sz perm s =
     mappages_loop pt (PGROUNDDOWN va) (PGROUNDDOWN (va + sz - 1)) pa perm s"

text \<open>
  The loop of \<^verbatim>\<open>uvmunmap\<close> runs while \<open>a < va + npages*PGSIZE\<close>; \<open>va\<close> is page aligned there, so
  it runs \<open>(end - va) / PGSIZE\<close> times when \<open>va < end\<close> and not at all otherwise.
\<close>

definition unmap_page :: "u64 \<Rightarrow> bool \<Rightarrow> u64 \<Rightarrow> 'a phys_scheme \<Rightarrow> 'a phys_scheme res" where
  "unmap_page pt do_free a s =
     (let (pte, s1) = walk pt a False s in
      if pte = 0 then Inr s1
      else if mem s1 pte AND PTE_V = 0 then Inr s1
      else if PTE_FLAGS (mem s1 pte) = PTE_V then Inl (Panic ''uvmunmap: not a leaf'')
      else
        let s2 = (if do_free then kfree (PTE2PA (mem s1 pte)) s1 else s1)
        in Inr (s2\<lparr>mem := (mem s2)(pte := 0)\<rparr>))"

primrec unmap_loop :: "nat \<Rightarrow> u64 \<Rightarrow> u64 \<Rightarrow> bool \<Rightarrow> 'a phys_scheme \<Rightarrow> 'a phys_scheme res" where
  "unmap_loop 0 pt a do_free s = Inr s"
| "unmap_loop (Suc n) pt a do_free s =
     rbind (unmap_page pt do_free a s) (unmap_loop n pt (a + PGSIZE) do_free)"

definition uvmunmap :: "u64 \<Rightarrow> u64 \<Rightarrow> u64 \<Rightarrow> bool \<Rightarrow> 'a phys_scheme \<Rightarrow> 'a phys_scheme res" where
  "uvmunmap pt va npages do_free s =
     (if va mod PGSIZE \<noteq> 0 then Inl (Panic ''uvmunmap: not aligned'')
      else
        let e = va + npages * PGSIZE
        in unmap_loop (if va < e then unat ((e - va) div PGSIZE) else 0) pt va do_free s)"

text \<open>
  \<^verbatim>\<open>freewalk\<close> recurses once per table level; the first argument bounds the depth, and running
  out of it is the stack overflow a cyclic table would cause.
\<close>

definition freewalk_entry ::
    "(u64 \<Rightarrow> 'a phys_scheme \<Rightarrow> 'a phys_scheme res) \<Rightarrow> u64 \<Rightarrow> nat \<Rightarrow> 'a phys_scheme \<Rightarrow> 'a phys_scheme res" where
  "freewalk_entry rec pt i s =
     (let pte = mem s (pte_addr pt i) in
      if pte AND PTE_V \<noteq> 0 \<and> pte AND (PTE_R OR PTE_W OR PTE_X) = 0 then
        rbind (rec (PTE2PA pte) s) (\<lambda>s1. Inr (s1\<lparr>mem := (mem s1)(pte_addr pt i := 0)\<rparr>))
      else if pte AND PTE_V \<noteq> 0 then Inl (Panic ''freewalk: leaf'')
      else Inr s)"

primrec freewalk :: "nat \<Rightarrow> u64 \<Rightarrow> 'a phys_scheme \<Rightarrow> 'a phys_scheme res" where
  "freewalk 0 pt s = Inl (Undefined ''freewalk: recursion depth'')"
| "freewalk (Suc n) pt s =
     rbind (rfold (freewalk_entry (freewalk n) pt) [0..<512] s) (\<lambda>s1. Inr (kfree pt s1))"

subsection \<open>Entry addresses\<close>

abbreviation vld :: "u64 \<Rightarrow> bool" where
  "vld e \<equiv> e AND PTE_V \<noteq> 0"

abbreviation rwx :: "u64 \<Rightarrow> bool" where
  "rwx e \<equiv> e AND (PTE_R OR PTE_W OR PTE_X) \<noteq> 0"

lemma pte_addr_page: "page_aligned pt \<Longrightarrow> i < 512 \<Longrightarrow> PGROUNDDOWN (pte_addr pt i) = pt"
  using PGROUNDDOWN_in_page [of pt "8 * i"] by (simp add: pte_addr_def)

lemma pte_addr_inj:
  assumes "page_aligned p" "page_aligned q" "i < 512" "j < 512"
  shows "pte_addr p i = pte_addr q j \<longleftrightarrow> p = q \<and> i = j"
proof
  assume eq: "pte_addr p i = pte_addr q j"
  then have pq: "p = q" using pte_addr_page assms by metis
  have "unat (pte_addr p i) = unat p + 8 * i" "unat (pte_addr p j) = unat p + 8 * j"
    using unat_in_page [OF assms(1), of "8 * i"] unat_in_page [OF assms(1), of "8 * j"] assms(3,4)
    by (simp_all add: pte_addr_def)
  with eq pq show "p = q \<and> i = j" by simp
qed auto

lemma pte_addr_nonzero: "page_aligned pt \<Longrightarrow> i < 512 \<Longrightarrow> pt \<noteq> 0 \<Longrightarrow> pte_addr pt i \<noteq> 0"
  using pte_addr_page [of pt i] by (metis PGROUNDDOWN_def and_zero_eq bit.conj_zero_left)

subsection \<open>The tree of tables\<close>

fun tab :: "mem \<Rightarrow> u64 \<Rightarrow> nat list \<Rightarrow> u64 option" where
  "tab m pt [] = Some pt"
| "tab m pt (i # p) =
     (if i < 512 \<and> vld (m (pte_addr pt i)) then tab m (PTE2PA (m (pte_addr pt i))) p else None)"

text \<open>The last-level entry at an index triple, 0 where the tables do not reach it.\<close>

definition leaf :: "mem \<Rightarrow> u64 \<Rightarrow> nat list \<Rightarrow> u64" where
  "leaf m root q = (case tab m root (take 2 q) of None \<Rightarrow> 0 | Some t \<Rightarrow> m (pte_addr t (q ! 2)))"

definition vpath :: "u64 \<Rightarrow> nat list" where
  "vpath va = [unat (PX 2 va), unat (PX 1 va), unat (PX 0 va)]"

definition vpaths :: "nat list set" where
  "vpaths = {q. length q = 3 \<and> (\<forall>i \<in> set q. i < 512)}"

definition pt_wf :: "'a phys_scheme \<Rightarrow> u64 \<Rightarrow> bool" where
  "pt_wf s root \<longleftrightarrow>
     phys_wf s \<and>
     (\<forall>p t. length p \<le> 2 \<longrightarrow> tab (mem s) root p = Some t \<longrightarrow> t \<in> live_pages s) \<and>
     (\<forall>p q t. length p \<le> 2 \<longrightarrow> length q \<le> 2 \<longrightarrow>
        tab (mem s) root p = Some t \<longrightarrow> tab (mem s) root q = Some t \<longrightarrow> p = q) \<and>
     (\<forall>p t i. length p \<le> 1 \<longrightarrow> i < 512 \<longrightarrow> tab (mem s) root p = Some t \<longrightarrow>
        vld (mem s (pte_addr t i)) \<longrightarrow> \<not> rwx (mem s (pte_addr t i)))"

lemma vpath_vpaths [simp]: "vpath va \<in> vpaths"
  using PX_bound by (simp add: vpath_def vpaths_def)

lemma vpath_PGROUNDDOWN [simp]: "vpath (PGROUNDDOWN va) = vpath va"
  by (simp add: vpath_def)

lemma vpath_eq_page:
  assumes "unat va < 2 ^ 39" and "unat vb < 2 ^ 39"
  shows "vpath va = vpath vb \<longleftrightarrow> PGROUNDDOWN va = PGROUNDDOWN vb"
proof
  assume "vpath va = vpath vb"
  then have "PX l va = PX l vb" if "l < 3" for l
  proof -
    from that have "l = 0 \<or> l = 1 \<or> l = 2" by linarith
    with \<open>vpath va = vpath vb\<close> show ?thesis by (auto simp: vpath_def word_unat_eq_iff)
  qed
  with assms show "PGROUNDDOWN va = PGROUNDDOWN vb" by (rule PX_page_eq)
qed (metis vpath_PGROUNDDOWN)

lemma tab_append: "tab m pt (p @ q) = (case tab m pt p of None \<Rightarrow> None | Some t \<Rightarrow> tab m t q)"
  by (induction p arbitrary: pt) auto

lemma tab_prefix: "tab m pt (p @ q) = Some t \<Longrightarrow> \<exists>t'. tab m pt p = Some t'"
  by (auto simp: tab_append split: option.splits)

text \<open>A memory that agrees on the entries read along a path gives the same table.\<close>

lemma tab_frame:
  assumes "\<And>q i r t. p = q @ i # r \<Longrightarrow> i < 512 \<Longrightarrow> tab m pt q = Some t \<Longrightarrow> m' (pte_addr t i) = m (pte_addr t i)"
  shows "tab m' pt p = tab m pt p"
  using assms
proof (induction p arbitrary: pt)
  case Nil
  then show ?case by simp
next
  case (Cons i p)
  show ?case
  proof (cases "i < 512")
    case True
    have e: "m' (pte_addr pt i) = m (pte_addr pt i)"
      using Cons.prems [of "[]" i p pt] True by simp
    have "tab m' (PTE2PA (m (pte_addr pt i))) p = tab m (PTE2PA (m (pte_addr pt i))) p"
      if "vld (m (pte_addr pt i))"
    proof (rule Cons.IH)
      fix q j r t
      assume "p = q @ j # r" "j < 512" "tab m (PTE2PA (m (pte_addr pt i))) q = Some t"
      with True that show "m' (pte_addr t j) = m (pte_addr t j)"
        by (intro Cons.prems [of "i # q"]) simp_all
    qed
    with e show ?thesis by simp
  qed simp
qed

lemma pt_wf_phys: "pt_wf s root \<Longrightarrow> phys_wf s"
  by (simp add: pt_wf_def)

lemma pt_wf_live: "pt_wf s root \<Longrightarrow> length p \<le> 2 \<Longrightarrow> tab (mem s) root p = Some t \<Longrightarrow> t \<in> live_pages s"
  by (auto simp: pt_wf_def)

lemma pt_wf_inj:
  "pt_wf s root \<Longrightarrow> length p \<le> 2 \<Longrightarrow> length q \<le> 2 \<Longrightarrow>
     tab (mem s) root p = Some t \<Longrightarrow> tab (mem s) root q = Some t \<Longrightarrow> p = q"
  unfolding pt_wf_def by blast

lemma pt_wf_flags:
  "pt_wf s root \<Longrightarrow> length p \<le> 1 \<Longrightarrow> i < 512 \<Longrightarrow> tab (mem s) root p = Some t \<Longrightarrow>
     vld (mem s (pte_addr t i)) \<Longrightarrow> \<not> rwx (mem s (pte_addr t i))"
  unfolding pt_wf_def by blast

lemma pt_wf_aligned:
  "pt_wf s root \<Longrightarrow> length p \<le> 2 \<Longrightarrow> tab (mem s) root p = Some t \<Longrightarrow> page_aligned t \<and> t \<noteq> 0"
  using pt_wf_live [of s root p t] pool_pageD [of s t] by (auto simp: live_pages_def pt_wf_def)

text \<open>Writing the entry \<open>k\<close> of the table at path \<open>q\<close> affects only the paths through it.\<close>

lemma tab_write:
  assumes wf: "pt_wf s root" and q: "length q \<le> 2" "tab (mem s) root q = Some t" and k: "k < 512"
    and p: "length p \<le> 2" "\<not> (\<exists>r. p = q @ k # r)"
    and m': "\<And>a. a \<noteq> pte_addr t k \<Longrightarrow> PGROUNDDOWN a \<in> live_pages s \<Longrightarrow> m' a = mem s a"
  shows "tab m' root p = tab (mem s) root p"
proof (rule tab_frame)
  fix p1 i r t1
  assume split: "p = p1 @ i # r" and i: "i < 512" and t1: "tab (mem s) root p1 = Some t1"
  have l1: "length p1 \<le> 2" using split p(1) by simp
  note al1 = pt_wf_aligned [OF wf l1 t1] and al = pt_wf_aligned [OF wf q]
  have "pte_addr t1 i \<noteq> pte_addr t k"
  proof
    assume "pte_addr t1 i = pte_addr t k"
    then have "t1 = t" "i = k" using pte_addr_inj al1 al i k by auto
    moreover from this t1 q have "p1 = q" using pt_wf_inj [OF wf l1 q(1) t1] by simp
    ultimately show False using p(2) split by blast
  qed
  moreover have "PGROUNDDOWN (pte_addr t1 i) \<in> live_pages s"
    using pte_addr_page al1 i pt_wf_live [OF wf l1 t1] by simp
  ultimately show "m' (pte_addr t1 i) = mem s (pte_addr t1 i)" by (rule m')
qed

subsection \<open>Adding a table\<close>

lemma fill_page_in: "page_aligned p \<Longrightarrow> i < 512 \<Longrightarrow> fill_page m p v (pte_addr p i) = v"
  by (simp add: fill_page_def pte_addr_page)

lemma PTE_V_nonzero [simp]: "PTE_V \<noteq> 0"
  by (simp add: PTE_V_def)

lemma vld_or_V [simp]: "vld (e OR PTE_V)"
  by simp

lemma not_vld_0 [simp]: "\<not> vld 0"
  by simp

text \<open>
  A missing table: entry \<open>k\<close> of the table \<open>t\<close> at the path \<open>q\<close> is invalid and \<open>np\<close> is the
  fresh page that the allocator returned for it.
\<close>

definition fills_hole :: "'a phys_scheme \<Rightarrow> u64 \<Rightarrow> nat list \<Rightarrow> u64 \<Rightarrow> nat \<Rightarrow> u64 \<Rightarrow> 'a phys_scheme \<Rightarrow> bool" where
  "fills_hole s root q t k np s1 \<longleftrightarrow>
     pt_wf s root \<and> length q \<le> 1 \<and> tab (mem s) root q = Some t \<and> k < 512 \<and>
     \<not> vld (mem s (pte_addr t k)) \<and> kalloc s = (np, s1) \<and> np \<noteq> 0"

lemma fills_holeD:
  assumes "fills_hole s root q t k np s1"
  shows "pt_wf s root" "length q \<le> 1" "length q \<le> 2" "tab (mem s) root q = Some t" "k < 512"
    "\<not> vld (mem s (pte_addr t k))" "kalloc s = (np, s1)" "np \<noteq> 0"
    "page_aligned t" "t \<in> live_pages s"
    "live_pages s1 = insert np (live_pages s)" "np \<notin> live_pages s" "page_aligned np" "phys_wf s1"
    "mem s1 = fill_page (mem s) np 0x0505050505050505"
proof -
  show h: "pt_wf s root" "length q \<le> 1" "length q \<le> 2" "tab (mem s) root q = Some t" "k < 512"
    "\<not> vld (mem s (pte_addr t k))" "kalloc s = (np, s1)" "np \<noteq> 0"
    using assms by (auto simp: fills_hole_def)
  show "page_aligned t" "t \<in> live_pages s"
    using pt_wf_aligned [OF h(1,3,4)] pt_wf_live [OF h(1,3,4)] by auto
  show "live_pages s1 = insert np (live_pages s)" "np \<notin> live_pages s" "page_aligned np" "phys_wf s1"
    by (rule live_pages_kalloc [OF pt_wf_phys [OF h(1)] h(7,8)])+
  show "mem s1 = fill_page (mem s) np 0x0505050505050505"
    by (rule kalloc_page(4) [OF pt_wf_phys [OF h(1)] h(7,8)])
qed

lemma add_table_mem:
  assumes "fills_hole s root q t k np s1" and "PGROUNDDOWN a \<noteq> np" and "a \<noteq> pte_addr t k"
  shows "mem (add_table (pte_addr t k) np s1) a = mem s a"
  using assms fills_holeD(15) [OF assms(1)] by (simp add: add_table_def fill_page_def)

lemma add_table_zero:
  assumes h: "fills_hole s root q t k np s1" and j: "j < 512"
  shows "mem (add_table (pte_addr t k) np s1) (pte_addr np j) = 0"
proof -
  note d = fills_holeD [OF h]
  have "pte_addr np j \<noteq> pte_addr t k"
    using pte_addr_inj [of np t j k] j d(5,9,10,12,13) by auto
  then show ?thesis using j d(13) by (simp add: add_table_def fill_page_in)
qed

lemma add_table_tab:
  assumes h: "fills_hole s root q t k np s1" and p2: "length p \<le> 2"
  shows "tab (mem (add_table (pte_addr t k) np s1)) root p =
    (if p = q @ [k] then Some np else tab (mem s) root p)"
proof -
  note d = fills_holeD [OF h]
  let ?m = "mem (add_table (pte_addr t k) np s1)"
  have ent: "?m (pte_addr t k) = PA2PTE np OR PTE_V" by (simp add: add_table_def)
  have nv: "PTE2PA (PA2PTE np OR PTE_V) = np"
    using d(13) by (intro PTE2PA_PA2PTE) (simp_all add: PTE_V_def)
  have other: "tab ?m root p = tab (mem s) root p"
    if "length p \<le> 2" "\<not> (\<exists>r. p = q @ k # r)" for p
    using d(1,3,4,5) that
    by (rule tab_write) (use d(12) in \<open>auto intro!: add_table_mem [OF h]\<close>)
  have tq: "tab ?m root q = Some t" using other [OF d(3)] d(4) by auto
  show ?thesis
  proof (cases "\<exists>r. p = q @ k # r")
    case True
    then obtain r where p: "p = q @ k # r" by blast
    have "tab ?m root p = tab ?m np r" using d(5) by (simp add: p tab_append tq ent nv)
    moreover have "tab (mem s) root p = None" using d(6) by (simp add: p tab_append d(4))
    moreover have "tab ?m np r = (if r = [] then Some np else None)"
      by (cases r) (auto simp: add_table_zero [OF h])
    ultimately show ?thesis by (simp add: p)
  next
    case False
    with other [OF p2] show ?thesis by auto
  qed
qed

lemma no_rwx_table: "\<not> rwx (PA2PTE p OR PTE_V)"
proof -
  have "(PA2PTE p OR PTE_V) AND (PTE_R OR PTE_W OR PTE_X) = 0"
    by (rule bit_word_eqI)
       (auto simp: bit_simps PA2PTE_def rv_const bit_numeral_rec nat_numeral split: nat.splits)
  then show ?thesis by simp
qed

lemma add_table_wf:
  assumes h: "fills_hole s root q t k np s1"
  shows "pt_wf (add_table (pte_addr t k) np s1) root" (is "pt_wf ?s2 root")
proof -
  note d = fills_holeD [OF h] and tabs = add_table_tab [OF h]
  have "t' \<in> live_pages ?s2" if "length p \<le> 2" "tab (mem ?s2) root p = Some t'" for p t'
    using that tabs [OF that(1)] pt_wf_live [OF d(1) that(1), of t'] d(11)
    by (auto simp: add_table_def split: if_splits)
  moreover have "p = p'" if "length p \<le> 2" "length p' \<le> 2" "tab (mem ?s2) root p = Some t'"
      "tab (mem ?s2) root p' = Some t'" for p p' t'
    using that tabs [OF that(1)] tabs [OF that(2)] d(12) pt_wf_live [OF d(1)]
      pt_wf_inj [OF d(1) that(1,2)]
    by (auto split: if_splits)
  moreover have "\<not> rwx (mem ?s2 (pte_addr t' i))"
    if p: "length p \<le> 1" and i: "i < 512" and t': "tab (mem ?s2) root p = Some t'" and
      v: "vld (mem ?s2 (pte_addr t' i))" for p t' i
  proof (cases "t' = np \<or> pte_addr t' i = pte_addr t k")
    case True
    then show ?thesis using v add_table_zero [OF h i] no_rwx_table by (auto simp: add_table_def)
  next
    case False
    have p2: "length p \<le> 2" using p by simp
    have t1: "tab (mem s) root p = Some t'" using False t' tabs [OF p2] by (auto split: if_splits)
    then have "PGROUNDDOWN (pte_addr t' i) \<noteq> np"
      using False pte_addr_page [OF _ i] pt_wf_aligned [OF d(1) p2] by metis
    then have "mem ?s2 (pte_addr t' i) = mem s (pte_addr t' i)"
      using False add_table_mem [OF h] by blast
    with pt_wf_flags [OF d(1) p i t1] v show ?thesis by metis
  qed
  ultimately show ?thesis using d(14) unfolding pt_wf_def by (simp add: add_table_def)
qed

lemma add_table_leaf:
  assumes h: "fills_hole s root q t k np s1" and v: "v \<in> vpaths"
  shows "leaf (mem (add_table (pte_addr t k) np s1)) root v = leaf (mem s) root v" (is "leaf ?m root v = _")
proof -
  note d = fills_holeD [OF h] and tabs = add_table_tab [OF h, of "take 2 v"]
  have l2: "length (take 2 v) = 2" and v2: "v ! 2 < 512" using v by (auto simp: vpaths_def)
  show ?thesis
  proof (cases "take 2 v = q @ [k]")
    case True
    then have "tab (mem s) root (take 2 v) = None" using d(6) by (simp add: tab_append d(4))
    with True tabs l2 v2 show ?thesis by (simp add: leaf_def add_table_zero [OF h])
  next
    case False
    have "?m (pte_addr t' (v ! 2)) = mem s (pte_addr t' (v ! 2))"
      if t': "tab (mem s) root (take 2 v) = Some t'" for t'
    proof (rule add_table_mem [OF h])
      have l: "length (take 2 v) \<le> 2" using l2 by simp
      note a' = pt_wf_aligned [OF d(1) l t'] and live' = pt_wf_live [OF d(1) l t']
      show "PGROUNDDOWN (pte_addr t' (v ! 2)) \<noteq> np"
        using pte_addr_page a' v2 live' d(12) by metis
      have "take 2 v \<noteq> q" using d(2) l2 by auto
      then have "t' \<noteq> t" using pt_wf_inj [OF d(1) l d(3) t'] d(4) by auto
      then show "pte_addr t' (v ! 2) \<noteq> pte_addr t k" using pte_addr_inj a' d(5,9) v2 by auto
    qed
    with False tabs l2 show ?thesis by (simp add: leaf_def split: option.splits)
  qed
qed

subsection \<open>What a walk may do\<close>

definition tables :: "mem \<Rightarrow> u64 \<Rightarrow> u64 set" where
  "tables m root = {t. \<exists>p. length p \<le> 2 \<and> tab m root p = Some t}"

text \<open>
  \<open>pt_ext s s' root\<close>: \<open>s'\<close> has possibly more tables than \<open>s\<close>, taken from the free pages, and
  no memory outside the tables of \<open>s'\<close> changed. \<open>pt_grow\<close> adds that no translation changed.
\<close>

definition pt_ext :: "'a phys_scheme \<Rightarrow> 'a phys_scheme \<Rightarrow> u64 \<Rightarrow> bool" where
  "pt_ext s s' root \<longleftrightarrow>
     pt_wf s' root \<and>
     (\<forall>p t. length p \<le> 2 \<longrightarrow> tab (mem s) root p = Some t \<longrightarrow> tab (mem s') root p = Some t) \<and>
     (\<forall>a. PGROUNDDOWN a \<notin> tables (mem s') root \<longrightarrow> mem s' a = mem s a) \<and>
     tables (mem s') root \<subseteq> tables (mem s) root \<union> free_pages s \<and>
     free_pages s' = free_pages s - tables (mem s') root \<and> pool_pages s' = pool_pages s"

definition pt_grow :: "'a phys_scheme \<Rightarrow> 'a phys_scheme \<Rightarrow> u64 \<Rightarrow> bool" where
  "pt_grow s s' root \<longleftrightarrow>
     pt_ext s s' root \<and> (\<forall>v \<in> vpaths. leaf (mem s') root v = leaf (mem s) root v)"

lemma tables_ext: "pt_ext s s' root \<Longrightarrow> tables (mem s) root \<subseteq> tables (mem s') root"
  by (auto simp: pt_ext_def tables_def)

lemma tables_live: "pt_wf s root \<Longrightarrow> tables (mem s) root \<subseteq> live_pages s"
  by (auto simp: tables_def pt_wf_live)

lemma pt_ext_refl: "pt_wf s root \<Longrightarrow> pt_ext s s root"
  using tables_live [of s root] by (auto simp: pt_ext_def live_pages_def)

lemma pt_ext_trans:
  assumes 1: "pt_ext s s1 root" and 2: "pt_ext s1 s2 root"
  shows "pt_ext s s2 root"
proof -
  note t = tables_ext [OF 2]
  have "free_pages s2 = free_pages s - tables (mem s2) root"
    using 1 2 t by (auto simp: pt_ext_def)
  moreover have "tables (mem s2) root \<subseteq> tables (mem s) root \<union> free_pages s"
    using 1 2 by (auto simp: pt_ext_def)
  moreover have "mem s2 a = mem s a" if "PGROUNDDOWN a \<notin> tables (mem s2) root" for a
    using that t 1 2 by (auto simp: pt_ext_def)
  ultimately show ?thesis using 1 2 by (simp add: pt_ext_def)
qed

lemma pt_grow_refl: "pt_wf s root \<Longrightarrow> pt_grow s s root"
  by (simp add: pt_grow_def pt_ext_refl)

lemma pt_grow_trans: "pt_grow s s1 root \<Longrightarrow> pt_grow s1 s2 root \<Longrightarrow> pt_grow s s2 root"
  using pt_ext_trans by (auto simp: pt_grow_def)

lemma pt_grow_ext: "pt_grow s s' root \<Longrightarrow> pt_ext s s' root"
  by (simp add: pt_grow_def)

lemma pt_ext_wf: "pt_ext s s' root \<Longrightarrow> pt_wf s' root"
  by (simp add: pt_ext_def)

lemma add_table_grow:
  assumes h: "fills_hole s root q t k np s1"
  shows "pt_grow s (add_table (pte_addr t k) np s1) root" (is "pt_grow s ?s2 root")
proof -
  note d = fills_holeD [OF h] and tabs = add_table_tab [OF h]
  have np: "np \<in> free_pages s" "free_pages s1 = free_pages s - {np}" "pool_pages s1 = pool_pages s"
    using pa.alloc_page [OF pt_wf_phys [OF d(1)] d(7,8)] by auto
  have hole: "tab (mem s) root (q @ [k]) = None" using d(6) by (simp add: tab_append d(4))
  have tab_s: "tables (mem ?s2) root = insert np (tables (mem s) root)"
  proof -
    have l: "length (q @ [k]) \<le> 2" using d(2) by simp
    have "np \<in> tables (mem ?s2) root"
      using l tabs [OF l] unfolding tables_def by (intro CollectI exI [of _ "q @ [k]"]) simp
    moreover have "x \<in> tables (mem ?s2) root" if "x \<in> tables (mem s) root" for x
    proof -
      from that obtain p where p: "length p \<le> 2" "tab (mem s) root p = Some x" by (auto simp: tables_def)
      then have "tab (mem ?s2) root p = Some x" using tabs [OF p(1)] hole by auto
      with p(1) show ?thesis by (auto simp: tables_def)
    qed
    moreover have "x = np \<or> x \<in> tables (mem s) root" if "x \<in> tables (mem ?s2) root" for x
      using that tabs unfolding tables_def by (auto split: if_splits)
    ultimately show ?thesis by blast
  qed
  have disj: "tables (mem s) root \<inter> free_pages s = {}"
    using tables_live [OF d(1)] by (auto simp: live_pages_def)
  have "mem ?s2 a = mem s a" if "PGROUNDDOWN a \<notin> tables (mem ?s2) root" for a
  proof (rule add_table_mem [OF h])
    show "PGROUNDDOWN a \<noteq> np" using that tab_s by auto
    have "t \<in> tables (mem s) root" using d(3,4) by (auto simp: tables_def)
    then have "PGROUNDDOWN (pte_addr t k) \<in> tables (mem ?s2) root"
      unfolding tab_s pte_addr_page [OF d(9,5)] by (rule insertI2)
    with that show "a \<noteq> pte_addr t k" by metis
  qed
  moreover have "free_pages ?s2 = free_pages s - tables (mem ?s2) root"
  proof -
    have "free_pages ?s2 = free_pages s1" by (simp add: add_table_def)
    with np(2) disj show ?thesis unfolding tab_s by auto
  qed
  ultimately show ?thesis
    using add_table_wf [OF h] add_table_leaf [OF h] tabs hole np tab_s
    by (auto simp: pt_grow_def pt_ext_def add_table_def)
qed

fun upper_path :: "nat \<Rightarrow> u64 \<Rightarrow> nat list" where
  "upper_path 0 va = []"
| "upper_path (Suc l) va = unat (PX (Suc l) va) # upper_path l va"

lemma walk_loop_alloc:
  assumes "pt_wf s root" and "tab (mem s) root q = Some t" and "length q + l = 2"
    and "walk_loop l t va True s = (a, s')"
  shows "pt_grow s s' root \<and>
    (if a = 0 then free_pages s' = {}
     else \<exists>t'. tab (mem s') root (q @ upper_path l va) = Some t' \<and> a = pte_addr t' (unat (PX 0 va)))"
  using assms
proof (induction l arbitrary: s q t)
  case 0
  then have "a \<noteq> 0" using pte_addr_nonzero [of t] PX_bound [of 0 va] pt_wf_aligned [of s root q t] by auto
  with 0 show ?case by (auto intro: pt_grow_refl)
next
  case (Suc l)
  let ?k = "unat (PX (Suc l) va)"
  let ?e = "mem s (pte_addr t ?k)"
  show ?case
  proof (cases "vld ?e")
    case True
    have "tab (mem s) root (q @ [?k]) = Some (PTE2PA ?e)"
      using True PX_bound by (simp add: tab_append Suc.prems(2))
    moreover have "walk_loop l (PTE2PA ?e) va True s = (a, s')"
      using Suc.prems(4) True by (simp add: Let_def)
    ultimately show ?thesis
      using Suc.IH [OF Suc.prems(1), of "q @ [?k]"] Suc.prems(3) by (auto split: if_splits)
  next
    case False
    obtain np s1 where al: "kalloc s = (np, s1)" by fastforce
    show ?thesis
    proof (cases "np = 0")
      case True
      then have "a = 0 \<and> s' = s \<and> free_pages s = {}"
        using Suc.prems(4) False al pa.alloc_null [OF pt_wf_phys [OF Suc.prems(1)], of s1] by (simp add: Let_def)
      then show ?thesis using pt_grow_refl [OF Suc.prems(1)] by simp
    next
      case nz: False
      have h: "fills_hole s root q t ?k np s1"
        using Suc.prems False al nz PX_bound by (simp add: fills_hole_def)
      let ?s2 = "add_table (pte_addr t ?k) np s1"
      have "tab (mem ?s2) root (q @ [?k]) = Some np"
        using add_table_tab [OF h, of "q @ [?k]"] Suc.prems(3) by simp
      moreover have "walk_loop l np va True ?s2 = (a, s')"
        using Suc.prems(4) False al nz by (simp add: Let_def)
      ultimately show ?thesis
        using Suc.IH [OF add_table_wf [OF h], of "q @ [?k]"] Suc.prems(3)
          pt_grow_trans [OF add_table_grow [OF h]] by (auto split: if_splits)
    qed
  qed
qed

lemma walk_loop_find:
  assumes "pt_wf s root" and "tab (mem s) root q = Some t" and "length q + l = 2"
  shows "walk_loop l t va False s =
    ((case tab (mem s) root (q @ upper_path l va) of None \<Rightarrow> 0 | Some t' \<Rightarrow> pte_addr t' (unat (PX 0 va))), s)"
  using assms
proof (induction l arbitrary: q t)
  case 0
  then show ?case by simp
next
  case (Suc l)
  let ?k = "unat (PX (Suc l) va)"
  let ?e = "mem s (pte_addr t ?k)"
  have tq: "tab (mem s) root (q @ ?k # r) = (if vld ?e then tab (mem s) (PTE2PA ?e) r else None)" for r
    using PX_bound by (simp add: tab_append Suc.prems(2))
  show ?case
  proof (cases "vld ?e")
    case True
    then have "tab (mem s) root (q @ [?k]) = Some (PTE2PA ?e)" by (simp add: tq)
    from Suc.IH [OF Suc.prems(1) this] Suc.prems(3) True show ?thesis by (simp add: Let_def)
  next
    case False
    then show ?thesis by (simp add: Let_def tq)
  qed
qed

lemma upper_path_2: "upper_path 2 va = take 2 (vpath va)"
  by (simp add: vpath_def numeral_2_eq_2)

lemma walk_alloc:
  assumes "pt_wf s root" and "va \<le> MAXVA" and "walk root va True s = (a, s')"
  shows "pt_grow s s' root" and "a = 0 \<Longrightarrow> free_pages s' = {}"
    and "a \<noteq> 0 \<Longrightarrow> \<exists>t. tab (mem s') root (take 2 (vpath va)) = Some t \<and> a = pte_addr t (vpath va ! 2)"
proof -
  have "walk_loop 2 root va True s = (a, s')" using assms(3) leD [OF assms(2)] by (simp add: walk_def)
  from walk_loop_alloc [OF assms(1) _ _ this, of "[]"] show "pt_grow s s' root"
    and "a = 0 \<Longrightarrow> free_pages s' = {}"
    and "a \<noteq> 0 \<Longrightarrow> \<exists>t. tab (mem s') root (take 2 (vpath va)) = Some t \<and> a = pte_addr t (vpath va ! 2)"
    by (simp_all add: upper_path_2) (simp add: vpath_def)
qed

lemma walk_find:
  assumes "pt_wf s root" and "va \<le> MAXVA"
  shows "walk root va False s =
    ((case tab (mem s) root (take 2 (vpath va)) of None \<Rightarrow> 0 | Some t \<Rightarrow> pte_addr t (vpath va ! 2)), s)"
  using walk_loop_find [OF assms(1), of "[]" root 2 va] leD [OF assms(2)]
  by (simp add: walk_def upper_path_2) (simp add: vpath_def)

subsection \<open>Writing a last-level entry\<close>

lemma leaf_write:
  assumes wf: "pt_wf s root" and v: "v \<in> vpaths" and t: "tab (mem s) root (take 2 v) = Some t"
    and s'_def: "s' = s\<lparr>mem := (mem s)(pte_addr t (v ! 2) := e)\<rparr>"
  shows leaf_write_tab: "length p \<le> 2 \<Longrightarrow> tab (mem s') root p = tab (mem s) root p"
    and leaf_write_wf: "pt_wf s' root"
    and leaf_write_leaf: "w \<in> vpaths \<Longrightarrow> leaf (mem s') root w = (if w = v then e else leaf (mem s) root w)"
proof -
  have l2: "length (take 2 v) = 2" and v2: "v ! 2 < 512" using v by (auto simp: vpaths_def)
  have l: "length (take 2 v) \<le> 2" using l2 by simp
  show tabs: "tab (mem s') root p = tab (mem s) root p" if "length p \<le> 2" for p
  proof (rule tab_write [OF wf l t v2 that])
    show "\<not> (\<exists>r. p = take 2 v @ v ! 2 # r)" using that l2 by auto
  qed (simp add: s'_def)
  have "live_pages s' = live_pages s" and "phys_wf s'"
    using wf by (simp_all add: s'_def pt_wf_def)
  moreover have "\<not> rwx (mem s' (pte_addr t' i))"
    if p: "length p \<le> 1" and i: "i < 512" and t': "tab (mem s') root p = Some t'" and
      v': "vld (mem s' (pte_addr t' i))" for p t' i
  proof -
    have p2: "length p \<le> 2" using p by simp
    then have t1: "tab (mem s) root p = Some t'" using t' tabs by simp
    have "p \<noteq> take 2 v" using p l2 by auto
    then have "t' \<noteq> t" using pt_wf_inj [OF wf p2 l t1] t by auto
    then have "pte_addr t' i \<noteq> pte_addr t (v ! 2)"
      using pte_addr_inj pt_wf_aligned [OF wf p2 t1] pt_wf_aligned [OF wf l t] i v2 by auto
    then have "mem s' (pte_addr t' i) = mem s (pte_addr t' i)" by (simp add: s'_def)
    with pt_wf_flags [OF wf p i t1] v' show ?thesis by metis
  qed
  ultimately show "pt_wf s' root" using wf tabs unfolding pt_wf_def by simp
  show "leaf (mem s') root w = (if w = v then e else leaf (mem s) root w)" if w: "w \<in> vpaths"
  proof -
    have w2: "length (take 2 w) = 2" "w ! 2 < 512" using w by (auto simp: vpaths_def)
    have tw: "tab (mem s') root (take 2 w) = tab (mem s) root (take 2 w)" using tabs w2 by simp
    show ?thesis
    proof (cases "w = v")
      case True
      then show ?thesis using tabs [OF l] t by (simp add: leaf_def s'_def)
    next
      case False
      have "pte_addr t' (w ! 2) \<noteq> pte_addr t (v ! 2)" if t': "tab (mem s) root (take 2 w) = Some t'" for t'
      proof
        assume eq: "pte_addr t' (w ! 2) = pte_addr t (v ! 2)"
        have lw: "length (take 2 w) \<le> 2" using w2 by simp
        have "t' = t" "w ! 2 = v ! 2"
          using eq pte_addr_inj pt_wf_aligned [OF wf lw t'] pt_wf_aligned [OF wf l t] w2(2) v2 by auto
        moreover from this have "take 2 w = take 2 v" using pt_wf_inj [OF wf lw l t'] t by simp
        ultimately have "w = v"
          using v w by (auto simp: vpaths_def length_Suc_conv numeral_3_eq_3 numeral_2_eq_2)
        with False show False ..
      qed
      with False tw show ?thesis by (simp add: leaf_def s'_def split: option.splits)
    qed
  qed
qed

lemma leaf_write_ext:
  assumes wf: "pt_wf s root" and v: "v \<in> vpaths" and t: "tab (mem s) root (take 2 v) = Some t"
  shows "pt_ext s (s\<lparr>mem := (mem s)(pte_addr t (v ! 2) := e)\<rparr>) root" (is "pt_ext s ?s' root")
proof -
  note tabs = leaf_write_tab [OF wf v t refl, of _ e]
  have l: "length (take 2 v) \<le> 2" and v2: "v ! 2 < 512" using v by (auto simp: vpaths_def)
  have tb: "tables (mem ?s') root = tables (mem s) root" unfolding tables_def using tabs by auto
  have "t \<in> tables (mem s) root" using t l unfolding tables_def by blast
  then have "PGROUNDDOWN (pte_addr t (v ! 2)) \<in> tables (mem s) root"
    using pte_addr_page pt_wf_aligned [OF wf l t] v2 by metis
  then have "mem ?s' a = mem s a" if "PGROUNDDOWN a \<notin> tables (mem s) root" for a
    using that by auto
  moreover have "free_pages s = free_pages s - tables (mem s) root"
    using tables_live [OF wf] by (auto simp: live_pages_def)
  ultimately show ?thesis
    using leaf_write_wf [OF wf v t refl, of e] tabs unfolding pt_ext_def tb by simp
qed

text \<open>
  One iteration of \<^verbatim>\<open>mappages\<close>: it enters the page exactly when the entry was invalid and
  the tables could be built, and then changes this one translation only.
\<close>

lemma map_page_spec:
  assumes wf: "pt_wf s root" and a: "a \<le> MAXVA" and m: "map_page root perm a pa s = (ok, s')"
  shows map_page_ext: "pt_ext s s' root"
    and map_page_leaf: "v \<in> vpaths \<Longrightarrow> leaf (mem s') root v =
      (if ok \<and> v = vpath a then PA2PTE pa OR perm OR PTE_V else leaf (mem s) root v)"
    and map_page_ok: "ok \<Longrightarrow> \<not> vld (leaf (mem s) root (vpath a))"
    and map_page_fail: "\<not> ok \<Longrightarrow> vld (leaf (mem s) root (vpath a)) \<or> free_pages s' = {}"
proof -
  obtain pte s1 where w: "walk root a True s = (pte, s1)" by fastforce
  note g = walk_alloc [OF wf a w] and e1 = pt_grow_ext [OF walk_alloc(1) [OF wf a w]]
  have leaf1: "\<And>v. v \<in> vpaths \<Longrightarrow> leaf (mem s1) root v = leaf (mem s) root v"
    using g(1) by (simp add: pt_grow_def)
  have "pt_ext s s' root \<and>
    (\<forall>v \<in> vpaths. leaf (mem s') root v =
      (if ok \<and> v = vpath a then PA2PTE pa OR perm OR PTE_V else leaf (mem s) root v)) \<and>
    (ok \<longrightarrow> \<not> vld (leaf (mem s) root (vpath a))) \<and>
    (\<not> ok \<longrightarrow> vld (leaf (mem s) root (vpath a)) \<or> free_pages s' = {})"
  proof (cases "pte = 0")
    case True
    then have "\<not> ok" "s' = s1" using m w by (simp_all add: map_page_def)
    with e1 leaf1 g(2) [OF True] show ?thesis by simp
  next
    case False
    then obtain t where t: "tab (mem s1) root (take 2 (vpath a)) = Some t" "pte = pte_addr t (vpath a ! 2)"
      using g(3) by blast
    then have ent: "leaf (mem s) root (vpath a) = mem s1 pte" using leaf1 [of "vpath a"] by (simp add: leaf_def)
    note wr = leaf_write_ext [OF pt_ext_wf [OF e1] vpath_vpaths t(1)]
      leaf_write_leaf [OF pt_ext_wf [OF e1] vpath_vpaths t(1) refl]
    show ?thesis
    proof (cases "vld (mem s1 pte)")
      case True
      then have "\<not> ok" "s' = s1" using m w False by (simp_all add: map_page_def)
      with e1 leaf1 ent True show ?thesis by simp
    next
      case inv: False
      then have "ok" "s' = s1\<lparr>mem := (mem s1)(pte_addr t (vpath a ! 2) := PA2PTE pa OR perm OR PTE_V)\<rparr>"
        using m w False t(2) by (auto simp: map_page_def)
      then show ?thesis
        using inv ent leaf1 wr(2) pt_ext_trans [OF e1 wr(1)] by simp
    qed
  qed
  then show "pt_ext s s' root"
    and "v \<in> vpaths \<Longrightarrow> leaf (mem s') root v =
      (if ok \<and> v = vpath a then PA2PTE pa OR perm OR PTE_V else leaf (mem s) root v)"
    and "ok \<Longrightarrow> \<not> vld (leaf (mem s) root (vpath a))"
    and "\<not> ok \<Longrightarrow> vld (leaf (mem s) root (vpath a)) \<or> free_pages s' = {}"
    by auto
qed

subsection \<open>The interface of a page mapper\<close>

text \<open>
  What the range loop of \<^verbatim>\<open>mappages\<close> relies on: entering one page changes this one entry, and
  only if it was invalid. \<open>ext\<close> relates the states before and after, \<open>avail\<close> the pages left.
\<close>

definition page_no :: "u64 \<Rightarrow> nat \<Rightarrow> u64" where
  "page_no a k = a + of_nat k * PGSIZE"

lemma page_no_0 [simp]: "page_no a 0 = a"
  by (simp add: page_no_def)

lemma page_no_Suc: "page_no a (Suc k) = page_no (a + PGSIZE) k"
  by (simp add: page_no_def algebra_simps)

lemma unat_page_no:
  assumes "unat a + k * 4096 < 2 ^ 64"
  shows "unat (page_no a k) = unat a + k * 4096"
proof -
  have "unat (of_nat (k * 4096) :: u64) = k * 4096"
    using assms by (intro unat_of_nat_small) simp
  then have "unat (of_nat k * PGSIZE) = k * 4096" by (simp add: PGSIZE_def)
  with assms show ?thesis unfolding page_no_def by (simp add: unat_add_lem [THEN iffD1])
qed

lemma page_aligned_page_no:
  assumes "page_aligned a" "unat a + k * 4096 < 2 ^ 64"
  shows "page_aligned (page_no a k)"
  using assms by (simp add: page_aligned_unat unat_page_no)

lemma vpath_page_no_inj:
  assumes "page_aligned a" and "unat a + n * 4096 \<le> unat MAXVA" and "j \<le> n" and "k \<le> n"
  shows "vpath (page_no a j) = vpath (page_no a k) \<longleftrightarrow> j = k"
proof
  have b: "unat a + i * 4096 < 2 ^ 39" if "i \<le> n" for i
    using assms(2) that mult_le_mono1 [OF that, of 4096] by (simp add: rv_const)
  have u: "unat (page_no a i) = unat a + i * 4096" if "i \<le> n" for i
    using b [OF that] by (intro unat_page_no) simp
  assume "vpath (page_no a j) = vpath (page_no a k)"
  then have "PGROUNDDOWN (page_no a j) = PGROUNDDOWN (page_no a k)"
    using vpath_eq_page b u assms(3,4) by simp
  moreover have "PGROUNDDOWN (page_no a i) = page_no a i" if "i \<le> n" for i
    using page_aligned_page_no [OF assms(1)] b [OF that] by (simp add: page_aligned_iff_down [symmetric])
  ultimately have "unat (page_no a j) = unat (page_no a k)" using assms(3,4) by simp
  then show "j = k" using u assms(3,4) by simp
qed simp

locale page_mapper =
  fixes enter :: "u64 \<Rightarrow> u64 \<Rightarrow> u64 \<Rightarrow> 's \<Rightarrow> bool \<times> 's"
    and look :: "'s \<Rightarrow> nat list \<Rightarrow> u64"
    and ext :: "'s \<Rightarrow> 's \<Rightarrow> bool"
    and avail :: "'s \<Rightarrow> u64 set"
    and inv :: "'s \<Rightarrow> bool"
  assumes enter_ext: "inv s \<Longrightarrow> a \<le> MAXVA \<Longrightarrow> enter perm a pa s = (ok, s') \<Longrightarrow> ext s s'"
    and enter_look: "inv s \<Longrightarrow> a \<le> MAXVA \<Longrightarrow> enter perm a pa s = (ok, s') \<Longrightarrow> v \<in> vpaths \<Longrightarrow>
        look s' v = (if ok \<and> v = vpath a then PA2PTE pa OR perm OR PTE_V else look s v)"
    and enter_ok: "inv s \<Longrightarrow> a \<le> MAXVA \<Longrightarrow> enter perm a pa s = (True, s') \<Longrightarrow> \<not> vld (look s (vpath a))"
    and enter_fail: "inv s \<Longrightarrow> a \<le> MAXVA \<Longrightarrow> enter perm a pa s = (False, s') \<Longrightarrow>
        vld (look s (vpath a)) \<or> avail s' = {}"
    and ext_inv: "ext s s' \<Longrightarrow> inv s'"
    and ext_trans: "ext s s1 \<Longrightarrow> ext s1 s2 \<Longrightarrow> ext s s2"
begin

text \<open>Enter the pages \<open>a, a + 4096, \<dots>, a + n * 4096\<close>, stopping at the first failure.\<close>

primrec enter_range :: "nat \<Rightarrow> u64 \<Rightarrow> u64 \<Rightarrow> u64 \<Rightarrow> 's \<Rightarrow> bool \<times> 's" where
  "enter_range 0 perm a pa s = enter perm a pa s"
| "enter_range (Suc n) perm a pa s =
     (let (ok, s1) = enter perm a pa s in
      if ok then enter_range n perm (a + PGSIZE) (pa + PGSIZE) s1 else (False, s1))"

definition entered :: "nat \<Rightarrow> u64 \<Rightarrow> u64 \<Rightarrow> u64 \<Rightarrow> 's \<Rightarrow> 's \<Rightarrow> bool" where
  "entered k perm a pa s s' \<longleftrightarrow>
     (\<forall>j<k. look s' (vpath (page_no a j)) = PA2PTE (page_no pa j) OR perm OR PTE_V \<and>
            \<not> vld (look s (vpath (page_no a j)))) \<and>
     (\<forall>v \<in> vpaths. (\<forall>j<k. v \<noteq> vpath (page_no a j)) \<longrightarrow> look s' v = look s v)"

lemma entered_Suc:
  assumes al: "page_aligned a" and b: "unat a + n * 4096 \<le> unat MAXVA" and k: "k \<le> n"
    and i: "inv s" and e: "enter perm a pa s = (True, s1)" and r: "entered k perm (a + PGSIZE) (pa + PGSIZE) s1 s'"
  shows "entered (Suc k) perm a pa s s'"
proof -
  have a: "a \<le> MAXVA" using b by (simp add: word_le_nat_alt)
  note lk = enter_look [OF i a e] and nv = enter_ok [OF i a e]
  have ne: "vpath (page_no a (Suc j)) \<noteq> vpath a" if "j < k" for j
    using vpath_page_no_inj [OF al b, of "Suc j" 0] that k by simp
  have first: "look s' (vpath a) = PA2PTE pa OR perm OR PTE_V"
  proof -
    have "\<forall>j<k. vpath a \<noteq> vpath (page_no (a + PGSIZE) j)" using ne unfolding page_no_Suc by metis
    then have "look s' (vpath a) = look s1 (vpath a)" using r by (simp add: entered_def)
    also have "\<dots> = PA2PTE pa OR perm OR PTE_V" using lk [OF vpath_vpaths, of a] by simp
    finally show ?thesis .
  qed
  have keep: "look s' v = look s v" if "v \<in> vpaths" "\<forall>j < Suc k. v \<noteq> vpath (page_no a j)" for v
  proof -
    have "v \<noteq> vpath a" using that(2) by force
    moreover have "v \<noteq> vpath (page_no (a + PGSIZE) j)" if "j < k" for j
      using \<open>\<forall>j < Suc k. v \<noteq> vpath (page_no a j)\<close> that by (metis Suc_less_eq page_no_Suc)
    ultimately show ?thesis using r that(1) lk by (simp add: entered_def)
  qed
  show ?thesis
    unfolding entered_def
  proof (intro conjI allI ballI impI)
    fix j assume j: "j < Suc k"
    show "look s' (vpath (page_no a j)) = PA2PTE (page_no pa j) OR perm OR PTE_V"
    proof (cases j)
      case (Suc i)
      then show ?thesis using r j unfolding entered_def page_no_Suc [symmetric] by simp
    qed (simp add: first)
    show "\<not> vld (look s (vpath (page_no a j)))"
    proof (cases j)
      case (Suc i)
      then have "look s1 (vpath (page_no a j)) = look s (vpath (page_no a j))"
        using lk [of "vpath (page_no a j)"] ne [of i] j by simp
      moreover have "\<not> vld (look s1 (vpath (page_no a j)))"
        using r j Suc unfolding entered_def page_no_Suc [symmetric] by simp
      ultimately show ?thesis by metis
    qed (use nv in simp)
  qed (use keep in blast)
qed

lemma enter_range_spec:
  assumes "inv s" and "page_aligned a" and "unat a + n * 4096 \<le> unat MAXVA"
    and "enter_range n perm a pa s = (ok, s')"
  shows "ext s s' \<and> (\<exists>k. entered k perm a pa s s' \<and> (if ok then k = Suc n else k \<le> n \<and>
    (vld (look s (vpath (page_no a k))) \<or> avail s' = {})))"
  using assms
proof (induction n arbitrary: a pa s)
  case 0
  then have a: "a \<le> MAXVA" and e: "enter perm a pa s = (ok, s')" by (simp_all add: word_le_nat_alt)
  note l = enter_look [OF 0(1) a e]
  show ?case
  proof (cases ok)
    case True
    then have "entered (Suc 0) perm a pa s s'"
      using l enter_ok [OF 0(1) a] e by (simp add: entered_def)
    with True enter_ext [OF 0(1) a e] show ?thesis by auto
  next
    case False
    then have "entered 0 perm a pa s s'" using l by (simp add: entered_def)
    with False enter_ext [OF 0(1) a e] enter_fail [OF 0(1) a] e show ?thesis by auto
  qed
next
  case (Suc n)
  have a: "a \<le> MAXVA" using Suc.prems(3) by (simp add: word_le_nat_alt)
  obtain ok1 s1 where e: "enter perm a pa s = (ok1, s1)" by fastforce
  show ?case
  proof (cases ok1)
    case True
    have ua: "unat (a + PGSIZE) = unat a + 4096"
      using unat_page_no [of a 1] Suc.prems(3) by (simp add: page_no_def rv_const)
    have r: "enter_range n perm (a + PGSIZE) (pa + PGSIZE) s1 = (ok, s')" using Suc.prems(4) e True by simp
    have x: "ext s s1" by (rule enter_ext [OF Suc.prems(1) a e])
    have "page_aligned (a + PGSIZE)" using Suc.prems(2) ua by (simp add: page_aligned_unat)
    moreover have "unat (a + PGSIZE) + n * 4096 \<le> unat MAXVA" using Suc.prems(3) ua by simp
    ultimately obtain k where k: "ext s1 s'" "entered k perm (a + PGSIZE) (pa + PGSIZE) s1 s'"
      "if ok then k = Suc n else k \<le> n \<and> (vld (look s1 (vpath (page_no a (Suc k)))) \<or> avail s' = {})"
      using Suc.IH [OF ext_inv [OF x] _ _ r] unfolding page_no_Suc by metis
    have kn: "k \<le> Suc n" using k(3) by (auto split: if_splits)
    have "entered (Suc k) perm a pa s s'"
      using entered_Suc [OF Suc.prems(2,3) kn Suc.prems(1) _ k(2)] e True by simp
    moreover have "look s1 (vpath (page_no a (Suc k))) = look s (vpath (page_no a (Suc k)))" if "k \<le> n"
      using enter_look [OF Suc.prems(1) a e, of "vpath (page_no a (Suc k))"]
        vpath_page_no_inj [OF Suc.prems(2,3), of "Suc k" 0] that by simp
    ultimately show ?thesis using k(3) ext_trans [OF x k(1)] by (intro conjI exI [of _ "Suc k"]) auto
  next
    case False
    then have "\<not> ok" "s' = s1" using Suc.prems(4) e by auto
    moreover have "entered 0 perm a pa s s1"
      using enter_look [OF Suc.prems(1) a e] False by (simp add: entered_def)
    moreover have "vld (look s (vpath a)) \<or> avail s1 = {}"
      using enter_fail [OF Suc.prems(1) a] e False by simp
    ultimately show ?thesis using enter_ext [OF Suc.prems(1) a e] by auto
  qed
qed

end

interpretation pm: page_mapper "map_page root" "\<lambda>s. leaf (mem s) root" "\<lambda>s s'. pt_ext s s' root"
    free_pages "\<lambda>s. pt_wf s root" for root
  by unfold_locales (blast intro: map_page_ext map_page_leaf pt_ext_wf pt_ext_trans dest: map_page_ok map_page_fail)+

lemma mappages_loop_range:
  assumes "page_aligned a" and "unat a + n * 4096 \<le> unat MAXVA"
  shows "mappages_loop root a (page_no a n) pa perm s =
    (let (ok, s') = pm.enter_range root n perm a pa s in (if ok then 0 else -1, s'))"
  using assms
proof (induction n arbitrary: a pa s)
  case 0
  then show ?case by (simp add: mappages_loop.simps [of root a] split: prod.splits)
next
  case (Suc n)
  have u: "unat (page_no a (Suc n)) = unat a + Suc n * 4096"
    using Suc.prems(2) by (intro unat_page_no) (simp add: rv_const)
  then have ne: "a \<noteq> page_no a (Suc n)" by (metis add_cancel_right_right mult_is_0 nat.distinct(1) zero_neq_numeral)
  have ua: "unat (a + PGSIZE) = unat a + 4096"
    using unat_page_no [of a 1] Suc.prems(2) by (simp add: page_no_def rv_const)
  have "page_aligned (a + PGSIZE)" using Suc.prems(1) ua by (simp add: page_aligned_unat)
  moreover have "unat (a + PGSIZE) + n * 4096 \<le> unat MAXVA" using Suc.prems(2) ua by simp
  ultimately show ?case
    using Suc.IH [of "a + PGSIZE"] ne
    by (simp add: mappages_loop.simps [of root a] page_no_Suc split: prod.splits)
qed

text \<open>The number of pages after the first that the range \<open>[va, va + sz)\<close> touches.\<close>

definition more_pages :: "u64 \<Rightarrow> u64 \<Rightarrow> nat" where
  "more_pages va sz = (unat va + unat sz - 1) div 4096 - unat va div 4096"

lemma page_no_last:
  assumes "0 < sz" and "unat va + unat sz \<le> unat MAXVA"
  shows "PGROUNDDOWN (va + sz - 1) = page_no (PGROUNDDOWN va) (more_pages va sz)"
    and "unat (PGROUNDDOWN va) + more_pages va sz * 4096 \<le> unat MAXVA"
proof -
  have s0: "0 < unat sz" using assms(1) by (simp add: word_less_nat_alt)
  have "unat (va + sz) = unat va + unat sz"
    using assms(2) by (intro unat_add_lem [THEN iffD1]) (simp add: rv_const)
  moreover have "1 \<le> va + sz" using calculation s0 by (simp add: word_le_nat_alt)
  ultimately have u: "unat (va + sz - 1) = unat va + unat sz - 1" by (simp add: unat_sub)
  have le: "unat va div 4096 \<le> (unat va + unat sz - 1) div 4096" using s0 by (intro div_le_mono) simp
  then have n: "unat va div 4096 * 4096 + more_pages va sz * 4096 = (unat va + unat sz - 1) div 4096 * 4096"
    by (simp add: more_pages_def algebra_simps flip: add_mult_distrib)
  then have le2: "unat va div 4096 * 4096 + more_pages va sz * 4096 \<le> unat va + unat sz - 1"
    by (metis div_times_less_eq_dividend)
  then show "unat (PGROUNDDOWN va) + more_pages va sz * 4096 \<le> unat MAXVA"
    using assms(2) by (simp add: unat_PGROUNDDOWN)
  then have "unat (page_no (PGROUNDDOWN va) (more_pages va sz)) = unat (PGROUNDDOWN (va + sz - 1))"
    using n u by (subst unat_page_no) (simp_all add: unat_PGROUNDDOWN rv_const)
  then show "PGROUNDDOWN (va + sz - 1) = page_no (PGROUNDDOWN va) (more_pages va sz)"
    by (simp only: word_unat_eq_iff)
qed

lemma mappages_entered:
  assumes "pt_wf s root" and "0 < sz" and "unat va + unat sz \<le> unat MAXVA"
    and "mappages root va pa sz perm s = (r, s')"
  obtains k where "pt_ext s s' root" and "pm.entered root k perm (PGROUNDDOWN va) pa s s'"
    and "r = 0 \<and> k = Suc (more_pages va sz) \<or>
      r = -1 \<and> k \<le> more_pages va sz \<and>
      (vld (leaf (mem s) root (vpath (page_no (PGROUNDDOWN va) k))) \<or> free_pages s' = {})"
proof -
  note pl = page_no_last [OF assms(2,3)]
  obtain ok s1 where e: "pm.enter_range root (more_pages va sz) perm (PGROUNDDOWN va) pa s = (ok, s1)" by fastforce
  then have "s1 = s'" "r = (if ok then 0 else -1)"
    using assms(4) mappages_loop_range [OF page_aligned_PGROUNDDOWN pl(2), of root pa perm s]
    by (simp_all add: mappages_def pl(1))
  with pm.enter_range_spec [OF assms(1) page_aligned_PGROUNDDOWN pl(2) e] that
  show ?thesis by (cases ok) auto
qed

subsection \<open>Properties\<close>

text \<open>
  C8. \<^verbatim>\<open>walk\<close> on a well-formed table and an address up to \<^verbatim>\<open>MAXVA\<close>: with \<open>alloc\<close> it may add table
  pages taken from the free pages, never changes a translation or memory outside the tables,
  and returns the address of the entry for \<open>va\<close>, or null only when the free pages are used
  up; without \<open>alloc\<close> it changes nothing and finds the entry exactly when its tables exist.
\<close>

theorem walk_correct:
  assumes "pt_wf s root" and "va \<le> MAXVA"
  shows "pt_grow s (snd (walk root va True s)) root \<and>
    (fst (walk root va True s) = 0 \<longrightarrow> free_pages (snd (walk root va True s)) = {}) \<and>
    (fst (walk root va True s) \<noteq> 0 \<longrightarrow>
       mem (snd (walk root va True s)) (fst (walk root va True s)) = leaf (mem s) root (vpath va)) \<and>
    snd (walk root va False s) = s \<and>
    (fst (walk root va False s) \<noteq> 0 \<longleftrightarrow> tab (mem s) root (take 2 (vpath va)) \<noteq> None) \<and>
    (fst (walk root va False s) \<noteq> 0 \<longrightarrow> mem s (fst (walk root va False s)) = leaf (mem s) root (vpath va))"
proof -
  let ?p = "take 2 (vpath va)"
  obtain a s' where w: "walk root va True s = (a, s')" by fastforce
  note g = walk_alloc [OF assms w]
  have alloc: "mem s' a = leaf (mem s) root (vpath va)" if "a \<noteq> 0"
  proof -
    have "leaf (mem s') root (vpath va) = mem s' a" using g(3) [OF that] by (auto simp: leaf_def)
    moreover have "leaf (mem s') root (vpath va) = leaf (mem s) root (vpath va)"
      using g(1) by (simp add: pt_grow_def)
    ultimately show ?thesis by simp
  qed
  have l: "length ?p \<le> 2" and b: "vpath va ! 2 < 512" using PX_bound by (simp_all add: vpath_def)
  have "pte_addr t (vpath va ! 2) \<noteq> 0" if "tab (mem s) root ?p = Some t" for t
    using pt_wf_aligned [OF assms(1) l that] b by (intro pte_addr_nonzero) auto
  with g(1,2) w alloc show ?thesis
    by (simp add: walk_find [OF assms] leaf_def split: option.splits)
qed

text \<open>An allocated zero page is a table with no entries.\<close>

lemma pt_wf_empty:
  assumes "phys_wf s" and "root \<in> live_pages s" and z: "\<And>i. i < 512 \<Longrightarrow> mem s (pte_addr root i) = 0"
  shows "pt_wf s root" and "v \<in> vpaths \<Longrightarrow> leaf (mem s) root v = 0" and "tables (mem s) root = {root}"
proof -
  have t: "tab (mem s) root p = (if p = [] then Some root else None)" for p
    using z by (cases p) auto
  show "pt_wf s root" using assms unfolding pt_wf_def t by (auto split: if_splits)
  show "leaf (mem s) root v = 0" if "v \<in> vpaths"
    using that by (auto simp: leaf_def t vpaths_def)
  show "tables (mem s) root = {root}" by (auto simp: tables_def t intro!: exI [of _ "[]"])
qed

lemma demo_pt_wf: "pt_wf demo_phys 0x87FF9000"
  and demo_leaf: "v \<in> vpaths \<Longrightarrow> leaf (mem demo_phys) 0x87FF9000 v = 0"
proof -
  have npage: "km_npage demo_phys = 8" and used: "page_used (km_bitmap demo_phys) 1"
    by (simp_all add: demo_phys_def page_used_def)
  have "page_addr demo_phys 1 \<in> pool_pages demo_phys" unfolding pool_pages_def by (rule imageI) (simp add: demo_phys_def)
  moreover have "page_addr demo_phys 1 = page_addr demo_phys i \<longleftrightarrow> i = 1" if "int i < 8" for i
    using page_addr_inj [OF demo_phys_wf, of 1 i] that npage by auto
  then have "page_addr demo_phys 1 \<notin> free_pages demo_phys"
    using used npage unfolding free_pages_def by auto
  ultimately have "0x87FF9000 \<in> live_pages demo_phys"
    by (simp add: live_pages_def page_addr_def demo_phys_def rv_const)
  note e = pt_wf_empty [OF demo_phys_wf this]
  show "pt_wf demo_phys 0x87FF9000" by (rule e(1)) (simp add: demo_phys_def)
  show "v \<in> vpaths \<Longrightarrow> leaf (mem demo_phys) 0x87FF9000 v = 0" by (rule e(2)) (simp_all add: demo_phys_def)
qed

theorem walk_correct_witness:
  "pt_wf demo_phys 0x87FF9000 \<and> fst (walk 0x87FF9000 0x88000000 False demo_phys) = 0 \<and>
   pt_grow demo_phys (snd (walk 0x87FF9000 0x88000000 True demo_phys)) 0x87FF9000"
proof -
  have h: "(0x88000000 :: u64) \<le> MAXVA" by (simp add: rv_const)
  have "tab (mem demo_phys) 0x87FF9000 (take 2 (vpath 0x88000000)) = None"
    by (simp add: vpath_def demo_phys_def)
  with walk_correct [OF demo_pt_wf h] demo_pt_wf show ?thesis by simp
qed

text \<open>
  C7. \<^verbatim>\<open>mappages\<close> on a non-empty range below \<^verbatim>\<open>MAXVA\<close>: it returns 0 and then every page of the
  range, all of them unmapped before, translates to the matching page of the physical range
  with the given permission bits, or it returns -1 at the first page that is already mapped
  or for which no table could be allocated, with the pages before it entered. In both cases
  no other translation changes, and memory outside the tables is untouched.
\<close>

theorem mappages_correct:
  assumes "pt_wf s root" and "0 < sz" and "unat va + unat sz \<le> unat MAXVA"
    and "mappages root va pa sz perm s = (r, s')"
  shows "pt_ext s s' root \<and>
    (\<exists>k. (\<forall>j<k. leaf (mem s') root (vpath (page_no (PGROUNDDOWN va) j)) = PA2PTE (page_no pa j) OR perm OR PTE_V \<and>
             \<not> vld (leaf (mem s) root (vpath (page_no (PGROUNDDOWN va) j)))) \<and>
         (\<forall>v \<in> vpaths. (\<forall>j<k. v \<noteq> vpath (page_no (PGROUNDDOWN va) j)) \<longrightarrow>
             leaf (mem s') root v = leaf (mem s) root v) \<and>
         (r = 0 \<and> k = Suc (more_pages va sz) \<or>
          r = -1 \<and> k \<le> more_pages va sz \<and>
          (vld (leaf (mem s) root (vpath (page_no (PGROUNDDOWN va) k))) \<or> free_pages s' = {})))"
proof -
  obtain k where k: "pt_ext s s' root" "pm.entered root k perm (PGROUNDDOWN va) pa s s'"
    "r = 0 \<and> k = Suc (more_pages va sz) \<or> r = -1 \<and> k \<le> more_pages va sz \<and>
      (vld (leaf (mem s) root (vpath (page_no (PGROUNDDOWN va) k))) \<or> free_pages s' = {})"
    using mappages_entered [OF assms] .
  from k(2) [unfolded pm.entered_def] k(1,3) show ?thesis by (intro conjI exI [of _ k]) blast+
qed

theorem mappages_correct_witness:
  "fst (mappages 0x87FF9000 0x88000000 0x87FFF000 4096 22 demo_phys) = 0 \<and>
   leaf (mem (snd (mappages 0x87FF9000 0x88000000 0x87FFF000 4096 22 demo_phys))) 0x87FF9000 (vpath 0x88000000)
     = PA2PTE 0x87FFF000 OR 22 OR PTE_V"
proof -
  let ?m = "mappages 0x87FF9000 0x88000000 0x87FFF000 4096 22 demo_phys"
  have r: "fst ?m = 0"
    by code_simp
  have "more_pages 0x88000000 4096 = 0" by (simp add: more_pages_def)
  moreover have "PGROUNDDOWN 0x88000000 = 0x88000000" by (simp add: PGROUNDDOWN_def rv_const)
  moreover have "(0::u64) < 4096" "unat (0x88000000 :: u64) + unat (4096 :: u64) \<le> unat MAXVA"
    by (simp_all add: rv_const)
  note mappages_correct [OF demo_pt_wf this surjective_pairing, of "0x87FFF000" 22]
  ultimately show ?thesis using r by auto
qed

end
