(* ===== verification/RV_Vm.thy ===== *)
theory RV_Vm
  imports RV_Pagetable
begin

text \<open>
  Address spaces, the second half of \<^verbatim>\<open>kernelspace/mm/pagetable.c\<close>: building the kernel's and a
  process's page table (\<^verbatim>\<open>kvminit\<close>, \<^verbatim>\<open>uvmmap_kernel\<close>, \<^verbatim>\<open>uvmcreate\<close>) and taking the latter apart
  (\<^verbatim>\<open>uvmfree\<close> over \<^verbatim>\<open>uvmunmap\<close> and \<^verbatim>\<open>freewalk\<close>). The linker symbols that \<^verbatim>\<open>kvminit\<close> reads are the
  fields of the record \<open>image\<close>. The lemmas show what \<^verbatim>\<open>uvmunmap\<close> removes and frees, that the
  teardown gives back every table and user page, and when it panics instead.
\<close>

subsection \<open>Operations\<close>

record image =
  etext :: u64
  fs_start :: u64
  fs_end :: u64
  erodata :: u64

text \<open>A sequence of \<^verbatim>\<open>mappages\<close> calls whose results are ignored, as the builders make them.\<close>

primrec map_regions :: "u64 \<Rightarrow> (u64 \<times> u64 \<times> u64 \<times> u64) list \<Rightarrow> 'a phys_scheme \<Rightarrow> 'a phys_scheme" where
  "map_regions pt [] s = s"
| "map_regions pt (r # rs) s =
     (case r of (va, pa, sz, perm) \<Rightarrow> map_regions pt rs (snd (mappages pt va pa sz perm s)))"

definition mmio_regions :: "(u64 \<times> u64 \<times> u64 \<times> u64) list" where
  "mmio_regions =
     [(0x10000000, 0x10000000, PGSIZE, PTE_R OR PTE_W),
      (0x10001000, 0x10001000, PGSIZE, PTE_R OR PTE_W),
      (CLINT, CLINT, 0x10000, PTE_R OR PTE_W),
      (PLIC, PLIC, 0x400000, PTE_R OR PTE_W),
      (SYSCON, SYSCON, PGSIZE, PTE_R OR PTE_W)]"

definition kvminit :: "image \<Rightarrow> 'a phys_scheme \<Rightarrow> (u64 \<times> 'a phys_scheme) res" where
  "kvminit im s =
     (let (pt, s1) = kalloc s in
      if pt = 0 then Inl (Undefined ''kvminit: null kernel_pagetable'')
      else Inr (pt, map_regions pt
        ([(0x80000000, 0x80000000, etext im - 0x80000000, PTE_R OR PTE_X),
          (fs_start im, fs_start im, fs_end im - fs_start im, PTE_R OR PTE_W OR PTE_X)] @
         (if fs_end im < erodata im then [(fs_end im, fs_end im, erodata im - fs_end im, PTE_R)] else []) @
         [(erodata im, erodata im, PHYSTOP - erodata im, PTE_R OR PTE_W)] @ mmio_regions)
        (s1\<lparr>mem := fill_page (mem s1) pt 0\<rparr>)))"

definition uvmmap_kernel :: "u64 \<Rightarrow> 'a phys_scheme \<Rightarrow> 'a phys_scheme" where
  "uvmmap_kernel pt s =
     map_regions pt ((0x80000000, 0x80000000, PHYSTOP - 0x80000000, PTE_R OR PTE_W OR PTE_X) # mmio_regions) s"

definition uvmcreate :: "u64 \<Rightarrow> 'a phys_scheme \<Rightarrow> u64 \<times> 'a phys_scheme" where
  "uvmcreate context s =
     (let (pt, s1) = kalloc s in
      if pt = 0 then (0, s1)
      else
        let s2 = uvmmap_kernel pt (s1\<lparr>mem := fill_page (mem s1) pt 0\<rparr>)
        in (pt, snd (mappages pt TRAPFRAME context PGSIZE (PTE_R OR PTE_W) s2)))"

text \<open>The \<^verbatim>\<open>uvmunmap\<close> calls of \<^verbatim>\<open>uvmfree\<close>: start, number of pages, \<open>do_free\<close>.\<close>

definition free_regions :: "u64 \<Rightarrow> (u64 \<times> u64 \<times> bool) list" where
  "free_regions sz =
     (if USERBASE < sz then [(USERBASE, (PGROUNDUP sz - USERBASE) div PGSIZE, True)] else []) @
     [(USTACK_TOP - PGSIZE, 1, True),
      (0x80000000, (PHYSTOP - 0x80000000) div PGSIZE, False),
      (0x10000000, 1, False),
      (0x10001000, 1, False),
      (CLINT, 0x10000 div PGSIZE, False),
      (PLIC, 0x400000 div PGSIZE, False),
      (SYSCON, 1, False),
      (TRAPFRAME, 1, False)]"

definition uvmfree :: "u64 \<Rightarrow> u64 \<Rightarrow> 'a phys_scheme \<Rightarrow> 'a phys_scheme res" where
  "uvmfree pt sz s =
     rbind (rfold (\<lambda>(va, npages, do_free). uvmunmap pt va npages do_free) (free_regions sz) s)
       (freewalk 3 pt)"

definition kvminithart :: "u64 \<Rightarrow> u64 \<Rightarrow> u64" where
  "kvminithart kernel_pagetable satp =
     ((satp AND NOT (2 ^ 60 - 1)) OR push_bit 60 8) OR drop_bit 12 kernel_pagetable"

subsection \<open>Removing translations\<close>

lemma pt_wf_kfree:
  assumes wf: "pt_wf s root" and p: "p \<in> pool_pages s" "p \<notin> tables (mem s) root"
  shows "pt_wf (kfree p s) root"
proof -
  note k = pa.dealloc_page [OF pt_wf_phys [OF wf] p(1)]
  have "t \<in> live_pages (kfree p s)" if "length q \<le> 2" "tab (mem s) root q = Some t" for q t
  proof -
    have "t \<in> tables (mem s) root" using that unfolding tables_def by blast
    with p(2) k pt_wf_live [OF wf that] show ?thesis by (auto simp: live_pages_def)
  qed
  with wf k show ?thesis by (simp add: pt_wf_def)
qed

text \<open>\<open>pt_cut s s' root F\<close>: the same tables, and exactly the pages \<open>F\<close> were given back.\<close>

definition pt_cut :: "'a phys_scheme \<Rightarrow> 'a phys_scheme \<Rightarrow> u64 \<Rightarrow> u64 set \<Rightarrow> bool" where
  "pt_cut s s' root F \<longleftrightarrow>
     pt_wf s' root \<and> (\<forall>p. length p \<le> 2 \<longrightarrow> tab (mem s') root p = tab (mem s) root p) \<and>
     (\<forall>a. PGROUNDDOWN a \<notin> tables (mem s) root \<longrightarrow> mem s' a = mem s a) \<and>
     free_pages s' = free_pages s \<union> F \<and> pool_pages s' = pool_pages s"

lemma pt_cut_tables: "pt_cut s s' root F \<Longrightarrow> tables (mem s') root = tables (mem s) root"
  unfolding pt_cut_def tables_def by auto

lemma pt_cut_refl: "pt_wf s root \<Longrightarrow> pt_cut s s root {}"
  by (simp add: pt_cut_def)

lemma pt_cut_trans:
  assumes "pt_cut s s1 root F" and "pt_cut s1 s2 root G"
  shows "pt_cut s s2 root (F \<union> G)"
  using assms pt_cut_tables [OF assms(1)] by (simp add: pt_cut_def Un_assoc)

text \<open>A page that \<^verbatim>\<open>uvmunmap\<close> can take out: not an inner entry, and if freed then a pool page.\<close>

definition unmappable :: "'a phys_scheme \<Rightarrow> u64 \<Rightarrow> bool \<Rightarrow> nat list \<Rightarrow> bool" where
  "unmappable s root do_free v \<longleftrightarrow>
     (vld (leaf (mem s) root v) \<longrightarrow> PTE_FLAGS (leaf (mem s) root v) \<noteq> PTE_V \<and>
        (do_free \<longrightarrow> PTE2PA (leaf (mem s) root v) \<in> pool_pages s - tables (mem s) root))"

definition freed :: "'a phys_scheme \<Rightarrow> u64 \<Rightarrow> bool \<Rightarrow> nat list set \<Rightarrow> u64 set" where
  "freed s root do_free V =
     (if do_free then (\<lambda>v. PTE2PA (leaf (mem s) root v)) ` {v \<in> V. vld (leaf (mem s) root v)} else {})"

definition cleared :: "'a phys_scheme \<Rightarrow> 'a phys_scheme \<Rightarrow> u64 \<Rightarrow> nat list set \<Rightarrow> bool" where
  "cleared s s' root V \<longleftrightarrow> (\<forall>v \<in> vpaths. leaf (mem s') root v =
     (if v \<in> V \<and> vld (leaf (mem s) root v) then 0 else leaf (mem s) root v))"

lemma unmap_page_spec:
  assumes wf: "pt_wf s root" and a: "a \<le> MAXVA" and u: "unmappable s root do_free (vpath a)"
  shows "\<exists>s'. unmap_page root do_free a s = Inr s' \<and> pt_cut s s' root (freed s root do_free {vpath a}) \<and>
    cleared s s' root {vpath a}"
proof (cases "vld (leaf (mem s) root (vpath a))")
  case False
  then have "unmap_page root do_free a s = Inr s"
    by (auto simp: unmap_page_def walk_find [OF wf a] leaf_def split: option.splits)
  moreover have "freed s root do_free {vpath a} = {}" using False by (auto simp: freed_def)
  ultimately show ?thesis using False wf by (auto simp: pt_cut_refl cleared_def)
next
  case True
  define e where "e = leaf (mem s) root (vpath a)"
  obtain t where t: "tab (mem s) root (take 2 (vpath a)) = Some t"
    using True by (auto simp: leaf_def split: option.splits)
  have l: "length (take 2 (vpath a)) \<le> 2" and i: "vpath a ! 2 < 512"
    using PX_bound by (simp_all add: vpath_def)
  have e: "mem s (pte_addr t (vpath a ! 2)) = e" using t by (simp add: leaf_def e_def)
  have nz: "pte_addr t (vpath a ! 2) \<noteq> 0"
    using pt_wf_aligned [OF wf l t] i by (intro pte_addr_nonzero) auto
  define s1 where "s1 = (if do_free then kfree (PTE2PA e) s else s)"
  have wf1: "pt_wf s1 root" and m1: "mem s1 = mem s"
    using u True wf pt_wf_kfree [OF wf] by (auto simp: s1_def unmappable_def e_def)
  have pg: "free_pages s1 = free_pages s \<union> freed s root do_free {vpath a}" "pool_pages s1 = pool_pages s"
    using u True pa.dealloc_page [OF pt_wf_phys [OF wf]] by (auto simp: s1_def unmappable_def e_def freed_def)
  have t1: "tab (mem s1) root (take 2 (vpath a)) = Some t" using t m1 by simp
  let ?s' = "s1\<lparr>mem := (mem s1)(pte_addr t (vpath a ! 2) := 0)\<rparr>"
  have "unmap_page root do_free a s = Inr ?s'"
    using u True e nz by (simp add: unmap_page_def walk_find [OF wf a] t s1_def unmappable_def e_def)
  moreover have "pt_cut s ?s' root (freed s root do_free {vpath a})"
    using leaf_write_wf [OF wf1 vpath_vpaths t1 refl, of 0] leaf_write_tab [OF wf1 vpath_vpaths t1 refl, of _ 0]
      leaf_write_ext [OF wf1 vpath_vpaths t1, of 0] m1 pg
    by (simp add: pt_cut_def pt_ext_def tables_def)
  moreover have "cleared s ?s' root {vpath a}"
    using leaf_write_leaf [OF wf1 vpath_vpaths t1 refl, of _ 0] m1 True by (simp add: cleared_def)
  ultimately show ?thesis by blast
qed

text \<open>Clearing twice: the second pass sees the entries of the first or zero.\<close>

lemma cleared_unmappable:
  assumes "cleared s s1 root V" and "pt_cut s s1 root F" and "v \<in> vpaths" and "unmappable s root df v"
  shows "unmappable s1 root df v"
  using assms pt_cut_tables [OF assms(2)] by (auto simp: cleared_def unmappable_def pt_cut_def)

lemma cleared_trans:
  assumes "cleared s s1 root V" and "cleared s1 s2 root W"
  shows "cleared s s2 root (V \<union> W)"
  using assms unfolding cleared_def by auto

lemma freed_after:
  assumes "cleared s s1 root V" and "W \<subseteq> vpaths" and "V \<inter> W = {}"
  shows "freed s1 root df W = freed s root df W"
proof -
  have "leaf (mem s1) root w = leaf (mem s) root w" if "w \<in> W" for w
  proof -
    have "w \<in> vpaths" "w \<notin> V" using assms(2,3) that by auto
    with assms(1) show ?thesis unfolding cleared_def by simp
  qed
  then show ?thesis unfolding freed_def by (auto cong: conj_cong image_cong_simp)
qed

definition vrange :: "u64 \<Rightarrow> nat \<Rightarrow> nat list set" where
  "vrange a n = (\<lambda>j. vpath (page_no a j)) ` {..<n}"

lemma vrange_vpaths: "vrange a n \<subseteq> vpaths"
  by (auto simp: vrange_def)

lemma vrange_0: "vrange a 0 = {}"
  by (simp add: vrange_def)

lemma vrange_Suc: "vrange a (Suc n) = insert (vpath a) (vrange (a + PGSIZE) n)"
  by (simp add: vrange_def lessThan_Suc_eq_insert_0 image_image page_no_Suc [symmetric])

lemma freed_Un: "freed s root df (V \<union> W) = freed s root df V \<union> freed s root df W"
  by (auto simp: freed_def)

lemma unmap_loop_spec:
  assumes "pt_wf s root" and "page_aligned a" and "unat a + n * 4096 \<le> unat MAXVA"
    and "\<forall>v \<in> vrange a n. unmappable s root df v"
  shows "\<exists>s'. unmap_loop n root a df s = Inr s' \<and> pt_cut s s' root (freed s root df (vrange a n)) \<and>
    cleared s s' root (vrange a n)"
  using assms
proof (induction n arbitrary: a s)
  case 0
  then show ?case by (simp add: vrange_def pt_cut_refl freed_def cleared_def)
next
  case (Suc n)
  have a: "a \<le> MAXVA" using Suc.prems(3) by (simp add: word_le_nat_alt)
  have ua: "unat (a + PGSIZE) = unat a + 4096"
    using unat_page_no [of a 1] Suc.prems(3) by (simp add: page_no_def rv_const)
  have al: "page_aligned (a + PGSIZE)" and b: "unat (a + PGSIZE) + n * 4096 \<le> unat MAXVA"
    using Suc.prems(2,3) ua by (simp_all add: page_aligned_unat)
  obtain s1 where s1: "unmap_page root df a s = Inr s1" "pt_cut s s1 root (freed s root df {vpath a})"
      "cleared s s1 root {vpath a}"
    using unmap_page_spec [OF Suc.prems(1) a] Suc.prems(4) by (auto simp: vrange_Suc)
  have "\<forall>v \<in> vrange (a + PGSIZE) n. unmappable s1 root df v"
    using Suc.prems(4) subsetD [OF vrange_vpaths] cleared_unmappable [OF s1(3,2)] by (simp add: vrange_Suc)
  moreover have "pt_wf s1 root" using s1(2) by (simp add: pt_cut_def)
  ultimately obtain s2 where s2: "unmap_loop n root (a + PGSIZE) df s1 = Inr s2"
      "pt_cut s1 s2 root (freed s1 root df (vrange (a + PGSIZE) n))" "cleared s1 s2 root (vrange (a + PGSIZE) n)"
    using Suc.IH [OF _ al b] by blast
  have "vpath a \<notin> vrange (a + PGSIZE) n"
  proof
    assume "vpath a \<in> vrange (a + PGSIZE) n"
    then obtain j where "j < n" "vpath (page_no a 0) = vpath (page_no a (Suc j))"
      by (auto simp: vrange_def page_no_Suc)
    then show False using vpath_page_no_inj [OF Suc.prems(2,3), of 0 "Suc j"] by simp
  qed
  then have f: "freed s1 root df (vrange (a + PGSIZE) n) = freed s root df (vrange (a + PGSIZE) n)"
    using freed_after [OF s1(3) vrange_vpaths] by simp
  have V: "vrange a (Suc n) = {vpath a} \<union> vrange (a + PGSIZE) n" by (simp add: vrange_Suc)
  have "unmap_loop (Suc n) root a df s = Inr s2" using s1(1) s2(1) by simp
  moreover have "pt_cut s s2 root (freed s root df (vrange a (Suc n)))"
    using pt_cut_trans [OF s1(2) s2(2)] unfolding V f freed_Un .
  moreover have "cleared s s2 root (vrange a (Suc n))"
    using cleared_trans [OF s1(3) s2(3)] unfolding V .
  ultimately show ?case by blast
qed

lemma uvmunmap_loop:
  assumes "page_aligned va" and "unat va + unat n * 4096 \<le> unat MAXVA"
  shows "uvmunmap root va n df s = unmap_loop (unat n) root va df s"
proof -
  have "va + n * PGSIZE = page_no va (unat n)" by (simp add: page_no_def)
  moreover have "unat (page_no va (unat n)) = unat va + unat n * 4096"
    using assms(2) by (intro unat_page_no) (simp add: rv_const)
  ultimately have e: "unat (va + n * PGSIZE) = unat va + unat n * 4096" by simp
  show ?thesis
  proof (cases "n = 0")
    case False
    then have "0 < unat n" by (simp add: unat_gt_0)
    then have "va < va + n * PGSIZE" using e by (simp add: word_less_nat_alt)
    moreover have "unat ((va + n * PGSIZE - va) div PGSIZE) = unat n"
    proof -
      have "unat (n * PGSIZE) = unat n * 4096"
        using assms(2) unat_page_no [of 0 "unat n"] by (simp add: page_no_def rv_const)
      then show ?thesis by (simp add: unat_div PGSIZE_def)
    qed
    ultimately show ?thesis using assms(1) by (simp add: uvmunmap_def Let_def)
  qed (use assms(1) in \<open>simp add: uvmunmap_def\<close>)
qed

subsection \<open>Freeing the tables\<close>

definition subtree :: "mem \<Rightarrow> nat \<Rightarrow> u64 \<Rightarrow> u64 set" where
  "subtree m n t = {t'. \<exists>p. length p < n \<and> tab m t p = Some t'}"

text \<open>
  The tables below \<open>t\<close> down to depth \<open>n\<close> are distinct allocated pages; the permission bits of a
  valid entry say whether it is one of the last level.
\<close>

definition sub_ok :: "'a phys_scheme \<Rightarrow> nat \<Rightarrow> u64 \<Rightarrow> bool" where
  "sub_ok s n t \<longleftrightarrow>
     subtree (mem s) n t \<subseteq> live_pages s \<and>
     (\<forall>p q t'. length p < n \<longrightarrow> length q < n \<longrightarrow>
        tab (mem s) t p = Some t' \<longrightarrow> tab (mem s) t q = Some t' \<longrightarrow> p = q) \<and>
     (\<forall>p t' i. length p < n \<longrightarrow> i < 512 \<longrightarrow> tab (mem s) t p = Some t' \<longrightarrow>
        vld (mem s (pte_addr t' i)) \<longrightarrow> (rwx (mem s (pte_addr t' i)) \<longleftrightarrow> n \<le> Suc (length p)))"

abbreviation child :: "mem \<Rightarrow> u64 \<Rightarrow> nat \<Rightarrow> u64" where
  "child m t i \<equiv> PTE2PA (m (pte_addr t i))"

definition child_pages :: "mem \<Rightarrow> nat \<Rightarrow> u64 \<Rightarrow> nat \<Rightarrow> u64 set" where
  "child_pages m n t k = (\<Union>i \<in> {i. i < k \<and> vld (m (pte_addr t i))}. subtree m n (child m t i))"

text \<open>No valid entry at the last level.\<close>

primrec leafless :: "mem \<Rightarrow> nat \<Rightarrow> u64 \<Rightarrow> bool" where
  "leafless m 0 t = True"
| "leafless m (Suc n) t = (\<forall>i<512. vld (m (pte_addr t i)) \<longrightarrow> 0 < n \<and> leafless m n (child m t i))"

lemma subtree_Suc: "subtree m (Suc n) t = insert t (child_pages m n t 512)"
proof (intro set_eqI iffI)
  fix x assume "x \<in> subtree m (Suc n) t"
  then obtain p where p: "length p < Suc n" "tab m t p = Some x" by (auto simp: subtree_def)
  show "x \<in> insert t (child_pages m n t 512)"
    using p by (cases p) (auto simp: child_pages_def subtree_def split: if_splits)
next
  fix x assume "x \<in> insert t (child_pages m n t 512)"
  then consider "x = t" | i p where "i < 512" "vld (m (pte_addr t i))" "length p < n" "tab m (child m t i) p = Some x"
    by (auto simp: child_pages_def subtree_def)
  then show "x \<in> subtree m (Suc n) t"
  proof cases
    case 1
    then show ?thesis unfolding subtree_def by (intro CollectI exI [of _ "[]"]) simp
  next
    case 2
    then show ?thesis unfolding subtree_def by (intro CollectI exI [of _ "i # p"]) simp
  qed
qed

lemma child_pages_Suc:
  "child_pages m n t (Suc k) =
     child_pages m n t k \<union> (if vld (m (pte_addr t k)) then subtree m n (child m t k) else {})"
  by (auto simp: child_pages_def less_Suc_eq)

lemma sub_ok_child:
  assumes ok: "sub_ok s (Suc n) t" and i: "i < 512" "vld (mem s (pte_addr t i))"
  shows "sub_ok s n (child (mem s) t i)" and "rwx (mem s (pte_addr t i)) \<longleftrightarrow> n = 0" and "t \<notin> subtree (mem s) n (child (mem s) t i)"
    and "j < 512 \<Longrightarrow> vld (mem s (pte_addr t j)) \<Longrightarrow> j \<noteq> i \<Longrightarrow>
      subtree (mem s) n (child (mem s) t j) \<inter> subtree (mem s) n (child (mem s) t i) = {}"
proof -
  let ?m = "mem s"
  have ext: "tab ?m t (k # p) = tab ?m (child ?m t k) p" if "k < 512" "vld (?m (pte_addr t k))" for k p
    using that by simp
  have inj: "p = q" if "length p < Suc n" "length q < Suc n" "tab ?m t p = Some x" "tab ?m t q = Some x" for p q x
    using ok that unfolding sub_ok_def by blast
  have flags: "rwx (?m (pte_addr t' k)) \<longleftrightarrow> Suc n \<le> Suc (length p)"
    if "length p < Suc n" "k < 512" "tab ?m t p = Some t'" "vld (?m (pte_addr t' k))" for p t' k
    using ok that unfolding sub_ok_def by blast
  show "rwx (?m (pte_addr t i)) \<longleftrightarrow> n = 0" using flags [of "[]" i t] i by simp
  show "t \<notin> subtree ?m n (child ?m t i)"
  proof
    assume "t \<in> subtree ?m n (child ?m t i)"
    then obtain p where p: "length p < n" "tab ?m t (i # p) = Some t" using ext i by (auto simp: subtree_def)
    from inj [OF _ _ this(2), of "[]"] p(1) show False by simp
  qed
  show "subtree ?m n (child ?m t j) \<inter> subtree ?m n (child ?m t i) = {}"
    if j: "j < 512" "vld (?m (pte_addr t j))" "j \<noteq> i"
  proof (rule ccontr)
    assume "\<not> ?thesis"
    then obtain x p q where "length p < n" "tab ?m t (j # p) = Some x" "length q < n" "tab ?m t (i # q) = Some x"
      using ext i j by (auto simp: subtree_def)
    from inj [OF _ _ this(2,4)] this(1,3) j(3) show False by simp
  qed
  have "subtree ?m n (child ?m t i) \<subseteq> subtree ?m (Suc n) t"
    using i by (auto simp: subtree_Suc child_pages_def)
  moreover have "p = q" if "length p < n" "length q < n" "tab ?m (child ?m t i) p = Some x"
      "tab ?m (child ?m t i) q = Some x" for p q x
    using inj [of "i # p" "i # q" x] that ext i by simp
  moreover have "rwx (?m (pte_addr t' k)) \<longleftrightarrow> n \<le> Suc (length p)"
    if "length p < n" "k < 512" "tab ?m (child ?m t i) p = Some t'" "vld (?m (pte_addr t' k))" for p t' k
    using flags [of "i # p" k t'] that ext i by simp
  ultimately show "sub_ok s n (child ?m t i)" using ok unfolding sub_ok_def by blast
qed

text \<open>A subtree does not change when the memory of its own pages does not.\<close>

lemma subtree_frame:
  assumes m: "\<And>a. PGROUNDDOWN a \<in> subtree (mem s) n t \<Longrightarrow> m' a = mem s a"
    and al: "\<And>t'. t' \<in> subtree (mem s) n t \<Longrightarrow> page_aligned t'"
  shows "length p < n \<Longrightarrow> tab m' t p = tab (mem s) t p"
    and "subtree m' n t = subtree (mem s) n t"
proof -
  show tabs: "tab m' t p = tab (mem s) t p" if "length p < n" for p
  proof (rule tab_frame)
    fix q i r t'
    assume "p = q @ i # r" "i < 512" "tab (mem s) t q = Some t'"
    then have "t' \<in> subtree (mem s) n t" using that unfolding subtree_def by force
    with al m \<open>i < 512\<close> pte_addr_page [of t' i] show "m' (pte_addr t' i) = mem s (pte_addr t' i)" by metis
  qed
  then show "subtree m' n t = subtree (mem s) n t" unfolding subtree_def by auto
qed

lemma leafless_frame:
  assumes "\<And>a. PGROUNDDOWN a \<in> subtree m n t \<Longrightarrow> m' a = m a"
    and "\<And>t'. t' \<in> subtree m n t \<Longrightarrow> page_aligned t'"
  shows "leafless m' n t = leafless m n t"
  using assms
proof (induction n arbitrary: t)
  case (Suc n)
  have t: "t \<in> subtree m (Suc n) t" by (simp add: subtree_Suc)
  have e: "m' (pte_addr t i) = m (pte_addr t i)" if "i < 512" for i
    using Suc.prems t pte_addr_page that by metis
  have "leafless m' n (child m t i) = leafless m n (child m t i)" if "i < 512" "vld (m (pte_addr t i))" for i
  proof -
    have "subtree m n (child m t i) \<subseteq> subtree m (Suc n) t"
      using that by (auto simp: subtree_Suc child_pages_def)
    then show ?thesis using Suc.prems by (intro Suc.IH) blast+
  qed
  with e show ?case by auto
qed simp

lemma sub_ok_frame:
  assumes ok: "sub_ok s n t" and wf: "phys_wf s"
    and m: "\<And>a. PGROUNDDOWN a \<in> subtree (mem s) n t \<Longrightarrow> mem u a = mem s a"
    and live: "subtree (mem s) n t \<subseteq> live_pages u"
  shows "sub_ok u n t" and "subtree (mem u) n t = subtree (mem s) n t"
    and "leafless (mem u) n t = leafless (mem s) n t"
proof -
  have al: "page_aligned t'" if "t' \<in> subtree (mem s) n t" for t'
    using that ok pool_pageD [OF wf] by (auto simp: sub_ok_def live_pages_def)
  note f = subtree_frame [OF m al]
  show "subtree (mem u) n t = subtree (mem s) n t" by (rule f(2))
  show "leafless (mem u) n t = leafless (mem s) n t" using m al by (rule leafless_frame)
  have ent: "mem u (pte_addr t' i) = mem s (pte_addr t' i)"
    if "length p < n" "i < 512" "tab (mem s) t p = Some t'" for p t' i
  proof -
    have "t' \<in> subtree (mem s) n t" using that unfolding subtree_def by blast
    with al m that(2) pte_addr_page [of t' i] show ?thesis by metis
  qed
  show "sub_ok u n t" using ok f ent live unfolding sub_ok_def by simp
qed

text \<open>The loop of \<^verbatim>\<open>freewalk\<close> over the entries, after \<open>k\<close> of them.\<close>

definition fw_inv :: "'a phys_scheme \<Rightarrow> nat \<Rightarrow> u64 \<Rightarrow> nat \<Rightarrow> 'a phys_scheme \<Rightarrow> bool" where
  "fw_inv s n t k u \<longleftrightarrow>
     phys_wf u \<and> pool_pages u = pool_pages s \<and>
     free_pages u = free_pages s \<union> child_pages (mem s) n t k \<and>
     (\<forall>a. PGROUNDDOWN a \<notin> insert t (child_pages (mem s) n t k) \<longrightarrow> mem u a = mem s a) \<and>
     (\<forall>i. k \<le> i \<longrightarrow> i < 512 \<longrightarrow> mem u (pte_addr t i) = mem s (pte_addr t i))"

definition frees_subtree :: "'a phys_scheme \<Rightarrow> u64 set \<Rightarrow> 'a phys_scheme \<Rightarrow> bool" where
  "frees_subtree s T s' \<longleftrightarrow>
     phys_wf s' \<and> pool_pages s' = pool_pages s \<and> free_pages s' = free_pages s \<union> T \<and>
     (\<forall>a. PGROUNDDOWN a \<notin> T \<longrightarrow> mem s' a = mem s a)"

lemma fw_child_disjoint:
  assumes ok: "sub_ok s (Suc n) t" and k: "k < 512" "vld (mem s (pte_addr t k))"
  shows "subtree (mem s) n (child (mem s) t k) \<inter> insert t (child_pages (mem s) n t k) = {}"
proof -
  have "subtree (mem s) n (child (mem s) t k) \<inter> subtree (mem s) n (child (mem s) t j) = {}"
    if "j < k" "vld (mem s (pte_addr t j))" for j
    using sub_ok_child(4) [OF ok k, of j] that k(1) by (simp add: Int_commute)
  then show ?thesis using sub_ok_child(3) [OF ok k] unfolding child_pages_def by blast
qed

text \<open>
  What \<^verbatim>\<open>freewalk\<close> does to a subtree: with no valid last-level entry it frees every table of it,
  and otherwise it panics.
\<close>

definition fw_result :: "nat \<Rightarrow> u64 \<Rightarrow> 'a phys_scheme \<Rightarrow> 'a phys_scheme res \<Rightarrow> bool" where
  "fw_result n t s r \<longleftrightarrow>
     (if leafless (mem s) n t then \<exists>s'. r = Inr s' \<and> frees_subtree s (subtree (mem s) n t) s'
      else r = Inl (Panic ''freewalk: leaf''))"

lemma fw_child:
  assumes wf: "phys_wf s" and ok: "sub_ok s (Suc n) t" and k: "k < 512" and inv: "fw_inv s n t k u"
    and v: "vld (mem s (pte_addr t k))"
  defines "c \<equiv> child (mem s) t k"
  shows "sub_ok u n c" and "subtree (mem u) n c = subtree (mem s) n c"
    and "leafless (mem u) n c = leafless (mem s) n c"
proof -
  note c = sub_ok_child [OF ok k v, folded c_def] and disj = fw_child_disjoint [OF ok k v, folded c_def]
  have "mem u a = mem s a" if "PGROUNDDOWN a \<in> subtree (mem s) n c" for a
    using inv disj that unfolding fw_inv_def by blast
  moreover have "subtree (mem s) n c \<subseteq> live_pages u"
  proof -
    have "subtree (mem s) n c \<subseteq> live_pages s" using c(1) by (simp add: sub_ok_def)
    with inv disj show ?thesis unfolding fw_inv_def live_pages_def by blast
  qed
  ultimately show "sub_ok u n c" and "subtree (mem u) n c = subtree (mem s) n c"
    and "leafless (mem u) n c = leafless (mem s) n c"
    using sub_ok_frame [OF c(1) wf] by blast+
qed

lemma fw_inv_child:
  assumes al: "page_aligned t" and ok: "sub_ok s (Suc n) t" and k: "k < 512" and inv: "fw_inv s n t k u"
    and v: "vld (mem s (pte_addr t k))" and fr: "frees_subtree u (subtree (mem s) n (child (mem s) t k)) w"
  shows "fw_inv s n t (Suc k) (w\<lparr>mem := (mem w)(pte_addr t k := 0)\<rparr>)" (is "fw_inv s n t (Suc k) ?w")
proof -
  let ?T = "subtree (mem s) n (child (mem s) t k)"
  have P: "child_pages (mem s) n t (Suc k) = child_pages (mem s) n t k \<union> ?T"
    using v by (simp add: child_pages_Suc)
  have pg: "PGROUNDDOWN (pte_addr t i) = t" if "i < 512" for i using pte_addr_page [OF al that] .
  have "mem ?w (pte_addr t i) = mem s (pte_addr t i)" if i: "Suc k \<le> i" "i < 512" for i
  proof -
    have "mem w (pte_addr t i) = mem u (pte_addr t i)"
      using fr pg [OF i(2)] sub_ok_child(3) [OF ok k v] by (simp add: frees_subtree_def)
    then show ?thesis using inv i pte_addr_inj [OF al al i(2) k] by (simp add: fw_inv_def)
  qed
  moreover have "mem ?w a = mem s a" if "PGROUNDDOWN a \<notin> insert t (child_pages (mem s) n t (Suc k))" for a
  proof -
    have "a \<noteq> pte_addr t k" using that pg [OF k] by auto
    moreover have "mem w a = mem u a" using fr that P by (simp add: frees_subtree_def)
    moreover have "mem u a = mem s a" using inv that P by (simp add: fw_inv_def)
    ultimately show ?thesis by simp
  qed
  ultimately show ?thesis using fr inv unfolding fw_inv_def frees_subtree_def P by (simp add: Un_assoc)
qed

lemma fw_step:
  fixes s :: "'a phys_scheme"
  assumes wf: "phys_wf s" and ok: "sub_ok s (Suc n) t" and k: "k < 512" and inv: "fw_inv s n t k u"
    and rec: "\<And>t (u :: 'a phys_scheme). phys_wf u \<Longrightarrow> sub_ok u n t \<Longrightarrow> 0 < n \<Longrightarrow> fw_result n t u (freewalk n t u)"
  shows "if vld (mem s (pte_addr t k)) \<longrightarrow> 0 < n \<and> leafless (mem s) n (child (mem s) t k)
    then \<exists>u'. freewalk_entry (freewalk n) t k u = Inr u' \<and> fw_inv s n t (Suc k) u'
    else freewalk_entry (freewalk n) t k u = Inl (Panic ''freewalk: leaf'')"
proof -
  let ?e = "mem s (pte_addr t k)" and ?c = "child (mem s) t k"
  have e: "mem u (pte_addr t k) = ?e" using inv k by (simp add: fw_inv_def)
  have "t \<in> live_pages s" using ok by (auto simp: sub_ok_def subtree_Suc)
  then have al: "page_aligned t" using pool_pageD [OF wf] by (auto simp: live_pages_def)
  consider "\<not> vld ?e" | "vld ?e" "n = 0" | "vld ?e" "0 < n" by blast
  then show ?thesis
  proof cases
    case 1
    then show ?thesis using inv e by (auto simp: freewalk_entry_def fw_inv_def child_pages_Suc Let_def)
  next
    case 2
    then show ?thesis using sub_ok_child(2) [OF ok k] e by (simp add: freewalk_entry_def)
  next
    case 3
    note c = fw_child [OF wf ok k inv 3(1)]
    have step: "freewalk_entry (freewalk n) t k u =
        rbind (freewalk n ?c u) (\<lambda>v. Inr (v\<lparr>mem := (mem v)(pte_addr t k := 0)\<rparr>))"
      using sub_ok_child(2) [OF ok k 3(1)] 3 e by (simp add: freewalk_entry_def)
    have "fw_result n ?c u (freewalk n ?c u)" using rec c(1) 3(2) inv by (auto simp: fw_inv_def)
    then show ?thesis
      using step 3 c(2,3) fw_inv_child [OF al ok k inv 3(1)] by (auto simp: fw_result_def)
  qed
qed

lemma freewalk_spec:
  assumes "phys_wf s" and "sub_ok s n t" and "0 < n"
  shows "fw_result n t s (freewalk n t s)"
  using assms
proof (induction n arbitrary: t s)
  case (Suc n)
  note step = fw_step [OF Suc.prems(1,2) _ _ Suc.IH]
  let ?ok = "\<lambda>k. vld (mem s (pte_addr t k)) \<longrightarrow> 0 < n \<and> leafless (mem s) n (child (mem s) t k)"
  have loop: "\<exists>u. rfold (freewalk_entry (freewalk n) t) [0..<k] s = Inr u \<and> fw_inv s n t k u"
    if "k \<le> 512" "\<forall>i<k. ?ok i" for k
    using that
  proof (induction k)
    case 0
    then show ?case using Suc.prems(1) by (simp add: fw_inv_def child_pages_def)
  next
    case (Suc k)
    then obtain u where u: "rfold (freewalk_entry (freewalk n) t) [0..<k] s = Inr u" "fw_inv s n t k u"
      by (meson Suc_leD less_SucI)
    have "?ok k" using Suc.prems(2) by blast
    then obtain u' where "freewalk_entry (freewalk n) t k u = Inr u'" "fw_inv s n t (Suc k) u'"
      using step [OF _ u(2)] Suc.prems(1) by (auto split: if_splits)
    with u(1) show ?case by (simp add: rfold_append)
  qed
  show ?case
  proof (cases "leafless (mem s) (Suc n) t")
    case True
    then obtain u where u: "rfold (freewalk_entry (freewalk n) t) [0..<512] s = Inr u" "fw_inv s n t 512 u"
      using loop [of 512] by auto
    have "t \<in> pool_pages s" using Suc.prems(2) by (auto simp: sub_ok_def subtree_Suc live_pages_def)
    then have "frees_subtree s (subtree (mem s) (Suc n) t) (kfree t u)"
      using u(2) pa.dealloc_page [of u t] unfolding fw_inv_def frees_subtree_def subtree_Suc by simp
    with u(1) True show ?thesis by (simp add: fw_result_def)
  next
    case False
    then obtain j where "j < 512" "\<not> ?ok j" by auto
    from first_counterexample [where P = ?ok, OF this]
    obtain k where k: "k < 512" "\<not> ?ok k" "\<forall>i<k. ?ok i" by blast
    obtain u where u: "rfold (freewalk_entry (freewalk n) t) [0..<k] s = Inr u" "fw_inv s n t k u"
      using loop [of k] k by (meson less_imp_le_nat)
    have "[0..<512] = [0..<k] @ k # [Suc k..<512]"
      using k(1) by (metis less_imp_le_nat upt_add_eq_append upt_conv_Cons le_add_diff_inverse zero_le)
    moreover have "freewalk_entry (freewalk n) t k u = Inl (Panic ''freewalk: leaf'')"
      using step [OF k(1) u(2)] k(2) by simp
    ultimately have "freewalk (Suc n) t s = Inl (Panic ''freewalk: leaf'')" using u(1) by (simp add: rfold_append)
    with False show ?thesis by (simp add: fw_result_def)
  qed
qed simp

subsection \<open>Freeing an address space\<close>

lemma tab_bound: "tab m t p = Some t' \<Longrightarrow> i \<in> set p \<Longrightarrow> i < 512"
  by (induction p arbitrary: t) (auto split: if_splits)

lemma leaf_snoc: "length p = 2 \<Longrightarrow> tab m root p = Some t \<Longrightarrow> leaf m root (p @ [i]) = m (pte_addr t i)"
  by (simp add: leaf_def nth_append)

lemma subtree_3: "subtree m 3 root = tables m root"
  by (simp add: subtree_def tables_def less_Suc_eq_le numeral_3_eq_3 numeral_2_eq_2)

lemma pt_sub_ok:
  assumes wf: "pt_wf s root" and l: "\<forall>v \<in> vpaths. vld (leaf (mem s) root v) \<longrightarrow> rwx (leaf (mem s) root v)"
  shows "sub_ok s 3 root"
proof -
  have "rwx (mem s (pte_addr t i)) \<longleftrightarrow> 3 \<le> Suc (length p)"
    if p: "length p < 3" "i < 512" "tab (mem s) root p = Some t" "vld (mem s (pte_addr t i))" for p t i
  proof (cases "length p = 2")
    case True
    have "p @ [i] \<in> vpaths" using True p(2) tab_bound [OF p(3)] by (auto simp: vpaths_def)
    with l leaf_snoc [OF True p(3), of i] p(4) True show ?thesis by auto
  next
    case False
    with p(1) have "length p \<le> 1" by linarith
    with pt_wf_flags [OF wf _ p(2,3,4)] show ?thesis by auto
  qed
  moreover have "p = q" if "length p < 3" "length q < 3" "tab (mem s) root p = Some t" "tab (mem s) root q = Some t" for p q t
    using pt_wf_inj [OF wf _ _ that(3,4)] that(1,2) by simp
  ultimately show ?thesis using tables_live [OF wf] unfolding sub_ok_def subtree_3 by blast
qed

lemma leafless_iff: "leafless m 3 root \<longleftrightarrow> (\<forall>v \<in> vpaths. \<not> vld (leaf m root v))"
proof -
  have e: "leaf m root [i, j, k] = (if i < 512 \<and> vld (m (pte_addr root i)) \<and> j < 512 \<and>
      vld (m (pte_addr (child m root i) j)) then m (pte_addr (child m (child m root i) j) k) else 0)" for i j k
    by (simp add: leaf_def numeral_2_eq_2)
  have "(\<forall>v \<in> vpaths. P v) \<longleftrightarrow> (\<forall>i<512. \<forall>j<512. \<forall>k<512. P [i, j, k])" for P
    by (auto simp: vpaths_def length_Suc_conv numeral_3_eq_3)
  from this [of "\<lambda>v. \<not> vld (leaf m root v)"]
  have "(\<forall>v \<in> vpaths. \<not> vld (leaf m root v)) \<longleftrightarrow>
      (\<forall>i<512. \<forall>j<512. \<forall>k<512. \<not> vld (leaf m root [i, j, k]))" .
  then show ?thesis by (auto simp: e numeral_3_eq_3)
qed

definition region_ok :: "'a phys_scheme \<Rightarrow> u64 \<Rightarrow> u64 \<times> u64 \<times> bool \<Rightarrow> bool" where
  "region_ok s root r = (case r of (va, n, df) \<Rightarrow>
     page_aligned va \<and> unat va + unat n * 4096 \<le> unat MAXVA \<and>
     (\<forall>v \<in> vrange va (unat n). unmappable s root df v))"

definition region_paths :: "(u64 \<times> u64 \<times> bool) list \<Rightarrow> nat list set" where
  "region_paths rs = (\<Union>(va, n, df) \<in> set rs. vrange va (unat n))"

lemma region_paths_simps [simp]:
  "region_paths [] = {}"
  "region_paths ((va, n, df) # rs) = vrange va (unat n) \<union> region_paths rs"
  "region_paths (rs @ ss) = region_paths rs \<union> region_paths ss"
  by (simp_all add: region_paths_def)

lemma region_paths_vpaths: "region_paths rs \<subseteq> vpaths"
  using vrange_vpaths by (fastforce simp: region_paths_def)

lemma freed_cleared:
  assumes "cleared s s1 root V" and "V \<subseteq> vpaths" "W \<subseteq> vpaths"
  shows "freed s root df V \<union> freed s1 root df W = freed s root df (V \<union> W)"
proof -
  have "freed s1 root df W = freed s1 root df (W - V)"
  proof -
    have "\<not> vld (leaf (mem s1) root w)" if "w \<in> W" "w \<in> V" for w
      using assms(1,3) that by (auto simp: cleared_def)
    then have "{w \<in> W. vld (leaf (mem s1) root w)} = {w \<in> W - V. vld (leaf (mem s1) root w)}" by blast
    then show ?thesis by (simp add: freed_def)
  qed
  also have "\<dots> = freed s root df (W - V)" using assms(3) by (intro freed_after [OF assms(1)]) auto
  finally show ?thesis by (simp flip: freed_Un)
qed

lemma region_ok_cleared:
  assumes "cleared s s1 root V" "pt_cut s s1 root F" "region_ok s root r"
  shows "region_ok s1 root r"
proof -
  obtain va n df where r: "r = (va, n, df)" by (cases r)
  then show ?thesis
    using assms(3) cleared_unmappable [OF assms(1,2)] subsetD [OF vrange_vpaths] by (simp add: region_ok_def)
qed

lemma unmap_regions:
  assumes "pt_wf s root" and "\<forall>r \<in> set rs. region_ok s root r \<and> snd (snd r) = df"
  shows "\<exists>s'. rfold (\<lambda>(va, n, df). uvmunmap root va n df) rs s = Inr s' \<and>
    pt_cut s s' root (freed s root df (region_paths rs)) \<and> cleared s s' root (region_paths rs)"
  using assms
proof (induction rs arbitrary: s)
  case Nil
  then show ?case by (simp add: pt_cut_refl freed_def cleared_def)
next
  case (Cons r rs)
  obtain va n where r: "r = (va, n, df)" using Cons.prems(2) by (cases r) auto
  have ok: "page_aligned va" "unat va + unat n * 4096 \<le> unat MAXVA" "\<forall>v \<in> vrange va (unat n). unmappable s root df v"
    using Cons.prems(2) by (simp_all add: r region_ok_def)
  obtain s1 where s1: "uvmunmap root va n df s = Inr s1"
      "pt_cut s s1 root (freed s root df (vrange va (unat n)))" "cleared s s1 root (vrange va (unat n))"
    using unmap_loop_spec [OF Cons.prems(1) ok] uvmunmap_loop [OF ok(1,2)] by metis
  have "\<forall>r \<in> set rs. region_ok s1 root r \<and> snd (snd r) = df"
    using Cons.prems(2) region_ok_cleared [OF s1(3,2)] by simp
  moreover have "pt_wf s1 root" using s1(2) by (simp add: pt_cut_def)
  ultimately obtain s2 where s2: "rfold (\<lambda>(va, n, df). uvmunmap root va n df) rs s1 = Inr s2"
      "pt_cut s1 s2 root (freed s1 root df (region_paths rs))" "cleared s1 s2 root (region_paths rs)"
    using Cons.IH by blast
  have "pt_cut s s2 root (freed s root df (region_paths (r # rs)))"
    using pt_cut_trans [OF s1(2) s2(2)] freed_cleared [OF s1(3) vrange_vpaths region_paths_vpaths]
    by (simp add: r)
  with s1(1) s2(1) cleared_trans [OF s1(3) s2(3)] show ?case by (simp add: r)
qed

text \<open>
  The user part of an address space, the part shared with the kernel, and what \<^verbatim>\<open>uvmfree\<close> needs of
  both: every mapped page is a real leaf, and a user page is an allocated page that is not a
  table.
\<close>

definition user_paths :: "u64 \<Rightarrow> nat list set" where
  "user_paths sz = region_paths (filter (\<lambda>r. snd (snd r)) (free_regions sz))"

definition kernel_paths :: "nat list set" where
  "kernel_paths = region_paths (filter (\<lambda>r. \<not> snd (snd r)) (free_regions 0))"

definition space_ok :: "'a phys_scheme \<Rightarrow> u64 \<Rightarrow> u64 \<Rightarrow> bool" where
  "space_ok s root sz \<longleftrightarrow>
     pt_wf s root \<and> sz \<le> USTACK_TOP \<and>
     (\<forall>v \<in> vpaths. vld (leaf (mem s) root v) \<longrightarrow> rwx (leaf (mem s) root v)) \<and>
     (\<forall>v \<in> user_paths sz. vld (leaf (mem s) root v) \<longrightarrow>
        PTE2PA (leaf (mem s) root v) \<in> pool_pages s - tables (mem s) root)"

lemma rwx_flags: "rwx e \<Longrightarrow> PTE_FLAGS e \<noteq> PTE_V"
proof
  assume r: "rwx e" and f: "PTE_FLAGS e = PTE_V"
  have "e AND (PTE_R OR PTE_W OR PTE_X) = PTE_FLAGS e AND (PTE_R OR PTE_W OR PTE_X)"
    by (simp add: PTE_FLAGS_def rv_const and.assoc)
  with f r show False by (simp add: rv_const)
qed

lemma free_regions_split:
  "free_regions sz = filter (\<lambda>r. snd (snd r)) (free_regions sz) @ filter (\<lambda>r. \<not> snd (snd r)) (free_regions 0)"
  by (simp add: free_regions_def rv_const)

lemma free_regions_fit:
  assumes "sz \<le> USTACK_TOP" and "(va, n, df) \<in> set (free_regions sz)"
  shows "page_aligned va \<and> unat va + unat n * 4096 \<le> unat MAXVA"
proof (cases "df \<and> va = USERBASE")
  case True
  have usz: "unat sz \<le> 0x3FFFFFE000" using assms(1) by (simp add: word_le_nat_alt rv_const)
  have n: "n = (PGROUNDUP sz - USERBASE) div PGSIZE" and lt: "USERBASE < sz"
    using assms(2) True by (auto simp: free_regions_def rv_const split: if_splits)
  have up: "unat (PGROUNDUP sz) = (unat sz + 4095) div 4096 * 4096"
    using usz by (intro unat_PGROUNDUP) simp
  have "unat USERBASE < unat sz" using lt by (simp add: word_less_nat_alt)
  then have le: "unat USERBASE \<le> unat (PGROUNDUP sz)" using up by linarith
  then have "unat (PGROUNDUP sz - USERBASE) = unat (PGROUNDUP sz) - unat USERBASE"
    by (simp add: unat_sub word_le_nat_alt)
  then have "unat n * 4096 \<le> unat (PGROUNDUP sz) - unat USERBASE" by (simp add: n unat_div PGSIZE_def)
  moreover have "unat (PGROUNDUP sz) \<le> 0x3FFFFFE000"
    using up div_le_mono [of "unat sz + 4095" "0x3FFFFFE000 + 4095" 4096] usz by simp
  ultimately show ?thesis using True le by (simp add: rv_const)
next
  case False
  with assms(2) show ?thesis by (auto simp: free_regions_def rv_const split: if_splits)
qed

lemma free_regions_ok:
  assumes ok: "space_ok s root sz" and r: "r \<in> set (free_regions sz)"
  shows "region_ok s root r"
proof -
  obtain va n df where rr: "r = (va, n, df)" by (cases r)
  have "unmappable s root df v" if "v \<in> vrange va (unat n)" for v
  proof -
    have "v \<in> user_paths sz" if df
      using r \<open>v \<in> vrange va (unat n)\<close> that by (auto simp: user_paths_def region_paths_def rr)
    moreover have "v \<in> vpaths" using that vrange_vpaths by blast
    ultimately show ?thesis using ok rwx_flags by (auto simp: unmappable_def space_ok_def)
  qed
  then show ?thesis using free_regions_fit [of sz va n df] ok r by (simp add: region_ok_def space_ok_def rr)
qed

lemma freed_False: "freed s root False V = {}"
  by (simp add: freed_def)

lemma uvmfree_unmaps:
  assumes ok: "space_ok s root sz"
  shows "\<exists>s1. rfold (\<lambda>(va, n, df). uvmunmap root va n df) (free_regions sz) s = Inr s1 \<and>
    pt_cut s s1 root (freed s root True (user_paths sz)) \<and> cleared s s1 root (user_paths sz \<union> kernel_paths)"
proof -
  let ?us = "filter (\<lambda>r. snd (snd r)) (free_regions sz)" and ?ks = "filter (\<lambda>r. \<not> snd (snd r)) (free_regions 0)"
  have wf: "pt_wf s root" using ok by (simp add: space_ok_def)
  have "\<forall>r \<in> set ?us. region_ok s root r \<and> snd (snd r) = True"
    using free_regions_ok [OF ok] by simp
  from unmap_regions [OF wf this] obtain s1 where
    s1: "rfold (\<lambda>(va, n, df). uvmunmap root va n df) ?us s = Inr s1"
      "pt_cut s s1 root (freed s root True (user_paths sz))" "cleared s s1 root (user_paths sz)"
    by (auto simp: user_paths_def)
  have "set ?ks \<subseteq> set (free_regions sz)"
    by (subst free_regions_split [of sz]) auto
  then have "\<forall>r \<in> set ?ks. region_ok s1 root r \<and> snd (snd r) = False"
    using free_regions_ok [OF ok] region_ok_cleared [OF s1(3,2)] by auto
  moreover have "pt_wf s1 root" using s1(2) by (simp add: pt_cut_def)
  ultimately obtain s2 where s2: "rfold (\<lambda>(va, n, df). uvmunmap root va n df) ?ks s1 = Inr s2"
      "pt_cut s1 s2 root {}" "cleared s1 s2 root kernel_paths"
    using unmap_regions [of s1 root ?ks False] unfolding kernel_paths_def freed_False by blast
  show ?thesis
    using s1(1) s2(1) pt_cut_trans [OF s1(2) s2(2)] cleared_trans [OF s1(3) s2(3)]
    by (subst free_regions_split [of sz]) (simp add: rfold_append)
qed

subsection \<open>Building an address space\<close>

lemma page_in_range:
  assumes al: "page_aligned a" and b: "unat a + n * 4096 \<le> unat MAXVA" and va: "unat va < 2 ^ 39"
  shows "vpath va \<in> vrange a n \<longleftrightarrow> unat a \<le> unat va \<and> unat va < unat a + n * 4096"
proof -
  have u: "unat (page_no a j) = unat a + j * 4096 \<and> unat (page_no a j) < 2 ^ 39" if "j < n" for j
  proof -
    have "unat a + j * 4096 < 2 ^ 39" using that b by (simp add: rv_const)
    then show ?thesis using unat_page_no [of a j] by simp
  qed
  have a0: "unat a mod 4096 = 0" using al by (simp only: page_aligned_unat)
  have "vpath va = vpath (page_no a j) \<longleftrightarrow> unat va div 4096 * 4096 = unat a + j * 4096" if "j < n" for j
  proof -
    have "PGROUNDDOWN (page_no a j) = page_no a j"
      using page_aligned_page_no [OF al, of j] u [OF that] by (simp add: page_aligned_iff_down [symmetric])
    then show ?thesis using vpath_eq_page [of va "page_no a j"] va u [OF that] unat_PGROUNDDOWN [of va]
      by (metis word_unat_eq_iff)
  qed
  then have "vpath va \<in> vrange a n \<longleftrightarrow> (\<exists>j<n. unat va div 4096 * 4096 = unat a + j * 4096)"
    unfolding vrange_def by (auto simp: image_iff)
  also have "\<dots> \<longleftrightarrow> unat a \<le> unat va \<and> unat va < unat a + n * 4096" using a0 by (intro block_index) simp_all
  finally show ?thesis .
qed

definition fits :: "u64 \<times> u64 \<times> u64 \<times> u64 \<Rightarrow> bool" where
  "fits r = (case r of (va, pa, sz, perm) \<Rightarrow> 0 < sz \<and> unat va + unat sz \<le> unat MAXVA)"

definition covers :: "u64 \<times> u64 \<times> u64 \<times> u64 \<Rightarrow> nat list set" where
  "covers r = (case r of (va, pa, sz, perm) \<Rightarrow> vrange (PGROUNDDOWN va) (Suc (more_pages va sz)))"

text \<open>Every page of the region translates as the region says.\<close>

definition maps :: "'a phys_scheme \<Rightarrow> u64 \<Rightarrow> u64 \<times> u64 \<times> u64 \<times> u64 \<Rightarrow> bool" where
  "maps s root r = (case r of (va, pa, sz, perm) \<Rightarrow> \<forall>j \<le> more_pages va sz.
     leaf (mem s) root (vpath (page_no (PGROUNDDOWN va) j)) = PA2PTE (page_no pa j) OR perm OR PTE_V)"

definition entry_of :: "u64 \<times> u64 \<times> u64 \<times> u64 \<Rightarrow> u64 \<Rightarrow> bool" where
  "entry_of r e = (case r of (va, pa, sz, perm) \<Rightarrow> \<exists>x. e = PA2PTE x OR perm OR PTE_V)"

lemma mappages_ext:
  assumes "pt_wf s root" and "fits (va, pa, sz, perm)"
  shows "pt_ext s (snd (mappages root va pa sz perm s)) root"
    and "v \<in> vpaths \<Longrightarrow> leaf (mem (snd (mappages root va pa sz perm s))) root v = leaf (mem s) root v \<or>
      entry_of (va, pa, sz, perm) (leaf (mem (snd (mappages root va pa sz perm s))) root v)"
    and "v \<in> vpaths \<Longrightarrow> v \<notin> covers (va, pa, sz, perm) \<Longrightarrow>
      leaf (mem (snd (mappages root va pa sz perm s))) root v = leaf (mem s) root v"
    and "free_pages (snd (mappages root va pa sz perm s)) \<noteq> {} \<Longrightarrow>
      \<forall>v \<in> covers (va, pa, sz, perm). \<not> vld (leaf (mem s) root v) \<Longrightarrow>
      maps (snd (mappages root va pa sz perm s)) root (va, pa, sz, perm)"
proof -
  let ?s = "snd (mappages root va pa sz perm s)" and ?a = "PGROUNDDOWN va"
  have f: "0 < sz" "unat va + unat sz \<le> unat MAXVA" using assms(2) by (simp_all add: fits_def)
  obtain k where k: "pt_ext s ?s root" "pm.entered root k perm ?a pa s ?s"
    "fst (mappages root va pa sz perm s) = 0 \<and> k = Suc (more_pages va sz) \<or>
     fst (mappages root va pa sz perm s) = -1 \<and> k \<le> more_pages va sz \<and>
      (vld (leaf (mem s) root (vpath (page_no ?a k))) \<or> free_pages ?s = {})"
    using mappages_entered [OF assms(1) f surjective_pairing] by blast
  show "pt_ext s ?s root" by (rule k(1))
  have kn: "k \<le> Suc (more_pages va sz)" using k(3) by auto
  show "leaf (mem ?s) root v = leaf (mem s) root v \<or> entry_of (va, pa, sz, perm) (leaf (mem ?s) root v)"
    if "v \<in> vpaths"
  proof (cases "\<exists>j<k. v = vpath (page_no ?a j)")
    case True
    then show ?thesis using k(2) unfolding pm.entered_def entry_of_def by auto
  next
    case False
    then show ?thesis using k(2) that unfolding pm.entered_def by blast
  qed
  show "leaf (mem ?s) root v = leaf (mem s) root v" if v: "v \<in> vpaths" "v \<notin> covers (va, pa, sz, perm)"
  proof -
    have "\<forall>j<k. v \<noteq> vpath (page_no ?a j)"
      using v(2) kn unfolding covers_def vrange_def by (auto simp: image_iff)
    then show ?thesis using k(2) v(1) unfolding pm.entered_def by blast
  qed
  show "maps ?s root (va, pa, sz, perm)"
    if av: "free_pages ?s \<noteq> {}" and nv: "\<forall>v \<in> covers (va, pa, sz, perm). \<not> vld (leaf (mem s) root v)"
  proof -
    have "\<not> vld (leaf (mem s) root (vpath (page_no ?a k)))" if "k \<le> more_pages va sz"
    proof -
      have "vpath (page_no ?a k) \<in> covers (va, pa, sz, perm)"
        using that unfolding covers_def vrange_def by auto
      with nv show ?thesis by blast
    qed
    then have "k = Suc (more_pages va sz)" using k(3) av by blast
    with k(2) show ?thesis unfolding maps_def pm.entered_def by (simp add: less_Suc_eq_le)
  qed
qed

lemma map_regions_ext:
  assumes "pt_wf s root" and "\<forall>r \<in> set rs. fits r"
  shows "pt_ext s (map_regions root rs s) root \<and>
    (\<forall>v \<in> vpaths. leaf (mem (map_regions root rs s)) root v = leaf (mem s) root v \<or>
      (\<exists>r \<in> set rs. entry_of r (leaf (mem (map_regions root rs s)) root v))) \<and>
    (\<forall>v \<in> vpaths. (\<forall>r \<in> set rs. v \<notin> covers r) \<longrightarrow>
      leaf (mem (map_regions root rs s)) root v = leaf (mem s) root v)"
  using assms
proof (induction rs arbitrary: s)
  case Nil
  then show ?case by (simp add: pt_ext_refl)
next
  case (Cons r rs)
  obtain va pa sz perm where r: "r = (va, pa, sz, perm)" by (cases r)
  let ?s1 = "snd (mappages root va pa sz perm s)"
  have f: "fits (va, pa, sz, perm)" and fs: "\<forall>r \<in> set rs. fits r" using Cons.prems(2) by (simp_all add: r)
  note m = mappages_ext [OF Cons.prems(1) f] and IH = Cons.IH [OF pt_ext_wf [OF mappages_ext(1) [OF Cons.prems(1) f]] fs]
  have "pt_ext s (map_regions root (r # rs) s) root" using pt_ext_trans [OF m(1) conjunct1 [OF IH]] by (simp add: r)
  moreover have "leaf (mem (map_regions root (r # rs) s)) root v = leaf (mem s) root v \<or>
      (\<exists>r' \<in> set (r # rs). entry_of r' (leaf (mem (map_regions root (r # rs) s)) root v))"
    if "v \<in> vpaths" for v
  proof -
    have "map_regions root (r # rs) s = map_regions root rs ?s1" by (simp add: r)
    moreover have "leaf (mem (map_regions root rs ?s1)) root v = leaf (mem ?s1) root v \<or>
      (\<exists>r \<in> set rs. entry_of r (leaf (mem (map_regions root rs ?s1)) root v))" using IH that by blast
    ultimately show ?thesis using m(2) [OF that] r by auto
  qed
  moreover have "leaf (mem (map_regions root (r # rs) s)) root v = leaf (mem s) root v"
    if "v \<in> vpaths" "\<forall>r' \<in> set (r # rs). v \<notin> covers r'" for v
    using m(3) [OF that(1)] IH that by (simp add: r)
  ultimately show ?case by blast
qed

lemma maps_frame:
  assumes "maps s root r" and "\<And>v. v \<in> vpaths \<Longrightarrow> v \<in> covers r \<Longrightarrow> leaf (mem s') root v = leaf (mem s) root v"
  shows "maps s' root r"
proof -
  obtain va pa sz perm where r: "r = (va, pa, sz, perm)" by (cases r)
  have "vpath (page_no (PGROUNDDOWN va) j) \<in> covers r" if "j \<le> more_pages va sz" for j
    using that unfolding r covers_def vrange_def by (simp add: less_Suc_eq_le)
  with assms show ?thesis by (simp add: maps_def r)
qed

lemma pt_ext_free: "pt_ext s s' root \<Longrightarrow> free_pages s' \<subseteq> free_pages s"
  by (auto simp: pt_ext_def)

lemma map_regions_maps:
  assumes "pt_wf s root" and "\<forall>r \<in> set rs. fits r" and "free_pages (map_regions root rs s) \<noteq> {}"
    and "\<forall>r \<in> set rs. \<forall>v \<in> covers r. \<not> vld (leaf (mem s) root v)"
    and "sorted_wrt (\<lambda>r r'. covers r \<inter> covers r' = {}) rs"
  shows "\<forall>r \<in> set rs. maps (map_regions root rs s) root r"
  using assms
proof (induction rs arbitrary: s)
  case (Cons r rs)
  obtain va pa sz perm where r: "r = (va, pa, sz, perm)" by (cases r)
  let ?s1 = "snd (mappages root va pa sz perm s)"
  have f: "fits (va, pa, sz, perm)" and fs: "\<forall>r \<in> set rs. fits r" using Cons.prems(2) by (simp_all add: r)
  note m = mappages_ext [OF Cons.prems(1) f]
  note wf1 = pt_ext_wf [OF m(1)] and e = map_regions_ext [OF pt_ext_wf [OF m(1)] fs]
  have s': "map_regions root (r # rs) s = map_regions root rs ?s1" by (simp add: r)
  have av: "free_pages ?s1 \<noteq> {}" using Cons.prems(3) pt_ext_free [of ?s1 "map_regions root rs ?s1" root] e s' by auto
  have disj: "covers r \<inter> covers r' = {}" if "r' \<in> set rs" for r' using Cons.prems(5) that by simp
  have sub: "covers r' \<subseteq> vpaths" for r' by (cases r') (auto simp: covers_def vrange_def)
  have "\<forall>r' \<in> set rs. \<forall>v \<in> covers r'. \<not> vld (leaf (mem ?s1) root v)"
  proof (intro ballI)
    fix r' v assume v: "r' \<in> set rs" "v \<in> covers r'"
    then have "leaf (mem ?s1) root v = leaf (mem s) root v" using m(3) [of v] disj [of r'] sub [of r'] r by auto
    with v Cons.prems(4) show "\<not> vld (leaf (mem ?s1) root v)" by simp
  qed
  then have "\<forall>r' \<in> set rs. maps (map_regions root rs ?s1) root r'"
    using Cons.IH [OF wf1 fs] Cons.prems(3,5) s' by simp
  moreover have "maps (map_regions root rs ?s1) root r"
  proof (rule maps_frame)
    show "maps ?s1 root r" using m(4) [OF av] Cons.prems(4) by (simp add: r)
    show "leaf (mem (map_regions root rs ?s1)) root v = leaf (mem ?s1) root v" if "v \<in> vpaths" "v \<in> covers r" for v
      using e that disj by blast
  qed
  ultimately show ?case using s' by simp
qed simp

subsection \<open>How many pages the tables take\<close>

text \<open>All tables of a page table are at paths of \<open>A\<close>. Mapping pages adds tables on the way to these pages only.\<close>

definition dirs_in :: "nat list set \<Rightarrow> mem \<Rightarrow> u64 \<Rightarrow> bool" where
  "dirs_in A m root \<longleftrightarrow> (\<forall>p. length p \<le> 2 \<longrightarrow> tab m root p \<noteq> None \<longrightarrow> p \<in> A)"

definition way_in :: "nat list set \<Rightarrow> nat list \<Rightarrow> bool" where
  "way_in A v \<longleftrightarrow> [] \<in> A \<and> take 1 v \<in> A \<and> take 2 v \<in> A"

lemma walk_loop_dirs:
  assumes "pt_wf s root" and "tab (mem s) root q = Some t" and "length q + l = 2"
    and "walk_loop l t va True s = (a, s')" and "dirs_in A (mem s) root" and "\<forall>k \<le> l. q @ take k (upper_path l va) \<in> A"
  shows "dirs_in A (mem s') root"
  using assms
proof (induction l arbitrary: s q t)
  case 0
  then show ?case by simp
next
  case (Suc l)
  let ?k = "unat (PX (Suc l) va)"
  let ?e = "mem s (pte_addr t ?k)"
  have way: "(q @ [?k]) @ take k (upper_path l va) \<in> A" if "k \<le> l" for k
    using Suc.prems(6) [rule_format, of "Suc k"] that by simp
  show ?case
  proof (cases "vld ?e")
    case True
    have "tab (mem s) root (q @ [?k]) = Some (PTE2PA ?e)" using True PX_bound by (simp add: tab_append Suc.prems(2))
    moreover have "walk_loop l (PTE2PA ?e) va True s = (a, s')" using Suc.prems(4) True by (simp add: Let_def)
    ultimately show ?thesis using Suc.IH [OF Suc.prems(1), of "q @ [?k]"] Suc.prems(3,5) way by simp
  next
    case False
    obtain np s1 where al: "kalloc s = (np, s1)" by fastforce
    show ?thesis
    proof (cases "np = 0")
      case True
      then have "s' = s"
        using Suc.prems(4) False al pa.alloc_null [OF pt_wf_phys [OF Suc.prems(1)], of s1] by (simp add: Let_def)
      then show ?thesis using Suc.prems(5) by simp
    next
      case nz: False
      have h: "fills_hole s root q t ?k np s1"
        using Suc.prems False al nz PX_bound by (simp add: fills_hole_def)
      let ?s2 = "add_table (pte_addr t ?k) np s1"
      have "tab (mem ?s2) root (q @ [?k]) = Some np" using add_table_tab [OF h, of "q @ [?k]"] Suc.prems(3) by simp
      moreover have "walk_loop l np va True ?s2 = (a, s')" using Suc.prems(4) False al nz by (simp add: Let_def)
      moreover have "dirs_in A (mem ?s2) root"
        using add_table_tab [OF h] Suc.prems(5) way [of 0] unfolding dirs_in_def by auto
      ultimately show ?thesis using Suc.IH [OF add_table_wf [OF h], of "q @ [?k]"] Suc.prems(3) way by simp
    qed
  qed
qed

lemma map_page_dirs:
  assumes "pt_wf s root" and "a \<le> MAXVA" and "map_page root perm a pa s = (ok, s')" and "dirs_in A (mem s) root" and "way_in A (vpath a)"
  shows "dirs_in A (mem s') root"
proof -
  obtain pte s1 where w: "walk root a True s = (pte, s1)" by fastforce
  note g = walk_alloc [OF assms(1,2) w]
  have "\<forall>k \<le> 2. [] @ take k (upper_path 2 a) \<in> A"
    using assms(5) unfolding upper_path_2 by (auto simp: way_in_def le_Suc_eq numeral_2_eq_2)
  then have d: "dirs_in A (mem s1) root"
    using walk_loop_dirs [of s root "[]" root 2 a pte s1 A] assms(1,4) w leD [OF assms(2)] by (simp add: walk_def)
  show ?thesis
  proof (cases "s' = s1")
    case False
    then have p: "pte \<noteq> 0" "s' = s1\<lparr>mem := (mem s1)(pte := PA2PTE pa OR perm OR PTE_V)\<rparr>"
      using assms(3) w by (auto simp: map_page_def split: if_splits)
    then obtain t where t: "tab (mem s1) root (take 2 (vpath a)) = Some t" "pte = pte_addr t (vpath a ! 2)" using g(3) by blast
    have "tab (mem s') root p = tab (mem s1) root p" if "length p \<le> 2" for p
      by (rule leaf_write_tab [OF _ vpath_vpaths t(1) _ that]) (use g(1) p(2) t(2) in \<open>auto simp: pt_grow_def pt_ext_def\<close>)
    then show ?thesis using d by (auto simp: dirs_in_def)
  qed (use d in simp)
qed

lemma enter_range_dirs:
  assumes "pt_wf s root" and "unat a + n * 4096 \<le> unat MAXVA" and "dirs_in A (mem s) root"
    and "\<forall>j \<le> n. way_in A (vpath (page_no a j))"
  shows "dirs_in A (mem (snd (pm.enter_range root n perm a pa s))) root"
  using assms
proof (induction n arbitrary: a pa s)
  case 0
  then have a: "a \<le> MAXVA" by (simp add: word_le_nat_alt)
  obtain ok s1 where e: "map_page root perm a pa s = (ok, s1)" by fastforce
  show ?case using map_page_dirs [OF 0(1) a e 0(3)] 0(4) e by simp
next
  case (Suc n)
  have a: "a \<le> MAXVA" using Suc.prems(2) by (simp add: word_le_nat_alt)
  obtain ok s1 where e: "map_page root perm a pa s = (ok, s1)" by fastforce
  have d: "dirs_in A (mem s1) root"
    using map_page_dirs [OF Suc.prems(1) a e Suc.prems(3)] Suc.prems(4) by force
  have "unat (a + PGSIZE) = unat a + 4096"
    using unat_page_no [of a 1] Suc.prems(2) by (simp add: page_no_def rv_const)
  then have "dirs_in A (mem (snd (pm.enter_range root n perm (a + PGSIZE) (pa + PGSIZE) s1))) root"
    using Suc.prems by (intro Suc.IH d pt_ext_wf [OF map_page_ext [OF Suc.prems(1) a e]]) (auto simp flip: page_no_Suc)
  then show ?case using e d by simp
qed

lemma mappages_dirs:
  assumes "pt_wf s root" and "fits (va, pa, sz, perm)" and "dirs_in A (mem s) root" and "\<forall>v \<in> covers (va, pa, sz, perm). way_in A v"
  shows "dirs_in A (mem (snd (mappages root va pa sz perm s))) root"
proof -
  have f: "0 < sz" "unat va + unat sz \<le> unat MAXVA" using assms(2) by (simp_all add: fits_def)
  note pl = page_no_last [OF f]
  have "snd (mappages root va pa sz perm s) = snd (pm.enter_range root (more_pages va sz) perm (PGROUNDDOWN va) pa s)"
    using mappages_loop_range [OF page_aligned_PGROUNDDOWN pl(2), of root pa perm s]
    by (simp add: mappages_def pl(1) split: prod.splits)
  moreover have "\<forall>j \<le> more_pages va sz. way_in A (vpath (page_no (PGROUNDDOWN va) j))"
    using assms(4) by (auto simp: covers_def vrange_def)
  ultimately show ?thesis using enter_range_dirs [OF assms(1) pl(2) assms(3)] by simp
qed

lemma map_regions_dirs:
  assumes "pt_wf s root" and "\<forall>r \<in> set rs. fits r" and "dirs_in A (mem s) root" and "\<forall>r \<in> set rs. \<forall>v \<in> covers r. way_in A v"
  shows "dirs_in A (mem (map_regions root rs s)) root"
  using assms
proof (induction rs arbitrary: s)
  case (Cons r rs)
  obtain va pa sz perm where r: "r = (va, pa, sz, perm)" by (cases r)
  have f: "fits (va, pa, sz, perm)" using Cons.prems(2) by (simp add: r)
  show ?case
    using Cons.IH [OF pt_ext_wf [OF mappages_ext(1) [OF Cons.prems(1) f]]] mappages_dirs [OF Cons.prems(1) f Cons.prems(3)] Cons.prems(2,4)
    by (simp add: r)
qed simp

lemma tables_card:
  assumes "dirs_in (set ps) m root"
  shows "finite (tables m root) \<and> card (tables m root) \<le> length ps"
proof -
  have "tables m root \<subseteq> (\<lambda>p. the (tab m root p)) ` set ps"
    using assms unfolding tables_def dirs_in_def by (force simp: image_iff)
  then have "finite (tables m root) \<and> card (tables m root) \<le> card ((\<lambda>p. the (tab m root p)) ` set ps)"
    by (meson card_mono finite_imageI finite_set finite_subset)
  moreover have "card ((\<lambda>p. the (tab m root p)) ` set ps) \<le> length ps"
    by (meson card_image_le card_length finite_set order_trans)
  ultimately show ?thesis by linarith
qed

text \<open>The paths of the tables above the pages of an address range, by the number of its 2 MiB block.\<close>

lemma unat_PX: "unat (PX l va) = unat va div 2 ^ PXSHIFT l mod 512"
proof -
  have "PX l va = take_bit 9 (drop_bit (PXSHIFT l) va)" by (simp add: PX_def take_bit_eq_mask mask_eq_exp_minus_1)
  then have "unat (PX l va) = take_bit 9 (drop_bit (PXSHIFT l) (unat va))"
    using bit_imp_le_length [of va] by (simp only: unsigned_take_bit_eq unsigned_drop_bit_eq) (auto simp: bit_eq_iff bit_simps)
  then show ?thesis by (simp add: drop_bit_eq_div take_bit_eq_mod)
qed

lemma vpath_block:
  assumes "unat va < 2 ^ 39"
  shows "take 2 (vpath va) = [unat va div 2 ^ 21 div 512, unat va div 2 ^ 21 mod 512]" "take 1 (vpath va) = [unat va div 2 ^ 21 div 512]"
proof -
  have "unat va div 2 ^ 30 = unat va div 2 ^ 21 div 512" by (simp add: div_mult2_eq [symmetric])
  moreover have "unat va div 2 ^ 30 < 512" using assms by (simp add: div_less_iff_less_mult)
  ultimately show "take 2 (vpath va) = [unat va div 2 ^ 21 div 512, unat va div 2 ^ 21 mod 512]" "take 1 (vpath va) = [unat va div 2 ^ 21 div 512]"
    by (simp_all add: vpath_def unat_PX PXSHIFT_def)
qed

definition block_dirs :: "nat list \<Rightarrow> nat list \<Rightarrow> nat list list" where
  "block_dirs hs bs = [] # map (\<lambda>h. [h]) hs @ map (\<lambda>b. [b div 512, b mod 512]) bs"

lemma vrange_way_in:
  assumes "v \<in> vrange a n" and "unat a + n * 4096 \<le> unat MAXVA"
    and "\<forall>b. unat a div 2 ^ 21 \<le> b \<and> b \<le> (unat a + n * 4096 - 1) div 2 ^ 21 \<longrightarrow> b \<in> set bs \<and> b div 512 \<in> set hs"
  shows "way_in (set (block_dirs hs bs)) v"
proof -
  obtain j where j: "j < n" "v = vpath (page_no a j)" using assms(1) by (auto simp: vrange_def)
  have lt: "unat a + j * 4096 < 2 ^ 39" using assms(2) j(1) by (simp add: rv_const)
  then have u: "unat (page_no a j) = unat a + j * 4096" by (intro unat_page_no) simp
  have "unat a + j * 4096 \<le> unat a + n * 4096 - 1" using j(1) by linarith
  then have "(unat a + j * 4096) div 2 ^ 21 \<le> (unat a + n * 4096 - 1) div 2 ^ 21" "unat a div 2 ^ 21 \<le> (unat a + j * 4096) div 2 ^ 21"
    by (intro div_le_mono; simp)+
  then have "(unat a + j * 4096) div 2 ^ 21 \<in> set bs \<and> (unat a + j * 4096) div 2 ^ 21 div 512 \<in> set hs" using assms(3) by blast
  then show ?thesis using vpath_block [of "page_no a j"] lt u unfolding j(2) way_in_def block_dirs_def by auto
qed

subsection \<open>The regions of a new address space\<close>

definition kernel_regions :: "u64 \<Rightarrow> (u64 \<times> u64 \<times> u64 \<times> u64) list" where
  "kernel_regions context =
     (0x80000000, 0x80000000, PHYSTOP - 0x80000000, PTE_R OR PTE_W OR PTE_X) # mmio_regions @
     [(TRAPFRAME, context, PGSIZE, PTE_R OR PTE_W)]"

lemma map_regions_append: "map_regions root (rs @ ss) s = map_regions root ss (map_regions root rs s)"
  by (induction rs arbitrary: s) auto

lemma uvmcreate_regions:
  "uvmcreate context s =
     (let (pt, s1) = kalloc s in
      if pt = 0 then (0, s1)
      else (pt, map_regions pt (kernel_regions context) (s1\<lparr>mem := fill_page (mem s1) pt 0\<rparr>)))"
  by (simp add: uvmcreate_def uvmmap_kernel_def kernel_regions_def map_regions_append Let_def split: prod.splits)

lemma kernel_regions_fit: "\<forall>r \<in> set (kernel_regions context). fits r"
  by (simp add: kernel_regions_def mmio_regions_def fits_def rv_const)

lemma last_block: "(a * 4096 + b * 4096 - 1) div 4096 = a + b - 1" if "0 < b" for a b :: nat
proof (rule div_nat_eqI)
  show "4096 * (a + b - 1) \<le> a * 4096 + b * 4096 - 1" using that by linarith
  have "Suc (a + b - 1) = a + b" using that by simp
  then show "a * 4096 + b * 4096 - 1 < 4096 * Suc (a + b - 1)" using that by simp
qed

lemma covers_bounds:
  assumes "va mod 4096 = 0" "sz mod 4096 = 0" "0 < sz" "unat va + unat sz \<le> unat MAXVA"
  shows "covers (va, pa, sz, perm) = vrange va (unat sz div 4096)"
proof -
  have al: "page_aligned va" using assms(1) by (simp add: PGSIZE_def)
  have u: "unat va mod 4096 = 0" "unat sz mod 4096 = 0" "0 < unat sz"
    using al assms(2,3) by (simp_all only: page_aligned_unat [symmetric] PGSIZE_def word_less_nat_alt unat_0)
  obtain a b where ab: "unat va = a * 4096" "unat sz = b * 4096" using u(1,2) by (metis mod_0_iff_div_mult)
  then have "0 < b" using u(3) by simp
  then have "(a * 4096 + b * 4096 - 1) div 4096 = a + b - 1" by (rule last_block)
  then have "Suc (more_pages va sz) = unat sz div 4096" using \<open>0 < b\<close> by (simp add: more_pages_def ab)
  moreover have "PGROUNDDOWN va = va" using al by (simp add: page_aligned_iff_down [symmetric])
  ultimately show ?thesis by (simp add: covers_def)
qed

lemma vrange_disjoint:
  assumes "page_aligned a" "page_aligned b" "unat a + n * 4096 \<le> unat MAXVA" "unat b + m * 4096 \<le> unat MAXVA"
    and "unat a + n * 4096 \<le> unat b \<or> unat b + m * 4096 \<le> unat a"
  shows "vrange a n \<inter> vrange b m = {}"
proof (rule ccontr)
  assume "\<not> ?thesis"
  then obtain j where j: "j < n" "vpath (page_no a j) \<in> vrange b m" by (auto simp: vrange_def)
  have lt: "unat a + j * 4096 < 2 ^ 39" using assms(3) j(1) by (simp add: rv_const)
  then have u: "unat (page_no a j) = unat a + j * 4096" by (intro unat_page_no) simp
  have "unat b \<le> unat a + j * 4096" "unat a + j * 4096 < unat b + m * 4096"
    using page_in_range [OF assms(2,4), of "page_no a j"] j(2) u lt by auto
  then show False using assms(5) j(1) by linarith
qed

lemma kernel_covers:
  "map covers (kernel_regions context) =
     [vrange 0x80000000 32768, vrange 0x10000000 1, vrange 0x10001000 1, vrange CLINT 16,
      vrange PLIC 1024, vrange SYSCON 1, vrange TRAPFRAME 1]"
  by (simp add: kernel_regions_def mmio_regions_def covers_bounds rv_const)

lemma kernel_covers_Union: "(\<Union>r \<in> set (kernel_regions context). covers r) = kernel_paths"
proof -
  have "(\<Union>r \<in> set (kernel_regions context). covers r) = \<Union> (set (map covers (kernel_regions context)))" by simp
  also have "\<dots> = kernel_paths"
    unfolding kernel_covers by (simp add: kernel_paths_def free_regions_def rv_const Un_assoc)
  finally show ?thesis .
qed

lemma kernel_covers_disjoint: "sorted_wrt (\<lambda>r r'. covers r \<inter> covers r' = {}) (kernel_regions context)"
proof -
  have "sorted_wrt (\<lambda>V W. V \<inter> W = {}) (map covers (kernel_regions context))"
    unfolding kernel_covers sorted_wrt.simps
    by (simp add: vrange_disjoint rv_const)
  then show ?thesis by (simp add: sorted_wrt_map)
qed

lemma vld_entry: "vld (e OR f OR PTE_V)"
  using vld_or_V [of "e OR f"] by (simp add: or.assoc)

lemma bit_PA2PTE_low: "n < 10 \<Longrightarrow> \<not> bit (PA2PTE x) n"
  by (simp add: PA2PTE_def bit_simps)

lemma kernel_entry_perm:
  assumes "r \<in> set (kernel_regions context)" "entry_of r e"
  shows "e AND PTE_U = 0" and "rwx e"
proof -
  obtain x perm where e: "e = PA2PTE x OR perm OR PTE_V"
    and p: "perm \<in> {PTE_R OR PTE_W OR PTE_X, PTE_R OR PTE_W}"
    using assms by (auto simp: kernel_regions_def mmio_regions_def entry_of_def)
  have "\<not> bit e 4" using p by (auto simp: e bit_or_iff bit_PA2PTE_low rv_const)
  then show "e AND PTE_U = 0" using and_exp_neq_0 [of e 4] by (simp add: PTE_U_def)
  have "bit e 1" using p by (auto simp: e bit_or_iff bit_PA2PTE_low rv_const)
  then have "bit (e AND (PTE_R OR PTE_W OR PTE_X)) 1" by (auto simp: bit_and_iff bit_or_iff rv_const)
  then show "rwx e" by auto
qed

text \<open>What \<^verbatim>\<open>uvmcreate\<close> leaves: the kernel's regions over an empty root table.\<close>

lemma uvmcreate_space:
  assumes wf: "phys_wf s" and c: "uvmcreate context s = (pt, s')" "pt \<noteq> 0"
  obtains s1 where "pt \<in> free_pages s" and "pt_wf s1 pt" and "\<forall>v \<in> vpaths. leaf (mem s1) pt v = 0"
    and "tables (mem s1) pt = {pt}" and "free_pages s1 = free_pages s - {pt}" and "pool_pages s1 = pool_pages s"
    and "s' = map_regions pt (kernel_regions context) s1"
proof -
  obtain s0 where k: "kalloc s = (pt, s0)"
    using c by (auto simp: uvmcreate_regions Let_def split: prod.splits if_splits)
  let ?s1 = "s0\<lparr>mem := fill_page (mem s0) pt 0\<rparr>"
  note a = pa.alloc_page [OF wf k c(2)] and l = live_pages_kalloc [OF wf k c(2)]
  have z: "mem ?s1 (pte_addr pt i) = 0" if "i < 512" for i using l(3) that by (simp add: fill_page_in)
  have "pt \<in> live_pages ?s1" "phys_wf ?s1" using l a by simp_all
  note e = pt_wf_empty [OF this(2,1) z]
  have "s' = map_regions pt (kernel_regions context) ?s1"
    using c k by (simp add: uvmcreate_regions)
  then show ?thesis using that [of ?s1] a e by simp
qed

lemma uvmcreate_space_ok:
  assumes wf: "phys_wf s" and c: "uvmcreate context s = (pt, s')" "pt \<noteq> 0"
  shows "pt_wf s' pt" and "v \<in> vpaths \<Longrightarrow> leaf (mem s') pt v AND PTE_U = 0"
    and "v \<in> vpaths \<Longrightarrow> vld (leaf (mem s') pt v) \<Longrightarrow> v \<in> kernel_paths \<and> rwx (leaf (mem s') pt v)"
    and "free_pages s' \<union> tables (mem s') pt = free_pages s"
proof -
  obtain s1 where s1: "pt \<in> free_pages s" "pt_wf s1 pt" "\<forall>v \<in> vpaths. leaf (mem s1) pt v = 0"
    "tables (mem s1) pt = {pt}" "free_pages s1 = free_pages s - {pt}" "pool_pages s1 = pool_pages s"
    "s' = map_regions pt (kernel_regions context) s1"
    using uvmcreate_space [OF assms] .
  note e = map_regions_ext [OF s1(2) kernel_regions_fit, of "context", folded s1(7)]
  show "pt_wf s' pt" using e by (simp add: pt_ext_def)
  have ent: "leaf (mem s') pt v = 0 \<or> (\<exists>r \<in> set (kernel_regions context). entry_of r (leaf (mem s') pt v))"
    if "v \<in> vpaths" for v using e s1(3) that by metis
  show "leaf (mem s') pt v AND PTE_U = 0" if "v \<in> vpaths" for v
    using ent [OF that] kernel_entry_perm(1) by fastforce
  show "v \<in> kernel_paths \<and> rwx (leaf (mem s') pt v)" if v: "v \<in> vpaths" "vld (leaf (mem s') pt v)" for v
  proof
    have "leaf (mem s') pt v \<noteq> 0" using v(2) by auto
    then show "rwx (leaf (mem s') pt v)" using ent [OF v(1)] kernel_entry_perm(2) by blast
    have "leaf (mem s') pt v \<noteq> leaf (mem s1) pt v" using s1(3) v(1) \<open>leaf (mem s') pt v \<noteq> 0\<close> by simp
    then have "\<exists>r \<in> set (kernel_regions context). v \<in> covers r" using e v(1) by metis
    then show "v \<in> kernel_paths" unfolding kernel_covers_Union [of "context", symmetric] by blast
  qed
  have "tables (mem s1) pt \<subseteq> tables (mem s') pt" using tables_ext e by blast
  then show "free_pages s' \<union> tables (mem s') pt = free_pages s" using e s1(1,4,5) by (auto simp: pt_ext_def)
qed

subsection \<open>Teardown\<close>

lemma uvmfree_frees:
  assumes "space_ok s root sz"
    and "\<forall>v \<in> vpaths. vld (leaf (mem s) root v) \<longrightarrow> v \<in> user_paths sz \<union> kernel_paths"
  shows "\<exists>s'. uvmfree root sz s = Inr s' \<and> phys_wf s' \<and> pool_pages s' = pool_pages s \<and>
    free_pages s' = free_pages s \<union> tables (mem s) root \<union>
      {PTE2PA (leaf (mem s) root v) | v. v \<in> user_paths sz \<and> vld (leaf (mem s) root v)} \<and>
    (\<forall>a. PGROUNDDOWN a \<notin> tables (mem s) root \<longrightarrow> mem s' a = mem s a)"
proof -
  obtain s1 where s1: "rfold (\<lambda>(va, n, df). uvmunmap root va n df) (free_regions sz) s = Inr s1"
      "pt_cut s s1 root (freed s root True (user_paths sz))" "cleared s s1 root (user_paths sz \<union> kernel_paths)"
    using uvmfree_unmaps [OF assms(1)] by blast
  have nl: "\<forall>v \<in> vpaths. \<not> vld (leaf (mem s1) root v)"
    using s1(3) assms(2) by (auto simp: cleared_def)
  have wf1: "pt_wf s1 root" using s1(2) by (simp add: pt_cut_def)
  have "sub_ok s1 3 root" using pt_sub_ok [OF wf1] nl by blast
  then have "fw_result 3 root s1 (freewalk 3 root s1)" using freewalk_spec [OF pt_wf_phys [OF wf1]] by simp
  then obtain s' where s': "freewalk 3 root s1 = Inr s'" "frees_subtree s1 (tables (mem s) root) s'"
    using nl by (auto simp: fw_result_def leafless_iff subtree_3 pt_cut_tables [OF s1(2)])
  have "freed s root True (user_paths sz) =
      {PTE2PA (leaf (mem s) root v) | v. v \<in> user_paths sz \<and> vld (leaf (mem s) root v)}"
    by (auto simp: freed_def)
  moreover have "uvmfree root sz s = Inr s'" using s1(1) s'(1) by (simp add: uvmfree_def)
  ultimately show ?thesis using s1(2) s'(2) by (auto simp: pt_cut_def frees_subtree_def)
qed

subsection \<open>Properties\<close>

text \<open>
  C10. \<^verbatim>\<open>uvmfree\<close> gives back exactly the user pages and all table pages: from an address space in
  which every mapped page lies in the ranges that \<^verbatim>\<open>uvmfree\<close> knows, it returns normally, the free
  set grows by the frames of the program and stack pages and by every table of the root, and
  no memory outside the tables changes.
\<close>

theorem uvmfree_correct:
  assumes "space_ok s root sz"
    and "\<forall>v \<in> vpaths. vld (leaf (mem s) root v) \<longrightarrow> v \<in> user_paths sz \<union> kernel_paths"
  shows "\<exists>s'. uvmfree root sz s = Inr s' \<and> phys_wf s' \<and> pool_pages s' = pool_pages s \<and>
    free_pages s' = free_pages s \<union> tables (mem s) root \<union>
      {PTE2PA (leaf (mem s) root v) | v. v \<in> user_paths sz \<and> vld (leaf (mem s) root v)} \<and>
    (\<forall>a. PGROUNDDOWN a \<notin> tables (mem s) root \<longrightarrow> mem s' a = mem s a)"
  using assms by (rule uvmfree_frees)

text \<open>
  A page that is still mapped outside the ranges \<^verbatim>\<open>uvmfree\<close> unmaps stops the kernel: the
  teardown ends in the panic \<^verbatim>\<open>freewalk: leaf\<close>. This is what happens to a process whose recorded
  size is smaller than what is mapped, after a negative \<^verbatim>\<open>growproc\<close> or a failed \<^verbatim>\<open>spawn\<close>.
\<close>

theorem uvmfree_leftover_panics:
  assumes "space_ok s root sz"
    and "v \<in> vpaths" and "v \<notin> user_paths sz \<union> kernel_paths" and "vld (leaf (mem s) root v)"
  shows "uvmfree root sz s = Inl (Panic ''freewalk: leaf'')"
proof -
  obtain s1 where s1: "rfold (\<lambda>(va, n, df). uvmunmap root va n df) (free_regions sz) s = Inr s1"
      "pt_cut s s1 root (freed s root True (user_paths sz))" "cleared s s1 root (user_paths sz \<union> kernel_paths)"
    using uvmfree_unmaps [OF assms(1)] by blast
  have wf1: "pt_wf s1 root" using s1(2) by (simp add: pt_cut_def)
  have "\<forall>v \<in> vpaths. vld (leaf (mem s1) root v) \<longrightarrow> rwx (leaf (mem s1) root v)"
    using s1(3) assms(1) by (auto simp: cleared_def space_ok_def)
  then have "fw_result 3 root s1 (freewalk 3 root s1)"
    using freewalk_spec [OF pt_wf_phys [OF wf1] pt_sub_ok [OF wf1]] by simp
  moreover have "vld (leaf (mem s1) root v)" using s1(3) assms(2-4) by (simp add: cleared_def)
  then have "\<not> leafless (mem s1) 3 root" using assms(2) unfolding leafless_iff by blast
  ultimately show ?thesis using s1(1) by (simp add: fw_result_def uvmfree_def)
qed

text \<open>A one-page program at \<^verbatim>\<open>USERBASE\<close> in the frame that the allocator of the example has in use.\<close>

definition demo_space :: phys where
  "demo_space = snd (mappages 0x87FF9000 USERBASE 0x87FFF000 4096 22 demo_phys)"

lemma demo_space_leaf:
  "pt_ext demo_phys demo_space 0x87FF9000"
  "v \<in> vpaths \<Longrightarrow> leaf (mem demo_space) 0x87FF9000 v =
     (if v = vpath USERBASE then PA2PTE 0x87FFF000 OR 22 OR PTE_V else 0)"
proof -
  let ?m = "mappages 0x87FF9000 USERBASE 0x87FFF000 4096 22 demo_phys"
  have r: "fst ?m = 0" by code_simp
  have h: "(0::u64) < 4096" "unat USERBASE + unat (4096 :: u64) \<le> unat MAXVA" by (simp_all add: rv_const)
  have mp: "more_pages USERBASE 4096 = 0" and dn: "PGROUNDDOWN USERBASE = USERBASE"
    by (simp_all add: more_pages_def PGROUNDDOWN_def rv_const)
  obtain k where k: "pt_ext demo_phys demo_space 0x87FF9000"
      "pm.entered 0x87FF9000 k 22 USERBASE 0x87FFF000 demo_phys demo_space" "k = 1"
    using mappages_entered [OF demo_pt_wf h surjective_pairing, of "0x87FFF000" 22] r
    by (auto simp: mp dn demo_space_def [symmetric])
  show "pt_ext demo_phys demo_space 0x87FF9000" by (rule k(1))
  show "leaf (mem demo_space) 0x87FF9000 v =
     (if v = vpath USERBASE then PA2PTE 0x87FFF000 OR 22 OR PTE_V else 0)" if "v \<in> vpaths"
    using k(2) [unfolded k(3) pm.entered_def] that demo_leaf by simp
qed

lemma demo_frame: "0x87FFF000 \<in> pool_pages demo_space - tables (mem demo_space) 0x87FF9000"
proof -
  have eq: "page_addr demo_phys 7 = 0x87FFF000" and root: "page_addr demo_phys 1 = 0x87FF9000"
    by (simp_all add: page_addr_def demo_phys_def rv_const)
  have npage: "km_npage demo_phys = 8" and used: "page_used (km_bitmap demo_phys) 7"
    by (simp_all add: demo_phys_def page_used_def)
  have "page_addr demo_phys 7 \<in> pool_pages demo_phys" unfolding pool_pages_def using npage by auto
  moreover have "page_addr demo_phys 7 \<notin> free_pages demo_phys"
    using used npage page_addr_inj [OF demo_phys_wf, of 7] unfolding free_pages_def by force
  moreover have "tables (mem demo_phys) 0x87FF9000 = {0x87FF9000}"
    using demo_pt_wf pt_wf_live [OF demo_pt_wf, of "[]"]
    by (intro pt_wf_empty(3)) (simp_all add: pt_wf_phys, simp add: demo_phys_def)
  ultimately show ?thesis using demo_space_leaf(1) eq by (auto simp: pt_ext_def)
qed

lemma demo_space_ok:
  assumes "sz = 0 \<or> sz = USERBASE + 4096"
  shows "space_ok demo_space 0x87FF9000 sz"
proof -
  have e: "PTE2PA (PA2PTE 0x87FFF000 OR 22 OR PTE_V) = 0x87FFF000" "rwx (PA2PTE 0x87FFF000 OR 22 OR PTE_V)"
    by (simp_all add: PTE2PA_def PA2PTE_def rv_const)
  have "user_paths sz \<subseteq> vpaths" by (simp add: user_paths_def region_paths_vpaths)
  then show ?thesis
    using assms demo_space_leaf demo_frame e pt_ext_wf [OF demo_space_leaf(1)]
    unfolding space_ok_def by (auto simp: rv_const subset_iff)
qed

lemma demo_user_path: "vpath USERBASE \<in> user_paths (USERBASE + 4096)" "vpath USERBASE \<notin> user_paths 0 \<union> kernel_paths"
  by (simp_all add: user_paths_def kernel_paths_def free_regions_def page_in_range PGROUNDUP_def rv_const)

theorem uvmfree_correct_witness:
  "space_ok demo_space 0x87FF9000 (USERBASE + 4096) \<and>
   (\<exists>s'. uvmfree 0x87FF9000 (USERBASE + 4096) demo_space = Inr s' \<and> 0x87FF9000 \<in> free_pages s')"
proof -
  have ok: "space_ok demo_space 0x87FF9000 (USERBASE + 4096)" by (rule demo_space_ok) simp
  have "\<forall>v \<in> vpaths. vld (leaf (mem demo_space) 0x87FF9000 v) \<longrightarrow> v \<in> user_paths (USERBASE + 4096) \<union> kernel_paths"
    using demo_space_leaf(2) demo_user_path(1) by auto
  from uvmfree_correct [OF ok this] obtain s' where
    "uvmfree 0x87FF9000 (USERBASE + 4096) demo_space = Inr s'"
    "tables (mem demo_space) 0x87FF9000 \<subseteq> free_pages s'" by auto
  moreover have "0x87FF9000 \<in> tables (mem demo_space) 0x87FF9000"
    unfolding tables_def by (intro CollectI exI [of _ "[]"]) simp
  ultimately show ?thesis using ok by blast
qed

theorem uvmfree_leftover_panics_witness:
  "uvmfree 0x87FF9000 0 demo_space = Inl (Panic ''freewalk: leaf'')"
proof (rule uvmfree_leftover_panics)
  show "space_ok demo_space 0x87FF9000 0" by (rule demo_space_ok) simp
  show "vld (leaf (mem demo_space) 0x87FF9000 (vpath USERBASE))" by (simp add: demo_space_leaf(2) vld_entry)
qed (use demo_user_path in simp_all)

text \<open>The tables of a new address space take 74 pages.\<close>

definition kernel_dirs :: "nat list list" where
  "kernel_dirs = block_dirs [2, 0, 255] ([1024..<1088] @ [128, 16, 96, 97, 0, 131071])"

lemma kernel_way_in: "v \<in> kernel_paths \<Longrightarrow> way_in (set kernel_dirs) v"
proof -
  let ?bs = "[1024..<1088] @ [128, 16, 96, 97, 0, 131071]"
  have c: "b \<in> set ?bs \<and> b div 512 \<in> set [2, 0, 255]" if "1024 \<le> b" "b \<le> 1087" for b :: nat
  proof -
    have "b div 512 = 2" using that by (intro div_nat_eqI) simp_all
    then show ?thesis using that by (simp only: set_append set_upt) simp
  qed
  have b: "\<forall>b. 128 \<le> b \<and> b \<le> 128 \<longrightarrow> b \<in> set ?bs \<and> b div 512 \<in> set [2, 0, 255]"
    "\<forall>b. 16 \<le> b \<and> b \<le> 16 \<longrightarrow> b \<in> set ?bs \<and> b div 512 \<in> set [2, 0, 255]"
    "\<forall>b. 96 \<le> b \<and> b \<le> 97 \<longrightarrow> b \<in> set ?bs \<and> b div 512 \<in> set [2, 0, 255]"
    "\<forall>b. 0 \<le> b \<and> b \<le> 0 \<longrightarrow> b \<in> set ?bs \<and> b div 512 \<in> set [2, 0, 255]"
    "\<forall>b. 131071 \<le> b \<and> b \<le> 131071 \<longrightarrow> b \<in> set ?bs \<and> b div 512 \<in> set [2, 0, 255]"
    by (simp_all only: set_append set_upt) (auto dest!: le_antisym simp: le_Suc_eq)
  assume "v \<in> kernel_paths"
  then have "v \<in> \<Union> (set (map covers (kernel_regions 0)))" unfolding kernel_covers_Union [of 0, symmetric] by auto
  then have "v \<in> vrange 0x80000000 32768 \<or> v \<in> vrange 0x10000000 1 \<or> v \<in> vrange 0x10001000 1 \<or> v \<in> vrange CLINT 16 \<or>
      v \<in> vrange PLIC 1024 \<or> v \<in> vrange SYSCON 1 \<or> v \<in> vrange TRAPFRAME 1"
    unfolding kernel_covers by auto
  then show ?thesis unfolding kernel_dirs_def
  proof (elim disjE)
    assume "v \<in> vrange 0x80000000 32768"
    then show "way_in (set (block_dirs [2, 0, 255] ?bs)) v" by (rule vrange_way_in) (use c in \<open>simp_all add: rv_const del: upt_rec_numeral\<close>)
  qed (erule vrange_way_in; use b in \<open>simp add: rv_const del: upt_rec_numeral\<close>)+
qed

lemma uvmcreate_tables:
  assumes wf: "phys_wf s" and c: "uvmcreate context s = (pt, s')" "pt \<noteq> 0"
  shows "card (free_pages s) \<le> card (free_pages s') + 74"
proof -
  obtain s1 where s1: "pt_wf s1 pt" "tables (mem s1) pt = {pt}" "s' = map_regions pt (kernel_regions context) s1"
    using uvmcreate_space [OF assms] .
  have "p = []" if p: "length p \<le> 2" "tab (mem s1) pt p = Some t" for p t
  proof -
    have "t = pt" using that s1(2) by (auto simp: tables_def)
    then show ?thesis using pt_wf_inj [OF s1(1) p(1) _ p(2), of "[]"] by simp
  qed
  then have "dirs_in (set kernel_dirs) (mem s1) pt" by (force simp: dirs_in_def kernel_dirs_def block_dirs_def)
  moreover have "way_in (set kernel_dirs) v" if "r \<in> set (kernel_regions context)" "v \<in> covers r" for r v
    using that kernel_covers_Union [of "context"] by (intro kernel_way_in) blast
  ultimately have "dirs_in (set kernel_dirs) (mem s') pt"
    unfolding s1(3) by (intro map_regions_dirs [OF s1(1) kernel_regions_fit]) auto
  moreover have "length kernel_dirs = 74" by (simp add: kernel_dirs_def block_dirs_def)
  ultimately have "finite (tables (mem s') pt)" "card (tables (mem s') pt) \<le> 74" using tables_card by metis+
  moreover have "free_pages s = free_pages s' \<union> tables (mem s') pt" using uvmcreate_space_ok(4) [OF assms] by simp
  moreover from this have "card (free_pages s) \<le> card (free_pages s') + card (tables (mem s') pt)"
    by (simp add: card_Un_le)
  ultimately show ?thesis by linarith
qed

lemma uvmcreate_maps:
  assumes "phys_wf s" and "uvmcreate context s = (pt, s')" and "pt \<noteq> 0" and "free_pages s' \<noteq> {}" and "r \<in> set (kernel_regions context)"
  shows "maps s' pt r"
proof -
  obtain s1 where s1: "pt_wf s1 pt" "\<forall>v \<in> vpaths. leaf (mem s1) pt v = 0" "s' = map_regions pt (kernel_regions context) s1"
    using uvmcreate_space [OF assms(1-3)] .
  have "covers r \<subseteq> vpaths" for r by (cases r) (auto simp: covers_def vrange_def)
  then have "\<forall>r \<in> set (kernel_regions context). \<forall>v \<in> covers r. \<not> vld (leaf (mem s1) pt v)"
    using s1(2) by (metis not_vld_0 subset_iff)
  then show ?thesis
    using map_regions_maps [OF s1(1) kernel_regions_fit _ _ kernel_covers_disjoint] assms(4,5) s1(3) by blast
qed

text \<open>
  C9. A fresh address space gives user mode access to nothing: whatever memory runs short, no
  entry of the table that \<^verbatim>\<open>uvmcreate\<close> returns has the user bit, and it returns null only when no page is free.
  With more than 74 free pages, the number of its tables, the address space is complete: the RAM
  of the kernel is mapped to itself with R, W and X, the device registers to themselves with R and W, and \<^verbatim>\<open>TRAPFRAME\<close> to the given context page.
  With fewer, the results of \<^verbatim>\<open>mappages\<close> being ignored, a table that lacks some of them may be returned.
\<close>

theorem uvmcreate_correct:
  assumes "phys_wf s" and "uvmcreate context s = (pt, s')"
  shows "(pt = 0 \<longrightarrow> free_pages s = {}) \<and>
    (pt \<noteq> 0 \<longrightarrow> pt_wf s' pt \<and> pt \<in> free_pages s \<and> (\<forall>v \<in> vpaths. leaf (mem s') pt v AND PTE_U = 0)) \<and>
    (74 < card (free_pages s) \<longrightarrow> pt \<noteq> 0 \<and>
       (\<forall>va. 0x80000000 \<le> va \<and> va < PHYSTOP \<longrightarrow>
          leaf (mem s') pt (vpath va) = PA2PTE (PGROUNDDOWN va) OR (PTE_R OR PTE_W OR PTE_X) OR PTE_V) \<and>
       (\<forall>r \<in> set mmio_regions. maps s' pt r) \<and>
       leaf (mem s') pt (vpath TRAPFRAME) = PA2PTE context OR (PTE_R OR PTE_W) OR PTE_V)"
proof -
  have null: "free_pages s = {}" if "pt = 0"
    using assms that pa.alloc_null [OF assms(1)] by (auto simp: uvmcreate_regions Let_def split: prod.splits if_splits)
  have M: "maps s' pt r" if "74 < card (free_pages s)" "r \<in> set (kernel_regions context)" for r
  proof -
    have p: "pt \<noteq> 0" using that(1) null by auto
    have "0 < card (free_pages s')" using uvmcreate_tables [OF assms p] that(1) by linarith
    then have "free_pages s' \<noteq> {}" by auto
    then show ?thesis using uvmcreate_maps [OF assms p] that(2) by blast
  qed
  have "leaf (mem s') pt (vpath va) = PA2PTE (PGROUNDDOWN va) OR (PTE_R OR PTE_W OR PTE_X) OR PTE_V"
    if f: "74 < card (free_pages s)" and va: "0x80000000 \<le> va" "va < PHYSTOP" for va
  proof -
    define j where "j = unat va div 4096 - 0x80000"
    have u: "0x80000000 \<le> unat va" "unat va < 0x88000000"
      using va by (simp_all add: word_le_nat_alt word_less_nat_alt rv_const)
    then have d: "0x80000 \<le> unat va div 4096" "unat va div 4096 < 0x88000" by linarith+
    then have j: "j \<le> more_pages 0x80000000 (PHYSTOP - 0x80000000)"
      by (simp add: j_def more_pages_def rv_const)
    have "unat (page_no 0x80000000 j) = unat va div 4096 * 4096"
      using d by (subst unat_page_no) (simp_all add: j_def)
    then have p: "page_no 0x80000000 j = PGROUNDDOWN va"
      by (simp only: word_unat_eq_iff unat_PGROUNDDOWN)
    have "maps s' pt (0x80000000, 0x80000000, PHYSTOP - 0x80000000, PTE_R OR PTE_W OR PTE_X)"
      using f by (intro M) (simp_all add: kernel_regions_def)
    moreover have "PGROUNDDOWN 0x80000000 = 0x80000000" by (simp add: PGROUNDDOWN_def rv_const)
    ultimately show ?thesis using j p by (auto simp: maps_def)
  qed
  moreover have "leaf (mem s') pt (vpath TRAPFRAME) = PA2PTE context OR (PTE_R OR PTE_W) OR PTE_V"
    if f: "74 < card (free_pages s)"
  proof -
    have "maps s' pt (TRAPFRAME, context, PGSIZE, PTE_R OR PTE_W)"
      using f by (intro M) (simp_all add: kernel_regions_def)
    then show ?thesis by (auto simp: maps_def)
  qed
  moreover have "maps s' pt r" if "74 < card (free_pages s)" "r \<in> set mmio_regions" for r
    using that by (intro M) (auto simp: kernel_regions_def)
  moreover have "pt \<in> free_pages s" if "pt \<noteq> 0" using uvmcreate_space [OF assms that] by blast
  ultimately show ?thesis using null uvmcreate_space_ok [OF assms] by auto
qed

lemma demo_uvmcreate: "fst (uvmcreate 0x87FFF000 demo_phys) = 0x87FFA000"
  using demo_phys_alloc by (cases "kalloc demo_phys") (simp add: uvmcreate_regions)

text \<open>A pool of 256 pages with all but the first free.\<close>

definition demo_pool :: phys where
  "demo_pool = \<lparr>mem = (\<lambda>_. 0), km_start = 0x87F00000, km_npage = 256, km_bitmap = 1 # replicate 31 0\<rparr>"

lemma demo_pool_ok: "phys_wf demo_pool" "card (free_pages demo_pool) = 255"
proof -
  show wf: "phys_wf demo_pool" by (simp add: demo_pool_def phys_wf_def page_used_def rv_const)
  have "page_used (1 # replicate 31 0) i \<longleftrightarrow> i = 0" if "i < 256" for i
  proof (cases "i div 8")
    case 0
    then show ?thesis by (auto simp: page_used_bit bit_1_iff div_eq_0_iff)
  next
    case (Suc k)
    then have "k < 31" using that by linarith
    then show ?thesis using Suc by (auto simp: page_used_bit)
  qed
  then have "{i. int i < km_npage demo_pool \<and> \<not> page_used (km_bitmap demo_pool) i} = {1..<256}"
    by (auto simp: demo_pool_def)
  moreover have "inj_on (page_addr demo_pool) {1..<256}"
    using page_addr_inj_on [OF wf] by (rule inj_on_subset) (auto simp: demo_pool_def)
  ultimately show "card (free_pages demo_pool) = 255" by (simp add: free_pages_def card_image)
qed

theorem uvmcreate_correct_witness:
  "\<exists>pt s'. uvmcreate 0x87FFF000 demo_pool = (pt, s') \<and> pt \<noteq> 0 \<and>
     leaf (mem s') pt (vpath 0x80001234) = PA2PTE 0x80001000 OR (PTE_R OR PTE_W OR PTE_X) OR PTE_V \<and>
     leaf (mem s') pt (vpath TRAPFRAME) = PA2PTE 0x87FFF000 OR (PTE_R OR PTE_W) OR PTE_V \<and>
     leaf (mem s') pt (vpath USERBASE) AND PTE_U = 0"
proof -
  obtain pt s' where u: "uvmcreate 0x87FFF000 demo_pool = (pt, s')" by fastforce
  have "PGROUNDDOWN 0x80001234 = 0x80001000" by (simp add: PGROUNDDOWN_def rv_const)
  moreover have "(0x80001234 :: u64) < PHYSTOP" by (simp add: rv_const)
  ultimately show ?thesis using uvmcreate_correct [OF demo_pool_ok(1) u] u demo_pool_ok(2) by auto
qed

text \<open>
  Creating an address space and freeing it again gives back every page: \<^verbatim>\<open>uvmfree\<close> of what
  \<^verbatim>\<open>uvmcreate\<close> built returns normally, and the set of free pages is the one before.
\<close>

theorem uvmcreate_uvmfree_roundtrip:
  assumes "phys_wf s" and "uvmcreate context s = (pt, s')" and "pt \<noteq> 0"
  shows "\<exists>s''. uvmfree pt 0 s' = Inr s'' \<and> phys_wf s'' \<and> free_pages s'' = free_pages s"
proof -
  note sp = uvmcreate_space_ok [OF assms]
  have V: "user_paths 0 \<subseteq> vpaths" by (simp add: user_paths_def region_paths_vpaths)
  have "vpath (USTACK_TOP - PGSIZE) \<notin> kernel_paths"
    by (simp add: kernel_paths_def free_regions_def page_in_range rv_const)
  moreover have "user_paths 0 = {vpath (USTACK_TOP - PGSIZE)}"
    by (simp add: user_paths_def free_regions_def vrange_Suc vrange_0 rv_const)
  ultimately have stack: "\<forall>v \<in> user_paths 0. v \<notin> kernel_paths" by simp
  have inv: "\<not> vld (leaf (mem s') pt v)" if "v \<in> user_paths 0" for v
  proof
    assume "vld (leaf (mem s') pt v)"
    then have "v \<in> kernel_paths" using sp(3) [of v] that V by blast
    with stack that show False by simp
  qed
  have "space_ok s' pt 0" using sp(1,3) inv by (auto simp: space_ok_def)
  from uvmfree_unmaps [OF this] obtain s1 where s1:
    "rfold (\<lambda>(va, n, df). uvmunmap pt va n df) (free_regions 0) s' = Inr s1"
    "pt_cut s' s1 pt (freed s' pt True (user_paths 0))" "cleared s' s1 pt (user_paths 0 \<union> kernel_paths)" by blast
  have F: "freed s' pt True (user_paths 0) = {}" using inv by (auto simp: freed_def)
  have nl: "\<forall>v \<in> vpaths. \<not> vld (leaf (mem s1) pt v)" using s1(3) sp(3) by (auto simp: cleared_def)
  have wf1: "pt_wf s1 pt" using s1(2) by (simp add: pt_cut_def)
  have "sub_ok s1 3 pt" using pt_sub_ok [OF wf1] nl by blast
  then have "fw_result 3 pt s1 (freewalk 3 pt s1)" using freewalk_spec [OF pt_wf_phys [OF wf1]] by simp
  then obtain s'' where s'': "freewalk 3 pt s1 = Inr s''" "frees_subtree s1 (tables (mem s') pt) s''"
    using nl by (auto simp: fw_result_def leafless_iff subtree_3 pt_cut_tables [OF s1(2)])
  then show ?thesis
    using s1(1,2) sp(4) F by (auto simp: uvmfree_def frees_subtree_def pt_cut_def)
qed

theorem uvmcreate_uvmfree_roundtrip_witness:
  "\<exists>s''. uvmfree 0x87FFA000 0 (snd (uvmcreate 0x87FFF000 demo_phys)) = Inr s'' \<and>
     free_pages s'' = free_pages demo_phys"
  using uvmcreate_uvmfree_roundtrip [OF demo_phys_wf surjective_pairing, of "0x87FFF000"] demo_uvmcreate by auto

end
