(* ===== verification/RV_Locks.thy ===== *)
theory RV_Locks
  imports RV_Prelude
begin

text \<open>
  Interrupt nesting (\<^verbatim>\<open>kernelspace/core/intr.c\<close>) and spinlocks (\<^verbatim>\<open>kernelspace/lib/lock.c\<close>) over
  several harts. \<open>push_off\<close>, \<open>pop_off\<close>, \<open>holding\<close> and \<open>init_lock\<close> are functions; the bodies of
  \<^verbatim>\<open>accquire_lock\<close> and \<^verbatim>\<open>release_lock\<close> are the step relation \<open>lstep\<close>, one step for each access to the
  shared lock, so that harts interleave between any two of them.

  The invariant \<open>lock_inv\<close> gives mutual exclusion in every reachable state and that
  \<^verbatim>\<open>release_lock\<close> never panics. The self-deadlock test of \<^verbatim>\<open>accquire_lock\<close> is shown to be sound when
  the owner field starts out as no hart's id, and to panic spuriously when it starts as 0,
  which is what \<^verbatim>\<open>init_lock\<close> leaves in a zeroed lock.
\<close>

subsection \<open>Interrupt nesting\<close>

record cpu =
  nlock :: int
  intena :: bool
  sie :: bool

definition push_off :: "cpu \<Rightarrow> cpu" where
  "push_off c =
     (let old = sie c;
          c1 = c\<lparr>sie := False\<rparr>;
          c2 = (if nlock c1 = 0 then c1\<lparr>intena := old\<rparr> else c1)
      in c2\<lparr>nlock := nlock c2 + 1\<rparr>)"

definition pop_off :: "cpu \<Rightarrow> cpu res" where
  "pop_off c =
     (if sie c then Inl (Panic ''pop_off - interruptible'')
      else if nlock c < 1 then Inl (Panic ''pop_off'')
      else
        let c1 = c\<lparr>nlock := nlock c - 1\<rparr>
        in Inr (if nlock c1 = 0 \<and> intena c1 then c1\<lparr>sie := True\<rparr> else c1))"

subsection \<open>Spinlocks\<close>

record spinlock =
  locked :: u32
  lock_count :: u32

definition init_lock :: "spinlock \<Rightarrow> spinlock" where
  "init_lock l = l\<lparr>locked := 0\<rparr>"

definition holding :: "spinlock \<Rightarrow> u64 \<Rightarrow> bool" where
  "holding l tp \<longleftrightarrow> locked l \<noteq> 0 \<and> ucast (lock_count l) = tp"

text \<open>
  Where a hart is: outside; in \<^verbatim>\<open>accquire_lock\<close> before the \<^verbatim>\<open>holding\<close> test, at the exchange, after
  the winning exchange; inside; in \<^verbatim>\<open>release_lock\<close> before the owner is cleared, before the store
  of 0, before \<^verbatim>\<open>pop_off\<close>; or stopped in \<^verbatim>\<open>panic\<close>.
\<close>

datatype place = Out | Test | Spin | Won | Crit | Clear | Store | Pop | Dead string

record lock_state =
  lck :: spinlock
  place_of :: "u64 \<Rightarrow> place"
  cpu_of :: "u64 \<Rightarrow> cpu"

definition goto :: "u64 \<Rightarrow> place \<Rightarrow> lock_state \<Rightarrow> lock_state" where
  "goto h p s = s\<lparr>place_of := (place_of s)(h := p)\<rparr>"

inductive lstep :: "lock_state \<Rightarrow> lock_state \<Rightarrow> bool" where
  intr: "place_of s h = Out \<Longrightarrow> nlock (cpu_of s h) = 0 \<Longrightarrow>
    lstep s (s\<lparr>cpu_of := (cpu_of s)(h := (cpu_of s h)\<lparr>sie := b\<rparr>)\<rparr>)"
| acquire: "place_of s h = Out \<Longrightarrow>
    lstep s (goto h Test (s\<lparr>cpu_of := (cpu_of s)(h := push_off (cpu_of s h))\<rparr>))"
| test_held: "place_of s h = Test \<Longrightarrow> holding (lck s) h \<Longrightarrow> lstep s (goto h (Dead ''acquire'') s)"
| test_free: "place_of s h = Test \<Longrightarrow> \<not> holding (lck s) h \<Longrightarrow> lstep s (goto h Spin s)"
| exchange: "place_of s h = Spin \<Longrightarrow>
    lstep s (goto h (if locked (lck s) = 0 then Won else Spin) (s\<lparr>lck := (lck s)\<lparr>locked := 1\<rparr>\<rparr>))"
| own: "place_of s h = Won \<Longrightarrow> lstep s (goto h Crit (s\<lparr>lck := (lck s)\<lparr>lock_count := ucast h\<rparr>\<rparr>))"
| release: "place_of s h = Crit \<Longrightarrow>
    lstep s (goto h (if holding (lck s) h then Clear else Dead ''release'') s)"
| clear: "place_of s h = Clear \<Longrightarrow> lstep s (goto h Store (s\<lparr>lck := (lck s)\<lparr>lock_count := -1\<rparr>\<rparr>))"
| store: "place_of s h = Store \<Longrightarrow> lstep s (goto h Pop (s\<lparr>lck := (lck s)\<lparr>locked := 0\<rparr>\<rparr>))"
| pop: "place_of s h = Pop \<Longrightarrow> pop_off (cpu_of s h) = Inr c \<Longrightarrow>
    lstep s (goto h Out (s\<lparr>cpu_of := (cpu_of s)(h := c)\<rparr>))"
| pop_panic: "place_of s h = Pop \<Longrightarrow> pop_off (cpu_of s h) = Inl (Panic e) \<Longrightarrow> lstep s (goto h (Dead e) s)"

text \<open>
  The start: a lock just initialised, all harts of \<open>H\<close> outside with no lock held, the others
  never running (they are stopped from the start).
\<close>

definition lock_start :: "u64 set \<Rightarrow> lock_state \<Rightarrow> bool" where
  "lock_start H s \<longleftrightarrow>
     locked (lck s) = 0 \<and> (\<forall>h. place_of s h = (if h \<in> H then Out else Dead [])) \<and> (\<forall>h. nlock (cpu_of s h) = 0)"

inductive lreach :: "u64 set \<Rightarrow> u32 \<Rightarrow> lock_state \<Rightarrow> bool" for H owner where
  start: "lock_start H s \<Longrightarrow> lock_count (lck s) = owner \<Longrightarrow> lreach H owner s"
| step: "lreach H owner s \<Longrightarrow> lstep s s' \<Longrightarrow> lreach H owner s'"

inductive_cases lstepE: "lstep s s'"

subsection \<open>Nesting\<close>

text \<open>\<open>n\<close> calls of a partial operation.\<close>

primrec iter_res :: "nat \<Rightarrow> ('a \<Rightarrow> 'a res) \<Rightarrow> 'a \<Rightarrow> 'a res" where
  "iter_res 0 f x = Inr x"
| "iter_res (Suc n) f x = rbind (f x) (iter_res n f)"

lemma push_off_nested:
  assumes "nlock c = 0"
  shows "nlock ((push_off ^^ n) c) = int n \<and> (0 < n \<longrightarrow> \<not> sie ((push_off ^^ n) c) \<and> intena ((push_off ^^ n) c) = sie c)"
proof (induction n)
  case 0
  then show ?case using assms by simp
next
  case (Suc n)
  then show ?case by (cases n) (auto simp: push_off_def Let_def)
qed

lemma pop_off_nested:
  assumes "\<not> sie c" "nlock c = int (Suc n)"
  shows "iter_res (Suc n) pop_off c = Inr (c\<lparr>nlock := 0, sie := intena c\<rparr>)"
  using assms
proof (induction n arbitrary: c)
  case 0
  then show ?case by (cases "intena c") (auto simp: pop_off_def Let_def)
next
  case (Suc n)
  have "pop_off c = Inr (c\<lparr>nlock := int (Suc n)\<rparr>)" using Suc.prems by (simp add: pop_off_def Let_def)
  then show ?case using Suc.IH [of "c\<lparr>nlock := int (Suc n)\<rparr>"] Suc.prems by simp
qed

subsection \<open>The invariant\<close>

definition owns :: "place \<Rightarrow> bool" where
  "owns p \<longleftrightarrow> p \<in> {Won, Crit, Clear, Store}"

definition harts :: "u64 set" where
  "harts = {h. h < 8}"

text \<open>
  \<open>own_inv w owner s\<close>: \<open>w\<close> is the hart between its winning exchange and its store of 0, if any;
  \<open>cpu_inv s\<close>: a hart has interrupts off and one lock counted wherever it is inside the code.
\<close>

definition own_inv :: "u64 option \<Rightarrow> u32 \<Rightarrow> lock_state \<Rightarrow> bool" where
  "own_inv w owner s \<longleftrightarrow>
     (\<forall>h. owns (place_of s h) \<longleftrightarrow> w = Some h) \<and> (locked (lck s) \<noteq> 0 \<longleftrightarrow> w \<noteq> None) \<and>
     (case w of None \<Rightarrow> lock_count (lck s) \<in> {owner, -1}
      | Some h \<Rightarrow> lock_count (lck s) \<in> (if place_of s h \<in> {Crit, Clear} then {ucast h} else {owner, -1}))"

definition cpu_ok :: "place \<Rightarrow> cpu \<Rightarrow> bool" where
  "cpu_ok p c = (case p of Dead e \<Rightarrow> True | Out \<Rightarrow> nlock c = 0 | _ \<Rightarrow> \<not> sie c \<and> nlock c = 1)"

definition cpu_inv :: "lock_state \<Rightarrow> bool" where
  "cpu_inv s \<longleftrightarrow> (\<forall>h. cpu_ok (place_of s h) (cpu_of s h)) \<and> (\<forall>h. h \<notin> harts \<longrightarrow> place_of s h = Dead [])"

definition lock_inv :: "u32 \<Rightarrow> lock_state \<Rightarrow> bool" where
  "lock_inv owner s \<longleftrightarrow> (\<exists>w. own_inv w owner s) \<and> cpu_inv s"

lemma owns_simps [simp]:
  "owns Won" "owns Crit" "owns Clear" "owns Store" "\<not> owns Out" "\<not> owns Test" "\<not> owns Spin" "\<not> owns Pop"
  "\<not> owns (Dead e)"
  by (simp_all add: owns_def)

lemma goto_simps [simp]:
  "lck (goto h p s) = lck s" "cpu_of (goto h p s) = cpu_of s"
  "place_of (goto h p s) = (place_of s)(h := p)"
  by (simp_all add: goto_def)

lemma push_off_first: "nlock c = 0 \<Longrightarrow> nlock (push_off c) = 1 \<and> \<not> sie (push_off c)"
  by (simp add: push_off_def Let_def)

lemma pop_off_last: "\<not> sie c \<Longrightarrow> nlock c = 1 \<Longrightarrow> \<exists>c'. pop_off c = Inr c' \<and> nlock c' = 0"
  by (auto simp: pop_off_def Let_def)

lemma hart_ucast: "h \<in> harts \<Longrightarrow> ucast (ucast h :: u32) = (h :: u64)"
proof -
  assume "h \<in> harts"
  then have "unat h < 8" by (simp add: harts_def word_less_nat_alt)
  then have "take_bit 32 h = h" by (intro take_bit_word_self) simp
  then have "unat (ucast (ucast h :: u32) :: u64) = unat h" by (simp add: unsigned_ucast_eq)
  then show ?thesis by (simp only: word_unat_eq_iff)
qed

text \<open>A step moves one running hart; the others keep their place and interrupt state.\<close>

lemma lstep_local:
  assumes "lstep s s'"
  shows "\<exists>h. (\<forall>k. k \<noteq> h \<longrightarrow> place_of s' k = place_of s k \<and> cpu_of s' k = cpu_of s k) \<and> place_of s h \<noteq> Dead [] \<and>
    (cpu_ok (place_of s h) (cpu_of s h) \<longrightarrow> cpu_ok (place_of s' h) (cpu_of s' h) \<and> (\<forall>e. place_of s' h \<noteq> Dead e \<or> place_of s h \<in> {Test, Crit}))"
  using assms
proof cases
  case (acquire h)
  then show ?thesis using push_off_first [of "cpu_of s h"] by (intro exI [of _ h]) (auto simp: cpu_ok_def)
next
  case (pop h c)
  then show ?thesis using pop_off_last [of "cpu_of s h"] by (intro exI [of _ h]) (auto simp: cpu_ok_def)
next
  case (pop_panic h e)
  then show ?thesis using pop_off_last [of "cpu_of s h"] by (intro exI [of _ h]) (auto simp: cpu_ok_def)
qed (auto simp: cpu_ok_def)

lemma cpu_inv_step:
  assumes "cpu_inv s" and "lstep s s'"
  shows "cpu_inv s'"
proof -
  obtain h where h: "\<And>k. k \<noteq> h \<Longrightarrow> place_of s' k = place_of s k \<and> cpu_of s' k = cpu_of s k"
    "place_of s h \<noteq> Dead []" "cpu_ok (place_of s h) (cpu_of s h) \<Longrightarrow> cpu_ok (place_of s' h) (cpu_of s' h)"
    using lstep_local [OF assms(2)] by blast
  show ?thesis using assms(1) h unfolding cpu_inv_def by metis
qed

lemma own_inv_owns: "own_inv w owner s \<Longrightarrow> owns (place_of s h) \<longleftrightarrow> w = Some h"
  by (simp add: own_inv_def)

lemma own_inv_locked: "own_inv w owner s \<Longrightarrow> locked (lck s) = 0 \<longleftrightarrow> w = None"
  by (auto simp: own_inv_def)

lemma crit_holding:
  assumes "own_inv w owner s" and "cpu_inv s" and "place_of s h = Crit"
  shows "holding (lck s) h"
proof -
  have "owns (place_of s h)" using assms(3) by simp
  then have w: "w = Some h" using assms(1) unfolding own_inv_def by blast
  have "h \<in> harts" using assms(2,3) unfolding cpu_inv_def by force
  then show ?thesis using assms(1,3) hart_ucast [of h] by (simp add: own_inv_def w holding_def)
qed

text \<open>Moving a hart between places outside the owned part changes nothing.\<close>

lemma own_inv_move:
  assumes "own_inv w owner s" and "\<not> owns (place_of s h)" and "\<not> owns p"
  shows "\<exists>w. own_inv w owner (goto h p (s\<lparr>cpu_of := c\<rparr>))" and "\<exists>w. own_inv w owner (goto h p s)"
proof -
  have "w \<noteq> Some h" using own_inv_owns [OF assms(1), of h] assms(2) by simp
  then have "own_inv w owner (goto h p (s\<lparr>cpu_of := c\<rparr>))" "own_inv w owner (goto h p s)"
    using assms by (cases w; simp add: own_inv_def)+
  then show "\<exists>w. own_inv w owner (goto h p (s\<lparr>cpu_of := c\<rparr>))" and "\<exists>w. own_inv w owner (goto h p s)" by blast+
qed

lemma own_inv_step:
  assumes inv: "own_inv w owner s" and ci: "cpu_inv s" and st: "lstep s s'"
  shows "\<exists>w'. own_inv w' owner s'"
  using st
proof cases
  case (exchange h)
  have ne: "w \<noteq> Some h" using own_inv_owns [OF inv, of h] exchange(2) by auto
  show ?thesis
  proof (cases w)
    case None
    then have "own_inv (Some h) owner s'"
      using inv exchange own_inv_locked [OF inv] by (simp add: own_inv_def)
    then show ?thesis by blast
  next
    case (Some k)
    then have "locked (lck s) \<noteq> 0" using own_inv_locked [OF inv] by simp
    with Some ne have "own_inv (Some k) owner s'"
      using inv exchange by (simp add: own_inv_def)
    then show ?thesis by blast
  qed
next
  case (store h)
  have "w = Some h" using own_inv_owns [OF inv, of h] store(2) by simp
  then have "own_inv None owner s'" using inv store by (simp add: own_inv_def)
  then show ?thesis by blast
next
  case (release h)
  then have s': "s' = goto h Clear s" using crit_holding [OF inv ci] by simp
  have "owns (place_of s h)" using release by simp
  then have "w = Some h" using inv unfolding own_inv_def by blast
  then have "own_inv w owner s'" using inv release(2) by (auto simp: own_inv_def s')
  then show ?thesis by blast
next
  case (own h)
  have "w = Some h" using own_inv_owns [OF inv, of h] own(2) by simp
  then have "own_inv w owner s'" using inv own by (simp add: own_inv_def)
  then show ?thesis by blast
next
  case (clear h)
  have "w = Some h" using own_inv_owns [OF inv, of h] clear(2) by simp
  then have "own_inv w owner s'" using inv clear by (simp add: own_inv_def)
  then show ?thesis by blast
next
  case (intr h b)
  then have "own_inv w owner s'" using inv by (cases w) (simp_all add: own_inv_def)
  then show ?thesis by blast
qed (auto intro!: own_inv_move [OF inv])

lemma lreach_inv:
  assumes "lreach H owner s" and "H \<subseteq> harts"
  shows "\<exists>w. own_inv w owner s" and "cpu_inv s"
proof -
  from assms(1) have "(\<exists>w. own_inv w owner s) \<and> cpu_inv s"
  proof induction
    case (start s)
    then have "own_inv None owner s" by (auto simp: lock_start_def own_inv_def)
    moreover have "cpu_inv s" using start assms(2) by (auto simp: lock_start_def cpu_inv_def cpu_ok_def)
    ultimately show ?case by blast
  next
    case (step s s')
    then show ?case using own_inv_step cpu_inv_step by blast
  qed
  then show "\<exists>w. own_inv w owner s" and "cpu_inv s" by auto
qed

text \<open>With an owner field that names no hart, the test before the exchange never fires.\<close>

lemma test_not_held:
  assumes "own_inv w owner s" and "cpu_inv s" and "ucast owner \<notin> harts" and "place_of s h = Test"
  shows "\<not> holding (lck s) h"
proof
  assume hold: "holding (lck s) h"
  then obtain k where w: "w = Some k" using assms(1) by (auto simp: own_inv_def holding_def)
  have h: "h \<in> harts" using assms(2,4) unfolding cpu_inv_def by force
  have "ucast (-1 :: u32) = (0xFFFFFFFF :: u64)" by code_simp
  then have minus: "ucast (-1 :: u32) \<notin> harts" by (simp add: harts_def)
  have lc: "ucast (lock_count (lck s)) = h" using hold by (simp add: holding_def)
  have "owns (place_of s k)" using assms(1) w unfolding own_inv_def by blast
  then have kh: "k \<noteq> h" using assms(4) by auto
  have "k \<in> harts" using \<open>owns (place_of s k)\<close> assms(2) unfolding cpu_inv_def by force
  have "lock_count (lck s) \<in> {ucast k, owner, -1}"
    using assms(1) by (simp add: own_inv_def w split: if_splits)
  then have "h \<in> {k, ucast owner, ucast (-1 :: u32)}" using lc hart_ucast [OF \<open>k \<in> harts\<close>] by auto
  then show False using assms(3) h minus kh by auto
qed

lemma no_new_dead:
  assumes "own_inv w owner s" and "cpu_inv s" and "ucast owner \<notin> harts" and "lstep s s'" and "place_of s' h = Dead e"
  shows "place_of s h = Dead e"
  using assms(4)
proof cases
  case (release k)
  then show ?thesis using crit_holding [OF assms(1,2)] assms(5) by (auto split: if_splits)
next
  case (test_held k)
  then show ?thesis using test_not_held [OF assms(1,2,3)] by simp
next
  case (pop_panic k e')
  then have "cpu_ok Pop (cpu_of s k)" using assms(2) unfolding cpu_inv_def by metis
  then show ?thesis using pop_panic pop_off_last [of "cpu_of s k"] by (auto simp: cpu_ok_def)
qed (use assms(5) in \<open>auto split: if_splits\<close>)

subsection \<open>Properties\<close>

text \<open>Every step of \<^verbatim>\<open>release_lock\<close>, from its \<^verbatim>\<open>holding\<close> test to its \<^verbatim>\<open>pop_off\<close>, goes on without a panic.\<close>

lemma release_no_panic:
  assumes "own_inv w owner s" and "cpu_inv s" and "place_of s h \<in> {Crit, Clear, Store, Pop}" and "lstep s s'"
  shows "place_of s' h \<noteq> Dead e"
  using assms(4)
proof cases
  case (release k)
  then show ?thesis using crit_holding [OF assms(1,2)] assms(3) by (cases "k = h") auto
next
  case (pop_panic k e')
  then have "cpu_ok Pop (cpu_of s k)" using assms(2) unfolding cpu_inv_def by metis
  then show ?thesis using pop_panic pop_off_last [of "cpu_of s k"] by (auto simp: cpu_ok_def)
next
  case (test_held k)
  then show ?thesis using assms(3) by (cases "k = h") auto
qed (use assms(3) in \<open>auto split: if_splits\<close>)

text \<open>
  C3. Mutual exclusion: in every state that any interleaving of \<^verbatim>\<open>accquire_lock\<close> and
  \<^verbatim>\<open>release_lock\<close> on up to eight harts can reach, at most one hart is between its winning
  exchange and its store of 0, and that hart runs with interrupts off. \<^verbatim>\<open>release_lock\<close> never panics: no step
  of any hart puts a hart that is inside it into \<^verbatim>\<open>panic\<close>, the test of a hart in the critical section
  finds the lock held by this hart, and the \<^verbatim>\<open>pop_off\<close> at its end succeeds and leaves no lock counted.
  This holds whatever the owner field was at the start.
\<close>

theorem lock_mutual_exclusion:
  assumes "lreach harts owner s"
  shows "(\<forall>h k. owns (place_of s h) \<and> owns (place_of s k) \<longrightarrow> k = h) \<and>
    (\<forall>h. owns (place_of s h) \<longrightarrow> \<not> sie (cpu_of s h) \<and> nlock (cpu_of s h) = 1) \<and>
    (\<forall>h s' e. place_of s h \<in> {Crit, Clear, Store, Pop} \<and> lstep s s' \<longrightarrow> place_of s' h \<noteq> Dead e) \<and>
    (\<forall>h. place_of s h = Crit \<longrightarrow> holding (lck s) h) \<and>
    (\<forall>h. place_of s h = Pop \<longrightarrow> (\<exists>c. pop_off (cpu_of s h) = Inr c \<and> nlock c = 0))"
proof -
  obtain w where w: "own_inv w owner s" and c: "cpu_inv s" using lreach_inv [OF assms order_refl] by blast
  have ok: "cpu_ok (place_of s h) (cpu_of s h)" for h using c by (simp add: cpu_inv_def)
  have "\<not> sie (cpu_of s h) \<and> nlock (cpu_of s h) = 1" if "owns (place_of s h)" for h
    using ok [of h] that by (auto simp: cpu_ok_def owns_def)
  moreover have "\<exists>c. pop_off (cpu_of s h) = Inr c \<and> nlock c = 0" if "place_of s h = Pop" for h
    using ok [of h] that pop_off_last [of "cpu_of s h"] by (simp add: cpu_ok_def)
  moreover have "k = h" if "owns (place_of s h)" "owns (place_of s k)" for h k
    using that own_inv_owns [OF w] by simp
  ultimately show ?thesis using crit_holding [OF w c] release_no_panic [OF w c] by blast
qed

text \<open>
  If the owner field starts as a value that is no hart's id, no reachable step puts a hart
  into \<^verbatim>\<open>panic\<close>: neither the self-deadlock test of \<^verbatim>\<open>accquire_lock\<close> nor \<^verbatim>\<open>release_lock\<close> nor \<^verbatim>\<open>pop_off\<close>.
\<close>

theorem lock_no_panic:
  assumes "lreach harts owner s" and "ucast owner \<notin> harts" and "h \<in> harts"
  shows "place_of s h \<noteq> Dead e"
  using assms(1)
proof induction
  case (start s)
  then show ?case using assms(3) by (simp add: lock_start_def)
next
  case (step s s')
  obtain w where "own_inv w owner s" "cpu_inv s" using lreach_inv [OF step(1) order_refl] by blast
  with no_new_dead [OF _ _ assms(2) step(2), of w h e] step(3) show ?case by blast
qed

text \<open>The start of a zeroed lock and five steps of two harts.\<close>

definition demo_lock :: lock_state where
  "demo_lock = \<lparr>lck = init_lock \<lparr>locked = 0, lock_count = 0\<rparr>,
     place_of = (\<lambda>h. if h \<in> harts then Out else Dead []),
     cpu_of = (\<lambda>_. \<lparr>nlock = 0, intena = False, sie = True\<rparr>)\<rparr>"

lemma demo_lock_start: "lock_start harts demo_lock" "lock_count (lck demo_lock) = 0"
  by (simp_all add: demo_lock_def lock_start_def init_lock_def)

lemma hart01 [simp]: "(0 :: u64) \<in> harts" "(1 :: u64) \<in> harts"
  by (simp_all add: harts_def)

lemma demo_lock_run:
  obtains s where "lreach harts 0 s" and "place_of s 1 = Won" and "place_of s 0 = Test" and "holding (lck s) 0"
proof -
  let ?s1 = "goto 1 Test (demo_lock\<lparr>cpu_of := (cpu_of demo_lock)(1 := push_off (cpu_of demo_lock 1))\<rparr>)"
  let ?s2 = "goto 1 Spin ?s1"
  let ?s3 = "goto 1 (if locked (lck ?s2) = 0 then Won else Spin) (?s2\<lparr>lck := (lck ?s2)\<lparr>locked := 1\<rparr>\<rparr>)"
  let ?s4 = "goto 0 Test (?s3\<lparr>cpu_of := (cpu_of ?s3)(0 := push_off (cpu_of ?s3 0))\<rparr>)"
  have l: "locked (lck demo_lock) = 0" "place_of demo_lock 0 = Out" "place_of demo_lock 1 = Out"
    by (simp_all add: demo_lock_def init_lock_def)
  have r0: "lreach harts 0 demo_lock" by (rule lreach.start [OF demo_lock_start])
  have r1: "lreach harts 0 ?s1" by (rule lreach.step [OF r0 lstep.acquire]) (simp add: l)
  have r2: "lreach harts 0 ?s2" by (rule lreach.step [OF r1 lstep.test_free]) (simp_all add: l holding_def)
  have r3: "lreach harts 0 ?s3" by (rule lreach.step [OF r2 lstep.exchange]) simp
  have r4: "lreach harts 0 ?s4" by (rule lreach.step [OF r3 lstep.acquire]) (simp add: l)
  show ?thesis using that [OF r4] l demo_lock_start(2) by (simp add: holding_def)
qed

theorem lock_mutual_exclusion_witness:
  "\<exists>s. lreach harts 0 s \<and> place_of s 1 = Won \<and> (\<forall>k. owns (place_of s k) \<longrightarrow> k = 1)"
proof -
  obtain s where "lreach harts 0 s" "place_of s 1 = Won" using demo_lock_run .
  with lock_mutual_exclusion [of 0 s] show ?thesis by auto
qed

theorem lock_no_panic_witness:
  "\<exists>s. lreach harts 0xFFFFFFFF s \<and> (\<forall>e. place_of s 0 \<noteq> Dead e)"
proof -
  let ?s = "demo_lock\<lparr>lck := \<lparr>locked = 0, lock_count = 0xFFFFFFFF\<rparr>\<rparr>"
  have "lreach harts 0xFFFFFFFF ?s" by (rule lreach.start) (simp_all add: lock_start_def demo_lock_def)
  moreover have "ucast (0xFFFFFFFF :: u32) \<notin> harts" by (simp add: harts_def)
  ultimately show ?thesis using lock_no_panic [of "0xFFFFFFFF" ?s 0] by auto
qed

text \<open>
  \<^verbatim>\<open>init_lock\<close> does not set the owner field, so a lock in zeroed memory starts with owner 0. Then
  hart 0 can be sent into \<^verbatim>\<open>panic("acquire")\<close> by another hart that has just won the exchange and
  not yet written its id, although hart 0 does not hold the lock.
\<close>

theorem lock_spurious_panic:
  "\<exists>s s'. lreach harts (lock_count (init_lock \<lparr>locked = 0, lock_count = 0\<rparr>)) s \<and> lstep s s' \<and>
     \<not> owns (place_of s 0) \<and> place_of s 1 = Won \<and> place_of s' 0 = Dead ''acquire''"
proof -
  obtain s where s: "lreach harts 0 s" "place_of s 1 = Won" "place_of s 0 = Test" "holding (lck s) 0"
    using demo_lock_run .
  then have "lstep s (goto 0 (Dead ''acquire'') s)" by (intro lstep.test_held)
  with s show ?thesis by (intro exI [of _ s] exI [of _ "goto 0 (Dead ''acquire'') s"]) (simp add: init_lock_def)
qed

text \<open>
  Matched nesting: from a hart with no lock counted, \<open>n > 0\<close> calls of \<^verbatim>\<open>push_off\<close> leave interrupts
  off with depth \<open>n\<close>, and \<open>n\<close> calls of \<^verbatim>\<open>pop_off\<close> after them do not panic and give back the
  interrupt state from before.
\<close>

theorem push_pop_nested:
  assumes "nlock c = 0" and "0 < n"
  shows "\<not> sie ((push_off ^^ n) c) \<and> nlock ((push_off ^^ n) c) = int n \<and>
    (\<exists>c'. iter_res n pop_off ((push_off ^^ n) c) = Inr c' \<and> nlock c' = 0 \<and> sie c' = sie c)"
proof -
  obtain m where n: "n = Suc m" using assms(2) gr0_implies_Suc by blast
  note p = push_off_nested [OF assms(1), of n]
  have "iter_res n pop_off ((push_off ^^ n) c) = Inr ((push_off ^^ n) c\<lparr>nlock := 0, sie := sie c\<rparr>)"
    using p pop_off_nested [of "(push_off ^^ n) c" m] n by simp
  with p assms(2) show ?thesis by (intro conjI exI [of _ "(push_off ^^ n) c\<lparr>nlock := 0, sie := sie c\<rparr>"]) simp_all
qed

theorem push_pop_nested_witness:
  "\<exists>c'. iter_res 2 pop_off ((push_off ^^ 2) \<lparr>nlock = 0, intena = False, sie = True\<rparr>) = Inr c' \<and> sie c'"
  using push_pop_nested [of "\<lparr>nlock = 0, intena = False, sie = True\<rparr>" 2] by auto

end
