(* ===== verification/RV_Sched.thy ===== *)
theory RV_Sched
  imports RV_Kmalloc RV_Vm RV_Locks
begin

text \<open>
  Process control blocks and scheduling, from \<^verbatim>\<open>kernelspace/include/proc.h\<close> and
  \<^verbatim>\<open>kernelspace/core/process.c\<close>: the choice of the next process, the accounting and aging after
  each run, process ids, \<^verbatim>\<open>sched\<close>, \<^verbatim>\<open>yield\<close>, \<^verbatim>\<open>sleep\<close>, \<^verbatim>\<open>wakeup\<close> and \<^verbatim>\<open>kill\<close>. The record \<open>proc_table\<close>
  extends the kernel heap by the process table and the per-hart data; a process is named by its
  slot in \<^verbatim>\<open>procs\<close>. Each operation on a slot is a function on one \<open>pcb\<close>, the body that the code runs
  under \<^verbatim>\<open>p->lock\<close>; the step relation \<open>pstep\<close> interleaves these bodies over several harts.

  The lemmas show that the scan picks the best runnable process, that the priorities stay within
  their bounds, that no process is on two harts, which process the aging saves from starving and
  which it does not, and when \<^verbatim>\<open>allocpid\<close> leaves the array it scans.
\<close>

subsection \<open>Process control blocks\<close>

datatype procstate = UNUSED | SLEEPING | RUNNABLE | RUNNING | ZOMBIE

text \<open>The addresses the kernel sleeps on: none, \<^verbatim>\<open>&proc_pool\<close>, \<^verbatim>\<open>&ticks\<close> and \<^verbatim>\<open>&cons.r\<close>.\<close>

datatype chan = NoChan | ChanProcPool | ChanTicks | ChanCons

record pcb =
  p_state :: procstate
  p_chan :: chan
  p_pagetable :: u64
  p_sz :: u64
  p_kstack :: u64
  p_context :: u64
  p_sched_ctx :: swtch_context
  p_pid :: u32
  p_owner_pid :: u32
  p_priority :: int
  p_effective_priority :: int
  p_skipped_count :: int
  p_cpu_usage :: int
  p_exit_status :: u32
  p_killed :: bool
  p_name :: string
  p_cwd_cluster :: u32
  p_cwd_path :: string
  p_caps :: u64
  p_tracing :: u32
  p_handles :: "u64 list"

definition MAXPROCESSES :: nat where [rv_const]: "MAXPROCESSES = 64"
definition MAX_HANDLES :: nat where [rv_const]: "MAX_HANDLES = 64"
definition BASE_EFF_PRIO :: int where [rv_const]: "BASE_EFF_PRIO = 10"
definition MAXPID :: u32 where [rv_const]: "MAXPID = 65535"

text \<open>
  The kernel state so far. \<open>cpu_proc\<close> is \<^verbatim>\<open>cpus[h].proc\<close> as a slot, \<open>hart\<close> the rest of
  \<^verbatim>\<open>struct cpu\<close>, \<open>plk\<close> the hart that holds the lock of a slot, \<open>pid_alive\<close> the array of that name.
\<close>

record proc_table = kheap +
  procs :: "pcb list"
  next_pid :: u32
  pid_alive :: "u32 \<Rightarrow> bool"
  cpu_proc :: "nat \<Rightarrow> nat option"
  hart :: "nat \<Rightarrow> cpu"
  plk :: "nat \<Rightarrow> nat option"
  satp :: "nat \<Rightarrow> u64"
  kernel_pagetable :: u64
  ticks :: u64

definition mycpu :: "nat \<Rightarrow> 'a proc_table_scheme \<Rightarrow> cpu" where
  "mycpu h s = hart s h"

definition myproc :: "nat \<Rightarrow> 'a proc_table_scheme \<Rightarrow> nat option" where
  "myproc h s = cpu_proc s h"

definition upd_proc :: "nat \<Rightarrow> (pcb \<Rightarrow> pcb) \<Rightarrow> 'a proc_table_scheme \<Rightarrow> 'a proc_table_scheme" where
  "upd_proc i f s = s\<lparr>procs := (procs s)[i := f (procs s ! i)]\<rparr>"

subsection \<open>Process ids\<close>

text \<open>
  The loop of \<^verbatim>\<open>allocpid\<close>. \<^verbatim>\<open>pid_alive\<close> has \<^verbatim>\<open>MAXPID\<close> elements, so index 65535 is past its end.
\<close>

function allocpid_scan :: "(u32 \<Rightarrow> bool) \<Rightarrow> u32 \<Rightarrow> u32 \<Rightarrow> u32 res" where
  "allocpid_scan alive start np =
     (let n = (if MAXPID < np + 1 then 2 else np + 1) in
      if n = MAXPID then Inl (Undefined ''allocpid: pid_alive[65535]'')
      else if \<not> alive n then Inr n
      else if n = start then Inl (Panic ''allocpid: system process limit reached (65534 active procs)'')
      else allocpid_scan alive start n)"
  by pat_completeness auto
termination
proof (relation "measure (\<lambda>(_, _, np). if np < 65535 then 65535 - unat np else 70000)", goal_cases)
  case (2 alive start np n)
  show ?case
  proof (cases "MAXPID < np + 1")
    case True
    have "65535 \<le> unat np"
    proof (rule ccontr)
      assume "\<not> 65535 \<le> unat np"
      then have "unat np + unat (1 :: u32) < 2 ^ LENGTH(32)" by simp
      then have "unat (np + 1) = unat np + 1" using unat_add_lem [of np 1] by simp
      with True \<open>\<not> 65535 \<le> unat np\<close> show False by (simp add: rv_const word_less_nat_alt)
    qed
    with True 2 show ?thesis by (simp add: word_less_nat_alt)
  next
    case False
    with 2 have n: "n = np + 1" "n \<noteq> 65535" "\<not> 65535 < n" by (simp_all add: rv_const)
    then have l: "n < 65535" by (simp add: order_less_le)
    show ?thesis
    proof (cases "np < 65535")
      case True
      then have "unat np + unat (1 :: u32) < 2 ^ LENGTH(32)" by (simp add: word_less_nat_alt)
      then have "unat n = unat np + 1" using unat_add_lem [of np 1] n by simp
      with True l show ?thesis by (simp add: word_less_nat_alt)
    qed (use l in \<open>simp add: word_less_nat_alt\<close>)
  qed
qed simp

declare allocpid_scan.simps [simp del]

definition allocpid :: "'a proc_table_scheme \<Rightarrow> (u32 \<times> 'a proc_table_scheme) res" where
  "allocpid s =
     rbind (allocpid_scan (pid_alive s) (next_pid s) (next_pid s))
       (\<lambda>pid. Inr (pid, s\<lparr>next_pid := pid, pid_alive := (pid_alive s)(pid := True)\<rparr>))"

subsection \<open>The scheduler\<close>

text \<open>One step of the scan: \<open>best\<close> is the slot whose lock is kept so far.\<close>

definition pick_step :: "pcb list \<Rightarrow> nat option \<Rightarrow> nat \<Rightarrow> nat option" where
  "pick_step ps best i =
     (let p = ps ! i in
      if p_state p \<noteq> RUNNABLE then best
      else case best of
        None \<Rightarrow> Some i
      | Some b \<Rightarrow>
          if p_effective_priority (ps ! b) < p_effective_priority p then Some i
          else if p_effective_priority p = p_effective_priority (ps ! b) \<and> p_pid p < p_pid (ps ! b) then Some i
          else best)"

definition pick :: "pcb list \<Rightarrow> nat option" where
  "pick ps = foldl (pick_step ps) None [0..<length ps]"

definition account :: "pcb \<Rightarrow> pcb" where
  "account p =
     (let p1 = p\<lparr>p_cpu_usage := p_cpu_usage p + 1\<rparr>;
          p2 = (if 5 \<le> p_cpu_usage p1 then
                  (if 1 < p_effective_priority p1
                   then p1\<lparr>p_effective_priority := p_effective_priority p1 - 1\<rparr> else p1)\<lparr>p_cpu_usage := 0\<rparr>
                else p1)
      in p2\<lparr>p_skipped_count := 0\<rparr>)"

text \<open>Aging: the state is tested before the lock is taken and not again under it.\<close>

definition age_body :: "pcb \<Rightarrow> pcb" where
  "age_body p =
     (let p1 = p\<lparr>p_skipped_count := p_skipped_count p + 1\<rparr>;
          p2 = (if 5 \<le> p_skipped_count p1 then
                  (if p_effective_priority p1 < 100
                   then p1\<lparr>p_effective_priority := p_effective_priority p1 + 1\<rparr> else p1)\<lparr>p_skipped_count := 0\<rparr>
                else p1)
      in if p_effective_priority p2 < 3 then p2\<lparr>p_effective_priority := 3\<rparr> else p2)"

definition age :: "pcb \<Rightarrow> pcb" where
  "age p = (if p_state p = RUNNABLE then age_body p else p)"

definition SATP :: "u64 \<Rightarrow> u64" where
  "SATP pagetable = push_bit 60 8 OR drop_bit 12 pagetable"

text \<open>Up to the switch into the process, and from the switch back to the next scan.\<close>

definition dispatch :: "nat \<Rightarrow> nat \<Rightarrow> 'a proc_table_scheme \<Rightarrow> 'a proc_table_scheme" where
  "dispatch h i s =
     (upd_proc i (p_state_update (\<lambda>_. RUNNING)) s)
       \<lparr>cpu_proc := (cpu_proc s)(h := Some i), satp := (satp s)(h := SATP (p_pagetable (procs s ! i)))\<rparr>"

definition after_run :: "nat \<Rightarrow> pcb list \<Rightarrow> pcb list" where
  "after_run i ps = map age (ps[i := account (ps ! i)])"

definition switched_back :: "nat \<Rightarrow> nat \<Rightarrow> 'a proc_table_scheme \<Rightarrow> 'a proc_table_scheme" where
  "switched_back h i s =
     s\<lparr>satp := (satp s)(h := SATP (kernel_pagetable s)), cpu_proc := (cpu_proc s)(h := None),
       procs := after_run i (procs s)\<rparr>"

text \<open>
  One pass of the loop of \<^verbatim>\<open>scheduler\<close>; \<open>run\<close> is what the chosen process does until it switches back.
  With nothing to run the hart waits for an interrupt and scans again.
\<close>

definition scheduler_round ::
    "(nat \<Rightarrow> 'a proc_table_scheme \<Rightarrow> 'a proc_table_scheme) \<Rightarrow> nat \<Rightarrow> 'a proc_table_scheme \<Rightarrow> 'a proc_table_scheme" where
  "scheduler_round run h s =
     (case pick (procs s) of
        None \<Rightarrow> s
      | Some i \<Rightarrow> switched_back h i (run i (dispatch h i s)))"

subsection \<open>Leaving the processor\<close>

text \<open>The tests of \<^verbatim>\<open>sched\<close> before it switches; \<open>held\<close> is \<^verbatim>\<open>holding(&p->lock)\<close>.\<close>

definition sched :: "bool \<Rightarrow> cpu \<Rightarrow> procstate \<Rightarrow> unit res" where
  "sched held c st =
     (if \<not> held then Inl (Panic ''sched p->lock'')
      else if nlock c \<noteq> 1 then Inl (Panic ''sched locks'')
      else if st = RUNNING then Inl (Panic ''sched running'')
      else if sie c then Inl (Panic ''sched interruptible'')
      else Inr ())"

text \<open>\<^verbatim>\<open>accquire_lock\<close> and \<^verbatim>\<open>release_lock\<close> as far as they change the hart.\<close>

definition acquire :: "nat \<Rightarrow> 'a proc_table_scheme \<Rightarrow> 'a proc_table_scheme" where
  "acquire h s = s\<lparr>hart := (hart s)(h := push_off (hart s h))\<rparr>"

definition release :: "nat \<Rightarrow> 'a proc_table_scheme \<Rightarrow> 'a proc_table_scheme res" where
  "release h s = rbind (pop_off (hart s h)) (\<lambda>c. Inr (s\<lparr>hart := (hart s)(h := c)\<rparr>))"

definition yield_pcb :: "pcb \<Rightarrow> pcb" where
  "yield_pcb p = p\<lparr>p_state := RUNNABLE\<rparr>"

definition sleep_pcb :: "chan \<Rightarrow> pcb \<Rightarrow> pcb" where
  "sleep_pcb ch p = p\<lparr>p_chan := ch, p_state := SLEEPING\<rparr>"

definition zombie_pcb :: "u32 \<Rightarrow> pcb \<Rightarrow> pcb" where
  "zombie_pcb status p = p\<lparr>p_exit_status := status, p_state := ZOMBIE\<rparr>"

text \<open>\<^verbatim>\<open>yield\<close> and \<^verbatim>\<open>sleep\<close> up to the switch in \<^verbatim>\<open>sched\<close>.\<close>

definition yield :: "nat \<Rightarrow> 'a proc_table_scheme \<Rightarrow> 'a proc_table_scheme res" where
  "yield h s =
     (case myproc h s of
        None \<Rightarrow> Inr s
      | Some i \<Rightarrow>
          let s1 = upd_proc i yield_pcb (acquire h s)
          in rbind (sched True (mycpu h s1) (p_state (procs s1 ! i))) (\<lambda>_. Inr s1))"

definition sleep :: "nat \<Rightarrow> chan \<Rightarrow> 'a proc_table_scheme \<Rightarrow> 'a proc_table_scheme res" where
  "sleep h ch s =
     (case myproc h s of
        None \<Rightarrow> Inl (Undefined ''sleep: no process'')
      | Some i \<Rightarrow>
          rbind (release h (acquire h s)) (\<lambda>s1.
            let s2 = upd_proc i (sleep_pcb ch) s1
            in rbind (sched True (mycpu h s2) (p_state (procs s2 ! i))) (\<lambda>_. Inr s2)))"

subsection \<open>Waking and killing\<close>

definition wake_pcb :: "chan \<Rightarrow> pcb \<Rightarrow> pcb" where
  "wake_pcb ch p =
     (if p_state p = SLEEPING \<and> p_chan p = ch then
        let p1 = p\<lparr>p_state := RUNNABLE\<rparr>;
            p2 = (if p_effective_priority p1 < BASE_EFF_PRIO + 5
                  then p1\<lparr>p_effective_priority := p_effective_priority p1 + 1\<rparr> else p1)
        in p2\<lparr>p_skipped_count := 0\<rparr>
      else p)"

definition wakeup :: "nat \<Rightarrow> chan \<Rightarrow> 'a proc_table_scheme \<Rightarrow> 'a proc_table_scheme" where
  "wakeup h ch s =
     s\<lparr>procs := map (\<lambda>i. if myproc h s = Some i then procs s ! i else wake_pcb ch (procs s ! i)) [0..<length (procs s)]\<rparr>"

definition kill_pcb :: "pcb \<Rightarrow> pcb" where
  "kill_pcb p =
     (let p1 = p\<lparr>p_killed := True\<rparr>
      in if p_state p1 = SLEEPING then p1\<lparr>p_state := RUNNABLE\<rparr> else p1)"

definition find_pid :: "u32 \<Rightarrow> pcb list \<Rightarrow> nat option" where
  "find_pid pid ps = find (\<lambda>i. p_pid (ps ! i) = pid) [0..<length ps]"

definition kill :: "nat \<Rightarrow> u32 \<Rightarrow> 'a proc_table_scheme \<Rightarrow> int \<times> 'a proc_table_scheme" where
  "kill h pid s =
     (case find_pid pid (procs s) of
        None \<Rightarrow> (-1, s)
      | Some i \<Rightarrow>
          if p_state (procs s ! i) = ZOMBIE \<or> p_state (procs s ! i) = UNUSED then (-1, s)
          else (0, wakeup h ChanProcPool (upd_proc i kill_pcb s)))"

text \<open>\<^verbatim>\<open>exit\<close> from the acquisition of \<^verbatim>\<open>p->lock\<close> to the switch in \<^verbatim>\<open>sched\<close>.\<close>

definition exit_tail :: "nat \<Rightarrow> nat \<Rightarrow> u32 \<Rightarrow> 'a proc_table_scheme \<Rightarrow> 'a proc_table_scheme res" where
  "exit_tail h i status s =
     (let s1 = wakeup h ChanProcPool (upd_proc i (zombie_pcb status) (acquire h s))
      in rbind (sched True (mycpu h s1) (p_state (procs s1 ! i))) (\<lambda>_. Inr s1))"

text \<open>The fields \<^verbatim>\<open>allocproc\<close> sets before it allocates, and the slot after \<^verbatim>\<open>wait\<close> has reaped it.\<close>

definition init_pcb :: "u32 \<Rightarrow> pcb \<Rightarrow> pcb" where
  "init_pcb pid p =
     p\<lparr>p_pid := pid, p_state := SLEEPING, p_chan := NoChan, p_exit_status := 0, p_sz := 0,
       p_priority := 10, p_effective_priority := 10, p_skipped_count := 0, p_cpu_usage := 0,
       p_killed := False, p_owner_pid := 0, p_tracing := 0,
       p_handles := replicate 3 (- 1) @ replicate (MAX_HANDLES - 3) 0\<rparr>"

definition reap_pcb :: "pcb \<Rightarrow> pcb" where
  "reap_pcb p =
     p\<lparr>p_context := 0, p_pagetable := 0, p_handles := replicate MAX_HANDLES 0, p_state := UNUSED,
       p_owner_pid := 0, p_killed := False, p_name := [], p_pid := 0\<rparr>"

subsection \<open>The choice of the scheduler\<close>

definition runnable :: "pcb list \<Rightarrow> nat \<Rightarrow> bool" where
  "runnable ps i \<longleftrightarrow> i < length ps \<and> p_state (ps ! i) = RUNNABLE"

definition outranks :: "pcb \<Rightarrow> pcb \<Rightarrow> bool" where
  "outranks p q \<longleftrightarrow> p_effective_priority q < p_effective_priority p \<or>
     p_effective_priority p = p_effective_priority q \<and> p_pid p < p_pid q"

lemma outranks_above: "outranks p q \<Longrightarrow> \<not> outranks r q \<Longrightarrow> outranks p r"
  by (auto simp: outranks_def)

lemma outranks_asym: "outranks p q \<Longrightarrow> \<not> outranks q p"
  by (auto simp: outranks_def)

text \<open>The invariant of the scan: \<open>best\<close> is the first slot below \<open>n\<close> that none below \<open>n\<close> outranks.\<close>

definition scanned :: "pcb list \<Rightarrow> nat \<Rightarrow> nat option \<Rightarrow> bool" where
  "scanned ps n best \<longleftrightarrow>
     (case best of
        None \<Rightarrow> \<forall>j<n. p_state (ps ! j) \<noteq> RUNNABLE
      | Some b \<Rightarrow> b < n \<and> p_state (ps ! b) = RUNNABLE \<and>
          (\<forall>j<n. p_state (ps ! j) = RUNNABLE \<longrightarrow> \<not> outranks (ps ! j) (ps ! b) \<and> (j < b \<longrightarrow> outranks (ps ! b) (ps ! j))))"

lemma pick_step_scanned:
  assumes "scanned ps n best"
  shows "scanned ps (Suc n) (pick_step ps best n)"
proof (cases "p_state (ps ! n) = RUNNABLE")
  case False
  with assms show ?thesis by (auto simp: scanned_def pick_step_def less_Suc_eq split: option.splits)
next
  case True
  show ?thesis
  proof (cases best)
    case None
    with assms True show ?thesis by (auto simp: scanned_def pick_step_def less_Suc_eq outranks_def)
  next
    case (Some b)
    have step: "pick_step ps best n = (if outranks (ps ! n) (ps ! b) then Some n else Some b)"
      using True Some by (auto simp: pick_step_def outranks_def)
    show ?thesis
    proof (cases "outranks (ps ! n) (ps ! b)")
      case beats: True
      have "outranks (ps ! n) (ps ! j)" if "j < n" "p_state (ps ! j) = RUNNABLE" for j
      proof -
        have "\<not> outranks (ps ! j) (ps ! b)" using assms Some that by (auto simp: scanned_def)
        with beats show ?thesis by (rule outranks_above)
      qed
      then show ?thesis using beats step True outranks_asym
        by (auto simp: scanned_def less_Suc_eq)
    next
      case False
      then show ?thesis using step assms Some by (auto simp: scanned_def less_Suc_eq)
    qed
  qed
qed

lemma pick_scanned: "scanned ps (length ps) (pick ps)"
proof -
  have "scanned ps n (foldl (pick_step ps) None [0..<n])" for n
    by (induction n) (simp add: scanned_def, simp add: pick_step_scanned)
  then show ?thesis by (simp add: pick_def)
qed

lemma pick_Some_iff:
  "pick ps = Some i \<longleftrightarrow> runnable ps i \<and>
     (\<forall>j. runnable ps j \<longrightarrow> \<not> outranks (ps ! j) (ps ! i) \<and> (j < i \<longrightarrow> outranks (ps ! i) (ps ! j)))"
    (is "?l \<longleftrightarrow> ?r")
proof
  assume ?l
  then show ?r using pick_scanned [of ps] by (simp add: scanned_def runnable_def)
next
  assume r: ?r
  show ?l
  proof (cases "pick ps")
    case None
    then show ?thesis using pick_scanned [of ps] r by (auto simp: scanned_def runnable_def)
  next
    case (Some k)
    then have k: "runnable ps k" "\<And>j. runnable ps j \<Longrightarrow> \<not> outranks (ps ! j) (ps ! k)"
        "\<And>j. runnable ps j \<Longrightarrow> j < k \<Longrightarrow> outranks (ps ! k) (ps ! j)"
      using pick_scanned [of ps] by (auto simp: scanned_def runnable_def)
    have "k = i" using r k by (metis linorder_neqE_nat)
    with Some show ?thesis by simp
  qed
qed

lemma pick_None_iff: "pick ps = None \<longleftrightarrow> (\<forall>j. \<not> runnable ps j)"
proof
  assume "pick ps = None"
  then show "\<forall>j. \<not> runnable ps j" using pick_scanned [of ps] by (auto simp: scanned_def runnable_def)
next
  assume "\<forall>j. \<not> runnable ps j"
  then show "pick ps = None" using pick_Some_iff [of ps] by (cases "pick ps") auto
qed

subsection \<open>Priority bounds\<close>

definition prio_ok :: "pcb \<Rightarrow> bool" where
  "prio_ok p \<longleftrightarrow> 1 \<le> p_effective_priority p \<and> p_effective_priority p \<le> 100 \<and>
     0 \<le> p_skipped_count p \<and> p_skipped_count p < 5 \<and> 0 \<le> p_cpu_usage p \<and> p_cpu_usage p < 5"

named_theorems prio \<open>operations on a control block keep the priority bounds\<close>

lemma account_ok [prio]: "prio_ok p \<Longrightarrow> prio_ok (account p)"
  by (auto simp: prio_ok_def account_def Let_def)

lemma age_ok [prio]: "prio_ok p \<Longrightarrow> prio_ok (age_body p)"
  by (auto simp: prio_ok_def age_body_def Let_def)

lemma wake_ok [prio]: "prio_ok p \<Longrightarrow> prio_ok (wake_pcb ch p)"
  by (auto simp: prio_ok_def wake_pcb_def Let_def rv_const)

lemma state_ok [prio]:
  "prio_ok (p\<lparr>p_state := st\<rparr>) = prio_ok p" "prio_ok (p\<lparr>p_chan := ch\<rparr>) = prio_ok p"
  "prio_ok (p\<lparr>p_exit_status := status\<rparr>) = prio_ok p" "prio_ok (p\<lparr>p_killed := k\<rparr>) = prio_ok p"
  "prio_ok (yield_pcb p) = prio_ok p" "prio_ok (sleep_pcb ch p) = prio_ok p"
  "prio_ok (zombie_pcb status p) = prio_ok p" "prio_ok (kill_pcb p) = prio_ok p" "prio_ok (reap_pcb p) = prio_ok p"
  by (simp_all add: prio_ok_def yield_pcb_def sleep_pcb_def zombie_pcb_def kill_pcb_def reap_pcb_def Let_def)

lemma init_ok [prio]: "prio_ok (init_pcb pid p)"
  by (simp add: prio_ok_def init_pcb_def)

subsection \<open>Several harts\<close>

text \<open>
  The bodies above as steps of any hart \<open>h\<close> on any slot, each enabled when \<open>h\<close> can take, or has, the
  lock of the slot: the scheduler keeps the lock across the switch, and the process releases it when it
  is back in \<^verbatim>\<open>yield\<close>, \<^verbatim>\<open>sleep\<close> or \<^verbatim>\<open>forkret\<close> (\<open>resume\<close>); a process that leaves takes its lock and keeps it
  until the scheduler has seen it off (\<open>leave\<close>). \<open>reset\<close>, \<open>ready\<close> and \<open>drop\<close> are \<^verbatim>\<open>allocproc\<close> and the
  two ends of \<^verbatim>\<open>spawn\<close>, \<open>fail\<close> an \<^verbatim>\<open>allocproc\<close> that runs out of memory; \<open>reap\<close> is \<^verbatim>\<open>wait\<close>.
\<close>

definition set_slot :: "nat \<Rightarrow> (pcb \<Rightarrow> pcb) \<Rightarrow> nat option \<Rightarrow> 'a proc_table_scheme \<Rightarrow> 'a proc_table_scheme" where
  "set_slot i f l s = (upd_proc i f s)\<lparr>plk := (plk s)(i := l)\<rparr>"

inductive pstep :: "'a proc_table_scheme \<Rightarrow> 'a proc_table_scheme \<Rightarrow> bool" where
  run: "cpu_proc s h = None \<Longrightarrow> runnable (procs s) i \<Longrightarrow> plk s i = None \<Longrightarrow>
    pstep s ((dispatch h i s)\<lparr>plk := (plk s)(i := Some h)\<rparr>)"
| resume: "cpu_proc s h = Some i \<Longrightarrow> plk s i = Some h \<Longrightarrow> p_state (procs s ! i) = RUNNING \<Longrightarrow>
    pstep s (s\<lparr>plk := (plk s)(i := None)\<rparr>)"
| yield: "cpu_proc s h = Some i \<Longrightarrow> plk s i = None \<Longrightarrow> pstep s (set_slot i yield_pcb (Some h) s)"
| sleep: "cpu_proc s h = Some i \<Longrightarrow> plk s i = None \<Longrightarrow> pstep s (set_slot i (sleep_pcb ch) (Some h) s)"
| exit: "cpu_proc s h = Some i \<Longrightarrow> plk s i = None \<Longrightarrow> pstep s (set_slot i (zombie_pcb status) (Some h) s)"
| leave: "cpu_proc s h = Some i \<Longrightarrow> plk s i = Some h \<Longrightarrow> p_state (procs s ! i) \<noteq> RUNNING \<Longrightarrow>
    pstep s ((set_slot i account None s)\<lparr>cpu_proc := (cpu_proc s)(h := None)\<rparr>)"
| age: "plk s i = None \<Longrightarrow> pstep s (set_slot i age_body None s)"
| wake: "cpu_proc s h \<noteq> Some i \<Longrightarrow> plk s i = None \<Longrightarrow> pstep s (set_slot i (wake_pcb ch) None s)"
| kill: "plk s i = None \<Longrightarrow> p_state (procs s ! i) \<noteq> ZOMBIE \<Longrightarrow> p_state (procs s ! i) \<noteq> UNUSED \<Longrightarrow>
    pstep s (set_slot i kill_pcb None s)"
| reset: "plk s i = None \<Longrightarrow> p_state (procs s ! i) = UNUSED \<Longrightarrow> pstep s (set_slot i (init_pcb pid) (Some h) s)"
| ready: "cpu_proc s h \<noteq> Some i \<Longrightarrow> plk s i = Some h \<Longrightarrow> pstep s (set_slot i (p_state_update (\<lambda>_. RUNNABLE)) None s)"
| drop: "cpu_proc s h \<noteq> Some i \<Longrightarrow> plk s i = Some h \<Longrightarrow> pstep s (set_slot i (p_state_update (\<lambda>_. UNUSED)) None s)"
| fail: "cpu_proc s h \<noteq> Some i \<Longrightarrow> plk s i = Some h \<Longrightarrow> pstep s (set_slot i id None s)"
| reap: "plk s i = None \<Longrightarrow> p_state (procs s ! i) = ZOMBIE \<Longrightarrow> pstep s (set_slot i reap_pcb None s)"

definition boot :: "'a proc_table_scheme \<Rightarrow> bool" where
  "boot s \<longleftrightarrow> (\<forall>p \<in> set (procs s). p_state p = UNUSED) \<and> (\<forall>h. cpu_proc s h = None) \<and> (\<forall>i. plk s i = None)"

inductive preach :: "'a proc_table_scheme \<Rightarrow> bool" where
  start: "boot s \<Longrightarrow> preach s"
| step: "preach s \<Longrightarrow> pstep s s' \<Longrightarrow> preach s'"

definition pinv :: "'a proc_table_scheme \<Rightarrow> bool" where
  "pinv s \<longleftrightarrow>
     (\<forall>h i. cpu_proc s h = Some i \<longrightarrow> i < length (procs s) \<and> (plk s i = None \<or> plk s i = Some h) \<and>
        (plk s i = None \<longrightarrow> p_state (procs s ! i) = RUNNING)) \<and>
     (\<forall>h h' i. cpu_proc s h = Some i \<longrightarrow> cpu_proc s h' = Some i \<longrightarrow> h = h') \<and>
     (\<forall>i<length (procs s). p_state (procs s ! i) = RUNNING \<longrightarrow> (\<exists>h. cpu_proc s h = Some i)) \<and>
     (\<forall>i<length (procs s). p_state (procs s ! i) \<noteq> UNUSED \<longrightarrow> prio_ok (procs s ! i)) \<and>
     (\<forall>h i. i < length (procs s) \<longrightarrow> plk s i = Some h \<longrightarrow> cpu_proc s h \<noteq> Some i \<longrightarrow> p_state (procs s ! i) = SLEEPING)"

lemma age_state: "p_state (age_body p) = p_state p"
  by (simp add: age_body_def Let_def)

lemma account_state: "p_state (account p) = p_state p"
  by (simp add: account_def Let_def)

lemma init_state: "p_state (init_pcb pid p) = SLEEPING"
  by (simp add: init_pcb_def)

lemma wake_state: "p_state (wake_pcb ch p) = (if p_state p = SLEEPING \<and> p_chan p = ch then RUNNABLE else p_state p)"
  by (simp add: wake_pcb_def Let_def)

lemma pinvD:
  assumes "pinv s"
  shows "cpu_proc s h = Some i \<Longrightarrow> i < length (procs s) \<and> (plk s i = None \<or> plk s i = Some h)"
    and "cpu_proc s h = Some i \<Longrightarrow> plk s i = None \<Longrightarrow> p_state (procs s ! i) = RUNNING"
    and "cpu_proc s h = Some i \<Longrightarrow> cpu_proc s h' = Some i \<Longrightarrow> h = h'"
    and "i < length (procs s) \<Longrightarrow> p_state (procs s ! i) = RUNNING \<Longrightarrow> \<exists>h. cpu_proc s h = Some i"
    and "i < length (procs s) \<Longrightarrow> p_state (procs s ! i) \<noteq> UNUSED \<Longrightarrow> prio_ok (procs s ! i)"
    and "i < length (procs s) \<Longrightarrow> plk s i = Some h \<Longrightarrow> cpu_proc s h \<noteq> Some i \<Longrightarrow> p_state (procs s ! i) = SLEEPING"
  using assms unfolding pinv_def by blast+

lemma pinvI:
  assumes "\<And>h i. cpu_proc s h = Some i \<Longrightarrow> i < length (procs s) \<and> (plk s i = None \<or> plk s i = Some h)"
    and "\<And>h i. cpu_proc s h = Some i \<Longrightarrow> plk s i = None \<Longrightarrow> p_state (procs s ! i) = RUNNING"
    and "\<And>h h' i. cpu_proc s h = Some i \<Longrightarrow> cpu_proc s h' = Some i \<Longrightarrow> h = h'"
    and "\<And>i. i < length (procs s) \<Longrightarrow> p_state (procs s ! i) = RUNNING \<Longrightarrow> \<exists>h. cpu_proc s h = Some i"
    and "\<And>i. i < length (procs s) \<Longrightarrow> p_state (procs s ! i) \<noteq> UNUSED \<Longrightarrow> prio_ok (procs s ! i)"
    and "\<And>h i. i < length (procs s) \<Longrightarrow> plk s i = Some h \<Longrightarrow> cpu_proc s h \<noteq> Some i \<Longrightarrow> p_state (procs s ! i) = SLEEPING"
  shows "pinv s"
  using assms unfolding pinv_def by blast

text \<open>A step on one slot whose state after it is not \<open>RUNNING\<close> unless it was.\<close>

lemma pinv_set_slot:
  assumes inv: "pinv s"
    and st: "i < length (procs s) \<Longrightarrow> p_state (f (procs s ! i)) = RUNNING \<Longrightarrow> p_state (procs s ! i) = RUNNING"
    and pr: "i < length (procs s) \<Longrightarrow> p_state (f (procs s ! i)) \<noteq> UNUSED \<Longrightarrow> prio_ok (f (procs s ! i))"
    and lk: "\<And>h. cpu_proc s h = Some i \<Longrightarrow> l = Some h \<or> l = None \<and> p_state (f (procs s ! i)) = RUNNING"
    and em: "\<And>h. l = Some h \<Longrightarrow> cpu_proc s h \<noteq> Some i \<Longrightarrow> p_state (f (procs s ! i)) = SLEEPING"
  shows "pinv (set_slot i f l s)"
proof -
  note D = pinvD [OF inv]
  have t: "procs (set_slot i f l s) = (procs s)[i := f (procs s ! i)]" "plk (set_slot i f l s) = (plk s)(i := l)"
    "cpu_proc (set_slot i f l s) = cpu_proc s"
    by (simp_all add: set_slot_def upd_proc_def)
  show ?thesis
  proof (rule pinvI, unfold t length_list_update, goal_cases)
    case (1 h j)
    then show ?case using D(1) [of h j] lk [of h] by auto
  next
    case (2 h j)
    then show ?case using D(1,2) [of h j] lk [of h] by (cases "j = i") auto
  next
    case (3 h h' j)
    then show ?case by (rule D(3))
  next
    case (4 j)
    then show ?case using D(4) [of j] st by (cases "j = i") auto
  next
    case (5 j)
    then show ?case using D(5) [of j] pr by (cases "j = i") auto
  next
    case (6 h j)
    then show ?case using D(6) [of j h] em [of h] by (cases "j = i") auto
  qed
qed

text \<open>A slot with a free lock is on a hart only while it runs; one locked by a hart it is not on is on none.\<close>

lemma unlocked_running: "pinv s \<Longrightarrow> plk s i = None \<Longrightarrow> cpu_proc s h = Some i \<Longrightarrow> p_state (procs s ! i) = RUNNING"
  by (rule pinvD(2))

lemma locked_elsewhere: "pinv s \<Longrightarrow> plk s i = Some h \<Longrightarrow> cpu_proc s h \<noteq> Some i \<Longrightarrow> cpu_proc s h' \<noteq> Some i"
  using pinvD(1) [of s h' i] by auto

lemma pinv_step: "pstep s s' \<Longrightarrow> pinv s \<Longrightarrow> pinv s'"
proof (induction rule: pstep.induct)
  case (run s h i)
  note D = pinvD [OF run(4)]
  have i: "i < length (procs s)" "p_state (procs s ! i) = RUNNABLE" using run(2) by (auto simp: runnable_def)
  have free: "cpu_proc s h' \<noteq> Some i" for h' using D(2) [of h' i] run(3) i(2) by auto
  let ?t = "(dispatch h i s)\<lparr>plk := (plk s)(i := Some h)\<rparr>"
  have t: "procs ?t = (procs s)[i := (procs s ! i)\<lparr>p_state := RUNNING\<rparr>]" "cpu_proc ?t = (cpu_proc s)(h := Some i)"
    "plk ?t = (plk s)(i := Some h)"
    by (simp_all add: dispatch_def upd_proc_def)
  show ?case
  proof (rule pinvI, unfold t length_list_update, goal_cases)
    case (1 h' j)
    then show ?case using D(1) [of h' j] i free by (auto split: if_splits)
  next
    case (2 h' j)
    then show ?case using D(2) [of h' j] i free by (auto split: if_splits)
  next
    case (3 h' h'' j)
    then show ?case using D(3) [of h' j h''] free by (auto split: if_splits)
  next
    case (4 j)
    then show ?case using D(4) [of j] run(1) by (cases "j = i") (auto, metis option.distinct(1))
  next
    case (5 j)
    then show ?case using D(5) [of j] i by (cases "j = i") (auto simp: prio)
  next
    case (6 h' j)
    then show ?case using D(6) [of j h'] run(1) by (auto split: if_splits)
  qed
next
  case (resume s h i)
  note D = pinvD [OF resume(4)]
  show ?case
  proof (rule pinvI, goal_cases)
    case (4 j)
    then show ?case using D(4) [of j] by simp
  qed (use resume D in \<open>auto split: if_splits\<close>)
next
  case (leave s h i)
  note D = pinvD [OF leave(4)]
  let ?t = "(set_slot i account None s)\<lparr>cpu_proc := (cpu_proc s)(h := None)\<rparr>"
  have t: "procs ?t = (procs s)[i := account (procs s ! i)]" "cpu_proc ?t = (cpu_proc s)(h := None)"
    "plk ?t = (plk s)(i := None)"
    by (simp_all add: set_slot_def upd_proc_def)
  have i: "i < length (procs s)" using D(1) leave(1) by blast
  show ?case
  proof (rule pinvI, unfold t length_list_update, goal_cases)
    case (1 h' j)
    then show ?case using D(1) [of h' j] by (auto split: if_splits)
  next
    case (2 h' j)
    then show ?case using D(2) [of h' j] D(3) [of h' j h] leave(1) by (auto split: if_splits)
  next
    case (3 h' h'' j)
    then show ?case using D(3) [of h' j h''] by (auto split: if_splits)
  next
    case (4 j)
    then have j: "j \<noteq> i" using leave(3) i by (auto simp: account_state)
    then obtain h' where "cpu_proc s h' = Some j" using D(4) [of j] 4 by auto
    then show ?case using leave(1) j by (auto intro!: exI [of _ h'])
  next
    case (5 j)
    then show ?case using D(5) [of j] by (cases "j = i") (auto simp: prio account_state)
  next
    case (6 h' j)
    then show ?case using D(6) [of j h'] leave(1) by (auto split: if_splits)
  qed
next
  case (yield s h i)
  show ?case using pinvD [OF yield(3)] yield
    by (intro pinv_set_slot) (auto simp: prio yield_pcb_def)
next
  case (sleep s h i ch)
  show ?case using pinvD [OF sleep(3)] sleep
    by (intro pinv_set_slot) (auto simp: prio sleep_pcb_def)
next
  case (exit s h i status)
  show ?case using pinvD [OF exit(3)] exit
    by (intro pinv_set_slot) (auto simp: prio zombie_pcb_def)
next
  case (age s i)
  show ?case using pinvD [OF age(2)] age
    by (intro pinv_set_slot) (auto simp: prio age_state)
next
  case (wake s h i ch)
  show ?case using pinvD [OF wake(3)] wake
    by (intro pinv_set_slot) (auto simp: prio wake_state split: if_splits)
next
  case (kill s i)
  show ?case using pinvD [OF kill(4)] kill
    by (intro pinv_set_slot) (auto simp: prio kill_pcb_def Let_def split: if_splits)
next
  case (reset s i pid h)
  show ?case using unlocked_running [OF reset(3,1)] reset
    by (intro pinv_set_slot) (auto simp: prio init_state)
next
  case (ready s h i)
  show ?case using locked_elsewhere [OF ready(3,2,1)] pinvD(5,6) [OF ready(3)] ready
    by (intro pinv_set_slot) (auto simp: prio)
next
  case (drop s h i)
  show ?case using locked_elsewhere [OF drop(3,2,1)] drop
    by (intro pinv_set_slot) auto
next
  case (fail s h i)
  show ?case using locked_elsewhere [OF fail(3,2,1)] pinvD(5,6) [OF fail(3)] fail
    by (intro pinv_set_slot) auto
next
  case (reap s i)
  show ?case using unlocked_running [OF reap(3,1)] reap
    by (intro pinv_set_slot) (auto simp: reap_pcb_def)
qed

lemma pinv_reach: "preach s \<Longrightarrow> pinv s"
proof (induction rule: preach.induct)
  case (start s)
  then show ?case by (auto simp: pinv_def boot_def)
next
  case (step s s')
  then show ?case using pinv_step by blast
qed

subsection \<open>Process ids\<close>

lemma u32_Suc: "np < 65535 \<Longrightarrow> unat (np + 1 :: u32) = unat np + 1"
proof -
  assume "np < (65535 :: u32)"
  then have "unat np + unat (1 :: u32) < 2 ^ LENGTH(32)" by (simp add: word_less_nat_alt)
  then show ?thesis using unat_add_lem [of np 1] by simp
qed

text \<open>Below the end of the array the scan goes up and finds the first id not in use, or runs past the end.\<close>

lemma allocpid_scan_up:
  assumes "start \<le> np" and "np < 65535"
  shows "case allocpid_scan alive start np of
      Inr n \<Rightarrow> np < n \<and> n < 65535 \<and> \<not> alive n \<and> (\<forall>m. np < m \<longrightarrow> m < n \<longrightarrow> alive m)
    | Inl e \<Rightarrow> e = Undefined ''allocpid: pid_alive[65535]'' \<and> (\<forall>m. np < m \<longrightarrow> m < 65535 \<longrightarrow> alive m)"
  using assms
proof (induction alive start np rule: allocpid_scan.induct)
  case (1 alive start np)
  have u: "unat (np + 1) = unat np + 1" using u32_Suc 1(3) .
  have le: "np + 1 \<le> 65535" using u 1(3) by (simp add: word_le_nat_alt word_less_nat_alt)
  have nx: "np < m \<longleftrightarrow> m = np + 1 \<or> np + 1 < m" for m
    using u by (auto simp: word_less_nat_alt word_unat_eq_iff)
  let ?n = "if MAXPID < np + 1 then 2 else np + 1"
  have "\<not> MAXPID < np + 1" using le by (simp only: MAXPID_def linorder_not_less)
  then have n: "?n = np + 1" by simp
  have st: "np + 1 \<noteq> start" "start \<le> np + 1"
    using 1(2) u by (auto simp: word_le_nat_alt)
  show ?case
  proof (cases "np + 1 = 65535")
    case True
    then have "allocpid_scan alive start np = Inl (Undefined ''allocpid: pid_alive[65535]'')"
      by (subst allocpid_scan.simps) (simp add: rv_const)
    moreover have "\<not> (np < m \<and> m < 65535)" for m using nx [of m] True by auto
    ultimately show ?thesis by simp
  next
    case False
    then have lt: "np + 1 < 65535" using le by (simp add: order_less_le)
    show ?thesis
    proof (cases "alive (np + 1)")
      case al: True
      have "case allocpid_scan alive start (np + 1) of
          Inr n \<Rightarrow> np + 1 < n \<and> n < 65535 \<and> \<not> alive n \<and> (\<forall>m. np + 1 < m \<longrightarrow> m < n \<longrightarrow> alive m)
        | Inl e \<Rightarrow> e = Undefined ''allocpid: pid_alive[65535]'' \<and> (\<forall>m. np + 1 < m \<longrightarrow> m < 65535 \<longrightarrow> alive m)"
        using 1(1) [OF n [symmetric]] n st(2) lt al st(1) False by (simp add: rv_const)
      moreover have "allocpid_scan alive start np = allocpid_scan alive start (np + 1)"
        using n al st(1) False by (subst allocpid_scan.simps) (simp add: rv_const)
      ultimately show ?thesis using nx al by (auto split: sum.splits)
    next
      case nal: False
      have "allocpid_scan alive start np = Inr (np + 1)"
        using n nal False by (subst allocpid_scan.simps) (simp add: rv_const)
      moreover have "np < np + 1" using nx by blast
      moreover have "\<not> (np < m \<and> m < np + 1)" for m using nx [of m] by auto
      ultimately show ?thesis using nal lt by simp
    qed
  qed
qed

subsection \<open>Waiting for the processor\<close>

lemma length_after_run [simp]: "length (after_run i ps) = length ps"
  by (simp add: after_run_def)

lemma after_run_other: "j < length ps \<Longrightarrow> j \<noteq> i \<Longrightarrow> after_run i ps ! j = age (ps ! j)"
  by (simp add: after_run_def)

text \<open>One pass: \<open>i\<close> is chosen from \<open>ps\<close>, its run leaves \<open>qs\<close>, accounting and aging give \<open>ps'\<close>.\<close>

definition sched_pass :: "nat \<Rightarrow> pcb list \<Rightarrow> pcb list \<Rightarrow> pcb list \<Rightarrow> bool" where
  "sched_pass i ps qs ps' \<longleftrightarrow> pick ps = Some i \<and> length qs = length ps \<and> ps' = after_run i qs"

text \<open>A process passed over gains a fifth of a priority point, up to the limit.\<close>

definition credit :: "pcb \<Rightarrow> int" where
  "credit p = (if p_effective_priority p = 100 then 500 else 5 * p_effective_priority p + p_skipped_count p)"

lemma age_credit:
  assumes "prio_ok p" and "p_state p = RUNNABLE"
  shows "min 500 (credit p + 1) \<le> credit (age p)"
  using assms by (auto simp: prio_ok_def credit_def age_def age_body_def Let_def)

lemma credit_max: "prio_ok p \<Longrightarrow> 500 \<le> credit p \<Longrightarrow> p_effective_priority p = 100"
  by (auto simp: prio_ok_def credit_def split: if_splits)

lemma waiting_credit:
  assumes pass: "\<And>k. sched_pass (c k) (t k) (q k) (t (Suc k))"
    and w: "runnable (t 0) w" "prio_ok (t 0 ! w)"
    and frame: "\<And>k. c k \<noteq> w \<Longrightarrow> q k ! w = t k ! w"
    and not: "\<And>k. k < n \<Longrightarrow> c k \<noteq> w"
  shows "runnable (t n) w \<and> prio_ok (t n ! w) \<and> min 500 (credit (t 0 ! w) + int n) \<le> credit (t n ! w)"
  using not
proof (induction n)
  case 0
  then show ?case using w by simp
next
  case (Suc n)
  then have IH: "runnable (t n) w" "prio_ok (t n ! w)" "min 500 (credit (t 0 ! w) + int n) \<le> credit (t n ! w)"
    by simp_all
  have ne: "c n \<noteq> w" using Suc.prems by simp
  have len: "w < length (q n)" "length (q n) = length (t n)" and t: "t (Suc n) = after_run (c n) (q n)"
    using pass [of n] IH(1) by (auto simp: sched_pass_def runnable_def)
  have st: "p_state (t n ! w) = RUNNABLE" using IH(1) by (simp add: runnable_def)
  have tw: "t (Suc n) ! w = age (t n ! w)"
    using after_run_other [of w "q n" "c n"] len(1) ne frame [OF ne] by (simp add: t)
  have "p_state (t (Suc n) ! w) = RUNNABLE" using st by (simp add: tw age_def age_state)
  moreover have "w < length (t (Suc n))" using len t by simp
  ultimately have "runnable (t (Suc n)) w" by (simp add: runnable_def)
  moreover have "prio_ok (t (Suc n) ! w)" using IH(2) by (simp add: tw age_def prio)
  moreover have "min 500 (credit (t 0 ! w) + int (Suc n)) \<le> credit (t (Suc n) ! w)"
    using age_credit [OF IH(2) st] IH(3) by (simp add: tw)
  ultimately show ?case by blast
qed

subsection \<open>Processes that only compute\<close>

text \<open>
  The processor time of a process that never blocks ends with the timer interrupt and \<^verbatim>\<open>yield\<close>. A table
  of such processes in the order of their ids behaves like the list of their priorities and counters.
\<close>

definition compute :: "nat \<Rightarrow> 'a proc_table_scheme \<Rightarrow> 'a proc_table_scheme" where
  "compute i s = upd_proc i yield_pcb s"

definition spin :: "pcb list \<Rightarrow> pcb list" where
  "spin ps = (case pick ps of None \<Rightarrow> ps | Some i \<Rightarrow> after_run i (ps[i := yield_pcb (ps ! i)]))"

lemma compute_round: "procs (scheduler_round compute h s) = spin (procs s)"
proof (cases "pick (procs s)")
  case (Some i)
  have "i < length (procs s)" using Some by (simp add: pick_Some_iff runnable_def)
  then show ?thesis using Some
    by (simp add: scheduler_round_def spin_def compute_def switched_back_def dispatch_def upd_proc_def yield_pcb_def)
qed (simp add: scheduler_round_def spin_def)

lemma compute_rounds: "procs ((scheduler_round compute h ^^ n) s) = (spin ^^ n) (procs s)"
  by (induction n) (simp_all add: compute_round)

definition busy :: "pcb list \<Rightarrow> bool" where
  "busy ps \<longleftrightarrow> (\<forall>p \<in> set ps. p_state p = RUNNABLE \<and> 3 \<le> p_effective_priority p) \<and>
     sorted_wrt (\<lambda>p q. p_pid p < p_pid q) ps"

definition counters :: "pcb \<Rightarrow> int \<times> int \<times> int" where
  "counters p = (p_effective_priority p, p_skipped_count p, p_cpu_usage p)"

fun account3 :: "int \<times> int \<times> int \<Rightarrow> int \<times> int \<times> int" where
  "account3 (e, k, c) = (if 4 \<le> c then (if 1 < e then e - 1 else e, 0, 0) else (e, 0, c + 1))"

fun age3 :: "int \<times> int \<times> int \<Rightarrow> int \<times> int \<times> int" where
  "age3 (e, k, c) =
     (let (e1, k1) = (if 4 \<le> k then (if e < 100 then e + 1 else e, 0) else (e, k + 1))
      in (if e1 < 3 then 3 else e1, k1, c))"

fun pick3 :: "(int \<times> int \<times> int) list \<Rightarrow> nat \<Rightarrow> nat option \<times> int \<Rightarrow> nat option" where
  "pick3 [] i (b, m) = b"
| "pick3 ((e, k, c) # xs) i (b, m) = pick3 xs (Suc i) (if b = None \<or> m < e then (Some i, e) else (b, m))"

fun spin3_at :: "nat \<Rightarrow> (int \<times> int \<times> int) list \<Rightarrow> (int \<times> int \<times> int) list" where
  "spin3_at i [] = []"
| "spin3_at 0 (x # xs) = age3 (account3 x) # map age3 xs"
| "spin3_at (Suc i) (x # xs) = age3 x # spin3_at i xs"

definition spin3 :: "(int \<times> int \<times> int) list \<Rightarrow> (int \<times> int \<times> int) list" where
  "spin3 xs = (case pick3 xs 0 (None, 0) of None \<Rightarrow> xs | Some i \<Rightarrow> spin3_at i xs)"

lemma counters_age: "p_state p = RUNNABLE \<Longrightarrow> counters (age p) = age3 (counters p)"
  by (simp add: counters_def age_def age_body_def Let_def)

lemma counters_account: "counters (account p) = account3 (counters p)"
  by (simp add: counters_def account_def Let_def)

lemma account_pid: "p_pid (account p) = p_pid p" and age_pid: "p_pid (age p) = p_pid p"
  by (simp_all add: account_def age_def age_body_def Let_def)

lemma yield_state: "p_state (yield_pcb p) = RUNNABLE" "counters (yield_pcb p) = counters p" "p_pid (yield_pcb p) = p_pid p"
  by (simp_all add: yield_pcb_def counters_def)

lemma age_runnable: "p_state p = RUNNABLE \<Longrightarrow> p_state (age p) = RUNNABLE \<and> 3 \<le> p_effective_priority (age p)"
  by (simp add: age_def age_state) (simp add: age_body_def Let_def)

lemma pick_suffix:
  assumes "busy (xs @ ys)" and "\<And>b. best = Some b \<Longrightarrow> b < length xs \<and> m = p_effective_priority (xs ! b)"
  shows "foldl (pick_step (xs @ ys)) best [length xs..<length xs + length ys] = pick3 (map counters ys) (length xs) (best, m)"
  using assms
proof (induction ys arbitrary: xs best m)
  case (Cons y ys)
  have ry: "p_state y = RUNNABLE" using Cons.prems(1) by (simp add: busy_def)
  have lt: "p_pid (xs ! b) < p_pid y" if "b < length xs" for b
    using Cons.prems(1) that by (auto simp: busy_def sorted_wrt_append)
  obtain e k c where y: "counters y = (e, k, c)" "e = p_effective_priority y" by (simp add: counters_def)
  define nb where "nb = (if best = None \<or> m < e then (Some (length xs), e) else (best, m))"
  have step: "pick_step (xs @ y # ys) best (length xs) = fst nb"
  proof (cases best)
    case (Some b)
    then have "b < length xs" "m = p_effective_priority (xs ! b)" using Cons.prems(2) by auto
    then show ?thesis using Some ry lt [of b] y(2) by (auto simp: nb_def pick_step_def nth_append)
  qed (simp add: pick_step_def ry nb_def)
  have inv: "b < length (xs @ [y]) \<and> snd nb = p_effective_priority ((xs @ [y]) ! b)" if "fst nb = Some b" for b
    using that Cons.prems(2) y(2) by (auto simp: nb_def nth_append split: if_splits)
  have "foldl (pick_step ((xs @ [y]) @ ys)) (fst nb) [length (xs @ [y])..<length (xs @ [y]) + length ys] =
      pick3 (map counters ys) (length (xs @ [y])) (fst nb, snd nb)"
    using Cons.prems(1) inv by (intro Cons.IH) auto
  moreover have "[length xs..<length xs + length (y # ys)] = length xs # [Suc (length xs)..<Suc (length xs) + length ys]"
    by (simp add: upt_rec)
  ultimately show ?case using step by (simp add: y(1)) (simp add: nb_def)
qed simp

lemma pick_busy: "busy ps \<Longrightarrow> pick ps = pick3 (map counters ps) 0 (None, 0)"
  using pick_suffix [of "[]" ps None 0] by (simp add: pick_def)

lemma spin3_at_map:
  assumes "\<forall>p \<in> set ps. p_state p = RUNNABLE" and "i < length ps"
  shows "map counters (after_run i (ps[i := yield_pcb (ps ! i)])) = spin3_at i (map counters ps)"
  using assms
proof (induction ps arbitrary: i)
  case (Cons p ps)
  have age: "map counters (map age ps) = map age3 (map counters ps)" if "\<forall>p \<in> set ps. p_state p = RUNNABLE" for ps
    using that by (simp add: counters_age)
  have acc: "counters (age (account (yield_pcb p))) = age3 (account3 (counters p))"
    by (simp add: counters_age account_state counters_account yield_state del: account3.simps age3.simps)
  show ?case
  proof (cases i)
    case 0
    then show ?thesis using Cons.prems age [of ps] acc by (simp add: after_run_def)
  next
    case (Suc j)
    then show ?thesis using Cons.IH [of j] Cons.prems counters_age [of p] by (simp add: after_run_def)
  qed
qed simp

lemma busy_spin:
  assumes "busy ps"
  shows "busy (spin ps) \<and> map counters (spin ps) = spin3 (map counters ps)"
proof (cases "pick ps")
  case None
  then show ?thesis using assms pick_busy [OF assms] by (simp add: spin_def spin3_def)
next
  case (Some i)
  then have i: "i < length ps" by (simp add: pick_Some_iff runnable_def)
  have run: "\<forall>p \<in> set ps. p_state p = RUNNABLE" using assms by (simp add: busy_def)
  have sp: "spin ps = after_run i (ps[i := yield_pcb (ps ! i)])" using Some by (simp add: spin_def)
  have el: "spin ps ! j = age (if j = i then account (yield_pcb (ps ! i)) else ps ! j)" if "j < length ps" for j
    using that i by (simp add: sp after_run_def nth_list_update)
  have "p_state (spin ps ! j) = RUNNABLE \<and> 3 \<le> p_effective_priority (spin ps ! j) \<and> p_pid (spin ps ! j) = p_pid (ps ! j)"
    if "j < length ps" for j
    using el [OF that] age_runnable [of "account (yield_pcb (ps ! i))"] age_runnable [of "ps ! j"] run that
    by (auto simp: age_pid account_pid account_state yield_state)
  moreover have "length (spin ps) = length ps" by (simp add: sp)
  ultimately have "busy (spin ps)" using assms
    unfolding busy_def all_set_conv_all_nth sorted_wrt_iff_nth_less by simp
  moreover have "map counters (spin ps) = spin3 (map counters ps)"
    using spin3_at_map [OF run i] Some pick_busy [OF assms] by (simp add: sp spin3_def)
  ultimately show ?thesis by blast
qed

lemma busy_spins: "busy ps \<Longrightarrow> busy ((spin ^^ n) ps) \<and> map counters ((spin ^^ n) ps) = (spin3 ^^ n) (map counters ps)"
  by (induction n) (simp_all add: busy_spin)

lemma spin_prio: "\<forall>p \<in> set ps. prio_ok p \<Longrightarrow> \<forall>p \<in> set (spin ps). prio_ok p"
proof (cases "pick ps")
  case (Some i)
  assume ok: "\<forall>p \<in> set ps. prio_ok p"
  have i: "i < length ps" using Some by (simp add: pick_Some_iff runnable_def)
  let ?qs = "ps[i := account (yield_pcb (ps ! i))]"
  have "prio_ok (account (yield_pcb (ps ! i)))" using ok i by (simp add: prio)
  then have "\<forall>p \<in> set ?qs. prio_ok p"
    using ok set_update_subset_insert [of ps i "account (yield_pcb (ps ! i))"] by blast
  moreover have "spin ps = map age ?qs" using Some i by (simp add: spin_def after_run_def)
  ultimately show ?thesis by (auto simp: age_def prio)
qed (simp add: spin_def)

lemma spins_prio: "\<forall>p \<in> set ps. prio_ok p \<Longrightarrow> \<forall>p \<in> set ((spin ^^ n) ps). prio_ok p"
  by (induction n) (simp_all add: spin_prio)

lemma spin_pids: "length (spin ps) = length ps \<and> map p_pid (spin ps) = map p_pid ps"
proof (cases "pick ps")
  case (Some i)
  then have "i < length ps" by (simp add: pick_Some_iff runnable_def)
  then show ?thesis using Some
    by (auto simp: spin_def after_run_def age_pid account_pid yield_state nth_list_update intro!: nth_equalityI)
qed (simp add: spin_def)

lemma spins_pids: "length ((spin ^^ n) ps) = length ps \<and> map p_pid ((spin ^^ n) ps) = map p_pid ps"
  by (induction n) (simp_all add: spin_pids)

text \<open>Slots that are not runnable do not matter.\<close>

lemma pick_idle:
  assumes "\<forall>p \<in> set us. p_state p \<noteq> RUNNABLE"
  shows "pick (ps @ us) = pick ps"
proof (cases "pick ps")
  case None
  then have "\<not> runnable (ps @ us) j" for j
    using assms by (auto simp: pick_None_iff runnable_def nth_append)
  then have "pick (ps @ us) = None" by (simp add: pick_None_iff)
  with None show ?thesis by simp
next
  case (Some i)
  have eq: "runnable (ps @ us) j \<longleftrightarrow> runnable ps j" for j
    using assms by (auto simp: runnable_def nth_append)
  have "(ps @ us) ! j = ps ! j" if "runnable ps j" for j using that by (simp add: runnable_def nth_append)
  then have "pick (ps @ us) = Some i" using Some unfolding pick_Some_iff eq by auto
  with Some show ?thesis by simp
qed

lemma spin_idle:
  assumes "\<forall>p \<in> set us. p_state p \<noteq> RUNNABLE"
  shows "spin (ps @ us) = spin ps @ us"
proof (cases "pick ps")
  case None
  then show ?thesis using pick_idle [OF assms] by (simp add: spin_def)
next
  case (Some i)
  then have i: "i < length ps" by (simp add: pick_Some_iff runnable_def)
  have "map age us = us" using assms by (induction us) (simp_all add: age_def)
  then show ?thesis using Some i pick_idle [OF assms]
    by (simp add: spin_def after_run_def nth_append list_update_append)
qed

lemma spins_idle: "\<forall>p \<in> set us. p_state p \<noteq> RUNNABLE \<Longrightarrow> (spin ^^ n) (ps @ us) = (spin ^^ n) ps @ us"
  by (induction n) (simp_all add: spin_idle)

text \<open>Five such processes, freshly started: the run is periodic from round 695 on, and the fifth had its last turn in round 642.\<close>

fun spin3_until :: "nat \<Rightarrow> (int \<times> int \<times> int) list \<Rightarrow> (int \<times> int \<times> int) list" where
  "spin3_until 0 xs = xs"
| "spin3_until (Suc n) xs = spin3_until n (spin3 xs)"

fun never3 :: "nat \<Rightarrow> nat \<Rightarrow> (int \<times> int \<times> int) list \<Rightarrow> bool" where
  "never3 i 0 xs \<longleftrightarrow> True"
| "never3 i (Suc n) xs \<longleftrightarrow> pick3 xs 0 (None, 0) \<noteq> Some i \<and> never3 i n (spin3 xs)"

lemma spin3_until: "spin3_until n xs = (spin3 ^^ n) xs"
  by (induction n arbitrary: xs) (simp_all add: funpow_Suc_right del: funpow.simps(2))

lemma never3: "never3 i n xs \<Longrightarrow> k < n \<Longrightarrow> pick3 ((spin3 ^^ k) xs) 0 (None, 0) \<noteq> Some i"
proof (induction n arbitrary: xs k)
  case (Suc n)
  then show ?case
    by (cases k) (auto simp: funpow_Suc_right simp del: funpow.simps(2))
qed simp

lemma five_periodic:
  "spin3_until 875 (replicate 5 (10, 0, 0)) = spin3_until 695 (replicate 5 (10, 0, 0))"
  by code_simp

lemma five_last: "never3 4 232 (spin3_until 643 (replicate 5 (10, 0, 0)))"
  by code_simp

lemma funpow_period:
  fixes f :: "'b \<Rightarrow> 'b"
  assumes "(f ^^ (a + t)) x = (f ^^ a) x" and "0 < t" and "a \<le> n"
  shows "\<exists>k. a \<le> k \<and> k < a + t \<and> (f ^^ n) x = (f ^^ k) x"
  using assms(3)
proof (induction n rule: less_induct)
  case (less n)
  show ?case
  proof (cases "n < a + t")
    case False
    have "(f ^^ n) x = (f ^^ (n - (a + t))) ((f ^^ (a + t)) x)"
      using False by (simp flip: funpow_add [unfolded comp_def, THEN fun_cong])
    also have "\<dots> = (f ^^ (n - t)) x"
      using False by (simp add: assms(1) flip: funpow_add [unfolded comp_def, THEN fun_cong])
    finally have "(f ^^ n) x = (f ^^ (n - t)) x" .
    with less.IH [of "n - t"] False assms(2) show ?thesis by auto
  qed (use less in auto)
qed

lemma fifth_starves:
  assumes "643 \<le> n"
  shows "pick3 ((spin3 ^^ n) (replicate 5 (10, 0, 0))) 0 (None, 0) \<noteq> Some 4"
proof -
  let ?x = "replicate 5 (10, 0, 0) :: (int \<times> int \<times> int) list"
  have per: "(spin3 ^^ (695 + 180)) ?x = (spin3 ^^ 695) ?x" using five_periodic by (simp add: spin3_until)
  have win: "pick3 ((spin3 ^^ k) ?x) 0 (None, 0) \<noteq> Some 4" if "643 \<le> k" "k < 875" for k
  proof -
    have "pick3 ((spin3 ^^ (k - 643)) ((spin3 ^^ 643) ?x)) 0 (None, 0) \<noteq> Some 4"
      using never3 [OF five_last, of "k - 643"] that by (simp add: spin3_until)
    then show ?thesis using that by (simp flip: funpow_add [unfolded comp_def, THEN fun_cong])
  qed
  show ?thesis
  proof (cases "n < 695")
    case False
    then obtain k where "695 \<le> k" "k < 695 + 180" "(spin3 ^^ n) ?x = (spin3 ^^ k) ?x"
      using funpow_period [OF per, of n] by auto
    then show ?thesis using win [of k] by simp
  qed (use win assms in simp)
qed

subsection \<open>Properties\<close>

text \<open>
  C23. The scan of the scheduler picks the maximum: the chosen slot is runnable, no runnable process
  outranks it (a higher effective priority, or the same and a smaller pid), and it outranks every
  runnable process in an earlier slot; nothing is chosen exactly when no process is runnable.
\<close>

theorem pick_correct:
  "(pick ps = Some i \<longleftrightarrow> runnable ps i \<and>
      (\<forall>j. runnable ps j \<longrightarrow> \<not> outranks (ps ! j) (ps ! i) \<and> (j < i \<longrightarrow> outranks (ps ! i) (ps ! j)))) \<and>
   (pick ps = None \<longleftrightarrow> (\<forall>j. \<not> runnable ps j))"
  by (simp only: pick_Some_iff pick_None_iff)

definition demo_pcb :: pcb where
  "demo_pcb =
     \<lparr>p_state = UNUSED, p_chan = NoChan, p_pagetable = 0, p_sz = 0, p_kstack = 0, p_context = 0,
      p_sched_ctx = \<lparr>c_ra = 0, c_sp = 0, c_s0 = 0, c_s1 = 0, c_s2 = 0, c_s3 = 0, c_s4 = 0, c_s5 = 0,
        c_s6 = 0, c_s7 = 0, c_s8 = 0, c_s9 = 0, c_s10 = 0, c_s11 = 0\<rparr>,
      p_pid = 0, p_owner_pid = 0, p_priority = 0, p_effective_priority = 0, p_skipped_count = 0, p_cpu_usage = 0,
      p_exit_status = 0, p_killed = False, p_name = [], p_cwd_cluster = 0, p_cwd_path = [], p_caps = 0,
      p_tracing = 0, p_handles = []\<rparr>"

definition demo_table :: "pcb list \<Rightarrow> proc_table" where
  "demo_table ps =
     \<lparr>mem = (\<lambda>_. 0), km_start = 0x87ff8000, km_npage = 8, km_bitmap = [1], buckets = [], procs = ps, next_pid = 0,
      pid_alive = (\<lambda>_. False), cpu_proc = (\<lambda>_. None), hart = (\<lambda>_. \<lparr>nlock = 0, intena = True, sie = True\<rparr>),
      plk = (\<lambda>_. None), satp = (\<lambda>_. 0), kernel_pagetable = 0, ticks = 0\<rparr>"

abbreviation fresh :: "u32 \<Rightarrow> pcb" where
  "fresh pid \<equiv> yield_pcb (init_pcb pid demo_pcb)"

theorem pick_correct_witness:
  "pick [fresh 7, (fresh 3)\<lparr>p_effective_priority := 12\<rparr>, (fresh 2)\<lparr>p_effective_priority := 12\<rparr>] = Some 2 \<and>
   runnable [fresh 7, (fresh 3)\<lparr>p_effective_priority := 12\<rparr>, (fresh 2)\<lparr>p_effective_priority := 12\<rparr>] 2"
proof -
  let ?ps = "[fresh 7, (fresh 3)\<lparr>p_effective_priority := 12\<rparr>, (fresh 2)\<lparr>p_effective_priority := 12\<rparr>]"
  have p: "pick ?ps = Some 2" by code_simp
  then show ?thesis using pick_correct [of ?ps 2] by simp
qed

text \<open>
  C4. In every interleaving of several harts, a process is on at most one of them, and a process in
  state \<open>RUNNING\<close> is on exactly one: the locks of the slots keep two schedulers from taking the same
  process, and a process that has left is not taken up again before its registers are saved.
\<close>

theorem process_on_one_hart:
  assumes "preach s"
  shows "(cpu_proc s h = Some i \<longrightarrow> cpu_proc s h' = Some i \<longrightarrow> h = h') \<and>
    (i < length (procs s) \<longrightarrow> p_state (procs s ! i) = RUNNING \<longrightarrow> (\<exists>!h. cpu_proc s h = Some i))"
  using pinvD(3,4) [OF pinv_reach [OF assms]] by blast

theorem process_on_one_hart_witness:
  "\<exists>s :: proc_table. preach s \<and> p_state (procs s ! 0) = RUNNING \<and> (\<exists>!h. cpu_proc s h = Some 0)"
proof -
  let ?s = "demo_table [demo_pcb]"
  let ?a = "set_slot 0 (init_pcb 1) (Some 3) ?s"
  let ?b = "set_slot 0 (p_state_update (\<lambda>_. RUNNABLE)) None ?a"
  let ?c = "(dispatch 2 0 ?b)\<lparr>plk := (plk ?b)(0 := Some 2)\<rparr>"
  have "preach ?s" by (rule preach.start) (simp add: boot_def demo_table_def demo_pcb_def)
  moreover have "pstep ?s ?a" by (rule pstep.reset) (simp_all add: demo_table_def demo_pcb_def)
  moreover have "pstep ?a ?b" by (rule pstep.ready [of _ 3]) (simp_all add: set_slot_def upd_proc_def demo_table_def)
  moreover have "pstep ?b ?c"
    by (rule pstep.run) (simp_all add: set_slot_def upd_proc_def demo_table_def runnable_def)
  ultimately have r: "preach ?c" by (meson preach.step)
  have st: "0 < length (procs ?c)" "p_state (procs ?c ! 0) = RUNNING"
    by (simp_all add: dispatch_def set_slot_def upd_proc_def demo_table_def)
  then show ?thesis using process_on_one_hart [OF r, of 0 0 0] r by blast
qed

text \<open>
  C24. Priorities stay in range: in every interleaving of scheduling, aging, waking, killing, spawning and
  reaping, a slot in use has an effective priority between 1 and 100 and counters below 5, so none of
  the increments and decrements of the scheduler overflows.
\<close>

theorem priority_bounds:
  assumes "preach s" and "i < length (procs s)" and "p_state (procs s ! i) \<noteq> UNUSED"
  shows "1 \<le> p_effective_priority (procs s ! i) \<and> p_effective_priority (procs s ! i) \<le> 100 \<and>
    0 \<le> p_skipped_count (procs s ! i) \<and> p_skipped_count (procs s ! i) < 5 \<and>
    0 \<le> p_cpu_usage (procs s ! i) \<and> p_cpu_usage (procs s ! i) < 5"
  using pinvD(5) [OF pinv_reach [OF assms(1)] assms(2,3)] by (simp add: prio_ok_def)

theorem priority_bounds_witness:
  "\<exists>s :: proc_table. preach s \<and> p_state (procs s ! 0) = SLEEPING \<and> p_effective_priority (procs s ! 0) \<le> 100"
proof -
  let ?s = "demo_table [demo_pcb]"
  let ?a = "set_slot 0 (init_pcb 1) (Some 3) ?s"
  have "preach ?s" by (rule preach.start) (simp add: boot_def demo_table_def demo_pcb_def)
  moreover have "pstep ?s ?a" by (rule pstep.reset) (simp_all add: demo_table_def demo_pcb_def)
  ultimately have r: "preach ?a" by (rule preach.step)
  have st: "0 < length (procs ?a)" "p_state (procs ?a ! 0) = SLEEPING"
    by (simp_all add: set_slot_def upd_proc_def demo_table_def init_pcb_def)
  then show ?thesis using priority_bounds [OF r, of 0] r by auto
qed

text \<open>
  C25. Aging saves the process with the smallest pid: if it waits while any others run, in any way that
  leaves the waiting process alone, it is chosen after at most five passes for each point that its
  effective priority is below 100.
\<close>

theorem smallest_pid_runs:
  assumes "\<And>k. sched_pass (c k) (t k) (q k) (t (Suc k))"
    and "runnable (t 0) w" and "prio_ok (t 0 ! w)"
    and "\<And>k. c k \<noteq> w \<Longrightarrow> q k ! w = t k ! w"
    and "\<And>k j. runnable (t k) j \<Longrightarrow> j \<noteq> w \<Longrightarrow> p_pid (t k ! w) < p_pid (t k ! j) \<and> p_effective_priority (t k ! j) \<le> 100"
  shows "\<exists>k \<le> 5 * nat (100 - p_effective_priority (t 0 ! w)). c k = w"
proof (rule ccontr)
  define n where "n = 5 * nat (100 - p_effective_priority (t 0 ! w))"
  assume "\<not> ?thesis"
  then have no: "c k \<noteq> w" if "k \<le> n" for k using that by (auto simp: n_def)
  then have w: "runnable (t n) w" "prio_ok (t n ! w)" "min 500 (credit (t 0 ! w) + int n) \<le> credit (t n ! w)"
    using waiting_credit [OF assms(1-4), where n = n] by auto
  have "500 \<le> credit (t 0 ! w) + int n" using assms(3) by (auto simp: prio_ok_def credit_def n_def)
  then have "p_effective_priority (t n ! w) = 100" using w(2,3) credit_max by auto
  then have "outranks (t n ! w) (t n ! j)" if "runnable (t n) j" "j \<noteq> w" for j
    using assms(5) [OF that] by (auto simp: outranks_def)
  then have "pick (t n) = Some w" using w(1) outranks_asym
    unfolding pick_Some_iff by (metis nat_neq_iff outranks_def order_less_irrefl)
  then show False using assms(1) [of n] no [of n] by (simp add: sched_pass_def)
qed

theorem smallest_pid_runs_witness:
  "\<exists>k \<le> 450. pick ((spin ^^ k) [fresh 1, (fresh 2)\<lparr>p_effective_priority := 50\<rparr>]) = Some 0"
proof -
  define ps where "ps = [fresh 1, (fresh 2)\<lparr>p_effective_priority := 50\<rparr>]"
  define t where "t k = (spin ^^ k) ps" for k
  define c where "c k = the (pick (t k))" for k
  define q where "q k = (t k)[c k := yield_pcb (t k ! c k)]" for k
  have b: "busy (t k)" for k
    using busy_spins [of ps k] by (simp add: t_def ps_def busy_def yield_pcb_def init_pcb_def)
  have len: "length (t k) = 2" "map p_pid (t k) = [1, 2]" for k
    using spins_pids [of k ps] by (simp_all add: t_def ps_def yield_pcb_def init_pcb_def)
  have ok: "\<forall>p \<in> set (t k). prio_ok p" for k
    using spins_prio [of ps k] by (simp add: t_def ps_def yield_pcb_def init_pcb_def prio_ok_def)
  have "t k \<noteq> []" for k using len(1) [of k] by auto
  then have "runnable (t k) 0" for k using b [of k] by (cases "t k") (auto simp: runnable_def busy_def)
  then have "pick (t k) \<noteq> None" for k by (auto simp: pick_None_iff)
  then have c: "pick (t k) = Some (c k)" for k by (simp add: c_def)
  have pids: "p_pid (t k ! 0) = 1" "p_pid (t k ! 1) = 2" for k
    using len(1) [of k] len(2) [of k] by (auto simp: numeral_2_eq_2 length_Suc_conv)
  have "\<exists>k \<le> 5 * nat (100 - p_effective_priority (t 0 ! 0)). c k = 0"
  proof (rule smallest_pid_runs [where q = q])
    show "sched_pass (c k) (t k) (q k) (t (Suc k))" for k
      using c [of k] by (simp add: sched_pass_def q_def t_def spin_def)
    show "runnable (t 0) 0" by fact
    show "prio_ok (t 0 ! 0)" using ok [of 0] len(1) [of 0] by simp
    show "q k ! 0 = t k ! 0" if "c k \<noteq> 0" for k using that by (simp add: q_def)
    show "p_pid (t k ! 0) < p_pid (t k ! j) \<and> p_effective_priority (t k ! j) \<le> 100"
      if "runnable (t k) j" "j \<noteq> 0" for k j
    proof -
      have j: "j = 1" using that len(1) [of k] by (auto simp: runnable_def)
      show ?thesis using pids [of k] ok [of k] len(1) [of k] by (simp add: j prio_ok_def)
    qed
  qed
  moreover have "p_effective_priority (t 0 ! 0) = 10" by (simp add: t_def ps_def yield_pcb_def init_pcb_def)
  ultimately obtain k where "k \<le> 450" "c k = 0" by auto
  then show ?thesis using c [of k] by (auto simp: t_def ps_def intro!: exI [of _ k])
qed

text \<open>
  C26. Aging does not save the others: of five processes that only compute, started with the default
  priority and served by one hart, the one with the largest pid is never chosen again after the 643rd
  pass, although it stays runnable; all of them have risen to the limit of 100, where waiting earns nothing.
\<close>

theorem scheduler_starvation:
  assumes "procs s = ps @ us" and "length ps = 5"
    and "\<forall>p \<in> set ps. p_state p = RUNNABLE \<and> p_effective_priority p = 10 \<and> p_skipped_count p = 0 \<and> p_cpu_usage p = 0"
    and "sorted_wrt (\<lambda>p q. p_pid p < p_pid q) ps" and "\<forall>p \<in> set us. p_state p \<noteq> RUNNABLE" and "643 \<le> n"
  shows "runnable (procs ((scheduler_round compute h ^^ n) s)) 4 \<and> pick (procs ((scheduler_round compute h ^^ n) s)) \<noteq> Some 4"
proof -
  have cs: "map counters ps = replicate 5 (10, 0, 0)"
    using assms(2,3) by (intro replicate_eqI) (auto simp: counters_def)
  have b: "busy ps" using assms(3,4) by (simp add: busy_def)
  have t: "procs ((scheduler_round compute h ^^ n) s) = (spin ^^ n) ps @ us"
    using spins_idle [OF assms(5)] assms(1) by (simp add: compute_rounds)
  have bn: "busy ((spin ^^ n) ps)" "map counters ((spin ^^ n) ps) = (spin3 ^^ n) (replicate 5 (10, 0, 0))"
    using busy_spins [OF b, of n] by (simp_all add: cs)
  have "pick ((spin ^^ n) ps @ us) \<noteq> Some 4"
    using fifth_starves [OF assms(6)] pick_busy [OF bn(1)] by (simp add: pick_idle [OF assms(5)] bn(2))
  moreover have "4 < length ((spin ^^ n) ps)" using spins_pids [of n ps] assms(2) by simp
  then have "runnable ((spin ^^ n) ps @ us) 4" using bn(1) by (auto simp: runnable_def busy_def nth_append)
  ultimately show ?thesis by (simp add: t)
qed

theorem scheduler_starvation_witness:
  "\<forall>k. pick (procs ((scheduler_round compute 0 ^^ (643 + k))
     (demo_table (map fresh [1, 2, 3, 4, 5] @ replicate 59 demo_pcb)))) \<noteq> Some 4"
proof
  fix k :: nat
  let ?s = "demo_table (map fresh [1, 2, 3, 4, 5] @ replicate 59 demo_pcb)"
  have s: "procs ?s = map fresh [1, 2, 3, 4, 5] @ replicate 59 demo_pcb" by (simp add: demo_table_def)
  have n: "643 \<le> 643 + k" by simp
  show "pick (procs ((scheduler_round compute 0 ^^ (643 + k)) ?s)) \<noteq> Some 4"
    using scheduler_starvation [OF s _ _ _ _ n, of 0]
    by (simp add: yield_pcb_def init_pcb_def demo_pcb_def)
qed

text \<open>
  \<^verbatim>\<open>allocpid\<close> hands out the first id above the last one that is not in use and marks it; when all ids
  up to 65534 are in use it reads \<^verbatim>\<open>pid_alive[65535]\<close>, past the end of the array, before it can wrap around
  to 2 or report that the process limit is reached.
\<close>

theorem allocpid_correct:
  assumes "next_pid s < 65535"
  shows "case allocpid s of
      Inr (pid, s') \<Rightarrow> next_pid s < pid \<and> pid < 65535 \<and> \<not> pid_alive s pid \<and>
        (\<forall>m. next_pid s < m \<longrightarrow> m < pid \<longrightarrow> pid_alive s m) \<and>
        s' = s\<lparr>next_pid := pid, pid_alive := (pid_alive s)(pid := True)\<rparr>
    | Inl e \<Rightarrow> e = Undefined ''allocpid: pid_alive[65535]'' \<and> (\<forall>m. next_pid s < m \<longrightarrow> m < 65535 \<longrightarrow> pid_alive s m)"
  using allocpid_scan_up [of "next_pid s" "next_pid s" "pid_alive s"] assms
  by (cases "allocpid_scan (pid_alive s) (next_pid s) (next_pid s)") (auto simp: allocpid_def)

theorem allocpid_correct_witness:
  "allocpid ((demo_table [])\<lparr>next_pid := 65533, pid_alive := (\<lambda>_. True)\<rparr>) = Inl (Undefined ''allocpid: pid_alive[65535]'')"
proof -
  let ?s = "(demo_table [])\<lparr>next_pid := 65533, pid_alive := (\<lambda>_. True)\<rparr>"
  have "next_pid ?s < 65535" by simp
  from allocpid_correct [OF this] show ?thesis by (auto split: sum.splits)
qed

text \<open>
  \<^verbatim>\<open>kill\<close> of a pid that a living process has marks that process, makes it runnable if it slept, and
  otherwise only wakes the processes that wait for a child; the caller itself is not woken. For any
  other pid nothing changes.
\<close>

theorem kill_correct:
  assumes "\<And>j k. j < length (procs s) \<Longrightarrow> k < length (procs s) \<Longrightarrow> p_pid (procs s ! j) = pid \<Longrightarrow> p_pid (procs s ! k) = pid \<Longrightarrow> j = k"
  shows "kill h pid s =
    (if \<exists>i<length (procs s). p_pid (procs s ! i) = pid \<and> p_state (procs s ! i) \<notin> {ZOMBIE, UNUSED}
     then (0, s\<lparr>procs := map (\<lambda>j. let p = procs s ! j; k = (if p_pid p = pid then kill_pcb p else p)
                              in if cpu_proc s h = Some j then k else wake_pcb ChanProcPool k) [0..<length (procs s)]\<rparr>)
     else (-1, s))"
proof (cases "find_pid pid (procs s)")
  case None
  then have "p_pid (procs s ! i) \<noteq> pid" if "i < length (procs s)" for i
    using that by (auto simp: find_pid_def find_None_iff)
  then show ?thesis using None by (auto simp: kill_def)
next
  case (Some i)
  then have i: "i < length (procs s)" "p_pid (procs s ! i) = pid"
    by (auto simp: find_pid_def find_Some_iff)
  have only: "p_pid (procs s ! j) = pid \<longleftrightarrow> j = i" if "j < length (procs s)" for j
    using assms [of j i] i that by blast
  show ?thesis
  proof (cases "p_state (procs s ! i) \<in> {ZOMBIE, UNUSED}")
    case True
    then have "\<not> (\<exists>j<length (procs s). p_pid (procs s ! j) = pid \<and> p_state (procs s ! j) \<notin> {ZOMBIE, UNUSED})"
      using only by auto
    with True Some show ?thesis by (auto simp: kill_def)
  next
    case False
    have "kill h pid s = (0, wakeup h ChanProcPool (upd_proc i kill_pcb s))"
      using False Some by (simp add: kill_def)
    moreover have "procs (wakeup h ChanProcPool (upd_proc i kill_pcb s)) =
        map (\<lambda>j. let p = procs s ! j; k = (if p_pid p = pid then kill_pcb p else p)
                 in if cpu_proc s h = Some j then k else wake_pcb ChanProcPool k) [0..<length (procs s)]"
      using only i by (auto simp: wakeup_def upd_proc_def myproc_def Let_def nth_list_update)
    moreover have "\<exists>j<length (procs s). p_pid (procs s ! j) = pid \<and> p_state (procs s ! j) \<notin> {ZOMBIE, UNUSED}"
      using i False by blast
    ultimately show ?thesis by (simp add: wakeup_def upd_proc_def)
  qed
qed

theorem kill_correct_witness:
  "p_state (procs (snd (kill 0 2 (demo_table [fresh 1, sleep_pcb ChanTicks (fresh 2)]))) ! 1) = RUNNABLE \<and>
   fst (kill 0 3 (demo_table [fresh 1, sleep_pcb ChanTicks (fresh 2)])) = -1"
proof -
  let ?s = "demo_table [fresh 1, sleep_pcb ChanTicks (fresh 2)]"
  have pids: "p_pid (procs ?s ! 0) = 1" "p_pid (procs ?s ! 1) = 2" "length (procs ?s) = 2"
    by (simp_all add: demo_table_def sleep_pcb_def yield_pcb_def init_pcb_def)
  have only: "j = k" if "j < length (procs ?s)" "k < length (procs ?s)" "p_pid (procs ?s ! j) = pid" "p_pid (procs ?s ! k) = pid"
    for j k pid
    using that pids by (auto simp: less_2_cases_iff)
  have none: "\<not> (\<exists>i<length (procs ?s). p_pid (procs ?s ! i) = 3 \<and> p_state (procs ?s ! i) \<notin> {ZOMBIE, UNUSED})"
  proof
    assume "\<exists>i<length (procs ?s). p_pid (procs ?s ! i) = 3 \<and> p_state (procs ?s ! i) \<notin> {ZOMBIE, UNUSED}"
    then obtain i where "i < 2" "p_pid (procs ?s ! i) = 3" using pids(3) by auto
    then show False using pids(1,2) by (cases "i = 0") (simp_all add: less_2_cases_iff)
  qed
  have some: "\<exists>i<length (procs ?s). p_pid (procs ?s ! i) = 2 \<and> p_state (procs ?s ! i) \<notin> {ZOMBIE, UNUSED}"
    using pids by (intro exI [of _ 1]) (simp add: demo_table_def sleep_pcb_def)
  have "fst (kill 0 3 ?s) = -1" using kill_correct [of ?s 3 0, OF only] none by (simp only: if_False fst_conv)
  moreover have "p_state (procs (snd (kill 0 2 ?s)) ! 1) = RUNNABLE"
    using kill_correct [of ?s 2 0, OF only] some pids
    by (simp add: Let_def) (simp add: demo_table_def kill_pcb_def sleep_pcb_def wake_state Let_def)
  ultimately show ?thesis by blast
qed

end
