(* ===== verification/RV_Console.thy ===== *)
theory RV_Console
  imports RV_Sched
begin

text \<open>
  The console, \<^verbatim>\<open>kernelspace/drivers/uart.c\<close>: the UART registers as far as the driver uses them, the input
  ring of \<^verbatim>\<open>cons\<close> with its read, write and edit index, the interrupt handler that edits a line, the
  blocking read, and \<^verbatim>\<open>printf\<close> with its number formatting. The state extends the process table, since
  input wakes the processes that sleep on \<^verbatim>\<open>&cons.r\<close>. The device side is the list \<open>uart_rx\<close> of bytes
  that have arrived and the lists of bytes and register values sent.

  The interface \<open>line_input\<close> is the line discipline that readers rely on, over a queue of committed
  bytes and the line being edited; its interpretation is the refinement proof for the ring, including
  the wrap-around of the 32-bit indices. \<^verbatim>\<open>printint\<close> is shown to print the number it is given.
\<close>

subsection \<open>State\<close>

record uart = proc_table +
  cons_buf :: "u8 list"
  cons_r :: u32
  cons_w :: u32
  cons_e :: u32
  uart_inited :: bool
  uart_regs :: "(nat \<times> u8) list"
  uart_out :: "u8 list"
  sbi_out :: "u8 list"
  uart_rx :: "u8 list"

definition INPUT_BUF_SIZE :: u32 where [rv_const]: "INPUT_BUF_SIZE = 128"

subsection \<open>The device\<close>

definition uart_reg :: "nat \<Rightarrow> u8 \<Rightarrow> 'a uart_scheme \<Rightarrow> 'a uart_scheme" where
  "uart_reg r v s = s\<lparr>uart_regs := uart_regs s @ [(r, v)]\<rparr>"

text \<open>Registers: IER 1, FCR 2, LCR 3, MCR 4.\<close>

definition uart_init :: "'a uart_scheme \<Rightarrow> 'a uart_scheme" where
  "uart_init s =
     (uart_reg 4 0x08 (uart_reg 1 0x01 (uart_reg 2 0x07 (uart_reg 3 0x03 (uart_reg 1 0x00
       (uart_reg 0 0x03 (uart_reg 3 0x80 (uart_reg 1 0x00 s))))))))\<lparr>uart_inited := True\<rparr>"

definition uart_putc_no_lock :: "u8 \<Rightarrow> 'a uart_scheme \<Rightarrow> 'a uart_scheme" where
  "uart_putc_no_lock c s =
     (if uart_inited s then s\<lparr>uart_out := uart_out s @ [c]\<rparr> else s\<lparr>sbi_out := sbi_out s @ [c]\<rparr>)"

definition uart_putc :: "u8 \<Rightarrow> 'a uart_scheme \<Rightarrow> 'a uart_scheme" where
  "uart_putc c s = uart_putc_no_lock c s"

primrec uart_puts :: "u8 list \<Rightarrow> 'a uart_scheme \<Rightarrow> 'a uart_scheme" where
  "uart_puts [] s = s"
| "uart_puts (c # cs) s = (if c = 0 then s else uart_puts cs (uart_putc c s))"

definition uart_getc :: "'a uart_scheme \<Rightarrow> u8 option \<times> 'a uart_scheme" where
  "uart_getc s =
     (if uart_inited s then
        case uart_rx s of [] \<Rightarrow> (None, s) | c # cs \<Rightarrow> (Some c, s\<lparr>uart_rx := cs\<rparr>)
      else (None, s))"

subsection \<open>Input\<close>

definition ring :: "u32 \<Rightarrow> nat" where
  "ring i = unat (i mod INPUT_BUF_SIZE)"

text \<open>The body of the loop of \<^verbatim>\<open>uart_intr\<close> for one byte.\<close>

definition uart_key :: "nat \<Rightarrow> u8 \<Rightarrow> 'a uart_scheme \<Rightarrow> 'a uart_scheme" where
  "uart_key h c0 s =
     (if c0 = 127 \<or> c0 = 8 then
        if cons_e s \<noteq> cons_w s then
          uart_putc 8 (uart_putc 32 (uart_putc 8 (s\<lparr>cons_e := cons_e s - 1\<rparr>)))
        else s
      else
        let c = (if c0 = 13 then 10 else c0) in
        if c \<noteq> 0 \<and> cons_e s - cons_r s < INPUT_BUF_SIZE then
          let s1 = uart_putc c s;
              s2 = s1\<lparr>cons_buf := (cons_buf s1)[ring (cons_e s1) := c], cons_e := cons_e s1 + 1\<rparr>
          in if c = 10 \<or> c = 4 \<or> cons_e s2 = cons_r s2 + INPUT_BUF_SIZE
             then wakeup h ChanCons (s2\<lparr>cons_w := cons_e s2\<rparr>)
             else s2
        else s)"

text \<open>\<^verbatim>\<open>uart_intr\<close>: the loop takes the bytes that have arrived; the fuel is their number.\<close>

primrec uart_drain :: "nat \<Rightarrow> nat \<Rightarrow> 'a uart_scheme \<Rightarrow> 'a uart_scheme" where
  "uart_drain 0 h s = s"
| "uart_drain (Suc n) h s =
     (case uart_getc s of (None, s1) \<Rightarrow> s1 | (Some c, s1) \<Rightarrow> uart_drain n h (uart_key h c s1))"

definition uart_intr :: "nat \<Rightarrow> 'a uart_scheme \<Rightarrow> 'a uart_scheme" where
  "uart_intr h s = uart_drain (Suc (length (uart_rx s))) h s"

text \<open>
  The loop of \<^verbatim>\<open>console_read\<close> with \<open>n\<close> bytes still wanted and \<open>i\<close> stored: the bytes it stores, and whether it
  has to sleep for more input (\<open>True\<close>) or returns.
\<close>

primrec console_take :: "nat \<Rightarrow> nat \<Rightarrow> 'a uart_scheme \<Rightarrow> u8 list \<times> bool \<times> 'a uart_scheme" where
  "console_take 0 i s = ([], False, s)"
| "console_take (Suc n) i s =
     (if cons_r s = cons_w s then ([], True, s)
      else
        let c = cons_buf s ! ring (cons_r s);
            s1 = s\<lparr>cons_r := cons_r s + 1\<rparr>
        in if c = 4 then ([], False, if 0 < i then s1\<lparr>cons_r := cons_r s1 - 1\<rparr> else s1)
           else if c = 10 then ([c], False, s1)
           else case console_take n (Suc i) s1 of (bs, slp, s2) \<Rightarrow> (c # bs, slp, s2))"

text \<open>\<^verbatim>\<open>console_read(buf, n)\<close> until it returns or sleeps; \<^verbatim>\<open>n\<close> is an \<^verbatim>\<open>int\<close>, and a negative one ends the loop at once.\<close>

definition console_read :: "u32 \<Rightarrow> 'a uart_scheme \<Rightarrow> u8 list \<times> bool \<times> 'a uart_scheme" where
  "console_read n s = console_take (nat (sint n)) 0 s"

subsection \<open>Printing\<close>

definition digits :: "u8 list" where
  "digits = map of_char ''0123456789abcdef''"

text \<open>The \<^verbatim>\<open>do while\<close> loop that fills \<^verbatim>\<open>buf\<close>, least digit first; base 10 or 16.\<close>

function print_digits :: "u32 \<Rightarrow> u32 \<Rightarrow> u8 list" where
  "print_digits base x =
     digits ! unat (x mod base) # (if base < 2 \<or> x div base = 0 then [] else print_digits base (x div base))"
  by pat_completeness auto
termination
proof (relation "measure (\<lambda>(_, x). unat x)", goal_cases)
  case (2 base x)
  then have b: "2 \<le> unat base" by (simp add: word_less_nat_alt)
  have "x \<noteq> 0" using 2 by auto
  then have "0 < unat x" by (simp add: unat_gt_0)
  then show ?case using b by (simp add: unat_div)
qed simp

declare print_digits.simps [simp del]

definition printint :: "u32 \<Rightarrow> u32 \<Rightarrow> bool \<Rightarrow> 'a uart_scheme \<Rightarrow> 'a uart_scheme" where
  "printint xx base sign s =
     (let neg = (sign \<and> sint xx < 0);
          x = (if neg then - xx else xx);
          buf = print_digits base x @ (if neg then [of_char CHR ''-''] else [])
      in fold uart_putc_no_lock (rev buf) s)"

primrec print_nibbles :: "nat \<Rightarrow> u64 \<Rightarrow> u8 list" where
  "print_nibbles 0 x = []"
| "print_nibbles (Suc n) x = digits ! unat (drop_bit 60 x AND 0xf) # print_nibbles n (push_bit 4 x)"

definition printptr :: "u64 \<Rightarrow> 'a uart_scheme \<Rightarrow> 'a uart_scheme" where
  "printptr x s = fold uart_putc_no_lock (of_char CHR ''0'' # of_char CHR ''x'' # print_nibbles 16 x) s"

datatype parg = PInt u32 | PPtr u64 | PStr "string option"

text \<open>\<^verbatim>\<open>printf\<close>; too few arguments, or one of another type, are undefined.\<close>

fun print_fmt :: "string \<Rightarrow> parg list \<Rightarrow> 'a uart_scheme \<Rightarrow> 'a uart_scheme res" where
  "print_fmt [] as s = Inr s"
| "print_fmt [c] as s = Inr (if c = CHR ''%'' then s else uart_putc_no_lock (of_char c) s)"
| "print_fmt (c # d # fmt) as s =
     (if c \<noteq> CHR ''%'' then print_fmt (d # fmt) as (uart_putc_no_lock (of_char c) s)
      else if d = CHR ''d'' then
        (case as of PInt x # bs \<Rightarrow> print_fmt fmt bs (printint x 10 True s) | _ \<Rightarrow> Inl (Undefined ''printf''))
      else if d = CHR ''x'' then
        (case as of PInt x # bs \<Rightarrow> print_fmt fmt bs (printint x 16 False s) | _ \<Rightarrow> Inl (Undefined ''printf''))
      else if d = CHR ''p'' then
        (case as of PPtr x # bs \<Rightarrow> print_fmt fmt bs (printptr x s) | _ \<Rightarrow> Inl (Undefined ''printf''))
      else if d = CHR ''s'' then
        (case as of
           PStr x # bs \<Rightarrow>
             print_fmt fmt bs
               (fold uart_putc_no_lock (map of_char (case x of None \<Rightarrow> ''(null)'' | Some t \<Rightarrow> t)) s)
         | _ \<Rightarrow> Inl (Undefined ''printf''))
      else if d = CHR ''%'' then print_fmt fmt as (uart_putc_no_lock (of_char d) s)
      else print_fmt fmt as (uart_putc_no_lock (of_char d) (uart_putc_no_lock (of_char c) s)))"

definition printf :: "string \<Rightarrow> parg list \<Rightarrow> 'a uart_scheme \<Rightarrow> 'a uart_scheme res" where
  "printf fmt as s = print_fmt fmt as s"

subsection \<open>The line discipline\<close>

text \<open>
  Committed bytes and the line being edited. A byte is dropped when 128 are pending; a newline, an end
  of file, or the last free place commits the line.
\<close>

type_synonym line = "u8 list \<times> u8 list"

definition line_key :: "u8 \<Rightarrow> line \<Rightarrow> line" where
  "line_key c0 l =
     (case l of (com, ed) \<Rightarrow>
        if c0 = 127 \<or> c0 = 8 then (com, butlast ed)
        else
          let c = (if c0 = 13 then 10 else c0) in
          if c = 0 \<or> 128 \<le> length com + length ed then (com, ed)
          else if c = 10 \<or> c = 4 \<or> length com + length ed = 127 then (com @ ed @ [c], [])
          else (com, ed @ [c]))"

fun line_take :: "nat \<Rightarrow> nat \<Rightarrow> u8 list \<Rightarrow> u8 list \<times> bool \<times> u8 list" where
  "line_take 0 i com = ([], False, com)"
| "line_take (Suc n) i [] = ([], True, [])"
| "line_take (Suc n) i (c # com) =
     (if c = 4 then ([], False, if 0 < i then c # com else com)
      else if c = 10 then ([c], False, com)
      else case line_take n (Suc i) com of (bs, slp, rest) \<Rightarrow> (c # bs, slp, rest))"

locale line_input =
  fixes inv :: "'s \<Rightarrow> bool"
    and alpha :: "'s \<Rightarrow> line"
    and key :: "u8 \<Rightarrow> 's \<Rightarrow> 's"
    and get :: "nat \<Rightarrow> nat \<Rightarrow> 's \<Rightarrow> u8 list \<times> bool \<times> 's"
  assumes key_refines: "inv s \<Longrightarrow> inv (key c s) \<and> alpha (key c s) = line_key c (alpha s)"
    and get_refines: "inv s \<Longrightarrow> case get n i s of (bs, slp, s') \<Rightarrow>
      inv s' \<and> (bs, slp, fst (alpha s')) = line_take n i (fst (alpha s)) \<and> snd (alpha s') = snd (alpha s)"
begin

lemma keys_refine: "inv s \<Longrightarrow> inv (fold key cs s) \<and> alpha (fold key cs s) = fold line_key cs (alpha s)"
proof (induction cs arbitrary: s)
  case (Cons c cs)
  then show ?case using key_refines [of s c] by simp
qed simp

lemma line_key_plain:
  "c \<notin> {0, 4, 8, 10, 13, 127} \<Longrightarrow> length com + length ed < 127 \<Longrightarrow> line_key c (com, ed) = (com, ed @ [c])"
  by (auto simp: line_key_def)

lemma line_keys_plain:
  assumes "\<forall>c \<in> set cs. c \<notin> {0, 4, 8, 10, 13, 127}" and "length com + length ed + length cs < 128"
  shows "fold line_key cs (com, ed) = (com, ed @ cs)"
  using assms
proof (induction cs arbitrary: ed)
  case (Cons c cs)
  have "line_key c (com, ed) = (com, ed @ [c])" using Cons.prems by (intro line_key_plain) auto
  then show ?case using Cons by simp
qed simp

lemma line_take_line:
  assumes "\<forall>c \<in> set cs. c \<notin> {4, 10}" and "length cs < n"
  shows "line_take n i (cs @ 10 # rest) = (cs @ [10], False, rest)"
  using assms by (induction n i "cs @ 10 # rest" arbitrary: cs rule: line_take.induct) (auto simp: Cons_eq_append_conv)

lemma line_typed:
  assumes "\<forall>c \<in> set cs. c \<notin> {0, 4, 8, 10, 13, 127}" and "length cs < 128"
  shows "fold line_key (cs @ [13]) ([], []) = (cs @ [10], [])"
  using line_keys_plain [of cs "[]" "[]"] assms by (simp add: line_key_def)

lemma read_line:
  assumes "inv s" and "alpha s = (cs @ [10], ed)" and "\<forall>c \<in> set cs. c \<notin> {4, 10}" and "length cs < n"
  shows "case get n 0 s of (bs, slp, s') \<Rightarrow> bs = cs @ [10] \<and> \<not> slp \<and> inv s' \<and> alpha s' = ([], ed)"
  using get_refines [OF assms(1), of n 0] line_take_line [OF assms(3,4), of 0 "[]"] assms(2)
  by (auto simp: prod_eq_iff split: prod.splits)

end

subsection \<open>The ring implements it\<close>

definition seg :: "u8 list \<Rightarrow> nat \<Rightarrow> nat \<Rightarrow> u8 list" where
  "seg buf a n = map (\<lambda>k. buf ! ((a + k) mod 128)) [0..<n]"

definition cons_inv :: "'a uart_scheme \<Rightarrow> bool" where
  "cons_inv s \<longleftrightarrow> length (cons_buf s) = 128 \<and>
     unat (cons_w s - cons_r s) \<le> unat (cons_e s - cons_r s) \<and> unat (cons_e s - cons_r s) \<le> 128 \<and>
     (unat (cons_e s - cons_r s) = 128 \<longrightarrow> cons_w s = cons_e s)"

definition cons_abs :: "'a uart_scheme \<Rightarrow> line" where
  "cons_abs s = (seg (cons_buf s) (unat (cons_r s)) (unat (cons_w s - cons_r s)),
     seg (cons_buf s) (unat (cons_w s)) (unat (cons_e s - cons_w s)))"

lemma length_seg [simp]: "length (seg buf a n) = n"
  by (simp add: seg_def)

lemma seg_Suc: "seg buf a (Suc n) = seg buf a n @ [buf ! ((a + n) mod 128)]"
  by (simp add: seg_def)

lemma seg_0 [simp]: "seg buf a 0 = []"
  by (simp add: seg_def)

lemma seg_add: "seg buf a (n + m) = seg buf a n @ seg buf (a + n) m"
  by (induction m) (simp_all add: seg_Suc add.assoc)

lemma seg_cons: "seg buf a (Suc n) = buf ! (a mod 128) # seg buf (Suc a) n"
  using seg_add [of buf a 1 n] by (simp add: seg_def)

lemma seg_mod: "a mod 128 = b mod 128 \<Longrightarrow> seg buf a n = seg buf b n"
  unfolding seg_def by (metis mod_add_left_eq)

lemma seg_write:
  assumes "n \<le> m" and "m < 128"
  shows "seg (buf[(a + m) mod 128 := c]) a n = seg buf a n"
proof -
  have "(a + m) mod 128 \<noteq> (a + k) mod 128" if "k < n" for k
  proof
    assume "(a + m) mod 128 = (a + k) mod 128"
    then have "128 dvd (a + m) - (a + k)" using that assms by (metis mod_eq_dvd_iff_nat nat_add_left_cancel_le order_less_imp_le order_less_le_trans)
    then have "128 dvd m - k" by simp
    moreover have "0 < m - k" "m - k < 128" using that assms by simp_all
    ultimately show False using nat_dvd_not_less by blast
  qed
  then show ?thesis by (auto simp: seg_def)
qed

lemma ring_unat: "ring i = unat i mod 128"
  by (simp add: ring_def rv_const unat_mod)

lemma unat_shift: "unat (a + of_nat k :: u32) mod 128 = (unat a + k) mod 128"
proof -
  have "unat (a + of_nat k :: u32) = (unat a + k) mod 2 ^ 32"
    by (simp add: unat_word_ariths unat_of_nat mod_add_right_eq)
  then show ?thesis by (simp add: mod_mod_cancel)
qed

lemma unat_from: "unat b mod 128 = (unat a + unat (b - a)) mod 128" for a b :: u32
  using unat_shift [of a "unat (b - a)"] by simp

lemma putc_frame [rv_frame]:
  "cons_buf (uart_putc c s) = cons_buf s" "cons_r (uart_putc c s) = cons_r s"
  "cons_w (uart_putc c s) = cons_w s" "cons_e (uart_putc c s) = cons_e s"
  by (simp_all add: uart_putc_def uart_putc_no_lock_def)

lemma wakeup_frame [rv_frame]:
  "cons_buf (wakeup h ch s) = cons_buf s" "cons_r (wakeup h ch s) = cons_r s"
  "cons_w (wakeup h ch s) = cons_w s" "cons_e (wakeup h ch s) = cons_e s"
  by (simp_all add: wakeup_def)

lemma sub_chain: "unat (w - r) \<le> unat (e - r) \<Longrightarrow> unat (e - w) = unat (e - r) - unat (w - r)" for r w e :: u32
proof -
  assume "unat (w - r) \<le> unat (e - r)"
  then have "w - r \<le> e - r" by (simp add: word_le_nat_alt)
  then have "unat ((e - r) - (w - r)) = unat (e - r) - unat (w - r)" by (rule unat_sub)
  then show ?thesis by simp
qed

text \<open>The two segments are one, cut at the write index.\<close>

lemma cons_abs_joined:
  assumes "cons_inv s"
  shows "fst (cons_abs s) @ snd (cons_abs s) = seg (cons_buf s) (unat (cons_r s)) (unat (cons_e s - cons_r s))"
    and "length (fst (cons_abs s)) + length (snd (cons_abs s)) = unat (cons_e s - cons_r s)"
proof -
  let ?n = "unat (cons_w s - cons_r s)" and ?m = "unat (cons_e s - cons_w s)"
  have m: "?n + ?m = unat (cons_e s - cons_r s)"
    using assms sub_chain [of "cons_w s" "cons_r s" "cons_e s"] by (simp add: cons_inv_def)
  have "seg (cons_buf s) (unat (cons_w s)) ?m = seg (cons_buf s) (unat (cons_r s) + ?n) ?m"
    by (rule seg_mod) (rule unat_from)
  then show "fst (cons_abs s) @ snd (cons_abs s) = seg (cons_buf s) (unat (cons_r s)) (unat (cons_e s - cons_r s))"
    by (simp add: cons_abs_def flip: m) (simp add: seg_add)
  show "length (fst (cons_abs s)) + length (snd (cons_abs s)) = unat (cons_e s - cons_r s)"
    by (simp add: cons_abs_def m)
qed

lemma unat_minus_1: "x \<noteq> 0 \<Longrightarrow> unat (x - 1) = unat x - 1" for x :: u32
  by (metis (no_types) Suc_pred' diff_Suc_1 unat_gt_0 unat_minus_one)

lemma unat_plus_1: "unat x < 128 \<Longrightarrow> unat (x + 1) = unat x + 1" for x :: u32
  using unat_add_lem [of x 1] by simp

lemma key_back:
  assumes inv: "cons_inv s" and c: "c = 127 \<or> c = 8"
  shows "cons_inv (uart_key h c s) \<and> cons_abs (uart_key h c s) = line_key c (cons_abs s)"
proof (cases "cons_e s = cons_w s")
  case True
  then show ?thesis using assms by (auto simp: uart_key_def line_key_def cons_abs_def)
next
  case False
  let ?n = "unat (cons_w s - cons_r s)" and ?m = "unat (cons_e s - cons_w s)" and ?t = "uart_key h c s"
  have m: "?n + ?m = unat (cons_e s - cons_r s)"
    using inv sub_chain [of "cons_w s" "cons_r s" "cons_e s"] by (simp add: cons_inv_def)
  have t: "cons_buf ?t = cons_buf s" "cons_r ?t = cons_r s" "cons_w ?t = cons_w s" "cons_e ?t = cons_e s - 1"
    using False c by (auto simp: uart_key_def rv_frame)
  have "0 < ?m" using False by (simp add: unat_gt_0)
  have "cons_e s - cons_r s \<noteq> 0" using m \<open>0 < ?m\<close> by (metis add_is_0 less_irrefl unat_0)
  then have er: "unat (cons_e s - 1 - cons_r s) = ?n + ?m - 1"
    using unat_minus_1 [of "cons_e s - cons_r s"] m by (simp add: algebra_simps)
  have ew: "unat (cons_e s - 1 - cons_w s) = ?m - 1"
    using unat_minus_1 [of "cons_e s - cons_w s"] False by (simp add: algebra_simps)
  obtain k where k: "?m = Suc k" using \<open>0 < ?m\<close> gr0_conv_Suc by blast
  have "cons_inv ?t" using inv er m k by (simp add: cons_inv_def t)
  moreover have "cons_abs ?t = line_key c (cons_abs s)"
    using c ew k by (auto simp: cons_abs_def t line_key_def seg_Suc butlast_append)
  ultimately show ?thesis by blast
qed

lemma key_add:
  assumes inv: "cons_inv s" and c0: "c0 \<noteq> 127" "c0 \<noteq> 8"
  shows "cons_inv (uart_key h c0 s) \<and> cons_abs (uart_key h c0 s) = line_key c0 (cons_abs s)"
proof -
  define c where "c = (if c0 = 13 then 10 else c0)"
  let ?n = "unat (cons_w s - cons_r s)" and ?m = "unat (cons_e s - cons_w s)" and ?t = "uart_key h c0 s"
  define n where "n = unat (cons_e s - cons_r s)"
  have m: "?n + ?m = n"
    using inv sub_chain [of "cons_w s" "cons_r s" "cons_e s"] by (simp add: cons_inv_def n_def)
  have len: "length (fst (cons_abs s)) + length (snd (cons_abs s)) = n"
    using cons_abs_joined(2) [OF inv] by (simp add: n_def)
  show ?thesis
  proof (cases "c = 0 \<or> 128 \<le> n")
    case True
    then have "?t = s" using c0 by (auto simp: uart_key_def c_def n_def word_less_nat_alt rv_const Let_def)
    moreover have "line_key c0 (cons_abs s) = cons_abs s"
      using True len c0 by (auto simp: line_key_def c_def Let_def split: prod.splits if_splits)
    ultimately show ?thesis using inv by simp
  next
    case False
    then have c: "c \<noteq> 0" and n: "n < 128" by auto
    have er: "unat (cons_e s + 1 - cons_r s) = n + 1"
      using unat_plus_1 [of "cons_e s - cons_r s"] n by (simp add: n_def algebra_simps)
    define com where "com \<longleftrightarrow> c = 10 \<or> c = 4 \<or> n = 127"
    have full: "cons_e s + 1 = cons_r s + 128 \<longleftrightarrow> n = 127"
    proof -
      have "cons_e s + 1 = cons_r s + 128 \<longleftrightarrow> cons_e s + 1 - cons_r s = 128" by (auto simp: algebra_simps)
      also have "\<dots> \<longleftrightarrow> unat (cons_e s + 1 - cons_r s) = unat (128 :: u32)" by (simp only: word_unat_eq_iff)
      finally show ?thesis using er by simp
    qed
    let ?b = "(cons_buf s)[ring (cons_e s) := c]"
    have t: "cons_buf ?t = ?b" "cons_r ?t = cons_r s" "cons_e ?t = cons_e s + 1"
      "cons_w ?t = (if com then cons_e s + 1 else cons_w s)"
      using c0 c n full
      by (auto simp: uart_key_def c_def com_def n_def word_less_nat_alt rv_const Let_def rv_frame)
    have ri: "ring (cons_e s) = (unat (cons_r s) + n) mod 128" "ring (cons_e s) = (unat (cons_w s) + ?m) mod 128"
      using unat_from [of "cons_e s"] by (simp_all add: ring_unat n_def)
    have l: "length (cons_buf s) = 128" using inv by (simp add: cons_inv_def)
    have bc: "?b ! ((unat (cons_r s) + n) mod 128) = c" "?b ! ((unat (cons_w s) + ?m) mod 128) = c"
      using ri l by (metis nth_list_update_eq mod_less_divisor zero_less_numeral)+
    have old: "seg ?b (unat (cons_r s)) ?n = seg (cons_buf s) (unat (cons_r s)) ?n"
      "seg ?b (unat (cons_w s)) ?m = seg (cons_buf s) (unat (cons_w s)) ?m"
      "seg ?b (unat (cons_r s)) n = seg (cons_buf s) (unat (cons_r s)) n"
      using seg_write [of ?n n "cons_buf s" "unat (cons_r s)" c] seg_write [of n n "cons_buf s" "unat (cons_r s)" c]
        seg_write [of ?m ?m "cons_buf s" "unat (cons_w s)" c] m n by (simp_all add: ri(1)) (metis ri)
    show ?thesis
    proof (cases com)
      case True
      have "cons_inv ?t" using True er n l by (simp add: cons_inv_def t)
      moreover have "fst (cons_abs ?t) = seg (cons_buf s) (unat (cons_r s)) n @ [c]"
        using True er bc(1) old(3) by (simp add: cons_abs_def t seg_Suc)
      then have "cons_abs ?t = (fst (cons_abs s) @ snd (cons_abs s) @ [c], [])"
        using True cons_abs_joined(1) [OF inv] by (simp add: cons_abs_def t n_def prod_eq_iff)
      moreover have "line_key c0 (cons_abs s) = (fst (cons_abs s) @ snd (cons_abs s) @ [c], [])"
        using True c0 c len n by (auto simp: line_key_def com_def c_def Let_def split: prod.splits if_splits)
      ultimately show ?thesis by simp
    next
      case nc: False
      have ew: "unat (cons_e s + 1 - cons_w s) = Suc ?m"
        using unat_plus_1 [of "cons_e s - cons_w s"] m n by (simp add: algebra_simps)
      have "cons_inv ?t" using nc er n l m by (simp add: cons_inv_def t com_def)
      moreover have "cons_abs ?t = (fst (cons_abs s), snd (cons_abs s) @ [c])"
        using nc ew bc(2) old by (simp add: cons_abs_def t seg_Suc)
      moreover have "line_key c0 (cons_abs s) = (fst (cons_abs s), snd (cons_abs s) @ [c])"
        using nc c0 c len n by (auto simp: line_key_def com_def c_def Let_def split: prod.splits if_splits)
      ultimately show ?thesis by simp
    qed
  qed
qed

lemma take_next:
  assumes inv: "cons_inv s" and ne: "cons_r s \<noteq> cons_w s"
  shows "cons_inv (s\<lparr>cons_r := cons_r s + 1\<rparr>)"
    and "fst (cons_abs s) = cons_buf s ! ring (cons_r s) # fst (cons_abs (s\<lparr>cons_r := cons_r s + 1\<rparr>))"
    and "snd (cons_abs (s\<lparr>cons_r := cons_r s + 1\<rparr>)) = snd (cons_abs s)"
proof -
  let ?n = "unat (cons_w s - cons_r s)" and ?e = "unat (cons_e s - cons_r s)"
  have "cons_w s - cons_r s \<noteq> 0" using ne by simp
  then have wr: "unat (cons_w s - (cons_r s + 1)) = ?n - 1" "0 < ?n"
    using unat_minus_1 [of "cons_w s - cons_r s"] by (simp_all add: algebra_simps unat_gt_0)
  have le: "?n \<le> ?e" using inv by (simp add: cons_inv_def)
  then have "cons_e s - cons_r s \<noteq> 0" using wr(2) by (metis le_zero_eq less_irrefl unat_0)
  then have er: "unat (cons_e s - (cons_r s + 1)) = ?e - 1"
    using unat_minus_1 [of "cons_e s - cons_r s"] by (simp add: algebra_simps)
  show "cons_inv (s\<lparr>cons_r := cons_r s + 1\<rparr>)" using inv wr er le by (auto simp: cons_inv_def)
  obtain k where k: "?n = Suc k" using wr(2) gr0_conv_Suc by blast
  have "seg (cons_buf s) (Suc (unat (cons_r s))) k = seg (cons_buf s) (unat (cons_r s + 1)) k"
    using unat_shift [of "cons_r s" 1] by (intro seg_mod) simp
  then show "fst (cons_abs s) = cons_buf s ! ring (cons_r s) # fst (cons_abs (s\<lparr>cons_r := cons_r s + 1\<rparr>))"
    using wr k by (simp add: cons_abs_def seg_cons ring_unat)
  show "snd (cons_abs (s\<lparr>cons_r := cons_r s + 1\<rparr>)) = snd (cons_abs s)" by (simp add: cons_abs_def)
qed

lemma take_refines:
  assumes "cons_inv s"
  shows "case console_take n i s of (bs, slp, s') \<Rightarrow>
    cons_inv s' \<and> (bs, slp, fst (cons_abs s')) = line_take n i (fst (cons_abs s)) \<and> snd (cons_abs s') = snd (cons_abs s)"
  using assms
proof (induction n arbitrary: i s)
  case (Suc n)
  show ?case
  proof (cases "cons_r s = cons_w s")
    case True
    then have "fst (cons_abs s) = []" by (simp add: cons_abs_def)
    then show ?thesis using True Suc.prems by simp
  next
    case False
    let ?t = "s\<lparr>cons_r := cons_r s + 1\<rparr>" and ?c = "cons_buf s ! ring (cons_r s)"
    note t = take_next [OF Suc.prems False]
    obtain bs slp u where u: "console_take n (Suc i) ?t = (bs, slp, u)" by (metis prod_cases3)
    have undo: "?t\<lparr>cons_r := cons_r ?t - 1\<rparr> = s" by simp
    show ?thesis using Suc.IH [OF t(1), of "Suc i"] t Suc.prems False u undo
      by (auto simp: Let_def split: prod.splits)
  qed
qed simp

interpretation ringbuf: line_input "cons_inv :: 'a uart_scheme \<Rightarrow> bool" cons_abs "uart_key h" console_take for h
proof
  fix s :: "'a uart_scheme" and c n i
  show "cons_inv s \<Longrightarrow> cons_inv (uart_key h c s) \<and> cons_abs (uart_key h c s) = line_key c (cons_abs s)"
    using key_back [of s c h] key_add [of s c h] by blast
  show "cons_inv s \<Longrightarrow> case console_take n i s of (bs, slp, s') \<Rightarrow>
      cons_inv s' \<and> (bs, slp, fst (cons_abs s')) = line_take n i (fst (cons_abs s)) \<and> snd (cons_abs s') = snd (cons_abs s)"
    by (rule take_refines)
qed

subsection \<open>Numbers\<close>

definition digit_val :: "u8 \<Rightarrow> nat" where
  "digit_val d = length (takeWhile (\<lambda>e. e \<noteq> d) digits)"

definition num_val :: "nat \<Rightarrow> u8 list \<Rightarrow> nat" where
  "num_val base ds = foldl (\<lambda>a d. a * base + digit_val d) 0 ds"

lemma digit_vals: "i < 16 \<Longrightarrow> digit_val (digits ! i) = i"
proof -
  have "\<forall>i \<in> set [0..<16]. digit_val (digits ! i) = i" by code_simp
  then show "i < 16 \<Longrightarrow> ?thesis" by simp
qed

lemma print_digits_val:
  assumes "2 \<le> unat base" "unat base \<le> 16"
  shows "num_val (unat base) (rev (print_digits base x)) = unat x"
  using assms
proof (induction base x rule: print_digits.induct)
  case (1 base x)
  have d: "digit_val (digits ! unat (x mod base)) = unat x mod unat base"
  proof -
    have "unat x mod unat base < unat base" using 1(2) by simp
    then have "unat (x mod base) < 16" using 1(3) by (simp add: unat_mod)
    then show ?thesis by (simp add: digit_vals unat_mod)
  qed
  have b: "\<not> base < 2" using 1(2) by (simp add: word_less_nat_alt)
  show ?case
  proof (cases "x div base = 0")
    case True
    then have "unat x div unat base = 0" by (metis unat_0 unat_div)
    then have "unat x mod unat base = unat x" by (metis add_0 div_mult_mod_eq mult_zero_left)
    then show ?thesis using True d by (simp add: print_digits.simps [of base x] num_val_def)
  next
    case False
    then have "num_val (unat base) (rev (print_digits base (x div base))) = unat (x div base)"
      using 1 b by blast
    then show ?thesis using False b d by (simp add: print_digits.simps [of base x] num_val_def unat_div)
  qed
qed

lemma print_digits_length:
  assumes "2 \<le> unat base" and "unat x < unat base ^ Suc k"
  shows "length (print_digits base x) \<le> Suc k"
  using assms(2)
proof (induction k arbitrary: x)
  case 0
  then have "x div base = 0" by (metis div_less power_one_right unat_0_iff unat_div One_nat_def)
  then show ?case by (simp add: print_digits.simps [of base x])
next
  case (Suc k)
  have "unat (x div base) < unat base ^ Suc k"
    using Suc.prems assms(1) by (simp add: unat_div less_mult_imp_div_less mult.commute)
  then have "length (print_digits base (x div base)) \<le> Suc k" by (rule Suc.IH)
  then show ?case by (simp add: print_digits.simps [of base x])
qed

lemma putc_fold: "uart_inited s \<Longrightarrow> fold uart_putc_no_lock cs s = s\<lparr>uart_out := uart_out s @ cs\<rparr>"
  by (induction cs arbitrary: s) (simp_all add: uart_putc_no_lock_def)

subsection \<open>The interrupt handler\<close>

lemma putc_rx: "uart_rx (uart_putc c s) = uart_rx s" "uart_inited (uart_putc c s) = uart_inited s"
  by (simp_all add: uart_putc_def uart_putc_no_lock_def)

lemma wakeup_rx: "uart_rx (wakeup h ch s) = uart_rx s" "uart_inited (wakeup h ch s) = uart_inited s"
  by (simp_all add: wakeup_def myproc_def)

lemma key_rx [rv_frame]: "uart_rx (uart_key h c s) = uart_rx s" "uart_inited (uart_key h c s) = uart_inited s"
  by (simp_all add: uart_key_def Let_def putc_rx wakeup_rx)

lemma cons_rx [rv_frame]: "cons_inv (s\<lparr>uart_rx := xs\<rparr>) = cons_inv s" "cons_abs (s\<lparr>uart_rx := xs\<rparr>) = cons_abs s"
  by (simp_all add: cons_inv_def cons_abs_def)

lemma drain_refines:
  assumes "cons_inv s" and "uart_inited s" and "length (uart_rx s) < n"
  shows "cons_inv (uart_drain n h s) \<and> cons_abs (uart_drain n h s) = fold line_key (uart_rx s) (cons_abs s)"
  using assms
proof (induction n arbitrary: s)
  case (Suc n)
  show ?case
  proof (cases "uart_rx s")
    case Nil
    then show ?thesis using Suc.prems by (simp add: uart_getc_def)
  next
    case (Cons c cs)
    let ?s = "s\<lparr>uart_rx := cs\<rparr>"
    let ?t = "uart_key h c ?s"
    have k: "cons_inv ?t" "cons_abs ?t = line_key c (cons_abs s)"
      using ringbuf.key_refines [of ?s h c] Suc.prems(1) by (simp_all add: rv_frame)
    have "cons_inv (uart_drain n h ?t) \<and> cons_abs (uart_drain n h ?t) = fold line_key (uart_rx ?t) (cons_abs ?t)"
      using Suc.prems Cons k(1) by (intro Suc.IH) (simp_all add: rv_frame)
    then show ?thesis using Suc.prems Cons k(2) by (simp add: uart_getc_def rv_frame)
  qed
qed simp

subsection \<open>Properties\<close>

text \<open>
  C18. The input ring refines the line discipline: from a state in which the indices are at most 128 apart,
  also where they wrap around at 32 bits, every received byte and every read act on the committed queue
  and the edited line exactly as specified, and keep the indices so. In particular a full ring is always
  committed, so a reader can empty it.
\<close>

theorem console_refines:
  assumes "cons_inv s"
  shows "cons_inv (uart_key h c s) \<and> cons_abs (uart_key h c s) = line_key c (cons_abs s) \<and>
    (case console_take n i s of (bs, slp, s') \<Rightarrow>
       cons_inv s' \<and> cons_abs s' = (snd (snd (line_take n i (fst (cons_abs s)))), snd (cons_abs s)) \<and>
       bs = fst (line_take n i (fst (cons_abs s))) \<and> slp = fst (snd (line_take n i (fst (cons_abs s)))))"
  using ringbuf.key_refines [OF assms, of h c] ringbuf.get_refines [OF assms, of n i]
  by (auto simp: prod_eq_iff split: prod.splits)

definition demo_uart :: "u32 \<Rightarrow> u8 list \<Rightarrow> uart" where
  "demo_uart i rx = proc_table.extend (demo_table [])
     \<lparr>cons_buf = replicate 128 0, cons_r = i, cons_w = i, cons_e = i, uart_inited = True, uart_regs = [],
      uart_out = [], sbi_out = [], uart_rx = rx\<rparr>"

lemma demo_uart_ok: "cons_inv (demo_uart i rx) \<and> cons_abs (demo_uart i rx) = ([], []) \<and> uart_inited (demo_uart i rx) \<and>
    uart_rx (demo_uart i rx) = rx"
  by (simp add: demo_uart_def proc_table.defs demo_table_def cons_inv_def cons_abs_def)

theorem console_refines_witness:
  "cons_abs (uart_key 0 65 (demo_uart (- 1) [])) = ([], [65])"
  using console_refines [of "demo_uart (- 1) []" 0 65 0 0] demo_uart_ok [of "- 1" "[]"]
  by (simp add: line_key_def)

text \<open>
  A line typed is the line read: with nothing pending, any up to 127 ordinary bytes followed by Enter
  reach the next read of a larger buffer in order, ended by a newline, without sleeping; nothing is
  left over, and the indices may start anywhere.
\<close>

theorem typed_line_read:
  assumes "cons_inv s" and "cons_abs s = ([], [])" and "uart_inited s" and "uart_rx s = cs @ [13]"
    and "\<forall>c \<in> set cs. c \<notin> {0, 4, 8, 10, 13, 127}" and "length cs < 128" and "int (length cs) < sint n"
  shows "case console_read n (uart_intr h s) of (bs, slp, s') \<Rightarrow>
    bs = cs @ [10] \<and> \<not> slp \<and> cons_inv s' \<and> cons_abs s' = ([], [])"
proof -
  let ?t = "uart_intr h s"
  have t: "cons_inv ?t \<and> cons_abs ?t = fold line_key (cs @ [13]) ([], [])"
    using drain_refines [OF assms(1,3), of "Suc (length (uart_rx s))" h] assms(2,4)
    by (simp add: uart_intr_def del: uart_drain.simps)
  have "case console_take (nat (sint n)) 0 ?t of (bs, slp, s') \<Rightarrow>
      bs = cs @ [10] \<and> \<not> slp \<and> cons_inv s' \<and> cons_abs s' = ([], [])"
    using t ringbuf.line_typed [OF assms(5,6)] assms(5,7) by (intro ringbuf.read_line) auto
  then show ?thesis by (simp add: console_read_def)
qed

theorem typed_line_read_witness:
  "fst (console_read 100 (uart_intr 0 (demo_uart (- 2) [108, 115, 13]))) = [108, 115, 10]"
  using typed_line_read [of "demo_uart (- 2) [108, 115, 13]" "[108, 115]" 100 0] demo_uart_ok [of "- 2" "[108, 115, 13]"]
  by (auto split: prod.splits)

text \<open>
  \<^verbatim>\<open>printint\<close> in base 10 and 16 writes a minus sign exactly for negative signed arguments and then the
  digits of the absolute value: read back they give the number, and they fit the 16-byte buffer.
\<close>

theorem printint_correct:
  assumes "uart_inited s" and "base = 10 \<or> base = 16"
  shows "\<exists>ds. printint xx base sign s = s\<lparr>uart_out := uart_out s @ (if sign \<and> sint xx < 0 then [45] else []) @ ds\<rparr> \<and>
    num_val (unat base) ds = (if sign then nat \<bar>sint xx\<bar> else unat xx) \<and>
    length ((if sign \<and> sint xx < 0 then [45] else []) @ ds) \<le> 11"
proof -
  define neg where "neg \<longleftrightarrow> sign \<and> sint xx < 0"
  define x where "x = (if neg then - xx else xx)"
  let ?ds = "rev (print_digits base x)"
  have b: "2 \<le> unat base" "unat base \<le> 16" using assms(2) by auto
  have "unat x < 2 ^ 32" using unsigned_less [of x] by simp
  then have "unat x < unat base ^ Suc 9" using assms(2) by auto
  then have l: "length ?ds \<le> 10" using print_digits_length [OF b(1)] by fastforce
  have "printint xx base sign s = s\<lparr>uart_out := uart_out s @ (if neg then [45] else []) @ ?ds\<rparr>"
    by (simp add: printint_def Let_def putc_fold [OF assms(1)] flip: neg_def x_def)
  moreover have "unat x = (if sign then nat \<bar>sint xx\<bar> else unat xx)"
  proof (cases sign)
    case True
    then show ?thesis using unat_abs [of xx] by (simp add: x_def neg_def)
  qed (simp add: x_def neg_def)
  ultimately show ?thesis using print_digits_val [OF b, of x] l
    by (intro exI [of _ ?ds]) (simp add: neg_def)
qed

theorem printint_correct_witness:
  "\<exists>ds. uart_out (printint (- 42) 10 True (demo_uart 0 [])) = [45] @ ds \<and> num_val 10 ds = 42"
proof -
  have s: "sint (- 42 :: u32) = -42" by simp
  have i: "uart_inited (demo_uart 0 [])" "uart_out (demo_uart 0 []) = []"
    by (simp_all add: demo_uart_def proc_table.defs demo_table_def)
  from printint_correct [OF i(1), of 10 "- 42" True] show ?thesis by (auto simp: i(2) s)
qed

end
