(* ===== verification/RV_Disk.thy ===== *)
theory RV_Disk
  imports RV_Console
begin

text \<open>
  The lower half of \<^verbatim>\<open>kernelspace/fs/fs.c\<close>: the legacy virtio block driver and the FAT table. The state
  \<open>kernel\<close> completes the kernel state by the disk, the driver's queue, the mounted volume and the open
  files. Sectors are lists of 512 bytes, and the packed structures are read and written at their byte
  offsets.

  The device is code outside the repository. It is the field \<open>dev\<close>: the identification it shows, the
  status it returns for each request, what a failed read leaves in the buffer, and whether a failed
  write was stored; a request with status 0 transfers the sector, as the virtio specification has it.

  The interface \<open>fat_table\<close> states the laws of reading and linking clusters; it is interpreted on
  \<open>get_next_cluster\<close> and \<open>set_next_cluster\<close> and carries the proofs about cluster chains.
\<close>

subsection \<open>Bytes\<close>

fun of_le :: "u8 list \<Rightarrow> u32" where
  "of_le [] = 0"
| "of_le (b # bs) = ucast b OR push_bit 8 (of_le bs)"

definition to_le16 :: "u16 \<Rightarrow> u8 list" where
  "to_le16 v = [ucast v, ucast (drop_bit 8 v)]"

definition to_le32 :: "u32 \<Rightarrow> u8 list" where
  "to_le32 v = [ucast v, ucast (drop_bit 8 v), ucast (drop_bit 16 v), ucast (drop_bit 24 v)]"

definition get16 :: "u8 list \<Rightarrow> nat \<Rightarrow> u16" where
  "get16 b off = ucast (of_le (take 2 (drop off b)))"

definition get32 :: "u8 list \<Rightarrow> nat \<Rightarrow> u32" where
  "get32 b off = of_le (take 4 (drop off b))"

definition put_bytes :: "nat \<Rightarrow> u8 list \<Rightarrow> u8 list \<Rightarrow> u8 list" where
  "put_bytes off bs b = take off b @ bs @ drop (off + length bs) b"

definition put16 :: "nat \<Rightarrow> u16 \<Rightarrow> u8 list \<Rightarrow> u8 list" where
  "put16 off v b = put_bytes off (to_le16 v) b"

definition put32 :: "nat \<Rightarrow> u32 \<Rightarrow> u8 list \<Rightarrow> u8 list" where
  "put32 off v b = put_bytes off (to_le32 v) b"

subsection \<open>State\<close>

record device =
  dv_magic :: u32
  dv_version :: u32
  dv_id :: u32
  dv_queue_max :: u32
  dv_status :: "nat \<Rightarrow> u8"
  dv_read_fail :: "nat \<Rightarrow> u8 list \<Rightarrow> u8 list"
  dv_write_fail :: "nat \<Rightarrow> bool"

text \<open>What a descriptor points to: the request header, the data buffer or the status byte.\<close>

datatype dma = DmaOps | DmaBuf | DmaStatus

record virtq_desc =
  d_addr :: dma
  d_len :: u32
  d_flags :: u16
  d_next :: u16

record virtio_blk_req =
  rq_type :: u32
  rq_reserved :: u32
  rq_sector :: u64

record vdisk =
  vq_page :: u64
  vq_desc :: "virtq_desc list"
  vq_avail_idx :: u16
  vq_avail_ring :: "u16 list"
  vq_status :: u8
  vq_ops :: virtio_blk_req
  vq_regs :: "(nat \<times> u32) list"

record fat32_fs =
  first_data_sector :: u32
  fat_sector :: u32
  sectors_per_cluster :: u32
  root_cluster :: u32
  fat_size :: u32
  cache_page :: "u8 list"

record file_t =
  f_ref :: int
  f_readable :: bool
  f_writable :: bool
  f_offset :: u32
  f_first_cluster :: u32
  f_file_size :: u32
  f_name :: string

text \<open>\<open>requests\<close> counts the requests sent to the device; \<open>files\<close> holds the file objects by their address.\<close>

record kernel = uart +
  dev :: device
  disk :: "u32 \<Rightarrow> u8 list"
  requests :: nat
  vq :: vdisk
  fs :: fat32_fs
  file_cache :: kmem_cache
  files :: "u64 \<Rightarrow> file_t option"

definition SECTOR_SIZE :: u32 where [rv_const]: "SECTOR_SIZE = 512"
definition VIRTIO_BLK_T_IN :: u32 where [rv_const]: "VIRTIO_BLK_T_IN = 0"
definition VIRTIO_BLK_T_OUT :: u32 where [rv_const]: "VIRTIO_BLK_T_OUT = 1"
definition VIRTQ_DESC_F_NEXT :: u16 where [rv_const]: "VIRTQ_DESC_F_NEXT = 1"
definition VIRTQ_DESC_F_WRITE :: u16 where [rv_const]: "VIRTQ_DESC_F_WRITE = 2"

subsection \<open>The block driver\<close>

definition vreg :: "nat \<Rightarrow> u32 \<Rightarrow> kernel \<Rightarrow> kernel" where
  "vreg off v s = s\<lparr>vq := (vq s)\<lparr>vq_regs := vq_regs (vq s) @ [(off, v)]\<rparr>\<rparr>"

definition virtio_disk_init :: "kernel \<Rightarrow> (int \<times> kernel) res" where
  "virtio_disk_init s =
     (if dv_magic (dev s) \<noteq> 0x74726976 \<or> dv_version (dev s) \<noteq> 1 \<or> dv_id (dev s) \<noteq> 2
      then Inl (Panic ''virtio_disk_init: non-legacy device or no disk found'')
      else
        let s1 = vreg 0x030 0 (vreg 0x020 0 (vreg 0x070 3 (vreg 0x070 1 s))) in
        if dv_queue_max (dev s1) < 16 then Inl (Panic ''virtio_disk_init: queue too small'')
        else
          let (p, s2) = kalloc (vreg 0x038 16 s1) in
          if p = 0 then Inr (-1, s2)
          else
            let s3 = s2\<lparr>mem := fill_page (mem s2) p 0, vq := (vq s2)\<lparr>vq_page := p\<rparr>\<rparr>
            in Inr (0, vreg 0x070 7 (vreg 0x040 (ucast (drop_bit 12 p)) (vreg 0x03c 2048 (vreg 0x028 4096 s3)))))"

text \<open>Filling the header, the three descriptors and the available ring, and the doorbell.\<close>

definition submit :: "u32 \<Rightarrow> u16 \<Rightarrow> u32 \<Rightarrow> kernel \<Rightarrow> kernel" where
  "submit typ dflags sector s =
     (let q = vq s;
          q1 = q\<lparr>vq_status := 0xff,
                 vq_ops := \<lparr>rq_type = typ, rq_reserved = 0, rq_sector = ucast sector\<rparr>,
                 vq_desc := [\<lparr>d_addr = DmaOps, d_len = 16, d_flags = VIRTQ_DESC_F_NEXT, d_next = 1\<rparr>,
                             \<lparr>d_addr = DmaBuf, d_len = 512, d_flags = dflags, d_next = 2\<rparr>,
                             \<lparr>d_addr = DmaStatus, d_len = 1, d_flags = VIRTQ_DESC_F_WRITE, d_next = 0\<rparr>] @ drop 3 (vq_desc q),
                 vq_avail_ring := (vq_avail_ring q)[unat (vq_avail_idx q mod 16) := 0],
                 vq_avail_idx := vq_avail_idx q + 1\<rparr>
      in vreg 0x050 0 (s\<lparr>vq := q1, requests := requests s + 1\<rparr>))"

text \<open>
  \<^verbatim>\<open>disk_read(sector, buf, 1)\<close> with the old contents of the buffer: success, the contents after the
  call, and the state. A status still 0xff when the polling loop gives up is the time-out.
\<close>

definition disk_read :: "u32 \<Rightarrow> u8 list \<Rightarrow> kernel \<Rightarrow> bool \<times> u8 list \<times> kernel" where
  "disk_read sector buf s =
     (let st = dv_status (dev s) (requests s);
          s1 = submit VIRTIO_BLK_T_IN (VIRTQ_DESC_F_NEXT OR VIRTQ_DESC_F_WRITE) sector s;
          s2 = s1\<lparr>vq := (vq s1)\<lparr>vq_status := st\<rparr>\<rparr>
      in if st = 0xff then (False, dv_read_fail (dev s) (requests s) buf, s2)
         else if st \<noteq> 0 then (False, dv_read_fail (dev s) (requests s) buf, s2)
         else (True, disk s sector, s2))"

definition disk_write :: "u32 \<Rightarrow> u8 list \<Rightarrow> kernel \<Rightarrow> bool \<times> kernel" where
  "disk_write sector buf s =
     (let st = dv_status (dev s) (requests s);
          s1 = submit VIRTIO_BLK_T_OUT VIRTQ_DESC_F_NEXT sector s;
          s2 = s1\<lparr>vq := (vq s1)\<lparr>vq_status := st\<rparr>\<rparr>;
          s3 = s2\<lparr>disk := (disk s2)(sector := buf)\<rparr>
      in if st \<noteq> 0 then (False, if dv_write_fail (dev s) (requests s) then s3 else s2) else (True, s3))"

text \<open>Reading into, and writing from, \<^verbatim>\<open>fs.cache_page\<close>.\<close>

definition read_cache :: "u32 \<Rightarrow> kernel \<Rightarrow> bool \<times> kernel" where
  "read_cache sector s =
     (case disk_read sector (cache_page (fs s)) s of (ok, b, s1) \<Rightarrow> (ok, s1\<lparr>fs := (fs s1)\<lparr>cache_page := b\<rparr>\<rparr>))"

definition upd_cache :: "(u8 list \<Rightarrow> u8 list) \<Rightarrow> kernel \<Rightarrow> kernel" where
  "upd_cache f s = s\<lparr>fs := (fs s)\<lparr>cache_page := f (cache_page (fs s))\<rparr>\<rparr>"

definition write_cache :: "u32 \<Rightarrow> kernel \<Rightarrow> kernel" where
  "write_cache sector s = snd (disk_write sector (cache_page (fs s)) s)"

subsection \<open>Mounting\<close>

text \<open>The fields of \<^verbatim>\<open>FAT32_BPB\<close> that are used, at their offsets in the packed structure.\<close>

definition bpb_sectors_per_cluster :: "u8 list \<Rightarrow> u8" where "bpb_sectors_per_cluster b = b ! 13"
definition bpb_reserved_sectors :: "u8 list \<Rightarrow> u16" where "bpb_reserved_sectors b = get16 b 14"
definition bpb_fat_count :: "u8 list \<Rightarrow> u8" where "bpb_fat_count b = b ! 16"
definition bpb_fat_size_32 :: "u8 list \<Rightarrow> u32" where "bpb_fat_size_32 b = get32 b 36"
definition bpb_root_cluster :: "u8 list \<Rightarrow> u32" where "bpb_root_cluster b = get32 b 44"

definition fs_init :: "kernel \<Rightarrow> kernel res" where
  "fs_init s =
     (let (fc, s1) = kmem_cache_create 64 s in
      case fc of
        None \<Rightarrow> Inl (Panic ''fs_init: kmem_cache_create failed'')
      | Some (_, c) \<Rightarrow>
          rbind (virtio_disk_init (s1\<lparr>file_cache := c\<rparr>)) (\<lambda>(r, s2).
            if r < 0 then Inl (Panic ''fs_init: disk init failed'')
            else
              let (p, s3) = kalloc s2 in
              if p = 0 then Inl (Panic ''fs_init: kalloc failed'')
              else
                let (ok, s4) = read_cache 0 (s3\<lparr>fs := (fs s3)\<lparr>cache_page := replicate 512 5\<rparr>\<rparr>) in
                if \<not> ok then Inl (Panic ''fs_init: disk_read(0) failed'')
                else
                  let b = cache_page (fs s4)
                  in Inr (s4\<lparr>fs := (fs s4)\<lparr>fat_sector := ucast (bpb_reserved_sectors b),
                            fat_size := bpb_fat_size_32 b,
                            sectors_per_cluster := ucast (bpb_sectors_per_cluster b),
                            root_cluster := bpb_root_cluster b,
                            first_data_sector := ucast (bpb_reserved_sectors b) + ucast (bpb_fat_count b) * bpb_fat_size_32 b\<rparr>\<rparr>)))"

definition fs_get_root_cluster :: "kernel \<Rightarrow> u32" where
  "fs_get_root_cluster s = root_cluster (fs s)"

subsection \<open>The allocation table\<close>

definition cluster_to_sector :: "kernel \<Rightarrow> u32 \<Rightarrow> u32" where
  "cluster_to_sector s cluster = first_data_sector (fs s) + (cluster - 2) * sectors_per_cluster (fs s)"

definition fat_sector_of :: "kernel \<Rightarrow> u32 \<Rightarrow> u32" where
  "fat_sector_of s cluster = fat_sector (fs s) + (cluster * 4) div SECTOR_SIZE"

definition fat_entry_offset :: "u32 \<Rightarrow> nat" where
  "fat_entry_offset cluster = unat ((cluster * 4) mod SECTOR_SIZE)"

definition get_next_cluster :: "u32 \<Rightarrow> kernel \<Rightarrow> u32 \<times> kernel" where
  "get_next_cluster cluster s =
     (case disk_read (fat_sector_of s cluster) [] s of (ok, buf, s1) \<Rightarrow>
        if \<not> ok then (0x0FFFFFFF, s1)
        else (get32 buf (fat_entry_offset cluster) AND 0x0FFFFFFF, s1))"

definition set_next_cluster :: "u32 \<Rightarrow> u32 \<Rightarrow> kernel \<Rightarrow> bool \<times> kernel" where
  "set_next_cluster cluster next s =
     (case disk_read (fat_sector_of s cluster) [] s of (ok, buf, s1) \<Rightarrow>
        if \<not> ok then (False, s1)
        else disk_write (fat_sector_of s cluster) (put32 (fat_entry_offset cluster) next buf) s1)"

text \<open>The first free entry of a table sector, for entries \<open>i\<close> on; clusters 0 and 1 are passed over.\<close>

primrec free_entry :: "nat \<Rightarrow> u32 \<Rightarrow> u8 list \<Rightarrow> nat \<Rightarrow> nat option" where
  "free_entry 0 sec buf i = None"
| "free_entry (Suc n) sec buf i =
     (if get32 buf (4 * i) AND 0x0FFFFFFF = 0 \<and> \<not> (sec * SECTOR_SIZE + of_nat (4 * i)) div 4 < 2 then Some i
      else free_entry n sec buf (Suc i))"

primrec clear_sectors :: "nat \<Rightarrow> u32 \<Rightarrow> kernel \<Rightarrow> kernel" where
  "clear_sectors 0 sector s = s"
| "clear_sectors (Suc n) sector s = clear_sectors n (sector + 1) (snd (disk_write sector (replicate 512 0) s))"

primrec alloc_scan :: "nat \<Rightarrow> u32 \<Rightarrow> kernel \<Rightarrow> u32 \<times> kernel" where
  "alloc_scan 0 sec s = (0, s)"
| "alloc_scan (Suc n) sec s =
     (case disk_read (fat_sector (fs s) + sec) [] s of (ok, buf, s1) \<Rightarrow>
        if \<not> ok then (0, s1)
        else
          case free_entry 128 sec buf 0 of
            None \<Rightarrow> alloc_scan n (sec + 1) s1
          | Some i \<Rightarrow>
              let cluster = (sec * SECTOR_SIZE + of_nat (4 * i)) div 4;
                  (_, s2) = disk_write (fat_sector (fs s1) + sec) (put32 (4 * i) 0x0FFFFFFF buf) s1
              in (cluster, clear_sectors (unat (sectors_per_cluster (fs s2))) (cluster_to_sector s2 cluster) s2))"

definition alloc_cluster :: "kernel \<Rightarrow> u32 \<times> kernel" where
  "alloc_cluster s = alloc_scan (unat (fat_size (fs s))) 0 s"

text \<open>A value that ends a chain, and the loop over one; the fuel is the number of table entries.\<close>

definition in_chain :: "u32 \<Rightarrow> bool" where
  "in_chain cluster \<longleftrightarrow> 2 \<le> cluster \<and> cluster < 0x0FFFFFF8"

definition fat_entries :: "kernel \<Rightarrow> nat" where
  "fat_entries s = unat (fat_size (fs s)) * 128"

primrec clear_chain :: "nat \<Rightarrow> u32 \<Rightarrow> kernel \<Rightarrow> kernel res" where
  "clear_chain 0 cluster s =
     (if in_chain cluster then Inl (Undefined ''clear_cluster_chain: endless chain'') else Inr s)"
| "clear_chain (Suc n) cluster s =
     (if in_chain cluster then
        let (nxt, s1) = get_next_cluster cluster s;
            (_, s2) = set_next_cluster cluster 0 s1
        in clear_chain n nxt s2
      else Inr s)"

definition clear_cluster_chain :: "u32 \<Rightarrow> kernel \<Rightarrow> kernel res" where
  "clear_cluster_chain cluster s = clear_chain (fat_entries s) cluster s"

subsection \<open>Bytes: lemmas\<close>

lemma length_put_bytes [simp]: "off + length bs \<le> length b \<Longrightarrow> length (put_bytes off bs b) = length b"
  by (simp add: put_bytes_def)

lemma take_drop_put:
  assumes "off + length bs \<le> length b"
  shows "take (length bs) (drop off (put_bytes off bs b)) = bs"
  using assms by (simp add: put_bytes_def)

lemma take_drop_put_other:
  assumes "off + length bs \<le> length b" and "o' + n \<le> off \<or> off + length bs \<le> o'"
  shows "take n (drop o' (put_bytes off bs b)) = take n (drop o' b)"
proof (rule nth_equalityI)
  have l: "length (put_bytes off bs b) = length b" using assms(1) by simp
  show "length (take n (drop o' (put_bytes off bs b))) = length (take n (drop o' b))" by (simp add: l)
  fix i assume "i < length (take n (drop o' (put_bytes off bs b)))"
  then have i: "i < n" "o' + i < length b" by (auto simp: l)
  have "put_bytes off bs b ! (o' + i) = b ! (o' + i)"
    using assms i by (auto simp: put_bytes_def nth_append)
  then show "take n (drop o' (put_bytes off bs b)) ! i = take n (drop o' b) ! i"
    using i l by simp
qed

lemma length_to_le [simp]: "length (to_le32 v) = 4" "length (to_le16 u) = 2"
  by (simp_all add: to_le32_def to_le16_def)

lemma of_to_le32: "of_le (to_le32 v) = v"
proof (rule bit_word_eqI)
  fix n assume "n < LENGTH(32)"
  then have "n < 32" by simp
  then consider "n < 8" | "8 \<le> n \<and> n < 16" | "16 \<le> n \<and> n < 24" | "24 \<le> n" by linarith
  then show "bit (of_le (to_le32 v)) n = bit v n"
    using \<open>n < 32\<close> by cases (auto simp: to_le32_def bit_simps)
qed

lemma get_put32: "off + 4 \<le> length b \<Longrightarrow> get32 (put32 off v b) off = v"
  using take_drop_put [of off "to_le32 v" b] by (simp add: get32_def put32_def of_to_le32)

lemma get_put32_other:
  "off + 4 \<le> length b \<Longrightarrow> o' + 4 \<le> off \<or> off + 4 \<le> o' \<Longrightarrow> get32 (put32 off v b) o' = get32 b o'"
  using take_drop_put_other [of off "to_le32 v" b o' 4] by (simp add: get32_def put32_def)

lemma length_put32 [simp]: "off + 4 \<le> length b \<Longrightarrow> length (put32 off v b) = length b"
  by (simp add: put32_def)

subsection \<open>Requests\<close>

definition dev_ok :: "kernel \<Rightarrow> bool" where
  "dev_ok s \<longleftrightarrow> (\<forall>n. dv_status (dev s) n = 0)"

definition after_read :: "u32 \<Rightarrow> kernel \<Rightarrow> kernel" where
  "after_read x s = snd (snd (disk_read x [] s))"

definition after_write :: "u32 \<Rightarrow> u8 list \<Rightarrow> kernel \<Rightarrow> kernel" where
  "after_write x b s = snd (disk_write x b s)"

lemma disk_read_ok: "dev_ok s \<Longrightarrow> disk_read x b s = (True, disk s x, after_read x s)"
  by (simp add: dev_ok_def disk_read_def after_read_def Let_def)

lemma disk_write_ok: "dev_ok s \<Longrightarrow> disk_write x b s = (True, after_write x b s)"
  by (simp add: dev_ok_def disk_write_def after_write_def Let_def)

lemma after_read_frame [simp]: "disk (after_read x s) = disk s" "fs (after_read x s) = fs s" "dev (after_read x s) = dev s"
  by (simp_all add: after_read_def disk_read_def submit_def vreg_def Let_def)

lemma after_write_frame [simp]: "fs (after_write x b s) = fs s" "dev (after_write x b s) = dev s"
  by (simp_all add: after_write_def disk_write_def submit_def vreg_def Let_def)

lemma after_write_disk [simp]: "dev_ok s \<Longrightarrow> disk (after_write x b s) = (disk s)(x := b)"
  by (simp add: dev_ok_def after_write_def disk_write_def submit_def vreg_def Let_def)

lemma dev_ok_frame [simp]: "dev_ok (after_read x s) = dev_ok s" "dev_ok (after_write x b s) = dev_ok s"
  by (simp_all add: dev_ok_def)

subsection \<open>Volumes\<close>

text \<open>
  A healthy volume: the device answers, sectors have 512 bytes, the cluster size is one a boot sector can state, and the tables end before the data, which
  fits the 32-bit sector numbers. \<open>fatval\<close> is the entry of a cluster.
\<close>

definition vol_wf :: "kernel \<Rightarrow> bool" where
  "vol_wf s \<longleftrightarrow> dev_ok s \<and> (\<forall>x. length (disk s x) = 512) \<and> 0 < sectors_per_cluster (fs s) \<and>
     sectors_per_cluster (fs s) < 256 \<and> fat_entries s < 2 ^ 28 \<and>
     unat (fat_sector (fs s)) + unat (fat_size (fs s)) \<le> unat (first_data_sector (fs s)) \<and>
     unat (first_data_sector (fs s)) + fat_entries s * unat (sectors_per_cluster (fs s)) < 2 ^ 32"

definition fatval :: "kernel \<Rightarrow> u32 \<Rightarrow> u32" where
  "fatval s c = get32 (disk s (fat_sector_of s c)) (fat_entry_offset c) AND 0x0FFFFFFF"

abbreviation in_table :: "kernel \<Rightarrow> u32 \<Rightarrow> bool" where
  "in_table s c \<equiv> unat c < fat_entries s"

lemma u32_mult4: "unat c < 2 ^ 28 \<Longrightarrow> unat (c * 4 :: u32) = 4 * unat c"
  using unat_mult_lem [of c 4] by simp

lemma entry_offset: "unat c < 2 ^ 28 \<Longrightarrow> fat_entry_offset c = 4 * (unat c mod 128)"
proof -
  assume "unat c < 2 ^ 28"
  then have "fat_entry_offset c = (4 * unat c) mod (4 * 128)"
    by (simp add: fat_entry_offset_def rv_const unat_mod u32_mult4)
  then show ?thesis by (simp only: mult_mod_right)
qed

lemma sector_of:
  assumes "vol_wf s" and "in_table s c"
  shows "unat (fat_sector_of s c) = unat (fat_sector (fs s)) + unat c div 128"
    and "unat (fat_sector_of s c) < unat (first_data_sector (fs s))"
proof -
  have c: "unat c < 2 ^ 28" using assms by (simp add: vol_wf_def)
  have d: "unat (c * 4 div 512) = unat c div 128"
  proof -
    have "unat (c * 4 div 512) = (4 * unat c) div (4 * 128)" by (simp add: unat_div u32_mult4 [OF c])
    then show ?thesis by (simp only: div_mult_mult1_if) simp
  qed
  have k: "unat c div 128 < unat (fat_size (fs s))"
    using assms(2) by (simp add: fat_entries_def less_mult_imp_div_less)
  have lay: "unat (fat_sector (fs s)) + unat (fat_size (fs s)) \<le> unat (first_data_sector (fs s))"
    using assms(1) by (simp add: vol_wf_def)
  have "unat (first_data_sector (fs s)) < 2 ^ 32" using unsigned_less [of "first_data_sector (fs s)"] by simp
  then have "unat (fat_sector (fs s)) + unat (c * 4 div 512) < 2 ^ LENGTH(32)" using lay k d by simp
  then show u: "unat (fat_sector_of s c) = unat (fat_sector (fs s)) + unat c div 128"
    using unat_add_lem [of "fat_sector (fs s)" "c * 4 div 512"] d by (simp add: fat_sector_of_def rv_const)
  show "unat (fat_sector_of s c) < unat (first_data_sector (fs s))" using u lay k by simp
qed

lemma same_entry:
  assumes "vol_wf s" and "in_table s c" "in_table s d"
    and "fat_sector_of s c = fat_sector_of s d" and "fat_entry_offset c = fat_entry_offset d"
  shows "c = d"
proof -
  have "unat c < 2 ^ 28" "unat d < 2 ^ 28" using assms(1-3) by (simp_all add: vol_wf_def)
  then have "unat c mod 128 = unat d mod 128" using assms(5) by (simp add: entry_offset)
  moreover have "unat c div 128 = unat d div 128"
    using sector_of(1) [OF assms(1,2)] sector_of(1) [OF assms(1,3)] assms(4) by simp
  ultimately have "unat c = unat d" by (metis div_mult_mod_eq)
  then show ?thesis by (simp only: word_unat_eq_iff)
qed

lemma vol_wf_read [simp]: "vol_wf (after_read x s) = vol_wf s" "fatval (after_read x s) = fatval s"
  "fat_entries (after_read x s) = fat_entries s" "fat_sector_of (after_read x s) = fat_sector_of s"
  by (simp_all add: vol_wf_def fatval_def fat_entries_def fat_sector_of_def fun_eq_iff)

lemma vol_wf_write [simp]:
  assumes "vol_wf s" and "length b = 512"
  shows "vol_wf (after_write x b s)" "fat_entries (after_write x b s) = fat_entries s" "fat_sector_of (after_write x b s) = fat_sector_of s"
  using assms by (auto simp: vol_wf_def fat_entries_def fat_sector_of_def fun_eq_iff)

text \<open>Writing one table entry changes the value of that cluster only.\<close>

lemma fatval_write:
  assumes wf: "vol_wf s" and c: "in_table s c" and d: "in_table s d"
  shows "fatval (after_write (fat_sector_of s c) (put32 (fat_entry_offset c) v (disk s (fat_sector_of s c))) s) d =
    (if d = c then v AND 0x0FFFFFFF else fatval s d)"
proof -
  let ?x = "fat_sector_of s c" and ?o = "fat_entry_offset c"
  let ?b = "put32 ?o v (disk s ?x)"
  have dv: "dev_ok s" and len: "length (disk s ?x) = 512" using wf by (simp_all add: vol_wf_def)
  have small: "unat c < 2 ^ 28" "unat d < 2 ^ 28" using wf c d by (simp_all add: vol_wf_def)
  have o: "?o + 4 \<le> 512" using entry_offset [OF small(1)] mod_less_divisor [of 128 "unat c"] by simp
  have sf: "fat_sector_of (after_write ?x ?b s) = fat_sector_of s"
    using vol_wf_write(3) [OF wf] o len by simp
  show ?thesis
  proof (cases "fat_sector_of s d = ?x")
    case False
    then show ?thesis using dv by (auto simp: fatval_def sf)
  next
    case True
    have "get32 ?b (fat_entry_offset d) = (if d = c then v else get32 (disk s ?x) (fat_entry_offset d))"
    proof (cases "d = c")
      case True
      then show ?thesis using get_put32 o len by simp
    next
      case False
      have "fat_entry_offset d \<noteq> ?o" using same_entry [OF wf d c True] False by blast
      then have "fat_entry_offset d + 4 \<le> ?o \<or> ?o + 4 \<le> fat_entry_offset d"
        using entry_offset [OF small(1)] entry_offset [OF small(2)]
        by (cases "unat d mod 128" "unat c mod 128" rule: linorder_cases) simp_all
      then show ?thesis using get_put32_other o len False by simp
    qed
    then show ?thesis using True dv by (simp add: fatval_def sf)
  qed
qed

subsection \<open>Cluster chains\<close>

fun chain_at :: "(u32 \<Rightarrow> u32) \<Rightarrow> u32 \<Rightarrow> u32 list \<Rightarrow> bool" where
  "chain_at v c [] \<longleftrightarrow> \<not> in_chain c"
| "chain_at v c (x # xs) \<longleftrightarrow> c = x \<and> in_chain c \<and> chain_at v (v c) xs"

lemma chain_at_cong: "(\<And>x. x \<in> set xs \<Longrightarrow> v x = w x) \<Longrightarrow> chain_at v c xs = chain_at w c xs"
  by (induction xs arbitrary: c) auto

locale fat_table =
  fixes inv :: "'s \<Rightarrow> bool"
    and size_of :: "'s \<Rightarrow> nat"
    and val :: "'s \<Rightarrow> u32 \<Rightarrow> u32"
    and data :: "'s \<Rightarrow> 'd"
    and get :: "u32 \<Rightarrow> 's \<Rightarrow> u32 \<times> 's"
    and set_entry :: "u32 \<Rightarrow> u32 \<Rightarrow> 's \<Rightarrow> bool \<times> 's"
  assumes get_law: "inv s \<Longrightarrow> unat c < size_of s \<Longrightarrow> get c s = (v, s') \<Longrightarrow>
      v = val s c \<and> inv s' \<and> size_of s' = size_of s \<and> val s' = val s \<and> data s' = data s"
    and set_law: "inv s \<Longrightarrow> unat c < size_of s \<Longrightarrow> set_entry c v s = (ok, s') \<Longrightarrow>
      ok \<and> inv s' \<and> size_of s' = size_of s \<and> data s' = data s \<and>
      (\<forall>d. unat d < size_of s \<longrightarrow> val s' d = (if d = c then v AND 0x0FFFFFFF else val s d))"
begin

primrec free_chain :: "nat \<Rightarrow> u32 \<Rightarrow> 's \<Rightarrow> 's res" where
  "free_chain 0 cluster s =
     (if in_chain cluster then Inl (Undefined ''clear_cluster_chain: endless chain'') else Inr s)"
| "free_chain (Suc n) cluster s =
     (if in_chain cluster then
        let (nxt, s1) = get cluster s;
            (_, s2) = set_entry cluster 0 s1
        in free_chain n nxt s2
      else Inr s)"

lemma free_chain_correct:
  assumes "inv s" and "chain_at (val s) c cs" and "distinct cs" and "\<forall>x \<in> set cs. unat x < size_of s" and "length cs \<le> n"
  shows "\<exists>s'. free_chain n c s = Inr s' \<and> inv s' \<and> size_of s' = size_of s \<and> data s' = data s \<and>
    (\<forall>d. unat d < size_of s \<longrightarrow> val s' d = (if d \<in> set cs then 0 else val s d))"
  using assms
proof (induction n arbitrary: c cs s)
  case 0
  then show ?case by simp
next
  case (Suc n)
  show ?case
  proof (cases cs)
    case Nil
    then show ?thesis using Suc.prems by auto
  next
    case (Cons x xs)
    then have x: "x = c" "in_chain c" "chain_at (val s) (val s c) xs" "unat c < size_of s" "c \<notin> set xs" "distinct xs"
      using Suc.prems(2-4) by auto
    obtain nxt s1 where s1: "get c s = (nxt, s1)" by fastforce
    note g = get_law [OF Suc.prems(1) x(4) s1]
    obtain ok s2 where s2: "set_entry c 0 s1 = (ok, s2)" by fastforce
    have i1: "inv s1" "unat c < size_of s1" using g x(4) by simp_all
    note st = set_law [OF i1 s2]
    have v2: "val s2 d = (if d = c then 0 else val s d)" if "unat d < size_of s" for d
      using st g that by simp
    have "chain_at (val s2) nxt xs"
      using x(3) chain_at_cong [of xs "val s2" "val s" nxt] v2 Suc.prems(4) Cons x(5) g by (metis list.set_intros(2))
    then obtain s' where s': "free_chain n nxt s2 = Inr s'" "inv s'" "size_of s' = size_of s2" "data s' = data s2"
        "\<And>d. unat d < size_of s2 \<Longrightarrow> val s' d = (if d \<in> set xs then 0 else val s2 d)"
      using Suc.IH [of s2 nxt xs] x(6) Suc.prems(4,5) Cons g st by auto
    show ?thesis using s' s1 s2 x(1,2,5) g st v2 Cons by (intro exI [of _ s']) auto
  qed
qed

end

text \<open>The data region: the sectors from \<^verbatim>\<open>first_data_sector\<close> on.\<close>

definition data_region :: "kernel \<Rightarrow> u32 \<Rightarrow> u8 list" where
  "data_region s x = (if first_data_sector (fs s) \<le> x then disk s x else [])"

lemma get_next_ok: "dev_ok s \<Longrightarrow> get_next_cluster c s = (fatval s c, after_read (fat_sector_of s c) s)"
  by (simp add: get_next_cluster_def disk_read_ok fatval_def)

lemma set_next_ok:
  "dev_ok s \<Longrightarrow> set_next_cluster c v s =
     (True, after_write (fat_sector_of s c) (put32 (fat_entry_offset c) v (disk s (fat_sector_of s c)))
        (after_read (fat_sector_of s c) s))"
  by (simp add: set_next_cluster_def disk_read_ok disk_write_ok)

interpretation fat: fat_table vol_wf fat_entries fatval data_region get_next_cluster set_next_cluster
proof
  fix s s' :: kernel and c v ok
  assume wf: "vol_wf s" and c: "in_table s c"
  have dv: "dev_ok s" using wf by (simp add: vol_wf_def)
  show "get_next_cluster c s = (v, s') \<Longrightarrow>
      v = fatval s c \<and> vol_wf s' \<and> fat_entries s' = fat_entries s \<and> fatval s' = fatval s \<and> data_region s' = data_region s"
    using wf by (auto simp: get_next_ok [OF dv] data_region_def fun_eq_iff)
  assume set: "set_next_cluster c v s = (ok, s')"
  let ?x = "fat_sector_of s c"
  let ?b = "put32 (fat_entry_offset c) v (disk s ?x)"
  let ?r = "after_read ?x s"
  have s': "ok" "s' = after_write ?x ?b ?r" using set by (simp_all add: set_next_ok [OF dv])
  have "unat c < 2 ^ 28" using wf c by (simp add: vol_wf_def)
  then have "fat_entry_offset c + 4 \<le> 512" using entry_offset [of c] mod_less_divisor [of 128 "unat c"] by simp
  then have lb: "length ?b = 512" using wf by (simp add: vol_wf_def)
  have r: "vol_wf ?r" "in_table ?r c" "fat_sector_of ?r = fat_sector_of s" "disk ?r = disk s" using wf c by simp_all
  have "\<forall>d. in_table s d \<longrightarrow> fatval s' d = (if d = c then v AND 0x0FFFFFFF else fatval s d)"
    using fatval_write [OF r(1,2)] by (simp add: s' r)
  moreover have "vol_wf s'" "fat_entries s' = fat_entries s"
    using vol_wf_write [OF r(1) lb] by (simp_all add: s')
  moreover have "data_region s' = data_region s"
    using sector_of(2) [OF wf c] dv by (auto simp: s' data_region_def fun_eq_iff word_le_nat_alt)
  ultimately show "ok \<and> vol_wf s' \<and> fat_entries s' = fat_entries s \<and> data_region s' = data_region s \<and>
      (\<forall>d. in_table s d \<longrightarrow> fatval s' d = (if d = c then v AND 0x0FFFFFFF else fatval s d))"
    using s'(1) by blast
qed

lemma clear_chain_free: "clear_chain n c s = fat.free_chain n c s"
  by (induction n arbitrary: c s) (simp_all add: Let_def split: prod.splits)

subsection \<open>Allocating a cluster\<close>

definition cluster_sectors :: "kernel \<Rightarrow> u32 \<Rightarrow> u32 set" where
  "cluster_sectors s c = (\<lambda>j. cluster_to_sector s c + of_nat j) ` {..<unat (sectors_per_cluster (fs s))}"

lemma clear_sectors_disk:
  "dev_ok s \<Longrightarrow> disk (clear_sectors n x s) = (\<lambda>y. if y \<in> (\<lambda>j. x + of_nat j) ` {..<n} then replicate 512 0 else disk s y) \<and>
     fs (clear_sectors n x s) = fs s \<and> dev (clear_sectors n x s) = dev s"
proof (induction n arbitrary: x s)
  case (Suc n)
  have st: "clear_sectors (Suc n) x s = clear_sectors n (x + 1) (after_write x (replicate 512 0) s)"
    by (simp add: after_write_def)
  have im: "(\<lambda>j. x + of_nat j) ` {..<Suc n} = insert x ((\<lambda>j. x + 1 + of_nat j) ` {..<n})"
    by (simp add: lessThan_Suc_eq_insert_0 image_image algebra_simps)
  show ?case using Suc.IH [of "after_write x (replicate 512 0) s" "x + 1"] Suc.prems
    unfolding st im by (auto simp: fun_eq_iff)
qed simp

lemma unat_cluster_sector:
  assumes wf: "vol_wf s" and c: "in_table s c" "2 \<le> unat c" and j: "j < unat (sectors_per_cluster (fs s))"
  shows "unat (cluster_to_sector s c + of_nat j) =
    unat (first_data_sector (fs s)) + (unat c - 2) * unat (sectors_per_cluster (fs s)) + j"
proof -
  let ?spc = "unat (sectors_per_cluster (fs s))" and ?f = "unat (first_data_sector (fs s))"
  have lay: "?f + fat_entries s * ?spc < 2 ^ 32" using wf by (simp add: vol_wf_def)
  have "(unat c - 2) * ?spc + j < (unat c - 2) * ?spc + ?spc" using j by simp
  also have "\<dots> = (unat c - 1) * ?spc" using c(2) by (metis Suc_1 Suc_diff_Suc diff_Suc_1 less_eq_Suc_le mult_Suc add.commute One_nat_def)
  also have "\<dots> \<le> fat_entries s * ?spc" using c(1) by (intro mult_le_mono1) simp
  finally have b: "?f + ((unat c - 2) * ?spc + j) < 2 ^ 32" using lay by linarith
  have c2: "unat (c - 2) = unat c - 2" using c(2) by (subst unat_sub) (simp_all add: word_le_nat_alt)
  have m: "unat ((c - 2) * sectors_per_cluster (fs s)) = (unat c - 2) * ?spc"
    using b c2 unat_mult_lem [of "c - 2" "sectors_per_cluster (fs s)"] by simp
  have a: "unat (cluster_to_sector s c) = ?f + (unat c - 2) * ?spc"
    using b m unat_add_lem [of "first_data_sector (fs s)" "(c - 2) * sectors_per_cluster (fs s)"]
    by (simp add: cluster_to_sector_def)
  have "j < 2 ^ 32" using b by simp
  then have "unat (of_nat j :: u32) = j" by (simp add: unat_of_nat_small)
  then show ?thesis using a b unat_add_lem [of "cluster_to_sector s c" "of_nat j"] by simp
qed

lemma cluster_sectors_data:
  "vol_wf s \<Longrightarrow> in_table s c \<Longrightarrow> 2 \<le> unat c \<Longrightarrow> x \<in> cluster_sectors s c \<Longrightarrow> unat (first_data_sector (fs s)) \<le> unat x"
  using unat_cluster_sector by (auto simp: cluster_sectors_def)

definition entry_free :: "u32 \<Rightarrow> u8 list \<Rightarrow> nat \<Rightarrow> bool" where
  "entry_free sec buf i \<longleftrightarrow> get32 buf (4 * i) AND 0x0FFFFFFF = 0 \<and> \<not> (sec * SECTOR_SIZE + of_nat (4 * i)) div 4 < 2"

lemma free_entry_first:
  "case free_entry n sec buf i of
     None \<Rightarrow> \<forall>j. i \<le> j \<longrightarrow> j < i + n \<longrightarrow> \<not> entry_free sec buf j
   | Some j \<Rightarrow> i \<le> j \<and> j < i + n \<and> entry_free sec buf j \<and> (\<forall>k. i \<le> k \<longrightarrow> k < j \<longrightarrow> \<not> entry_free sec buf k)"
proof (induction n arbitrary: i)
  case (Suc n)
  show ?case
  proof (cases "entry_free sec buf i")
    case True
    then show ?thesis by (simp add: entry_free_def)
  next
    case False
    then have st: "free_entry (Suc n) sec buf i = free_entry n sec buf (Suc i)" by (auto simp: entry_free_def)
    have eq: "i \<le> k \<longleftrightarrow> k = i \<or> Suc i \<le> k" for k by auto
    show ?thesis unfolding st using Suc.IH [of "Suc i"] False eq
      by (auto split: option.splits)
  qed
qed simp

text \<open>Entry \<open>i\<close> of table sector \<open>k\<close> is that of cluster \<open>128 k + i\<close>.\<close>

lemma table_cell:
  assumes wf: "vol_wf s" and k: "k < unat (fat_size (fs s))" and i: "i < 128"
  defines "c \<equiv> (of_nat (128 * k + i) :: u32)"
  shows "unat c = 128 * k + i" and "in_table s c" and "fat_sector_of s c = fat_sector (fs s) + of_nat k"
    and "fat_entry_offset c = 4 * i" and "(of_nat k * SECTOR_SIZE + of_nat (4 * i)) div 4 = c"
proof -
  have "128 * k + i < 128 * Suc k" using i by simp
  also have "\<dots> \<le> fat_entries s" using k by (simp add: fat_entries_def)
  finally have lt: "128 * k + i < fat_entries s" .
  then have b: "128 * k + i < 2 ^ 28" using wf by (simp add: vol_wf_def)
  show u: "unat c = 128 * k + i" using b by (simp add: c_def unat_of_nat_small del: of_nat_add of_nat_mult)
  show t: "in_table s c" using u lt by simp
  have c28: "unat c < 2 ^ 28" using u b by simp
  show "fat_entry_offset c = 4 * i" using entry_offset [OF c28] u i by simp
  have "unat (c * 4 div 512) = k" using u i by (simp add: unat_div u32_mult4 [OF c28])
  moreover have "unat (of_nat k :: u32) = k" using b by (intro unat_of_nat_small) simp
  ultimately have "c * 4 div 512 = of_nat k" by (simp only: word_unat_eq_iff)
  then show "fat_sector_of s c = fat_sector (fs s) + of_nat k" by (simp add: fat_sector_of_def rv_const)
  have "of_nat k * SECTOR_SIZE + of_nat (4 * i) = (of_nat (4 * (128 * k + i)) :: u32)"
    by (simp add: rv_const algebra_simps)
  moreover have "unat (of_nat (4 * (128 * k + i)) :: u32) = 4 * (128 * k + i)"
    using b by (intro unat_of_nat_small) simp
  ultimately have "unat ((of_nat k * SECTOR_SIZE + of_nat (4 * i)) div 4) = unat c"
    by (simp add: unat_div u del: of_nat_add of_nat_mult)
  then show "(of_nat k * SECTOR_SIZE + of_nat (4 * i)) div 4 = c" by (simp only: word_unat_eq_iff)
qed

lemma entry_free_iff:
  assumes "vol_wf s" and "k < unat (fat_size (fs s))" and "i < 128"
  defines "c \<equiv> (of_nat (128 * k + i) :: u32)"
  shows "entry_free (of_nat k) (disk s (fat_sector (fs s) + of_nat k)) i \<longleftrightarrow> fatval s c = 0 \<and> 2 \<le> unat c"
proof -
  note t = table_cell [OF assms(1-3), folded c_def]
  have "\<not> c < 2 \<longleftrightarrow> 2 \<le> unat c" by (simp add: word_less_nat_alt not_less)
  then show ?thesis unfolding entry_free_def t(5) fatval_def t(3,4) by simp
qed

definition allocated :: "kernel \<Rightarrow> u32 \<Rightarrow> kernel \<Rightarrow> bool" where
  "allocated s c s' \<longleftrightarrow> in_table s c \<and> 2 \<le> unat c \<and> fatval s c = 0 \<and>
     (\<forall>d. 2 \<le> unat d \<longrightarrow> unat d < unat c \<longrightarrow> fatval s d \<noteq> 0) \<and> vol_wf s' \<and> fs s' = fs s \<and>
     (\<forall>d. in_table s d \<longrightarrow> fatval s' d = (if d = c then 0x0FFFFFFF else fatval s d)) \<and>
     (\<forall>x. first_data_sector (fs s) \<le> x \<longrightarrow> disk s' x = (if x \<in> cluster_sectors s c then replicate 512 0 else disk s x))"

definition volume_full :: "kernel \<Rightarrow> kernel \<Rightarrow> bool" where
  "volume_full s s' \<longleftrightarrow> (\<forall>d. 2 \<le> unat d \<longrightarrow> in_table s d \<longrightarrow> fatval s d \<noteq> 0) \<and> vol_wf s' \<and> fs s' = fs s \<and> disk s' = disk s"

lemma alloc_read: "allocated (after_read x s) = allocated s" "volume_full (after_read x s) = volume_full s"
  by (simp_all add: fun_eq_iff allocated_def volume_full_def cluster_sectors_def cluster_to_sector_def)

lemma alloc_found:
  assumes wf: "vol_wf s" and k: "k < unat (fat_size (fs s))" and i: "i < 128"
    and free: "entry_free (of_nat k) (disk s (fat_sector (fs s) + of_nat k)) i"
    and below: "\<And>d. 2 \<le> unat d \<Longrightarrow> unat d < 128 * k + i \<Longrightarrow> fatval s d \<noteq> 0"
  defines "c \<equiv> (of_nat (128 * k + i) :: u32)"
  defines "x \<equiv> fat_sector (fs s) + of_nat k"
  shows "allocated s c (clear_sectors (unat (sectors_per_cluster (fs s))) (cluster_to_sector s c)
    (after_write x (put32 (4 * i) 0x0FFFFFFF (disk s x)) s))"
proof -
  note t = table_cell [OF wf k i, folded c_def x_def]
  let ?w = "after_write x (put32 (4 * i) 0x0FFFFFFF (disk s x)) s"
  let ?z = "clear_sectors (unat (sectors_per_cluster (fs s))) (cluster_to_sector s c) ?w"
  have dv: "dev_ok s" and len: "\<And>y. length (disk s y) = 512" using wf by (simp_all add: vol_wf_def)
  have c: "fatval s c = 0" "2 \<le> unat c" using free entry_free_iff [OF wf k i] by (simp_all add: c_def)
  have lb: "length (put32 (4 * i) 0x0FFFFFFF (disk s x)) = 512" using i len by simp
  have w: "vol_wf ?w" "fat_sector_of ?w = fat_sector_of s" using vol_wf_write [OF wf lb] by simp_all
  have wv: "fatval ?w d = (if d = c then 0x0FFFFFFF else fatval s d)" if "in_table s d" for d
    using fatval_write [OF wf t(2) that, of "0x0FFFFFFF"] by (simp add: t(3,4))
  have z: "disk ?z = (\<lambda>y. if y \<in> cluster_sectors s c then replicate 512 0 else disk ?w y)" "fs ?z = fs s" "dev ?z = dev s"
    using clear_sectors_disk [of ?w] dv by (simp_all add: cluster_sectors_def)
  have data: "unat (first_data_sector (fs s)) \<le> unat y" if "y \<in> cluster_sectors s c" for y
    by (rule cluster_sectors_data [OF wf t(2) c(2) that])
  have "fatval ?z d = fatval ?w d" if "in_table s d" for d
  proof -
    have "fat_sector_of s d \<notin> cluster_sectors s c" using data sector_of(2) [OF wf that] by force
    then show ?thesis using w(2) by (simp add: fatval_def z fat_sector_of_def)
  qed
  moreover have "vol_wf ?z" using wf lb dv by (auto simp: vol_wf_def z dev_ok_def fat_entries_def)
  moreover have "disk ?z y = (if y \<in> cluster_sectors s c then replicate 512 0 else disk s y)" if "first_data_sector (fs s) \<le> y" for y
  proof -
    have "y \<noteq> x" using sector_of(2) [OF wf t(2)] that by (auto simp: t(3) word_le_nat_alt)
    then show ?thesis using dv by (simp add: z)
  qed
  ultimately show ?thesis
    unfolding allocated_def using t(1,2) c z(2) wv below by simp
qed

lemma alloc_scan_correct:
  assumes "vol_wf s" and "k + n = unat (fat_size (fs s))"
    and "\<And>d. 2 \<le> unat d \<Longrightarrow> unat d < 128 * k \<Longrightarrow> fatval s d \<noteq> 0"
  shows "case alloc_scan n (of_nat k) s of (c, s') \<Rightarrow> if c = 0 then volume_full s s' else allocated s c s'"
  using assms
proof (induction n arbitrary: k s)
  case 0
  then show ?case by (simp add: volume_full_def fat_entries_def mult.commute)
next
  case (Suc n)
  let ?x = "fat_sector (fs s) + of_nat k"
  let ?r = "after_read ?x s"
  have dv: "dev_ok s" using Suc.prems(1) by (simp add: vol_wf_def)
  have k: "k < unat (fat_size (fs s))" using Suc.prems(2) by simp
  show ?case
  proof (cases "free_entry 128 (of_nat k) (disk s ?x) 0")
    case None
    have no: "\<not> entry_free (of_nat k) (disk s ?x) i" if "i < 128" for i
      using free_entry_first [where n = 128 and sec = "of_nat k" and buf = "disk s ?x" and i = 0] None that by simp
    have below: "fatval ?r d \<noteq> 0" if d: "2 \<le> unat d" "unat d < 128 * Suc k" for d
    proof (cases "unat d < 128 * k")
      case False
      then have "d = of_nat (128 * k + (unat d - 128 * k))" by simp
      then show ?thesis
        using no [of "unat d - 128 * k"] entry_free_iff [OF Suc.prems(1) k, of "unat d - 128 * k"] d False by simp
    qed (use Suc.prems(3) d in simp)
    have sc: "alloc_scan (Suc n) (of_nat k) s = alloc_scan n (of_nat (Suc k)) ?r"
      using None by (simp add: disk_read_ok [OF dv] add.commute)
    have "case alloc_scan n (of_nat (Suc k)) ?r of (c, s') \<Rightarrow> if c = 0 then volume_full ?r s' else allocated ?r c s'"
      using Suc.prems(1,2) below by (intro Suc.IH) simp_all
    then show ?thesis unfolding sc by (simp only: alloc_read)
  next
    case (Some i)
    have i: "i < 128" "entry_free (of_nat k) (disk s ?x) i" and first: "\<And>j. j < i \<Longrightarrow> \<not> entry_free (of_nat k) (disk s ?x) j"
      using free_entry_first [where n = 128 and sec = "of_nat k" and buf = "disk s ?x" and i = 0] Some by simp_all
    have below: "fatval ?r d \<noteq> 0" if d: "2 \<le> unat d" "unat d < 128 * k + i" for d
    proof (cases "unat d < 128 * k")
      case False
      then have "d = of_nat (128 * k + (unat d - 128 * k))" by simp
      moreover have "unat d - 128 * k < i" "unat d - 128 * k < 128" using d False i(1) by simp_all
      ultimately show ?thesis
        using first [of "unat d - 128 * k"] entry_free_iff [OF Suc.prems(1) k, of "unat d - 128 * k"] d by simp
    qed (use Suc.prems(3) d in simp)
    let ?c = "of_nat (128 * k + i) :: u32"
    have c: "(of_nat k * SECTOR_SIZE + of_nat (4 * i)) div 4 = ?c" "unat ?c = 128 * k + i"
      using table_cell(1,5) [OF Suc.prems(1) k i(1)] by simp_all
    have "2 \<le> unat ?c" using entry_free_iff [OF Suc.prems(1) k i(1)] i(2) by blast
    then have nz: "?c \<noteq> 0" by (metis not_numeral_le_zero unat_0)
    have sc: "alloc_scan (Suc n) (of_nat k) s = (?c, clear_sectors (unat (sectors_per_cluster (fs ?r))) (cluster_to_sector ?r ?c)
        (after_write ?x (put32 (4 * i) 0x0FFFFFFF (disk ?r ?x)) ?r))"
      using Some dv by (simp add: disk_read_ok [OF dv] disk_write_ok c(1) cluster_to_sector_def Let_def del: of_nat_mult of_nat_add)
    have "allocated ?r ?c (snd (alloc_scan (Suc n) (of_nat k) s))"
      unfolding sc snd_conv
      using alloc_found [of ?r k i] Suc.prems(1) k i below by simp
    then have "allocated s ?c (snd (alloc_scan (Suc n) (of_nat k) s))" by (simp only: alloc_read)
    moreover have "fst (alloc_scan (Suc n) (of_nat k) s) = ?c" by (simp only: sc fst_conv)
    ultimately show ?thesis using nz by (simp only: case_prod_beta if_False)
  qed
qed

subsection \<open>Properties\<close>

text \<open>
  Reading the allocation table after linking a cluster gives the new successor (its low 28 bits) for that
  cluster and the old one for every other cluster of the table, and no data sector changes.
\<close>

theorem fat_set_get:
  assumes "vol_wf s" and "in_table s c" and "in_table s d" and "set_next_cluster c v s = (ok, s')"
  shows "ok \<and> fst (get_next_cluster d s') = (if d = c then v AND 0x0FFFFFFF else fst (get_next_cluster d s)) \<and>
    vol_wf s' \<and> data_region s' = data_region s"
proof -
  note st = fat.set_law [OF assms(1,2,4)]
  have "dev_ok s" "dev_ok s'" using assms(1) st by (simp_all add: vol_wf_def)
  then show ?thesis using st assms(3) by (simp add: get_next_ok)
qed

definition demo_disk :: "u32 \<Rightarrow> u8 list" where
  "demo_disk x = (if x = 1 then put32 12 0x0FFFFFFF (put32 8 3 (put32 4 0x0FFFFFFF (put32 0 0x0FFFFFF8 (replicate 512 0))))
     else replicate 512 0)"

definition demo_kernel :: "(u32 \<Rightarrow> u8 list) \<Rightarrow> kernel" where
  "demo_kernel d = uart.extend (demo_uart 0 [])
     \<lparr>dev = \<lparr>dv_magic = 0x74726976, dv_version = 1, dv_id = 2, dv_queue_max = 16, dv_status = (\<lambda>_. 0),
        dv_read_fail = (\<lambda>_ b. b), dv_write_fail = (\<lambda>_. False)\<rparr>,
      disk = d, requests = 0,
      vq = \<lparr>vq_page = 0, vq_desc = replicate 16 \<lparr>d_addr = DmaOps, d_len = 0, d_flags = 0, d_next = 0\<rparr>, vq_avail_idx = 0,
        vq_avail_ring = replicate 16 0, vq_status = 0, vq_ops = \<lparr>rq_type = 0, rq_reserved = 0, rq_sector = 0\<rparr>, vq_regs = []\<rparr>,
      fs = \<lparr>first_data_sector = 2, fat_sector = 1, sectors_per_cluster = 1, root_cluster = 2, fat_size = 1,
        cache_page = replicate 512 5\<rparr>,
      file_cache = \<lparr>freelist = 0, objsize = 64, pages = 0\<rparr>, files = (\<lambda>_. None)\<rparr>"

lemma demo_volume: "(\<And>x. length (d x) = 512) \<Longrightarrow> vol_wf (demo_kernel d) \<and> fat_entries (demo_kernel d) = 128"
  by (simp add: vol_wf_def dev_ok_def fat_entries_def demo_kernel_def uart.defs)

lemma demo_disk_length: "length (demo_disk x) = 512"
  by (simp add: demo_disk_def)

lemmas demo_wf = demo_volume [OF demo_disk_length]

theorem fat_set_get_witness:
  "fst (get_next_cluster 5 (snd (set_next_cluster 5 7 (demo_kernel demo_disk)))) = 7"
  using fat_set_get [of "demo_kernel demo_disk" 5 5 7 "fst (set_next_cluster 5 7 (demo_kernel demo_disk))"
      "snd (set_next_cluster 5 7 (demo_kernel demo_disk))"] demo_wf
  by simp

text \<open>
  C27. \<^verbatim>\<open>alloc_cluster\<close> returns the lowest free cluster, marks it as the end of a chain and fills its sectors with
  zeros, and changes no other table entry and no other data sector; it returns 0 only when every
  cluster is in use, and then leaves the disk as it was.
\<close>

theorem alloc_cluster_correct:
  assumes "vol_wf s"
  shows "case alloc_cluster s of (c, s') \<Rightarrow>
    if c = 0 then (\<forall>d. 2 \<le> unat d \<longrightarrow> in_table s d \<longrightarrow> fatval s d \<noteq> 0) \<and> disk s' = disk s
    else in_table s c \<and> 2 \<le> unat c \<and> fatval s c = 0 \<and> (\<forall>d. 2 \<le> unat d \<longrightarrow> unat d < unat c \<longrightarrow> fatval s d \<noteq> 0) \<and>
      vol_wf s' \<and> (\<forall>d. in_table s d \<longrightarrow> fatval s' d = (if d = c then 0x0FFFFFFF else fatval s d)) \<and>
      (\<forall>x. first_data_sector (fs s) \<le> x \<longrightarrow> disk s' x = (if x \<in> cluster_sectors s c then replicate 512 0 else disk s x))"
proof -
  have "case alloc_scan (unat (fat_size (fs s))) (of_nat 0) s of (c, s') \<Rightarrow> if c = 0 then volume_full s s' else allocated s c s'"
    using assms by (intro alloc_scan_correct) simp_all
  then show ?thesis by (auto simp: alloc_cluster_def volume_full_def allocated_def split: prod.splits if_splits)
qed

theorem alloc_cluster_correct_witness:
  "fst (alloc_cluster (demo_kernel demo_disk)) = 4 \<and> fatval (demo_kernel demo_disk) 4 = 0"
proof -
  have c: "fst (alloc_cluster (demo_kernel demo_disk)) = 4" by code_simp
  then show ?thesis using alloc_cluster_correct [of "demo_kernel demo_disk"] demo_wf by (auto split: prod.splits)
qed

text \<open>
  C28. \<^verbatim>\<open>clear_cluster_chain\<close> ends on every chain of different clusters of the table that closes with an end mark
  or a free or reserved value, and then exactly the clusters of the chain are free; all other entries
  and all data are unchanged.
\<close>

theorem clear_cluster_chain_correct:
  assumes "vol_wf s" and "chain_at (fatval s) c cs" and "distinct cs" and "\<forall>x \<in> set cs. in_table s x"
  shows "\<exists>s'. clear_cluster_chain c s = Inr s' \<and> vol_wf s' \<and> data_region s' = data_region s \<and>
    (\<forall>d. in_table s d \<longrightarrow> fatval s' d = (if d \<in> set cs then 0 else fatval s d))"
proof -
  have "unat ` set cs \<subseteq> {..<fat_entries s}" using assms(4) by auto
  then have "card (unat ` set cs) \<le> fat_entries s" using card_mono [of "{..<fat_entries s}"] by simp
  moreover have "card (unat ` set cs) = length cs"
    using assms(3) by (subst card_image) (simp_all add: inj_on_def word_unat_eq_iff distinct_card)
  ultimately have "length cs \<le> fat_entries s" by simp
  from fat.free_chain_correct [OF assms this] show ?thesis
    by (auto simp: clear_cluster_chain_def clear_chain_free)
qed

theorem clear_cluster_chain_correct_witness:
  "\<exists>s'. clear_cluster_chain 2 (demo_kernel demo_disk) = Inr s' \<and> fatval s' 3 = 0 \<and> fatval s' 1 = 0x0FFFFFFF"
proof -
  have v: "fatval (demo_kernel demo_disk) 2 = 3" "fatval (demo_kernel demo_disk) 3 = 0x0FFFFFFF"
    "fatval (demo_kernel demo_disk) 1 = 0x0FFFFFFF"
    by code_simp+
  then have "chain_at (fatval (demo_kernel demo_disk)) 2 [2, 3]" by (simp add: in_chain_def)
  from clear_cluster_chain_correct [OF conjunct1 [OF demo_wf] this] demo_wf v(3) show ?thesis by auto
qed

end
