(* ===== verification/RV_Fat.thy ===== *)
theory RV_Fat
  imports RV_Disk
begin

text \<open>
  The upper half of \<^verbatim>\<open>kernelspace/fs/fs.c\<close>: file objects, 8.3 names, directories, open files and the operations
  that the system calls use. A path is the string before its terminating NUL; a directory entry is its
  32 bytes. The caller is given by its slot \<open>me\<close>, what \<^verbatim>\<open>myproc()\<close> returns. \<^verbatim>\<open>fs_lock\<close> is held over each
  body, so each is one step. Writing past the end of a local array and an endless chain of clusters
  are \<open>Undefined\<close>; loops over chains have the number of table entries as fuel.
\<close>

subsection \<open>File objects\<close>

definition file_alloc :: "kernel \<Rightarrow> (u64 \<times> kernel) res" where
  "file_alloc s =
     rbind (kmem_cache_alloc (file_cache s) s) (\<lambda>(f, c, s1).
       let s2 = s1\<lparr>file_cache := c\<rparr> in
       if f = 0 then Inr (0, s2)
       else Inr (f, s2\<lparr>files := (files s2)(f \<mapsto>
         \<lparr>f_ref = 1, f_readable = False, f_writable = False, f_offset = 0, f_first_cluster = 0, f_file_size = 0, f_name = []\<rparr>)\<rparr>))"

definition file_dup :: "u64 \<Rightarrow> kernel \<Rightarrow> kernel res" where
  "file_dup f s =
     (if f = 0 \<or> f < 0x80000000 then Inr s
      else case files s f of
        None \<Rightarrow> Inl (Undefined ''file_dup: no file'')
      | Some x \<Rightarrow> Inr (s\<lparr>files := (files s)(f \<mapsto> x\<lparr>f_ref := f_ref x + 1\<rparr>)\<rparr>))"

definition file_close :: "u64 \<Rightarrow> kernel \<Rightarrow> kernel res" where
  "file_close f s =
     (if f = 0 \<or> f < 0x80000000 then Inr s
      else case files s f of
        None \<Rightarrow> Inl (Undefined ''file_close: no file'')
      | Some x \<Rightarrow>
          if f_ref x < 1 then Inl (Panic ''file_close: ref < 1'')
          else if 0 < f_ref x - 1 then Inr (s\<lparr>files := (files s)(f \<mapsto> x\<lparr>f_ref := f_ref x - 1\<rparr>)\<rparr>)
          else
            rbind (kmem_cache_free (file_cache s) f s)
              (\<lambda>(c, s1). Inr (s1\<lparr>file_cache := c, files := (files s1)(f := None)\<rparr>)))"

subsection \<open>Names\<close>

definition up_char :: "char \<Rightarrow> u8" where
  "up_char ch = (let c = of_char ch :: u8 in if 97 \<le> c \<and> c \<le> 122 then c - 32 else c)"

definition blank :: "string \<Rightarrow> u8 list" where
  "blank t = map of_char t @ replicate (11 - length t) 32"

definition to_fat_name :: "string \<Rightarrow> u8 list" where
  "to_fat_name src =
     (if src = ''.'' then blank ''.''
      else if src = ''..'' then blank ''..''
      else
        let stem = takeWhile (\<lambda>c. c \<noteq> CHR ''.'') src;
            rest = dropWhile (\<lambda>c. c \<noteq> CHR ''.'') src;
            base = map up_char (take 8 stem);
            ext = (case rest of [] \<Rightarrow> [] | _ # e \<Rightarrow> map up_char (take 3 e))
        in base @ replicate (8 - length base) 32 @ ext @ replicate (3 - length ext) 32)"

text \<open>The part after, and the part before, the last slash; \<^verbatim>\<open>dir_part\<close> is \<^verbatim>\<open>/\<close> itself for a slash in front.\<close>

definition base_name :: "string \<Rightarrow> string" where
  "base_name path = rev (takeWhile (\<lambda>c. c \<noteq> CHR ''/'') (rev path))"

definition dir_part :: "string \<Rightarrow> string option" where
  "dir_part path =
     (if CHR ''/'' \<in> set path then
        let n = length path - length (base_name path) - 1
        in Some (if n = 0 then ''/'' else take n path)
      else None)"

text \<open>Copying the name to \<^verbatim>\<open>char name_raw[16]\<close>.\<close>

definition name_raw :: "string \<Rightarrow> string res" where
  "name_raw path =
     (if 16 < length (base_name path) + 1 then Inl (Undefined ''name_raw[16] overflows'') else Inr (base_name path))"

subsection \<open>Directory entries\<close>

definition ATTR_DIRECTORY :: u8 where [rv_const]: "ATTR_DIRECTORY = 0x10"
definition ATTR_ARCHIVE :: u8 where [rv_const]: "ATTR_ARCHIVE = 0x20"
definition ATTR_LONG_NAME :: u8 where [rv_const]: "ATTR_LONG_NAME = 0x0F"
definition O_CREATE :: u32 where [rv_const]: "O_CREATE = 0x100"
definition O_TRUNC :: u32 where [rv_const]: "O_TRUNC = 0x200"

type_synonym dirent = "u8 list"

definition dir_entry :: "u8 list \<Rightarrow> nat \<Rightarrow> dirent" where
  "dir_entry buf i = take 32 (drop (32 * i) buf)"

definition e_name :: "dirent \<Rightarrow> u8 list" where "e_name e = take 11 e"
definition e_attr :: "dirent \<Rightarrow> u8" where "e_attr e = e ! 11"
definition e_file_size :: "dirent \<Rightarrow> u32" where "e_file_size e = get32 e 28"
definition e_cluster :: "dirent \<Rightarrow> u32" where
  "e_cluster e = push_bit 16 (ucast (get16 e 20)) OR ucast (get16 e 26)"

definition set_cluster :: "nat \<Rightarrow> u32 \<Rightarrow> u8 list \<Rightarrow> u8 list" where
  "set_cluster i cluster buf =
     put16 (32 * i + 26) (ucast (cluster AND 0xFFFF)) (put16 (32 * i + 20) (ucast (drop_bit 16 cluster AND 0xFFFF)) buf)"

definition set_size :: "nat \<Rightarrow> u32 \<Rightarrow> u8 list \<Rightarrow> u8 list" where
  "set_size i sz buf = put32 (32 * i + 28) sz buf"

definition mark_deleted :: "nat \<Rightarrow> u8 list \<Rightarrow> u8 list" where
  "mark_deleted i buf = put_bytes (32 * i) [0xE5] buf"

text \<open>A new entry with the given name, attributes and first cluster, all other fields 0.\<close>

definition new_entry :: "nat \<Rightarrow> u8 list \<Rightarrow> u8 \<Rightarrow> u32 \<Rightarrow> u8 list \<Rightarrow> u8 list" where
  "new_entry i nm attr cluster buf =
     put_bytes (32 * i + 11) [attr] (set_cluster i cluster (put_bytes (32 * i) nm (put_bytes (32 * i) (replicate 32 0) buf)))"

subsection \<open>Scanning a directory\<close>

text \<open>
  The loops over the entries of a sector, the sectors of a cluster and the clusters of a directory, as
  all scans of the file system make them: \<open>f\<close> gets the sector number, the index and the entry and says
  whether the scan returns there. A sector that cannot be read ends its cluster.
\<close>

primrec scan_entries :: "nat \<Rightarrow> nat \<Rightarrow> (nat \<Rightarrow> dirent \<Rightarrow> 'r option) \<Rightarrow> u8 list \<Rightarrow> 'r option" where
  "scan_entries 0 i f buf = None"
| "scan_entries (Suc n) i f buf =
     (case f i (dir_entry buf i) of Some r \<Rightarrow> Some r | None \<Rightarrow> scan_entries n (Suc i) f buf)"

primrec scan_sectors :: "nat \<Rightarrow> u32 \<Rightarrow> (u32 \<Rightarrow> nat \<Rightarrow> dirent \<Rightarrow> 'r option) \<Rightarrow> kernel \<Rightarrow> 'r option \<times> kernel" where
  "scan_sectors 0 sector f s = (None, s)"
| "scan_sectors (Suc n) sector f s =
     (case read_cache sector s of (ok, s1) \<Rightarrow>
        if \<not> ok then (None, s1)
        else case scan_entries 16 0 (f sector) (cache_page (fs s1)) of
          Some r \<Rightarrow> (Some r, s1)
        | None \<Rightarrow> scan_sectors n (sector + 1) f s1)"

primrec scan_dir :: "nat \<Rightarrow> u32 \<Rightarrow> u32 \<Rightarrow> (u32 \<Rightarrow> nat \<Rightarrow> dirent \<Rightarrow> 'r option) \<Rightarrow> kernel \<Rightarrow> ('r option \<times> u32 \<times> kernel) res" where
  "scan_dir 0 cluster lst f s =
     (if in_chain cluster then Inl (Undefined ''directory: endless chain'') else Inr (None, lst, s))"
| "scan_dir (Suc n) cluster lst f s =
     (if in_chain cluster then
        case scan_sectors (unat (sectors_per_cluster (fs s))) (cluster_to_sector s cluster) f s of
          (Some r, s1) \<Rightarrow> Inr (Some r, lst, s1)
        | (None, s1) \<Rightarrow> (case get_next_cluster cluster s1 of (nxt, s2) \<Rightarrow> scan_dir n nxt cluster f s2)
      else Inr (None, lst, s))"

text \<open>\<^verbatim>\<open>find_dir_entry\<close>: a first byte 0 ends the directory. The result is the entry, its sector and index.\<close>

definition match_entry :: "u8 list \<Rightarrow> u32 \<Rightarrow> nat \<Rightarrow> dirent \<Rightarrow> (dirent \<times> u32 \<times> nat) option option" where
  "match_entry nm sector i e =
     (if e ! 0 = 0 then Some None
      else if e ! 0 = 0xE5 then None
      else if e_attr e = ATTR_LONG_NAME then None
      else if e_name e = nm then Some (Some (e, sector, i))
      else None)"

definition find_dir_entry :: "u32 \<Rightarrow> u8 list \<Rightarrow> kernel \<Rightarrow> ((dirent \<times> u32 \<times> nat) option \<times> kernel) res" where
  "find_dir_entry dir nm s =
     rbind (scan_dir (fat_entries s) dir dir (match_entry nm) s) (\<lambda>(r, _, s1).
       Inr (case r of None \<Rightarrow> None | Some x \<Rightarrow> x, s1))"

definition find_free_dir_entry :: "u32 \<Rightarrow> kernel \<Rightarrow> ((u32 \<times> nat) option \<times> kernel) res" where
  "find_free_dir_entry dir s =
     rbind (scan_dir (fat_entries s) dir dir (\<lambda>sector i e. if e ! 0 = 0 \<or> e ! 0 = 0xE5 then Some (sector, i) else None) s)
       (\<lambda>(r, lst, s1).
          case r of
            Some x \<Rightarrow> Inr (Some x, s1)
          | None \<Rightarrow>
              let (nxt, s2) = alloc_cluster s1 in
              if nxt = 0 then Inr (None, s2)
              else
                let (_, s3) = set_next_cluster lst nxt s2
                in Inr (Some (cluster_to_sector s3 nxt, 0), s3))"

text \<open>\<^verbatim>\<open>update_dir_entry_info_cwd\<close>: it does not pass over deleted entries and long names.\<close>

definition update_dir_entry_info_cwd :: "u32 \<Rightarrow> string \<Rightarrow> u32 \<Rightarrow> u32 \<Rightarrow> kernel \<Rightarrow> kernel res" where
  "update_dir_entry_info_cwd cwd path cluster new_size s =
     (let nm = to_fat_name path in
      rbind (scan_dir (fat_entries s) cwd cwd
          (\<lambda>sector i e. if e ! 0 = 0 then Some None else if e_name e = nm then Some (Some (sector, i)) else None) s)
        (\<lambda>(r, _, s1).
           case r of
             Some (Some (sector, i)) \<Rightarrow>
               let s2 = (if cluster \<noteq> 0 then upd_cache (set_cluster i cluster) s1 else s1);
                   s3 = (if new_size \<noteq> 0xFFFFFFFF then upd_cache (set_size i new_size) s2 else s2)
               in Inr (write_cache sector s3)
           | _ \<Rightarrow> Inr s1))"

text \<open>\<^verbatim>\<open>get_path_cluster\<close>: each component is copied to \<^verbatim>\<open>char name[16]\<close>; 0xFFFFFFFF is failure.\<close>

function path_walk :: "string \<Rightarrow> u32 \<Rightarrow> kernel \<Rightarrow> (u32 \<times> kernel) res" where
  "path_walk p dirc s =
     (if p = [] then Inr (dirc, s)
      else
        let nm = takeWhile (\<lambda>c. c \<noteq> CHR ''/'') p;
            rest = dropWhile (\<lambda>c. c \<noteq> CHR ''/'') p
        in if 15 < length nm then Inl (Undefined ''get_path_cluster: name[16] overflows'')
           else
             rbind (find_dir_entry dirc (to_fat_name nm) s) (\<lambda>(r, s1).
               case r of
                 None \<Rightarrow> Inr (0xFFFFFFFF, s1)
               | Some (e, _, _) \<Rightarrow>
                   if e_attr e AND ATTR_DIRECTORY = 0 then Inr (0xFFFFFFFF, s1)
                   else path_walk (tl rest) (if e_cluster e = 0 then root_cluster (fs s1) else e_cluster e) s1))"
  by pat_completeness auto
termination
proof (relation "measure (\<lambda>(p, _, _). length p)", goal_cases)
  case (2 p dirc s nm rest)
  then show ?case using length_dropWhile_le [of "\<lambda>c. c \<noteq> CHR ''/''" p]
    by (cases "dropWhile (\<lambda>c. c \<noteq> CHR ''/'') p") (auto simp: neq_Nil_conv)
qed simp

declare path_walk.simps [simp del]

definition get_path_cluster :: "nat \<Rightarrow> string \<Rightarrow> kernel \<Rightarrow> (u32 \<times> kernel) res" where
  "get_path_cluster me path s =
     (if path = ''/'' then Inr (root_cluster (fs s), s)
      else case path of
        CHR ''/'' # p \<Rightarrow> path_walk p (root_cluster (fs s)) s
      | _ \<Rightarrow> path_walk path (p_cwd_cluster (procs s ! me)) s)"

text \<open>The directory in which \<^verbatim>\<open>CreateHandler\<close>, \<^verbatim>\<open>mv\<close> and \<^verbatim>\<open>fs_read_file_offset\<close> look a path up.\<close>

definition dir_of :: "nat \<Rightarrow> string \<Rightarrow> kernel \<Rightarrow> (u32 \<times> kernel) res" where
  "dir_of me path s =
     (case dir_part path of
        None \<Rightarrow> Inr (p_cwd_cluster (procs s ! me), s)
      | Some d \<Rightarrow> get_path_cluster me d s)"

subsection \<open>Opening and closing\<close>

definition free_handle :: "u64 list \<Rightarrow> nat option" where
  "free_handle hs = find (\<lambda>h. hs ! h = 0) [0..<length hs]"

definition set_handle :: "nat \<Rightarrow> nat \<Rightarrow> u64 \<Rightarrow> kernel \<Rightarrow> kernel" where
  "set_handle me h f s = upd_proc me (\<lambda>p. p\<lparr>p_handles := (p_handles p)[h := f]\<rparr>) s"

text \<open>The end of both branches of \<^verbatim>\<open>CreateHandler\<close>: a file object in the first free handle.\<close>

definition open_file :: "nat \<Rightarrow> string \<Rightarrow> u32 \<Rightarrow> u32 \<Rightarrow> kernel \<Rightarrow> (int \<times> kernel) res" where
  "open_file me nm cluster sz s =
     rbind (file_alloc s) (\<lambda>(f, s1).
       if f = 0 then Inr (-1, s1)
       else
         let s2 = s1\<lparr>files := (files s1)(f \<mapsto>
               \<lparr>f_ref = 1, f_readable = True, f_writable = True, f_offset = 0, f_first_cluster = cluster,
                f_file_size = sz, f_name = nm\<rparr>)\<rparr>
         in case free_handle (p_handles (procs s2 ! me)) of
              Some h \<Rightarrow> Inr (int h, set_handle me h f s2)
            | None \<Rightarrow> rbind (file_close f s2) (\<lambda>s3. Inr (-1, s3)))"

definition truncate :: "u32 \<Rightarrow> nat \<Rightarrow> u32 \<Rightarrow> kernel \<Rightarrow> (u32 \<times> kernel) res" where
  "truncate sector idx first s =
     rbind (if 2 \<le> first then
              let (nxt, s1) = get_next_cluster first s;
                  (_, s2) = set_next_cluster first 0x0FFFFFFF s1
              in rbind (clear_cluster_chain nxt s2) (\<lambda>s3. Inr (first, s3))
            else
              let (c, s1) = alloc_cluster s;
                  (_, s2) = read_cache sector s1
              in Inr (c, write_cache sector (upd_cache (set_cluster idx c) s2)))
       (\<lambda>(c, s4).
          let (_, s5) = read_cache sector s4
          in Inr (c, write_cache sector (upd_cache (set_size idx 0) s5)))"

definition CreateHandler :: "nat \<Rightarrow> string \<Rightarrow> u32 \<Rightarrow> kernel \<Rightarrow> (int \<times> kernel) res" where
  "CreateHandler me path mode s =
     rbind (name_raw path) (\<lambda>raw.
     let nm = to_fat_name raw in
     rbind (dir_of me path s) (\<lambda>(dir, s1).
       if dir_part path \<noteq> None \<and> dir = 0xFFFFFFFF then Inr (-1, s1)
       else
         rbind (find_dir_entry dir nm s1) (\<lambda>(r, s2).
           case r of
             Some (e, sector, idx) \<Rightarrow>
               if e_attr e AND ATTR_DIRECTORY \<noteq> 0 then Inr (-1, s2)
               else if mode AND O_TRUNC \<noteq> 0 then
                 rbind (truncate sector idx (e_cluster e) s2) (\<lambda>(c, s3). open_file me raw c 0 s3)
               else open_file me raw (e_cluster e) (e_file_size e) s2
           | None \<Rightarrow>
               if mode AND O_CREATE = 0 then Inr (-1, s2)
               else
                 rbind (find_free_dir_entry dir s2) (\<lambda>(slot, s3).
                   case slot of
                     None \<Rightarrow> Inr (-1, s3)
                   | Some (sector, idx) \<Rightarrow>
                       let (c, s4) = alloc_cluster s3 in
                       if c = 0 then Inr (-1, s4)
                       else
                         let (_, s5) = read_cache sector s4
                         in open_file me raw c 0 (write_cache sector (upd_cache (new_entry idx nm ATTR_ARCHIVE c) s5))))))"

definition handle_of :: "nat \<Rightarrow> u32 \<Rightarrow> kernel \<Rightarrow> u64" where
  "handle_of me h s = (if 0 \<le> sint h \<and> nat (sint h) < MAX_HANDLES then p_handles (procs s ! me) ! nat (sint h) else 0)"

definition CloseHandle :: "nat \<Rightarrow> u32 \<Rightarrow> kernel \<Rightarrow> kernel res" where
  "CloseHandle me h s =
     (let f = handle_of me h s in
      if f = 0 then Inr s
      else if f = -1 then Inr (set_handle me (nat (sint h)) 0 s)
      else rbind (file_close f s) (\<lambda>s1. Inr (set_handle me (nat (sint h)) 0 s1)))"

subsection \<open>Reading and writing\<close>

text \<open>
  The inner loop of \<^verbatim>\<open>ReadFile\<close> and \<^verbatim>\<open>fs_read_file_offset\<close> over the sectors of a cluster from \<open>sector\<close> on: \<open>skip\<close> is
  the offset in the first of them, \<open>want\<close> the number of bytes still missing. The result is the bytes
  copied and whether a read failed.
\<close>

primrec read_sectors :: "nat \<Rightarrow> u32 \<Rightarrow> nat \<Rightarrow> nat \<Rightarrow> kernel \<Rightarrow> u8 list \<times> bool \<times> kernel" where
  "read_sectors 0 sector skip want s = ([], True, s)"
| "read_sectors (Suc n) sector skip want s =
     (if want = 0 then ([], True, s)
      else
        let can = min (512 - skip) want;
            (ok, s1) = read_cache sector s
        in if \<not> ok then ([], False, s1)
           else
             let got = take can (drop skip (cache_page (fs s1)))
             in case read_sectors n (sector + 1) 0 (want - can) s1 of (bs, ok2, s2) \<Rightarrow> (got @ bs, ok2, s2))"

text \<open>The outer loop, over the clusters; \<open>off\<close> is the offset in the first cluster.\<close>

primrec read_chain :: "nat \<Rightarrow> u32 \<Rightarrow> nat \<Rightarrow> nat \<Rightarrow> kernel \<Rightarrow> (u8 list \<times> kernel) res" where
  "read_chain 0 cluster off want s =
     (if 0 < want \<and> in_chain cluster then Inl (Undefined ''read: endless chain'') else Inr ([], s))"
| "read_chain (Suc n) cluster off want s =
     (if 0 < want \<and> in_chain cluster then
        case read_sectors (unat (sectors_per_cluster (fs s)) - off div 512)
            (cluster_to_sector s cluster + of_nat (off div 512)) (off mod 512) want s of
          (bs, ok, s1) \<Rightarrow>
            if \<not> ok then Inr (bs, s1)
            else
              (case get_next_cluster cluster s1 of (nxt, s2) \<Rightarrow>
                 rbind (read_chain n nxt 0 (want - length bs) s2) (\<lambda>(bs2, s3). Inr (bs @ bs2, s3)))
      else Inr ([], s))"

text \<open>Following \<open>n\<close> links; an end mark stops the walk.\<close>

primrec skip_clusters :: "nat \<Rightarrow> u32 \<Rightarrow> kernel \<Rightarrow> u32 option \<times> kernel" where
  "skip_clusters 0 cluster s = (Some cluster, s)"
| "skip_clusters (Suc n) cluster s =
     (case get_next_cluster cluster s of (nxt, s1) \<Rightarrow>
        if 0x0FFFFFF8 \<le> nxt then (None, s1) else skip_clusters n nxt s1)"

definition cluster_bytes :: "kernel \<Rightarrow> u32" where
  "cluster_bytes s = sectors_per_cluster (fs s) * SECTOR_SIZE"

definition upd_file :: "u64 \<Rightarrow> (file_t \<Rightarrow> file_t) \<Rightarrow> kernel \<Rightarrow> kernel" where
  "upd_file f g s = s\<lparr>files := (files s)(f := map_option g (files s f))\<rparr>"

text \<open>A number of bytes, counted in 32 bits, returned as an \<^verbatim>\<open>int\<close>.\<close>

definition ret_count :: "nat \<Rightarrow> int" where
  "ret_count n = sint (of_nat n :: u32)"

lemma ret_count_small: "n < 2 ^ 31 \<Longrightarrow> ret_count n = int n"
  by (simp add: ret_count_def signed_of_nat signed_take_bit_int_eq_self)

lemma ret_count_0 [simp]: "ret_count 0 = 0"
  by (simp add: ret_count_def)

definition ReadFile :: "nat \<Rightarrow> u32 \<Rightarrow> u32 \<Rightarrow> kernel \<Rightarrow> (int \<times> u8 list \<times> kernel) res" where
  "ReadFile me h len s =
     (let f = handle_of me h s in
      if f = 0 then Inr (-1, [], s)
      else case files s f of
        None \<Rightarrow> Inl (Undefined ''ReadFile: no file'')
      | Some x \<Rightarrow>
          if \<not> f_readable x then Inr (0, [], s)
          else if f_file_size x \<le> f_offset x then Inr (0, [], s)
          else if cluster_bytes s = 0 then Inl (Undefined ''ReadFile: division by zero'')
          else
            let len1 = (if f_file_size x < f_offset x + len then f_file_size x - f_offset x else len)
            in case skip_clusters (unat (f_offset x div cluster_bytes s)) (f_first_cluster x) s of
                 (None, s1) \<Rightarrow> Inr (0, [], s1)
               | (Some cluster, s1) \<Rightarrow>
                   rbind (read_chain (fat_entries s1) cluster (unat (f_offset x mod cluster_bytes s)) (unat len1) s1)
                     (\<lambda>(bs, s2). Inr (ret_count (length bs), bs, upd_file f (\<lambda>x. x\<lparr>f_offset := f_offset x + of_nat (length bs)\<rparr>) s2)))"

text \<open>\<^verbatim>\<open>fs_read_file_offset\<close>; before the first process there is no caller and the root directory is used.\<close>

definition fs_read_file_offset :: "nat option \<Rightarrow> string \<Rightarrow> u32 \<Rightarrow> u32 \<Rightarrow> kernel \<Rightarrow> (int \<times> u8 list \<times> kernel) res" where
  "fs_read_file_offset me path offset max_len s =
     rbind (name_raw path) (\<lambda>raw.
     let nm = to_fat_name raw in
     rbind (case me of
              Some i \<Rightarrow> dir_of i path s
            | None \<Rightarrow>
                (case dir_part path of
                   None \<Rightarrow> Inr (root_cluster (fs s), s)
                 | Some d \<Rightarrow>
                     if d \<noteq> [] \<and> hd d = CHR ''/'' then get_path_cluster 0 d s
                     else Inl (Undefined ''get_path_cluster: no process''))) (\<lambda>(dir, s1).
       if dir_part path \<noteq> None \<and> dir = 0xFFFFFFFF then Inr (-1, [], s1)
       else
         rbind (find_dir_entry dir nm s1) (\<lambda>(r, s2).
           case r of
             None \<Rightarrow> Inr (-1, [], s2)
           | Some (e, _, _) \<Rightarrow>
               if e_file_size e \<le> offset then Inr (0, [], s2)
               else if cluster_bytes s2 = 0 then Inl (Undefined ''fs_read_file_offset: endless loop'')
               else
                 let sz = (if max_len < e_file_size e - offset then max_len else e_file_size e - offset)
                 in case skip_clusters (unat (offset div cluster_bytes s2)) (e_cluster e) s2 of
                      (None, s3) \<Rightarrow> Inr (0, [], s3)
                    | (Some cluster, s3) \<Rightarrow>
                        rbind (read_chain (fat_entries s3) cluster (unat (offset mod cluster_bytes s2)) (unat sz) s3)
                          (\<lambda>(bs, s4). Inr (ret_count (length bs), bs, s4)))))"

definition fs_read_file :: "nat option \<Rightarrow> string \<Rightarrow> u32 \<Rightarrow> kernel \<Rightarrow> (int \<times> u8 list \<times> kernel) res" where
  "fs_read_file me filename max_len s = fs_read_file_offset me filename 0 max_len s"

text \<open>
  The sectors of one cluster in \<^verbatim>\<open>WriteFile\<close>: whole sectors are written from the caller's buffer, partial
  ones through the cache page; the results of the transfers are ignored.
\<close>

primrec write_sectors :: "nat \<Rightarrow> u32 \<Rightarrow> nat \<Rightarrow> u8 list \<Rightarrow> kernel \<Rightarrow> nat \<times> kernel" where
  "write_sectors 0 sector skip bs s = (0, s)"
| "write_sectors (Suc n) sector skip bs s =
     (if bs = [] then (0, s)
      else
        let can = min (512 - skip) (length bs);
            s1 = (if skip \<noteq> 0 \<or> can < 512 then
                    let (_, t) = read_cache sector s
                    in write_cache sector (upd_cache (put_bytes skip (take can bs)) t)
                  else snd (disk_write sector (take can bs) s))
        in case write_sectors n (sector + 1) 0 (drop can bs) s1 of (m, s2) \<Rightarrow> (can + m, s2))"

text \<open>The successor of a cluster, linking in a new one at the end of the chain; \<open>None\<close> when the volume is full.\<close>

definition next_or_new :: "u32 \<Rightarrow> kernel \<Rightarrow> u32 option \<times> kernel" where
  "next_or_new prev s =
     (case get_next_cluster prev s of (c, s1) \<Rightarrow>
        if 0x0FFFFFF8 \<le> c then
          let (nxt, s2) = alloc_cluster s1 in
          if nxt = 0 then (None, s2)
          else (Some nxt, snd (set_next_cluster prev nxt s2))
        else (Some c, s1))"

primrec skip_or_new :: "nat \<Rightarrow> u32 \<Rightarrow> kernel \<Rightarrow> u32 option \<times> kernel" where
  "skip_or_new 0 cluster s = (Some cluster, s)"
| "skip_or_new (Suc n) cluster s =
     (case next_or_new cluster s of (None, s1) \<Rightarrow> (None, s1) | (Some c, s1) \<Rightarrow> skip_or_new n c s1)"

primrec write_chain :: "nat \<Rightarrow> u32 \<Rightarrow> nat \<Rightarrow> u8 list \<Rightarrow> kernel \<Rightarrow> (nat \<times> kernel) res" where
  "write_chain 0 cluster off bs s =
     (if bs \<noteq> [] \<and> in_chain cluster then Inl (Undefined ''WriteFile: endless chain'') else Inr (0, s))"
| "write_chain (Suc n) cluster off bs s =
     (if bs \<noteq> [] \<and> in_chain cluster then
        case write_sectors (unat (sectors_per_cluster (fs s)) - off div 512)
            (cluster_to_sector s cluster + of_nat (off div 512)) (off mod 512) bs s of
          (m, s1) \<Rightarrow>
            if m < length bs then
              (case next_or_new cluster s1 of
                 (None, s2) \<Rightarrow> Inr (m, s2)
               | (Some nxt, s2) \<Rightarrow>
                   rbind (write_chain n nxt 0 (drop m bs) s2) (\<lambda>(k, s3). Inr (m + k, s3)))
            else Inr (m, s1)
      else Inr (0, s))"

text \<open>\<^verbatim>\<open>WriteFile\<close>; the entry it updates is looked up in the caller's current directory.\<close>

definition write_file :: "nat \<Rightarrow> u64 \<Rightarrow> file_t \<Rightarrow> u8 list \<Rightarrow> kernel \<Rightarrow> (int \<times> kernel) res" where
  "write_file me f x bs s =
     (if cluster_bytes s = 0 then Inl (Undefined ''WriteFile: division by zero'')
      else
        case skip_or_new (unat (f_offset x div cluster_bytes s)) (f_first_cluster x) s of
          (None, s1) \<Rightarrow> Inr (0, s1)
        | (Some cluster, s1) \<Rightarrow>
            rbind (write_chain (fat_entries s1) cluster (unat (f_offset x mod cluster_bytes s)) bs s1) (\<lambda>(m, s2).
              let off = f_offset x + of_nat m;
                  s3 = upd_file f (\<lambda>x. x\<lparr>f_offset := off\<rparr>) s2
              in if f_file_size x < off then
                   rbind (update_dir_entry_info_cwd (p_cwd_cluster (procs s3 ! me)) (f_name x) 0 off
                       (upd_file f (\<lambda>x. x\<lparr>f_file_size := off\<rparr>) s3))
                     (\<lambda>s4. Inr (ret_count m, s4))
                 else Inr (ret_count m, s3)))"

definition WriteFile :: "nat \<Rightarrow> u32 \<Rightarrow> u8 list \<Rightarrow> kernel \<Rightarrow> (int \<times> kernel) res" where
  "WriteFile me h bs s =
     (let f = handle_of me h s in
      if f = 0 then Inr (-1, s)
      else if f = -1 then Inr (ret_count (length bs), fold uart_putc_no_lock bs s)
      else case files s f of
        None \<Rightarrow> Inl (Undefined ''WriteFile: no file'')
      | Some x \<Rightarrow>
          if \<not> f_writable x then Inr (-1, s)
          else if f_first_cluster x = 0 then
            let (c, s1) = alloc_cluster s in
            if c = 0 then Inr (-1, s1)
            else
              rbind (update_dir_entry_info_cwd (p_cwd_cluster (procs s1 ! me)) (f_name x) c 0xFFFFFFFF
                  (upd_file f (\<lambda>x. x\<lparr>f_first_cluster := c\<rparr>) s1))
                (\<lambda>s2. write_file me f (x\<lparr>f_first_cluster := c\<rparr>) bs s2)
          else write_file me f x bs s)"

subsection \<open>Listing\<close>

definition STDOUT :: u32 where [rv_const]: "STDOUT = 1"

definition is_dir :: "dirent \<Rightarrow> bool" where
  "is_dir e \<longleftrightarrow> e_attr e AND ATTR_DIRECTORY \<noteq> 0"

definition ls_name :: "dirent \<Rightarrow> u8 list" where
  "ls_name e =
     (if is_dir e then [of_char CHR ''[''] else []) @ filter (\<lambda>c. c \<noteq> 32) (take 8 e) @
     (if e ! 8 \<noteq> 32 then of_char CHR ''.'' # filter (\<lambda>c. c \<noteq> 32) (take 3 (drop 8 e)) else []) @
     (if is_dir e then [of_char CHR '']''] else []) @ [32, 32]"

definition ls_size :: "dirent \<Rightarrow> u8 list" where
  "ls_size e =
     (if is_dir e then map of_char ''DIR'' @ [10]
      else rev (print_digits 10 (e_file_size e)) @ map of_char '' bytes'' @ [10])"

text \<open>Both buffers are printed up to a NUL, like any C string.\<close>

definition c_str :: "u8 list \<Rightarrow> u8 list" where
  "c_str bs = takeWhile (\<lambda>c. c \<noteq> 0) bs"

primrec ls_entries :: "nat \<Rightarrow> nat \<Rightarrow> nat \<Rightarrow> u8 list \<Rightarrow> kernel \<Rightarrow> (bool \<times> kernel) res" where
  "ls_entries 0 me i buf s = Inr (False, s)"
| "ls_entries (Suc n) me i buf s =
     (let e = dir_entry buf i in
      if e ! 0 = 0 then Inr (True, s)
      else if e ! 0 = 0xE5 \<or> e_attr e = ATTR_LONG_NAME then ls_entries n me (Suc i) buf s
      else
        rbind (WriteFile me STDOUT (c_str (ls_name e)) s) (\<lambda>(_, s1).
        rbind (WriteFile me STDOUT (c_str (ls_size e)) s1) (\<lambda>(_, s2).
          ls_entries n me (Suc i) buf s2)))"

primrec ls_sectors :: "nat \<Rightarrow> nat \<Rightarrow> u32 \<Rightarrow> kernel \<Rightarrow> (bool \<times> kernel) res" where
  "ls_sectors 0 me sector s = Inr (False, s)"
| "ls_sectors (Suc n) me sector s =
     (case disk_read sector [] s of (ok, buf, s1) \<Rightarrow>
        if \<not> ok then Inr (False, s1)
        else
          rbind (ls_entries 16 me 0 buf s1) (\<lambda>(fin, s2).
            if fin then Inr (True, s2) else ls_sectors n me (sector + 1) s2))"

primrec ls_chain :: "nat \<Rightarrow> nat \<Rightarrow> u32 \<Rightarrow> kernel \<Rightarrow> kernel res" where
  "ls_chain 0 me cluster s = (if in_chain cluster then Inl (Undefined ''fs_ls: endless chain'') else Inr s)"
| "ls_chain (Suc n) me cluster s =
     (if in_chain cluster then
        rbind (ls_sectors (unat (sectors_per_cluster (fs s))) me (cluster_to_sector s cluster) s) (\<lambda>(fin, s1).
          if fin then Inr s1
          else case get_next_cluster cluster s1 of (nxt, s2) \<Rightarrow> ls_chain n me nxt s2)
      else Inr s)"

definition fs_ls :: "nat \<Rightarrow> kernel \<Rightarrow> kernel res" where
  "fs_ls me s = ls_chain (fat_entries s) me (p_cwd_cluster (procs s ! me)) s"

subsection \<open>Directories\<close>

text \<open>The two entries of a new directory: itself, and its parent, with 0 for the root.\<close>

definition dot_entries :: "u32 \<Rightarrow> u32 \<Rightarrow> u8 list" where
  "dot_entries cluster parent =
     put_bytes (32 + 11) [ATTR_DIRECTORY] (set_cluster 1 parent (put_bytes 32 (blank ''..'')
       (put_bytes 11 [ATTR_DIRECTORY] (set_cluster 0 cluster (put_bytes 0 (blank ''.'') (replicate 512 0))))))"

definition MakeDir :: "nat \<Rightarrow> string \<Rightarrow> kernel \<Rightarrow> (int \<times> kernel) res" where
  "MakeDir me path s =
     (let nm = to_fat_name path; cwd = p_cwd_cluster (procs s ! me) in
      rbind (find_dir_entry cwd nm s) (\<lambda>(r, s1).
        if r \<noteq> None then Inr (-1, s1)
        else
          rbind (find_free_dir_entry cwd s1) (\<lambda>(slot, s2).
            case slot of
              None \<Rightarrow> Inr (-1, s2)
            | Some (sector, idx) \<Rightarrow>
                let (cluster, s3) = alloc_cluster s2 in
                if cluster = 0 then Inr (-1, s3)
                else
                  let (_, s4) = read_cache sector s3;
                      s5 = write_cache sector (upd_cache (new_entry idx nm ATTR_DIRECTORY cluster) s4);
                      parent = (if cwd = root_cluster (fs s5) then 0 else cwd)
                  in Inr (0, write_cache (cluster_to_sector s5 cluster)
                       (upd_cache (\<lambda>_. dot_entries cluster parent) s5)))))"

definition parent_path :: "string \<Rightarrow> string" where
  "parent_path cwd =
     (if cwd = ''/'' then cwd
      else
        let n = length cwd - length (base_name cwd) - 1
        in if n = 0 then take 1 cwd else take n cwd)"

text \<open>Appending a component to \<^verbatim>\<open>char cwd_path[128]\<close>.\<close>

definition append_path :: "string \<Rightarrow> string \<Rightarrow> string res" where
  "append_path cwd path =
     (let base = (if 1 < length cwd then cwd @ ''/'' else cwd) in
      if 127 < length base then Inl (Undefined ''cwd_path[128] overflows'')
      else Inr (base @ take (127 - length base) path))"

definition ChangeDir :: "nat \<Rightarrow> string \<Rightarrow> kernel \<Rightarrow> (int \<times> kernel) res" where
  "ChangeDir me path s =
     (if path = ''/'' then Inr (0, upd_proc me (\<lambda>p. p\<lparr>p_cwd_cluster := root_cluster (fs s), p_cwd_path := ''/''\<rparr>) s)
      else
        rbind (find_dir_entry (p_cwd_cluster (procs s ! me)) (to_fat_name path) s) (\<lambda>(r, s1).
          case r of
            None \<Rightarrow> Inr (-1, s1)
          | Some (e, _, _) \<Rightarrow>
              if \<not> is_dir e then Inr (-1, s1)
              else
                let c = (if e_cluster e = 0 then root_cluster (fs s1) else e_cluster e);
                    cwd = p_cwd_path (procs s1 ! me)
                in rbind (if path = ''.'' then Inr cwd else if path = ''..'' then Inr (parent_path cwd) else append_path cwd path)
                     (\<lambda>np. Inr (0, upd_proc me (\<lambda>p. p\<lparr>p_cwd_cluster := c, p_cwd_path := np\<rparr>) s1))))"

subsection \<open>Removing and moving\<close>

text \<open>
  The test of \<^verbatim>\<open>Unlink\<close> that a directory is empty: \<open>Some True\<close> at its end mark, \<open>Some False\<close> at an entry other
  than its own and its parent's. The sectors are read into a local array without a test for failure.
\<close>

primrec empty_entries :: "nat \<Rightarrow> nat \<Rightarrow> u8 list \<Rightarrow> bool option" where
  "empty_entries 0 i buf = None"
| "empty_entries (Suc n) i buf =
     (let e = dir_entry buf i in
      if e ! 0 = 0 then Some True
      else if e ! 0 = 0xE5 \<or> e_name e = blank ''.'' \<or> e_name e = blank ''..'' then empty_entries n (Suc i) buf
      else Some False)"

primrec empty_sectors :: "nat \<Rightarrow> u32 \<Rightarrow> kernel \<Rightarrow> (bool option \<times> kernel) res" where
  "empty_sectors 0 sector s = Inr (None, s)"
| "empty_sectors (Suc n) sector s =
     (case disk_read sector [] s of (ok, buf, s1) \<Rightarrow>
        if \<not> ok then Inl (Undefined ''Unlink: uninitialised buffer'')
        else case empty_entries 16 0 buf of
          Some r \<Rightarrow> Inr (Some r, s1)
        | None \<Rightarrow> empty_sectors n (sector + 1) s1)"

primrec empty_chain :: "nat \<Rightarrow> u32 \<Rightarrow> kernel \<Rightarrow> (bool \<times> kernel) res" where
  "empty_chain 0 cluster s = (if in_chain cluster then Inl (Undefined ''Unlink: endless chain'') else Inr (True, s))"
| "empty_chain (Suc n) cluster s =
     (if in_chain cluster then
        rbind (empty_sectors (unat (sectors_per_cluster (fs s))) (cluster_to_sector s cluster) s) (\<lambda>(r, s1).
          case r of
            Some b \<Rightarrow> Inr (b, s1)
          | None \<Rightarrow> (case get_next_cluster cluster s1 of (nxt, s2) \<Rightarrow> empty_chain n nxt s2))
      else Inr (True, s))"

definition Unlink :: "nat \<Rightarrow> string \<Rightarrow> kernel \<Rightarrow> (int \<times> kernel) res" where
  "Unlink me path s =
     rbind (find_dir_entry (p_cwd_cluster (procs s ! me)) (to_fat_name path) s) (\<lambda>(r, s1).
       case r of
         None \<Rightarrow> Inr (-1, s1)
       | Some (e, sector, idx) \<Rightarrow>
           rbind (if is_dir e then empty_chain (fat_entries s1) (e_cluster e) s1 else Inr (True, s1)) (\<lambda>(emp, s2).
             if \<not> emp then Inr (-1, s2)
             else
               rbind (clear_cluster_chain (e_cluster e) s2) (\<lambda>s3.
                 let (_, s4) = read_cache sector s3
                 in Inr (0, write_cache sector (upd_cache (mark_deleted idx) s4)))))"

definition mv :: "nat \<Rightarrow> string \<Rightarrow> string \<Rightarrow> kernel \<Rightarrow> (int \<times> kernel) res" where
  "mv me oldpath newpath s =
     rbind (name_raw oldpath) (\<lambda>raw.
     let old_fat = to_fat_name raw in
     rbind (dir_of me oldpath s) (\<lambda>(src, s1).
       if dir_part oldpath \<noteq> None \<and> src = 0xFFFFFFFF then Inr (-1, s1)
       else
         rbind (find_dir_entry src old_fat s1) (\<lambda>(r, s2).
           case r of
             None \<Rightarrow> Inr (-1, s2)
           | Some (e, sector, idx) \<Rightarrow>
               rbind (get_path_cluster me newpath s2) (\<lambda>(dest, s3).
                 if dest \<noteq> 0xFFFFFFFF then
                   rbind (find_dir_entry dest old_fat s3) (\<lambda>(q, s4).
                     if q \<noteq> None then Inr (-1, s4)
                     else
                       rbind (find_free_dir_entry dest s4) (\<lambda>(slot, s5).
                         case slot of
                           None \<Rightarrow> Inr (-1, s5)
                         | Some (nsector, nidx) \<Rightarrow>
                             let (_, s6) = read_cache nsector s5;
                                 s7 = write_cache nsector (upd_cache (put_bytes (32 * nidx) e) s6);
                                 (_, s8) = read_cache sector s7
                             in Inr (0, write_cache sector (upd_cache (mark_deleted idx) s8))))
                 else
                   rbind (find_dir_entry src (to_fat_name newpath) s3) (\<lambda>(q, s4).
                     if q \<noteq> None then Inr (-1, s4)
                     else
                       let (_, s5) = read_cache sector s4
                       in Inr (0, write_cache sector (upd_cache (put_bytes (32 * idx) (to_fat_name newpath)) s5)))))))"

subsection \<open>Names: lemmas\<close>

lemma length_to_fat_name: "length (to_fat_name src) = 11"
proof -
  have "length (map up_char (take 8 xs)) \<le> 8" "length (map up_char (take 3 xs)) \<le> 3" for xs by simp_all
  then show ?thesis by (simp add: to_fat_name_def blank_def Let_def split: list.split)
qed

lemma up_char_upper: "\<not> (97 \<le> up_char ch \<and> up_char ch \<le> 122)"
proof
  let ?c = "of_char ch :: u8"
  assume u: "97 \<le> up_char ch \<and> up_char ch \<le> 122"
  show False
  proof (cases "97 \<le> ?c \<and> ?c \<le> 122")
    case True
    then have "unat (?c - 32) = unat ?c - 32" by (subst unat_sub) (simp_all add: word_le_nat_alt)
    then show False using u True by (auto simp: up_char_def word_le_nat_alt)
  qed (use u in \<open>auto simp: up_char_def\<close>)
qed

lemma up_char_dot: "up_char c = 46 \<longleftrightarrow> c = CHR ''.''"
proof
  let ?c = "of_char c :: u8"
  assume u: "up_char c = 46"
  show "c = CHR ''.''"
  proof (cases "97 \<le> ?c \<and> ?c \<le> 122")
    case True
    then have "unat (?c - 32) = unat ?c - 32" by (subst unat_sub) (simp_all add: word_le_nat_alt)
    moreover have "97 \<le> unat ?c" using True by (simp add: word_le_nat_alt)
    moreover have "?c - 32 = 46" using u True by (simp add: up_char_def)
    then have "unat (?c - 32) = unat (46 :: u8)" by (simp only:)
    ultimately show ?thesis by simp
  next
    case False
    then have "?c = of_char CHR ''.''" using u by (simp add: up_char_def Let_def split: if_splits)
    then show ?thesis by (simp only: of_char_u8)
  qed
qed (simp add: up_char_def)

lemma fat_name_bytes: "set (to_fat_name src) \<subseteq> {32, 46} \<union> range up_char"
proof (cases "src = ''.'' \<or> src = ''..''")
  case True
  then show ?thesis by (elim disjE) (simp_all add: to_fat_name_def blank_def)
next
  case False
  define stem where "stem = take 8 (takeWhile (\<lambda>c. c \<noteq> CHR ''.'') src)"
  define ext where "ext = (case dropWhile (\<lambda>c. c \<noteq> CHR ''.'') src of [] \<Rightarrow> [] | _ # e \<Rightarrow> take 3 e)"
  have e: "(case dropWhile (\<lambda>c. c \<noteq> CHR ''.'') src of [] \<Rightarrow> [] | _ # e \<Rightarrow> map up_char (take 3 e)) = map up_char ext"
    unfolding ext_def by (cases "dropWhile (\<lambda>c. c \<noteq> CHR ''.'') src") (simp_all only: list.case list.map)
  have "to_fat_name src = map up_char stem @ replicate (8 - length stem) 32 @ map up_char ext @ replicate (3 - length ext) 32"
    using False unfolding to_fat_name_def Let_def e stem_def by simp
  then show ?thesis by (auto simp: set_replicate_conv_if)
qed

subsection \<open>Reading leaves the volume alone\<close>

text \<open>What a read may change: the request counter, the queue and the cache page.\<close>

definition same_vol :: "kernel \<Rightarrow> kernel \<Rightarrow> bool" where
  "same_vol s s' \<longleftrightarrow> (\<exists>q r b. s' = s\<lparr>requests := r, vq := q, fs := (fs s)\<lparr>cache_page := b\<rparr>\<rparr>)"

lemma same_vol_refl [simp]: "same_vol s s"
  unfolding same_vol_def by (intro exI [of _ "vq s"] exI [of _ "requests s"] exI [of _ "cache_page (fs s)"]) simp

lemma same_vol_trans: "same_vol s t \<Longrightarrow> same_vol t u \<Longrightarrow> same_vol s u"
  unfolding same_vol_def by (auto, intro exI, rule refl)

lemma same_vol_read: "same_vol s (after_read x s)"
proof -
  have "after_read x s = s\<lparr>requests := requests (after_read x s), vq := vq (after_read x s)\<rparr>"
    by (simp add: after_read_def disk_read_def submit_def vreg_def Let_def)
  then show ?thesis unfolding same_vol_def
    by (intro exI [of _ "vq (after_read x s)"] exI [of _ "requests (after_read x s)"] exI [of _ "cache_page (fs s)"]) simp
qed

lemma same_volD:
  assumes "same_vol s s'"
  shows "disk s' = disk s" "dev s' = dev s" "procs s' = procs s" "files s' = files s" "vol_wf s' = vol_wf s"
    "fatval s' = fatval s" "fat_entries s' = fat_entries s" "cluster_to_sector s' = cluster_to_sector s"
    "sectors_per_cluster (fs s') = sectors_per_cluster (fs s)" "root_cluster (fs s') = root_cluster (fs s)"
    "dev_ok s' = dev_ok s" "cluster_bytes s' = cluster_bytes s"
  using assms unfolding same_vol_def
  by (auto simp: vol_wf_def dev_ok_def fat_entries_def fatval_def fat_sector_of_def cluster_to_sector_def cluster_bytes_def fun_eq_iff)

lemma read_cache_ok:
  assumes "dev_ok s"
  shows "\<exists>s'. read_cache x s = (True, s') \<and> same_vol s s' \<and> cache_page (fs s') = disk s x"
proof -
  let ?t = "after_read x s"
  have "same_vol ?t (?t\<lparr>fs := (fs ?t)\<lparr>cache_page := disk s x\<rparr>\<rparr>)"
    unfolding same_vol_def by (intro exI [of _ "vq ?t"] exI [of _ "requests ?t"] exI [of _ "disk s x"]) simp
  then show ?thesis using same_vol_trans [OF same_vol_read] by (simp add: read_cache_def disk_read_ok [OF assms])
qed

lemma get_next_same: "dev_ok s \<Longrightarrow> \<exists>s'. get_next_cluster c s = (fatval s c, s') \<and> same_vol s s'"
  using get_next_ok same_vol_read by blast

subsection \<open>Directories as lists\<close>

fun first_some :: "('a \<Rightarrow> 'b option) \<Rightarrow> 'a list \<Rightarrow> 'b option" where
  "first_some f [] = None"
| "first_some f (x # xs) = (case f x of Some r \<Rightarrow> Some r | None \<Rightarrow> first_some f xs)"

lemma first_some_append: "first_some f (xs @ ys) = (case first_some f xs of Some r \<Rightarrow> Some r | None \<Rightarrow> first_some f ys)"
  by (induction xs) (auto split: option.splits)

definition sectors :: "nat \<Rightarrow> u32 \<Rightarrow> u32 list" where
  "sectors n x = map (\<lambda>j. x + of_nat j) [0..<n]"

lemma sectors_Suc: "sectors (Suc n) x = x # sectors n (x + 1)"
  by (simp add: sectors_def upt_conv_Cons algebra_simps del: upt_Suc flip: map_Suc_upt)

definition sector_entries :: "kernel \<Rightarrow> u32 \<Rightarrow> (u32 \<times> nat \<times> dirent) list" where
  "sector_entries s x = map (\<lambda>i. (x, i, dir_entry (disk s x) i)) [0..<16]"

definition cluster_list :: "kernel \<Rightarrow> u32 \<Rightarrow> u32 list" where
  "cluster_list s c = sectors (unat (sectors_per_cluster (fs s))) (cluster_to_sector s c)"

text \<open>The entries of a directory whose clusters are \<open>cs\<close>, in the order in which they are scanned.\<close>

definition dir_entries :: "kernel \<Rightarrow> u32 list \<Rightarrow> (u32 \<times> nat \<times> dirent) list" where
  "dir_entries s cs = concat (map (\<lambda>c. concat (map (sector_entries s) (cluster_list s c))) cs)"

lemma scan_entries_first: "scan_entries n i f buf = first_some (\<lambda>j. f j (dir_entry buf j)) [i..<i + n]"
proof (induction n arbitrary: i)
  case (Suc n)
  have "[i..<i + Suc n] = i # [Suc i..<Suc i + n]" by (simp add: upt_conv_Cons)
  then show ?case using Suc by (auto split: option.splits)
qed simp

lemma scan_sectors_first:
  assumes "dev_ok s"
  shows "\<exists>s'. scan_sectors n x f s = (first_some (\<lambda>(x, i, e). f x i e) (concat (map (sector_entries s) (sectors n x))), s') \<and> same_vol s s'"
  using assms
proof (induction n arbitrary: x s)
  case (Suc n)
  obtain t where t: "read_cache x s = (True, t)" "same_vol s t" "cache_page (fs t) = disk s x"
    using read_cache_ok [OF Suc.prems] by blast
  have d: "dev_ok t" "disk t = disk s" using same_volD [OF t(2)] Suc.prems by simp_all
  have se: "sector_entries t = sector_entries s" by (simp add: sector_entries_def d fun_eq_iff)
  obtain u where u: "scan_sectors n (x + 1) f t =
      (first_some (\<lambda>(x, i, e). f x i e) (concat (map (sector_entries s) (sectors n (x + 1)))), u)" "same_vol t u"
    using Suc.IH [OF d(1), of "x + 1"] by (auto simp: se)
  have first: "scan_entries 16 0 (f x) (disk s x) = first_some (\<lambda>(x, i, e). f x i e) (sector_entries s x)"
  proof -
    have "first_some (\<lambda>(x, i, e). f x i e) (map (\<lambda>i. (x, i, dir_entry (disk s x) i)) is) =
        first_some (\<lambda>j. f x j (dir_entry (disk s x) j)) is" for "is"
      by (induction "is") (auto split: option.splits)
    then show ?thesis by (simp add: scan_entries_first sector_entries_def)
  qed
  show ?case using t u same_vol_trans [OF t(2) u(2)]
    by (auto simp: sectors_Suc first first_some_append split: option.splits)
qed (simp add: sectors_def)

lemma scan_dir_first:
  assumes "dev_ok s" and "chain_at (fatval s) c cs" and "length cs \<le> n"
  shows "\<exists>l s'. scan_dir n c l0 f s = Inr (first_some (\<lambda>(x, i, e). f x i e) (dir_entries s cs), l, s') \<and> same_vol s s'"
  using assms
proof (induction n arbitrary: c cs l0 s)
  case (Suc n)
  show ?case
  proof (cases cs)
    case Nil
    then show ?thesis using Suc.prems by (auto simp: dir_entries_def)
  next
    case (Cons x xs)
    then have c: "x = c" "in_chain c" "chain_at (fatval s) (fatval s c) xs" using Suc.prems(2) by auto
    let ?f = "\<lambda>(x, i, e). f x i e"
    obtain t where t: "scan_sectors (unat (sectors_per_cluster (fs s))) (cluster_to_sector s c) f s =
        (first_some ?f (concat (map (sector_entries s) (cluster_list s c))), t)" "same_vol s t"
      using scan_sectors_first [OF Suc.prems(1)] by (metis cluster_list_def)
    note T = same_volD [OF t(2)]
    obtain u where u: "get_next_cluster c t = (fatval s c, u)" "same_vol t u"
      using get_next_same [of t c] T Suc.prems(1) by auto
    have su: "same_vol s u" using same_vol_trans t(2) u(2) .
    note U = same_volD [OF su]
    have "sector_entries u = sector_entries s" "cluster_list u = cluster_list s"
      by (simp_all add: sector_entries_def cluster_list_def U fun_eq_iff)
    then have "dir_entries u ys = dir_entries s ys" for ys by (simp only: dir_entries_def)
    then obtain l v where v: "scan_dir n (fatval s c) c f u = Inr (first_some ?f (dir_entries s xs), l, v)" "same_vol u v"
      using Suc.IH [of u "fatval s c" xs c] U Suc.prems(1,3) Cons c(3) by auto
    have "dir_entries s cs = concat (map (sector_entries s) (cluster_list s c)) @ dir_entries s xs"
      using Cons c(1) by (simp add: dir_entries_def)
    then show ?thesis using c t u v su same_vol_trans [OF su v(2)]
      by (auto simp: first_some_append split: option.splits)
  qed
qed (simp add: dir_entries_def)

lemma chain_length:
  assumes "distinct cs" and "\<forall>x \<in> set cs. in_table s x"
  shows "length cs \<le> fat_entries s"
proof -
  have "unat ` set cs \<subseteq> {..<fat_entries s}" using assms(2) by auto
  then have "card (unat ` set cs) \<le> fat_entries s" using card_mono [of "{..<fat_entries s}"] by simp
  moreover have "card (unat ` set cs) = length cs"
    using assms(1) by (subst card_image) (simp_all add: inj_on_def word_unat_eq_iff distinct_card)
  ultimately show ?thesis by simp
qed

lemma match_first:
  "first_some (\<lambda>(x, i, e). match_entry nm x i e) es =
     (case find (\<lambda>(x, i, e). e ! 0 = 0 \<or> e ! 0 \<noteq> 0xE5 \<and> e_attr e \<noteq> ATTR_LONG_NAME \<and> e_name e = nm) es of
        None \<Rightarrow> None
      | Some (x, i, e) \<Rightarrow> Some (if e ! 0 = 0 then None else Some (e, x, i)))"
proof (induction es)
  case (Cons a es)
  obtain x i e where a: "a = (x, i, e)" by (cases a)
  show ?case using Cons unfolding a
    by (cases "e ! 0 = 0"; cases "e ! 0 = 0xE5"; cases "e_attr e = ATTR_LONG_NAME"; cases "e_name e = nm")
       (simp_all add: match_entry_def)
qed simp

lemma find_takeWhile:
  "(case find (\<lambda>x. z x \<or> p x) xs of None \<Rightarrow> None | Some x \<Rightarrow> if z x then None else Some x) = find p (takeWhile (\<lambda>x. \<not> z x) xs)"
  by (induction xs) auto

subsection \<open>File contents as lists\<close>

definition cluster_data :: "kernel \<Rightarrow> u32 \<Rightarrow> u8 list" where
  "cluster_data s c = concat (map (disk s) (cluster_list s c))"

definition chain_data :: "kernel \<Rightarrow> u32 list \<Rightarrow> u8 list" where
  "chain_data s cs = concat (map (cluster_data s) cs)"

lemma length_sectors [simp]: "length (sectors n x) = n"
  by (simp add: sectors_def)

lemma length_concat_same: "(\<And>x. x \<in> set xs \<Longrightarrow> length x = k) \<Longrightarrow> length (concat xs) = length xs * k"
  by (induction xs) auto

lemma length_cluster_data: "vol_wf s \<Longrightarrow> length (cluster_data s c) = 512 * unat (sectors_per_cluster (fs s))"
  by (subst cluster_data_def, subst length_concat_same [where k = 512]) (auto simp: vol_wf_def cluster_list_def)

lemma drop_concat_same:
  "(\<And>x. x \<in> set xs \<Longrightarrow> length x = k) \<Longrightarrow> i \<le> length xs \<Longrightarrow> drop (i * k + r) (concat xs) = drop r (concat (drop i xs))"
proof (induction xs arbitrary: i)
  case (Cons x xs)
  show ?case
  proof (cases i)
    case (Suc j)
    have "drop (k + (j * k + r)) (x @ concat xs) = drop (j * k + r) (concat xs)"
      using Cons.prems(1) [of x] by simp
    then show ?thesis using Suc Cons.IH [of j] Cons.prems by (simp add: add.assoc)
  qed simp
qed simp

lemma drop_sectors: "i \<le> n \<Longrightarrow> drop i (sectors n x) = sectors (n - i) (x + of_nat i)"
  unfolding sectors_def drop_map drop_upt by (rule nth_equalityI) (simp_all add: algebra_simps)

lemma read_sectors_data:
  assumes "vol_wf s" and "skip < 512"
  shows "\<exists>s'. read_sectors n x skip want s = (take want (drop skip (concat (map (disk s) (sectors n x)))), True, s') \<and> same_vol s s'"
  using assms
proof (induction n arbitrary: x skip want s)
  case (Suc n)
  show ?case
  proof (cases "want = 0")
    case False
    have dv: "dev_ok s" and len: "length (disk s x) = 512" using Suc.prems by (simp_all add: vol_wf_def)
    obtain t where t: "read_cache x s = (True, t)" "same_vol s t" "cache_page (fs t) = disk s x"
      using read_cache_ok [OF dv] by blast
    note T = same_volD [OF t(2)]
    let ?can = "min (512 - skip) want"
    obtain u where u: "read_sectors n (x + 1) 0 (want - ?can) t =
        (take (want - ?can) (concat (map (disk s) (sectors n (x + 1)))), True, u)" "same_vol t u"
      using Suc.IH [of t 0 "x + 1" "want - ?can"] T Suc.prems by auto
    have "take want (drop skip (disk s x @ r)) = take ?can (drop skip (disk s x)) @ take (want - ?can) r" for r
      using Suc.prems(2) len by (cases "want \<le> 512 - skip") simp_all
    then show ?thesis using False t u same_vol_trans [OF t(2) u(2)] by (simp add: sectors_Suc Let_def)
  qed simp
qed (simp add: sectors_def)

lemma read_cluster_data:
  assumes wf: "vol_wf s" and off: "off < 512 * unat (sectors_per_cluster (fs s))"
  shows "\<exists>s'. read_sectors (unat (sectors_per_cluster (fs s)) - off div 512)
      (cluster_to_sector s c + of_nat (off div 512)) (off mod 512) want s = (take want (drop off (cluster_data s c)), True, s') \<and> same_vol s s'"
proof -
  let ?n = "unat (sectors_per_cluster (fs s))" and ?x = "cluster_to_sector s c"
  have le: "off div 512 \<le> ?n" using off by (simp add: less_mult_imp_div_less mult.commute order_less_imp_le)
  have len: "length b = 512" if "b \<in> set (map (disk s) (sectors ?n ?x))" for b
    using that wf by (auto simp: vol_wf_def)
  have "drop off (cluster_data s c) = drop (off div 512 * 512 + off mod 512) (concat (map (disk s) (sectors ?n ?x)))"
    by (simp add: cluster_data_def cluster_list_def)
  also have "\<dots> = drop (off mod 512) (concat (drop (off div 512) (map (disk s) (sectors ?n ?x))))"
    using le len by (intro drop_concat_same) auto
  also have "\<dots> = drop (off mod 512) (concat (map (disk s) (sectors (?n - off div 512) (?x + of_nat (off div 512)))))"
    using le by (simp add: drop_map drop_sectors)
  finally have d: "drop off (cluster_data s c) = \<dots>" .
  show ?thesis unfolding d by (rule read_sectors_data [OF wf]) simp
qed

lemma same_vol_data:
  assumes "same_vol s s'"
  shows "cluster_data s' = cluster_data s" and "chain_data s' = chain_data s"
proof -
  note D = same_volD [OF assms]
  show c: "cluster_data s' = cluster_data s" by (simp add: cluster_data_def cluster_list_def D fun_eq_iff)
  show "chain_data s' = chain_data s" by (simp add: chain_data_def c fun_eq_iff)
qed

lemma read_chain_data:
  assumes "vol_wf s" and "chain_at (fatval s) c cs" and "length cs \<le> n" and "off < 512 * unat (sectors_per_cluster (fs s))"
  shows "\<exists>s'. read_chain n c off want s = Inr (take want (drop off (chain_data s cs)), s') \<and> same_vol s s'"
  using assms
proof (induction n arbitrary: c cs off want s)
  case 0
  then show ?case by (simp add: chain_data_def)
next
  case (Suc n)
  show ?case
  proof (cases "0 < want \<and> in_chain c")
    case False
    then have "want = 0 \<or> cs = []" using Suc.prems(2) by (cases cs) auto
    then show ?thesis using False by (auto simp: chain_data_def)
  next
    case True
    obtain xs where cs: "cs = c # xs" "chain_at (fatval s) (fatval s c) xs" using Suc.prems(2) True by (cases cs) auto
    let ?cd = "cluster_data s c" and ?m = "512 * unat (sectors_per_cluster (fs s))"
    let ?bs = "take want (drop off ?cd)"
    have l: "length ?cd = ?m" by (rule length_cluster_data [OF Suc.prems(1)])
    obtain t where t: "read_sectors (unat (sectors_per_cluster (fs s)) - off div 512)
        (cluster_to_sector s c + of_nat (off div 512)) (off mod 512) want s = (?bs, True, t)" "same_vol s t"
      using read_cluster_data [OF Suc.prems(1,4)] by blast
    have "dev_ok t" using same_volD(11) [OF t(2)] Suc.prems(1) by (simp add: vol_wf_def)
    then obtain u where u: "get_next_cluster c t = (fatval s c, u)" "same_vol t u"
      using get_next_same [of t c] same_volD(6) [OF t(2)] by auto
    have su: "same_vol s u" using same_vol_trans t(2) u(2) .
    note U = same_volD [OF su]
    have pos: "0 < ?m" using Suc.prems(4) by simp
    obtain v where v: "read_chain n (fatval s c) 0 (want - length ?bs) u =
        Inr (take (want - length ?bs) (drop 0 (chain_data u xs)), v)" "same_vol u v"
      using Suc.IH [of u "fatval s c" xs 0 "want - length ?bs"] U Suc.prems(1,3) cs pos by auto
    have "take want (drop off (chain_data s cs)) = ?bs @ take (want - length ?bs) (chain_data s xs)"
    proof (cases "want \<le> length (drop off ?cd)")
      case False
      then show ?thesis using Suc.prems(4) l by (simp add: chain_data_def cs(1))
    qed (use Suc.prems(4) l in \<open>simp add: chain_data_def cs(1)\<close>)
    then show ?thesis using True t u v same_vol_trans [OF su v(2)] same_vol_data(2) [OF su]
      by (simp del: length_take length_drop)
  qed
qed

lemma skip_clusters_chain:
  assumes "dev_ok s" and "chain_at (fatval s) c cs" and "k < length cs"
  shows "\<exists>s'. skip_clusters k c s = (Some (cs ! k), s') \<and> same_vol s s' \<and> chain_at (fatval s) (cs ! k) (drop k cs)"
  using assms
proof (induction k arbitrary: c cs s)
  case 0
  then show ?case by (cases cs) auto
next
  case (Suc k)
  obtain xs where cs: "cs = c # xs" "chain_at (fatval s) (fatval s c) xs" using Suc.prems(2,3) by (cases cs) auto
  obtain t where t: "get_next_cluster c s = (fatval s c, t)" "same_vol s t"
    using get_next_same [OF Suc.prems(1)] by blast
  note T = same_volD [OF t(2)]
  have "in_chain (fatval s c)" using cs Suc.prems(3) by (cases xs) auto
  then have "\<not> 0x0FFFFFF8 \<le> fatval s c" by (simp add: in_chain_def linorder_not_le)
  moreover obtain u where "skip_clusters k (fatval s c) t = (Some (xs ! k), u)" "same_vol t u" "chain_at (fatval s) (xs ! k) (drop k xs)"
    using Suc.IH [of t "fatval s c" xs] T Suc.prems(1,3) cs by auto
  ultimately show ?case using t cs(1) same_vol_trans by auto
qed

lemma read_file_data:
  assumes "vol_wf s" and "handle_of me h s = f" "f \<noteq> 0" "files s f = Some x" "f_readable x"
    and "chain_at (fatval s) (f_first_cluster x) cs" and "distinct cs" and "\<forall>c \<in> set cs. in_table s c"
    and "unat (f_file_size x) \<le> length (chain_data s cs)" and "unat (f_offset x) + unat len < 2 ^ 32"
  defines "bs \<equiv> take (unat len) (drop (unat (f_offset x)) (take (unat (f_file_size x)) (chain_data s cs)))"
  shows "\<exists>u. same_vol s u \<and>
    ReadFile me h len s = Inr (ret_count (length bs), bs, upd_file f (\<lambda>x. x\<lparr>f_offset := f_offset x + of_nat (length bs)\<rparr>) u)"
proof (cases "f_file_size x \<le> f_offset x")
  case True
  then have "bs = []" by (simp add: bs_def word_le_nat_alt)
  moreover have "upd_file f (\<lambda>x. x\<lparr>f_offset := f_offset x\<rparr>) s = s" using assms(4) by (simp add: upd_file_def fun_upd_idem)
  ultimately show ?thesis using True assms(2-5) by (intro exI [of _ s]) (simp add: ReadFile_def)
next
  case False
  let ?spc = "unat (sectors_per_cluster (fs s))" and ?o = "unat (f_offset x)" and ?n = "unat (f_file_size x)"
  have dv: "dev_ok s" and spc: "0 < ?spc" "?spc < 256"
    using assms(1) by (simp_all add: vol_wf_def word_less_nat_alt)
  have cb: "unat (cluster_bytes s) = 512 * ?spc"
    using spc unat_mult_lem [of "sectors_per_cluster (fs s)" 512] by (simp add: cluster_bytes_def rv_const)
  then have cb0: "cluster_bytes s \<noteq> 0" using spc by auto
  define k where "k = unat (f_offset x div cluster_bytes s)"
  define r where "r = unat (f_offset x mod cluster_bytes s)"
  have kr: "k = ?o div (512 * ?spc)" "r = ?o mod (512 * ?spc)" by (simp_all add: k_def r_def unat_div unat_mod cb)
  have lo: "?o < ?n" using False by (simp add: word_le_nat_alt)
  have len: "length d = 512 * ?spc" if "d \<in> set (map (cluster_data s) cs)" for d
    using that length_cluster_data [OF assms(1)] by auto
  have "length (chain_data s cs) = length cs * (512 * ?spc)"
    using length_concat_same [of "map (cluster_data s) cs", OF len] by (simp add: chain_data_def)
  then have "?o < length cs * (512 * ?spc)" using lo assms(9) by simp
  then have k: "k < length cs" unfolding kr by (rule less_mult_imp_div_less)
  obtain t where t: "skip_clusters k (f_first_cluster x) s = (Some (cs ! k), t)" "same_vol s t"
      "chain_at (fatval s) (cs ! k) (drop k cs)"
    using skip_clusters_chain [OF dv assms(6) k] by blast
  note T = same_volD [OF t(2)]
  define want where "want = unat (if f_file_size x < f_offset x + len then f_file_size x - f_offset x else len)"
  have r: "r < 512 * unat (sectors_per_cluster (fs t))" using spc by (simp add: kr T)
  have lt: "length (drop k cs) \<le> fat_entries t" using chain_length [OF assms(7,8)] by (simp add: T)
  obtain u where u: "read_chain (fat_entries t) (cs ! k) r want t = Inr (take want (drop r (chain_data t (drop k cs))), u)"
      "same_vol t u"
    using read_chain_data [OF _ _ lt r, of "cs ! k" want] assms(1) t(3) by (auto simp: T)
  have "drop r (chain_data t (drop k cs)) = drop (k * (512 * ?spc) + r) (chain_data s cs)"
    using drop_concat_same [of "map (cluster_data s) cs", OF len, of k r] k
    by (simp add: same_vol_data [OF t(2)] chain_data_def drop_map)
  also have "k * (512 * ?spc) + r = ?o" unfolding kr by (rule div_mult_mod_eq)
  finally have d: "drop r (chain_data t (drop k cs)) = drop ?o (chain_data s cs)" .
  have w: "want = min (unat len) (?n - ?o)"
  proof -
    have "unat (f_offset x + len) = ?o + unat len" using assms(10) unat_add_lem [of "f_offset x" len] by simp
    moreover have "unat (f_file_size x - f_offset x) = ?n - ?o" using False by (intro unat_sub) simp
    ultimately show ?thesis using lo by (auto simp: want_def word_less_nat_alt min_def)
  qed
  have bs: "take want (drop r (chain_data t (drop k cs))) = bs"
    unfolding d w bs_def by (simp add: drop_take min.commute)
  have "ReadFile me h len s = Inr (ret_count (length bs), bs, upd_file f (\<lambda>x. x\<lparr>f_offset := f_offset x + of_nat (length bs)\<rparr>) u)"
    using assms(2-5) False cb0 t(1) u(1) bs
    by (simp add: ReadFile_def Let_def flip: k_def r_def want_def)
  then show ?thesis using same_vol_trans [OF t(2) u(2)] by blast
qed

subsection \<open>Properties\<close>

text \<open>
  C29. Every name becomes 11 bytes without lower-case letters, so entries can be compared and written as
  fixed fields; and exactly the names of the directory itself and of its parent give a first byte that
  is a dot, so no file can take the place of these two entries.
\<close>

theorem to_fat_name_type:
  "length (to_fat_name src) = 11 \<and> (\<forall>b \<in> set (to_fat_name src). \<not> (97 \<le> b \<and> b \<le> 122)) \<and>
   (to_fat_name src ! 0 = 46 \<longleftrightarrow> src \<in> {''.'', ''..''})"
proof (intro conjI)
  show "length (to_fat_name src) = 11" by (rule length_to_fat_name)
  show "\<forall>b \<in> set (to_fat_name src). \<not> (97 \<le> b \<and> b \<le> 122)"
    using up_char_upper fat_name_bytes [of src] by fastforce
  show "to_fat_name src ! 0 = 46 \<longleftrightarrow> src \<in> {''.'', ''..''}"
  proof (cases "src \<in> {''.'', ''..''}")
    case True
    then show ?thesis by (auto simp: to_fat_name_def blank_def)
  next
    case False
    define stem where "stem = takeWhile (\<lambda>c. c \<noteq> CHR ''.'') src"
    obtain r where r: "to_fat_name src = map up_char (take 8 stem) @ replicate (8 - length (take 8 stem)) 32 @ r"
      using False by (auto simp: to_fat_name_def Let_def stem_def)
    have "to_fat_name src ! 0 \<noteq> 46"
    proof (cases stem)
      case (Cons c cs)
      then have "c \<noteq> CHR ''.''" by (metis (mono_tags) list.set_intros(1) set_takeWhileD stem_def)
      then show ?thesis using up_char_dot Cons by (simp add: r)
    qed (simp add: r nth_append)
    then show ?thesis using False by simp
  qed
qed

theorem to_fat_name_type_witness: "to_fat_name ''a.out'' ! 0 \<noteq> 46"
  using to_fat_name_type [of "''a.out''"] by simp

lemma find_dir_entry_first:
  assumes "vol_wf s" and "chain_at (fatval s) dir cs" and "distinct cs" and "\<forall>x \<in> set cs. in_table s x"
  shows "\<exists>s'. find_dir_entry dir nm s = Inr (map_option (\<lambda>(x, i, e). (e, x, i))
      (find (\<lambda>(x, i, e). e ! 0 \<noteq> 0xE5 \<and> e_attr e \<noteq> ATTR_LONG_NAME \<and> e_name e = nm)
        (takeWhile (\<lambda>(x, i, e). e ! 0 \<noteq> 0) (dir_entries s cs))), s') \<and> same_vol s s'"
proof -
  let ?z = "\<lambda>(x :: u32, i :: nat, e :: dirent). e ! 0 = 0"
  let ?p = "\<lambda>(x :: u32, i :: nat, e). e ! 0 \<noteq> 0xE5 \<and> e_attr e \<noteq> ATTR_LONG_NAME \<and> e_name e = nm"
  let ?es = "dir_entries s cs"
  have dv: "dev_ok s" using assms(1) by (simp add: vol_wf_def)
  obtain l s' where s': "scan_dir (fat_entries s) dir dir (match_entry nm) s =
      Inr (first_some (\<lambda>(x, i, e). match_entry nm x i e) ?es, l, s')" "same_vol s s'"
    using scan_dir_first [OF dv assms(2) chain_length [OF assms(3,4)]] by blast
  have f: "find ?p (takeWhile (\<lambda>(x, i, e). e ! 0 \<noteq> 0) ?es) =
      (case find (\<lambda>y. ?z y \<or> ?p y) ?es of None \<Rightarrow> None | Some y \<Rightarrow> if ?z y then None else Some y)"
    unfolding find_takeWhile by (simp add: case_prod_unfold)
  have g: "(\<lambda>(x, i, e). e ! 0 = 0 \<or> e ! 0 \<noteq> 0xE5 \<and> e_attr e \<noteq> ATTR_LONG_NAME \<and> e_name e = nm) = (\<lambda>y. ?z y \<or> ?p y)"
    by (auto simp: fun_eq_iff)
  show ?thesis using s' unfolding find_dir_entry_def f
    by (auto simp: match_first g split: option.splits)
qed

text \<open>
  C30. Looking a name up in a directory is a search in its list of entries: for a directory whose clusters are
  a proper chain, the scan ends and returns the first entry before the end mark that is neither deleted nor part of a
  long name and has that name, with its place, or nothing; the volume is unchanged.
\<close>

theorem find_dir_entry_correct:
  assumes "vol_wf s" and "chain_at (fatval s) dir cs" and "distinct cs" and "\<forall>x \<in> set cs. in_table s x"
  shows "\<exists>s'. find_dir_entry dir nm s = Inr (map_option (\<lambda>(x, i, e). (e, x, i))
      (find (\<lambda>(x, i, e). e ! 0 \<noteq> 0xE5 \<and> e_attr e \<noteq> ATTR_LONG_NAME \<and> e_name e = nm)
        (takeWhile (\<lambda>(x, i, e). e ! 0 \<noteq> 0) (dir_entries s cs))), s') \<and> same_vol s s'"
  by (rule find_dir_entry_first [OF assms])

text \<open>A root directory with the files \<open>A\<close> and \<open>B\<close>, clusters 2 and 3 of the demonstration volume.\<close>

definition demo_root :: "u32 \<Rightarrow> u8 list" where
  "demo_root x = (if x = 2 then new_entry 1 (to_fat_name ''b'') ATTR_ARCHIVE 5 (set_size 0 600 (new_entry 0 (to_fat_name ''a'') ATTR_ARCHIVE 4 (demo_disk x)))
     else if x = 1 then put32 20 0x0FFFFFFF (put32 16 6 (put32 24 0x0FFFFFFF (demo_disk x)))
     else if x = 4 then replicate 512 65 else if x = 6 then replicate 512 66 else demo_disk x)"

lemma demo_root_wf: "vol_wf (demo_kernel demo_root) \<and> fat_entries (demo_kernel demo_root) = 128"
proof -
  have "length (to_fat_name n) = 11" for n by (rule length_to_fat_name)
  then have "length (demo_root x) = 512" for x
    by (simp add: demo_root_def demo_disk_length new_entry_def set_cluster_def set_size_def put16_def put32_def)
  then show ?thesis by (rule demo_volume)
qed

lemma demo_root_entries:
  "\<exists>xs. dir_entries (demo_kernel demo_root) [2, 3] = (2, 0, dir_entry (demo_root 2) 0) # (2, 1, dir_entry (demo_root 2) 1) # xs"
proof -
  have "cluster_list (demo_kernel demo_root) 2 = [2]" by code_simp
  moreover have "[0..<16] = 0 # 1 # [2..<16 :: nat]" by (simp add: upt_conv_Cons)
  moreover have "disk (demo_kernel demo_root) = demo_root" by (simp add: demo_kernel_def uart.defs)
  ultimately show ?thesis by (simp add: dir_entries_def sector_entries_def)
qed

theorem find_dir_entry_correct_witness:
  "\<exists>s'. find_dir_entry 2 (to_fat_name ''b'') (demo_kernel demo_root) =
     Inr (Some (dir_entry (demo_root 2) 1, 2, 1), s') \<and> same_vol (demo_kernel demo_root) s'"
proof -
  let ?s = "demo_kernel demo_root" and ?a = "dir_entry (demo_root 2) 0" and ?b = "dir_entry (demo_root 2) 1"
  have "chain_at (fatval ?s) 2 [2, 3]" by code_simp
  then have r: "\<exists>s'. find_dir_entry 2 (to_fat_name ''b'') ?s = Inr (map_option (\<lambda>(x, i, e). (e, x, i))
      (find (\<lambda>(x, i, e). e ! 0 \<noteq> 0xE5 \<and> e_attr e \<noteq> ATTR_LONG_NAME \<and> e_name e = to_fat_name ''b'')
        (takeWhile (\<lambda>(x, i, e). e ! 0 \<noteq> 0) (dir_entries ?s [2, 3]))), s') \<and> same_vol ?s s'"
    using demo_root_wf by (intro find_dir_entry_correct) auto
  have "?a ! 0 \<noteq> 0 \<and> e_name ?a \<noteq> to_fat_name ''b''" by code_simp
  moreover have "?b ! 0 \<noteq> 0 \<and> ?b ! 0 \<noteq> 0xE5 \<and> e_attr ?b \<noteq> ATTR_LONG_NAME \<and> e_name ?b = to_fat_name ''b''" by code_simp
  ultimately show ?thesis using r demo_root_entries by (auto simp del: One_nat_def)
qed

text \<open>
  C13. \<^verbatim>\<open>ReadFile\<close> returns the bytes of the file: for an open file whose clusters are a proper chain with room
  for its size, and a length that does not overflow the 32-bit offset, the call ends, reads exactly the
  bytes from the offset on, as many as asked for and left in the file, returns their number (as a 32-bit integer) and moves the offset past them;
  the disk is unchanged.
\<close>

theorem ReadFile_correct:
  assumes "vol_wf s" and "handle_of me h s = f" "f \<noteq> 0" "files s f = Some x" "f_readable x"
    and "chain_at (fatval s) (f_first_cluster x) cs" and "distinct cs" and "\<forall>c \<in> set cs. in_table s c"
    and "unat (f_file_size x) \<le> length (chain_data s cs)" and "unat (f_offset x) + unat len < 2 ^ 32"
  defines "bs \<equiv> take (unat len) (drop (unat (f_offset x)) (take (unat (f_file_size x)) (chain_data s cs)))"
  shows "\<exists>s'. ReadFile me h len s = Inr (sint (of_nat (length bs) :: u32), bs, s') \<and>
    files s' f = Some (x\<lparr>f_offset := f_offset x + of_nat (length bs)\<rparr>) \<and> disk s' = disk s"
proof -
  obtain u where u: "same_vol s u"
      "ReadFile me h len s = Inr (ret_count (length bs), bs, upd_file f (\<lambda>x. x\<lparr>f_offset := f_offset x + of_nat (length bs)\<rparr>) u)"
    using read_file_data [OF assms(1-10)] unfolding bs_def by blast
  then show ?thesis using same_volD [OF u(1)] assms(4) by (simp add: upd_file_def ret_count_def)
qed

text \<open>The first process of the demonstration volume has the file \<open>A\<close> open at offset 510: it goes on reading in cluster 6.\<close>

definition demo_open :: kernel where
  "demo_open = (demo_kernel demo_root)
     \<lparr>procs := [demo_pcb\<lparr>p_handles := [0x80001000]\<rparr>],
      files := [0x80001000 \<mapsto> \<lparr>f_ref = 1, f_readable = True, f_writable = False, f_offset = 510, f_first_cluster = 4,
        f_file_size = 600, f_name = ''a''\<rparr>]\<rparr>"

lemma demo_open_wf: "vol_wf demo_open" "fat_entries demo_open = 128" "chain_at (fatval demo_open) 4 [4, 6]"
  "chain_data demo_open [4, 6] = replicate 512 65 @ replicate 512 66"
proof -
  show "vol_wf demo_open" "fat_entries demo_open = 128"
    using demo_root_wf by (auto simp: demo_open_def vol_wf_def dev_ok_def fat_entries_def)
  show "chain_at (fatval demo_open) 4 [4, 6]" by code_simp
  have "cluster_list demo_open 4 = [4]" "cluster_list demo_open 6 = [6]" by code_simp+
  moreover have "disk demo_open = demo_root" by (simp add: demo_open_def demo_kernel_def uart.defs)
  ultimately show "chain_data demo_open [4, 6] = replicate 512 65 @ replicate 512 66"
    by (simp add: chain_data_def cluster_data_def demo_root_def)
qed

theorem ReadFile_correct_witness:
  "\<exists>s'. ReadFile 0 0 4 demo_open = Inr (4, [65, 65, 66, 66], s') \<and> disk s' = disk demo_open"
proof -
  have f: "handle_of 0 0 demo_open = 0x80001000" by code_simp
  have x: "files demo_open 0x80001000 = Some \<lparr>f_ref = 1, f_readable = True, f_writable = False, f_offset = 510,
      f_first_cluster = 4, f_file_size = 600, f_name = ''a''\<rparr>" by (simp add: demo_open_def)
  have b: "replicate 2 65 @ replicate 2 (66 :: u8) = [65, 65, 66, 66]" by (simp add: numeral_2_eq_2)
  show ?thesis
    using ReadFile_correct [OF demo_open_wf(1) f _ x, of "[4, 6]" 4] demo_open_wf(2-4)
    by (auto simp: b)
qed

end
