(* ===== verification/RV_Caps.thy ===== *)
theory RV_Caps
  imports RV_Prelude
begin

text \<open>
  The capability model: the masks and profiles of \<^verbatim>\<open>include/abi/capability.h\<close>, the check
  \<^verbatim>\<open>has_capability\<close>, the inheritance rule \<^verbatim>\<open>resolve_child_caps\<close>, and the table and gate of
  \<^verbatim>\<open>syscall_dispatcher\<close> in \<^verbatim>\<open>kernelspace/core/trap.c\<close>. The relation \<open>descends\<close> follows the chains of
  \<^verbatim>\<open>sys_spawn\<close> and \<^verbatim>\<open>sys_sandbox\<close> calls that the gate lets through; the lemmas show that no chain
  gains a capability and what that means for power control.
\<close>

subsection \<open>Masks and profiles\<close>

definition CAP_FS_READ :: u64 where [rv_const]: "CAP_FS_READ = push_bit 0 1"
definition CAP_FS_WRITE :: u64 where [rv_const]: "CAP_FS_WRITE = push_bit 1 1"
definition CAP_FS_DIR :: u64 where [rv_const]: "CAP_FS_DIR = push_bit 2 1"
definition CAP_FS_CWD :: u64 where [rv_const]: "CAP_FS_CWD = push_bit 3 1"
definition CAP_FS_RENAME :: u64 where [rv_const]: "CAP_FS_RENAME = push_bit 4 1"
definition CAP_PROC_BASIC :: u64 where [rv_const]: "CAP_PROC_BASIC = push_bit 8 1"
definition CAP_PROC_PS :: u64 where [rv_const]: "CAP_PROC_PS = push_bit 9 1"
definition CAP_PROC_KILL :: u64 where [rv_const]: "CAP_PROC_KILL = push_bit 10 1"
definition CAP_PROC_SLEEP :: u64 where [rv_const]: "CAP_PROC_SLEEP = push_bit 11 1"
definition CAP_PROC_TRACE :: u64 where [rv_const]: "CAP_PROC_TRACE = push_bit 12 1"
definition CAP_PROC_SANDBOX :: u64 where [rv_const]: "CAP_PROC_SANDBOX = push_bit 13 1"
definition CAP_MEM_SBRK :: u64 where [rv_const]: "CAP_MEM_SBRK = push_bit 16 1"
definition CAP_SYS_TIME :: u64 where [rv_const]: "CAP_SYS_TIME = push_bit 24 1"
definition CAP_SYS_POWER :: u64 where [rv_const]: "CAP_SYS_POWER = push_bit 25 1"
definition PROC_CAP_ENABLE :: u64 where [rv_const]: "PROC_CAP_ENABLE = push_bit 63 1"

definition CAP_ALL :: u64 where [rv_const]:
  "CAP_ALL = CAP_FS_READ OR CAP_FS_WRITE OR CAP_FS_DIR OR CAP_FS_CWD OR CAP_FS_RENAME OR
     CAP_PROC_BASIC OR CAP_PROC_PS OR CAP_PROC_KILL OR CAP_PROC_SLEEP OR
     CAP_PROC_TRACE OR CAP_PROC_SANDBOX OR CAP_MEM_SBRK OR CAP_SYS_TIME OR CAP_SYS_POWER"

definition CAP_PROFILE_USER_DEFAULT :: u64 where [rv_const]:
  "CAP_PROFILE_USER_DEFAULT = CAP_FS_READ OR CAP_FS_WRITE OR CAP_FS_DIR OR CAP_FS_CWD OR CAP_FS_RENAME OR
     CAP_PROC_BASIC OR CAP_PROC_SLEEP OR CAP_MEM_SBRK OR CAP_SYS_TIME"

definition CAP_PROFILE_SHELL_NORMAL :: u64 where [rv_const]:
  "CAP_PROFILE_SHELL_NORMAL = CAP_PROFILE_USER_DEFAULT OR CAP_PROC_PS OR CAP_PROC_KILL OR
     CAP_PROC_TRACE OR CAP_PROC_SANDBOX"

definition CAP_PROFILE_SHELL_MAINT :: u64 where [rv_const]:
  "CAP_PROFILE_SHELL_MAINT = CAP_PROFILE_SHELL_NORMAL OR CAP_SYS_POWER"

definition CAP_PROFILE_SYSCONTROLLER :: u64 where [rv_const]:
  "CAP_PROFILE_SYSCONTROLLER = CAP_ALL"

definition WITHOUT_CAP :: u64 where [rv_const]: "WITHOUT_CAP = - 0x114514"

subsection \<open>System call numbers\<close>

definition SYS_GET_ABI_INFO :: nat where [rv_const]: "SYS_GET_ABI_INFO = 1"
definition SYS_GETCAPS :: nat where [rv_const]: "SYS_GETCAPS = 2"
definition SYS_GET_VERSION :: nat where [rv_const]: "SYS_GET_VERSION = 3"
definition SYS_TRAP :: nat where [rv_const]: "SYS_TRAP = 10"
definition SYS_GET_TICKS :: nat where [rv_const]: "SYS_GET_TICKS = 11"
definition SYS_SPAWN :: nat where [rv_const]: "SYS_SPAWN = 12"
definition SYS_EXIT :: nat where [rv_const]: "SYS_EXIT = 13"
definition SYS_GETPID :: nat where [rv_const]: "SYS_GETPID = 14"
definition SYS_CREATE_FILE :: nat where [rv_const]: "SYS_CREATE_FILE = 15"
definition SYS_READ_FILE :: nat where [rv_const]: "SYS_READ_FILE = 16"
definition SYS_WRITE_FILE :: nat where [rv_const]: "SYS_WRITE_FILE = 17"
definition SYS_CLOSE_HANDLE :: nat where [rv_const]: "SYS_CLOSE_HANDLE = 18"
definition SYS_WAIT :: nat where [rv_const]: "SYS_WAIT = 19"
definition SYS_LS :: nat where [rv_const]: "SYS_LS = 20"
definition SYS_PANIC :: nat where [rv_const]: "SYS_PANIC = 21"
definition SYS_POWEROFF :: nat where [rv_const]: "SYS_POWEROFF = 22"
definition SYS_REBOOT :: nat where [rv_const]: "SYS_REBOOT = 23"
definition SYS_MKDIR :: nat where [rv_const]: "SYS_MKDIR = 24"
definition SYS_CHDIR :: nat where [rv_const]: "SYS_CHDIR = 25"
definition SYS_UNLINK :: nat where [rv_const]: "SYS_UNLINK = 26"
definition SYS_GETCWD :: nat where [rv_const]: "SYS_GETCWD = 27"
definition SYS_RENAME :: nat where [rv_const]: "SYS_RENAME = 28"
definition SYS_PS :: nat where [rv_const]: "SYS_PS = 29"
definition SYS_SBRK :: nat where [rv_const]: "SYS_SBRK = 30"
definition SYS_KILL :: nat where [rv_const]: "SYS_KILL = 31"
definition SYS_SLEEP :: nat where [rv_const]: "SYS_SLEEP = 32"
definition SYS_TRACE :: nat where [rv_const]: "SYS_TRACE = 33"
definition SYS_SANDBOX :: nat where [rv_const]: "SYS_SANDBOX = 34"

text \<open>The numbers with an entry in \<^verbatim>\<open>syscall_table\<close>, and their names for the trace.\<close>

definition syscall_names :: "(nat \<times> string) list" where
  "syscall_names =
     [(SYS_GET_ABI_INFO, ''get_abi_info''), (SYS_GETCAPS, ''getcaps''), (SYS_GET_VERSION, ''get_version''),
      (SYS_TRAP, ''trap''), (SYS_GET_TICKS, ''get_ticks''), (SYS_SPAWN, ''spawn''), (SYS_EXIT, ''exit''),
      (SYS_GETPID, ''getpid''), (SYS_CREATE_FILE, ''create_file''), (SYS_READ_FILE, ''read_file''),
      (SYS_WRITE_FILE, ''write_file''), (SYS_CLOSE_HANDLE, ''close_handle''), (SYS_WAIT, ''wait''),
      (SYS_LS, ''ls''), (SYS_PANIC, ''panic''), (SYS_POWEROFF, ''poweroff''), (SYS_REBOOT, ''reboot''),
      (SYS_MKDIR, ''mkdir''), (SYS_CHDIR, ''chdir''), (SYS_UNLINK, ''unlink''), (SYS_GETCWD, ''getcwd''),
      (SYS_RENAME, ''rename''), (SYS_PS, ''ps''), (SYS_SBRK, ''sbrk''), (SYS_KILL, ''kill''),
      (SYS_SLEEP, ''sleep''), (SYS_TRACE, ''trace''), (SYS_SANDBOX, ''sandbox'')]"

definition syscall_cap_table :: "(nat \<times> u64) list" where
  "syscall_cap_table =
     [(SYS_GET_TICKS, CAP_SYS_TIME), (SYS_SPAWN, CAP_PROC_BASIC), (SYS_CREATE_FILE, CAP_FS_WRITE),
      (SYS_READ_FILE, CAP_FS_READ), (SYS_WRITE_FILE, CAP_FS_WRITE), (SYS_WAIT, CAP_PROC_BASIC),
      (SYS_LS, CAP_FS_DIR), (SYS_PANIC, CAP_SYS_POWER), (SYS_POWEROFF, CAP_SYS_POWER),
      (SYS_REBOOT, CAP_SYS_POWER), (SYS_MKDIR, CAP_FS_DIR), (SYS_CHDIR, CAP_FS_CWD),
      (SYS_UNLINK, CAP_FS_WRITE), (SYS_GETCWD, CAP_FS_CWD), (SYS_RENAME, CAP_FS_RENAME),
      (SYS_PS, CAP_PROC_PS), (SYS_SBRK, CAP_MEM_SBRK), (SYS_KILL, CAP_PROC_KILL),
      (SYS_SLEEP, CAP_PROC_SLEEP), (SYS_TRACE, CAP_PROC_TRACE),
      (SYS_SANDBOX, CAP_PROC_BASIC OR CAP_PROC_SANDBOX)]"

text \<open>An array entry without an initialiser is 0.\<close>

definition syscall_caps :: "nat \<Rightarrow> u64" where
  "syscall_caps num = (case map_of syscall_cap_table num of None \<Rightarrow> 0 | Some c \<Rightarrow> c)"

subsection \<open>Check, inheritance and gate\<close>

definition has_capability :: "u64 \<Rightarrow> u64 \<Rightarrow> bool" where
  "has_capability caps cap \<longleftrightarrow> caps AND cap = cap"

definition resolve_child_caps :: "u64 \<Rightarrow> u64 \<Rightarrow> bool \<Rightarrow> u64 option" where
  "resolve_child_caps caps msk custom =
     (if custom then
        if \<not> has_capability caps CAP_PROC_SANDBOX then None
        else Some (caps AND (msk AND NOT PROC_CAP_ENABLE))
      else Some (caps AND CAP_PROFILE_USER_DEFAULT))"

datatype verdict = Unknown | Denied | Allowed

text \<open>The head of \<^verbatim>\<open>syscall_dispatcher\<close>: \<open>num\<close> is \<^verbatim>\<open>a7\<close>, and \<open>a0\<close> the first argument, a handle for a write.\<close>

definition cap_needed :: "nat \<Rightarrow> u64 \<Rightarrow> u64" where
  "cap_needed num a0 =
     (if num = SYS_WRITE_FILE then
        let handle = sint (ucast a0 :: u32)
        in if handle = 1 \<or> handle = 2 then 0 else syscall_caps num
      else syscall_caps num)"

definition gate :: "u64 \<Rightarrow> u64 \<Rightarrow> u64 \<Rightarrow> verdict" where
  "gate caps num a0 =
     (if 0 < num \<and> num < 64 \<and> map_of syscall_names (unat num) \<noteq> None then
        let cn = cap_needed (unat num) a0
        in if cn \<noteq> 0 \<and> \<not> has_capability caps cn then Denied else Allowed
      else Unknown)"

text \<open>The capabilities \<^verbatim>\<open>sys_spawn\<close> and \<^verbatim>\<open>sys_sandbox\<close> pass to \<^verbatim>\<open>spawn\<close>.\<close>

definition sys_spawn_caps :: "u64 \<Rightarrow> u64 \<Rightarrow> u64 option" where
  "sys_spawn_caps caps msk = resolve_child_caps caps msk (msk AND PROC_CAP_ENABLE \<noteq> 0)"

definition sys_sandbox_caps :: "u64 \<Rightarrow> u64 \<Rightarrow> u64 option" where
  "sys_sandbox_caps caps msk = resolve_child_caps caps msk True"

inductive descends :: "u64 \<Rightarrow> u64 \<Rightarrow> bool" for c where
  self: "descends c c"
| spawn: "descends c d \<Longrightarrow> gate d (of_nat SYS_SPAWN) a0 = Allowed \<Longrightarrow> sys_spawn_caps d msk = Some e \<Longrightarrow> descends c e"
| sandbox: "descends c d \<Longrightarrow> gate d (of_nat SYS_SANDBOX) a0 = Allowed \<Longrightarrow> sys_sandbox_caps d msk = Some e \<Longrightarrow> descends c e"

subsection \<open>Lemmas\<close>

lemma has_capability_bits: "has_capability caps cap \<longleftrightarrow> (\<forall>n. bit cap n \<longrightarrow> bit caps n)"
  unfolding has_capability_def
  by (metis (mono_tags, lifting) bit_and_iff bit_eqI)

lemma has_capability_mono: "has_capability d cap \<Longrightarrow> has_capability c d \<Longrightarrow> has_capability c cap"
  by (auto simp: has_capability_bits)

lemma resolve_child_subset: "resolve_child_caps caps msk custom = Some e \<Longrightarrow> has_capability caps e"
  by (auto simp: resolve_child_caps_def has_capability_bits bit_and_iff split: if_splits)

lemma descends_subset: "descends c d \<Longrightarrow> has_capability c d"
proof (induction rule: descends.induct)
  case self
  then show ?case by (simp add: has_capability_def)
next
  case (spawn d a0 msk e)
  then show ?case using resolve_child_subset has_capability_mono unfolding sys_spawn_caps_def by blast
next
  case (sandbox d a0 msk e)
  then show ?case using resolve_child_subset has_capability_mono unfolding sys_sandbox_caps_def by blast
qed

lemma gate_allowed_cap: "gate caps num a0 = Allowed \<Longrightarrow> has_capability caps (cap_needed (unat num) a0)"
  by (auto simp: gate_def has_capability_def Let_def split: if_splits)

lemma gate_power:
  assumes "\<not> has_capability d CAP_SYS_POWER" and "num \<in> {SYS_PANIC, SYS_POWEROFF, SYS_REBOOT}"
  shows "gate d (of_nat num) a0 = Denied"
proof -
  have "cap_needed num a0 = CAP_SYS_POWER" "CAP_SYS_POWER \<noteq> 0"
    and "(0 :: u64) < of_nat num \<and> of_nat num < (64 :: u64) \<and> map_of syscall_names num \<noteq> None" "unat (of_nat num :: u64) = num"
    using assms(2) by (auto simp: cap_needed_def syscall_caps_def syscall_cap_table_def syscall_names_def rv_const)
  then show ?thesis using assms(1) by (simp add: gate_def)
qed

lemma no_sandbox_default:
  assumes "\<not> has_capability c CAP_PROC_SANDBOX" and "descends c d" and "d \<noteq> c"
  shows "has_capability CAP_PROFILE_USER_DEFAULT d"
  using assms(2,3)
proof (induction rule: descends.induct)
  case (spawn d a0 msk e)
  have "\<not> has_capability d CAP_PROC_SANDBOX"
    using assms(1) descends_subset [OF spawn(1)] has_capability_mono by blast
  with spawn(3) have "e = d AND CAP_PROFILE_USER_DEFAULT"
    by (auto simp: sys_spawn_caps_def resolve_child_caps_def split: if_splits)
  then show ?case by (simp add: has_capability_bits bit_and_iff)
next
  case (sandbox d a0 msk e)
  have "\<not> has_capability d CAP_PROC_SANDBOX"
    using assms(1) descends_subset [OF sandbox(1)] has_capability_mono by blast
  with sandbox(3) show ?case by (simp add: sys_sandbox_caps_def resolve_child_caps_def)
qed simp

subsection \<open>Properties\<close>

text \<open>
  No chain of system calls gains a capability: whatever a process and its descendants ask of
  \<^verbatim>\<open>sys_spawn\<close> and \<^verbatim>\<open>sys_sandbox\<close>, a descendant's msk is a subset of the ancestor's, so the gate of
  the dispatcher never lets a descendant into a call that it would deny the ancestor.
\<close>

theorem capability_no_gain:
  assumes "descends c d"
  shows "c AND d = d \<and> (gate d num a0 = Allowed \<longrightarrow> gate c num a0 = Allowed)"
proof -
  have s: "has_capability c d" by (rule descends_subset [OF assms])
  have "gate c num a0 = Allowed" if "gate d num a0 = Allowed"
    using that gate_allowed_cap [OF that] has_capability_mono [OF _ s]
    by (auto simp: gate_def Let_def split: if_splits)
  with s show ?thesis by (auto simp: has_capability_def)
qed

theorem capability_no_gain_witness:
  "descends CAP_PROFILE_SHELL_NORMAL CAP_PROFILE_USER_DEFAULT \<and>
   CAP_PROFILE_SHELL_NORMAL AND CAP_PROFILE_USER_DEFAULT = CAP_PROFILE_USER_DEFAULT"
proof -
  have "descends CAP_PROFILE_SHELL_NORMAL CAP_PROFILE_USER_DEFAULT"
  proof (rule descends.spawn [OF descends.self])
    show "gate CAP_PROFILE_SHELL_NORMAL (of_nat SYS_SPAWN) 0 = Allowed" by code_simp
    show "sys_spawn_caps CAP_PROFILE_SHELL_NORMAL 0 = Some CAP_PROFILE_USER_DEFAULT" by code_simp
  qed
  with capability_no_gain [OF this, of 0 0] show ?thesis by blast
qed

text \<open>
  Power control stays with the maintenance shell: no descendant of a shell started with the
  normal profile, and of no process without \<^verbatim>\<open>CAP_SYS_POWER\<close>, can reach \<^verbatim>\<open>sys_panic\<close>, \<^verbatim>\<open>sys_poweroff\<close>
  or \<^verbatim>\<open>sys_reboot\<close>: the dispatcher denies the call whatever the arguments.
\<close>

theorem power_denied:
  assumes "descends c d" and "\<not> has_capability c CAP_SYS_POWER"
    and "num \<in> {of_nat SYS_PANIC, of_nat SYS_POWEROFF, of_nat SYS_REBOOT}"
  shows "gate d num a0 = Denied"
proof -
  have np: "\<not> has_capability d CAP_SYS_POWER"
    using assms(2) has_capability_mono descends_subset [OF assms(1)] by blast
  obtain n where "num = of_nat n" "n \<in> {SYS_PANIC, SYS_POWEROFF, SYS_REBOOT}" using assms(3) by blast
  then show ?thesis using gate_power [OF np] by simp
qed

theorem power_denied_witness:
  "descends CAP_PROFILE_SHELL_NORMAL CAP_PROFILE_SHELL_NORMAL \<and>
   gate CAP_PROFILE_SHELL_NORMAL (of_nat SYS_REBOOT) 0 = Denied"
proof -
  have "\<not> has_capability CAP_PROFILE_SHELL_NORMAL CAP_SYS_POWER" by code_simp
  with power_denied [OF descends.self this, of "of_nat SYS_REBOOT" 0] show ?thesis
    by (simp add: descends.self)
qed

text \<open>
  Without \<^verbatim>\<open>CAP_PROC_SANDBOX\<close> a process can only start children inside the default user
  profile: every proper descendant's msk is a subset of \<^verbatim>\<open>CAP_PROFILE_USER_DEFAULT\<close>, and none of them
  can list, kill, trace or sandbox processes.
\<close>

theorem no_sandbox_confined:
  assumes "\<not> has_capability c CAP_PROC_SANDBOX" and "descends c d" and "d \<noteq> c"
  shows "d AND NOT CAP_PROFILE_USER_DEFAULT = 0 \<and>
    (\<forall>num \<in> {SYS_PS, SYS_KILL, SYS_TRACE, SYS_SANDBOX}. gate d (of_nat num) a0 = Denied)"
proof -
  have s: "has_capability CAP_PROFILE_USER_DEFAULT d" by (rule no_sandbox_default [OF assms])
  have "d AND NOT CAP_PROFILE_USER_DEFAULT = 0"
    using s by (intro bit_word_eqI) (auto simp: has_capability_bits bit_and_iff bit_not_iff)
  moreover have "gate d (of_nat num) a0 = Denied" if "num \<in> {SYS_PS, SYS_KILL, SYS_TRACE, SYS_SANDBOX}" for num
  proof -
    have "\<not> has_capability CAP_PROFILE_USER_DEFAULT (syscall_caps num)"
      using that by (auto simp: syscall_caps_def syscall_cap_table_def has_capability_def rv_const)
    then have nc: "\<not> has_capability d (syscall_caps num)" using has_capability_mono [OF _ s] by blast
    have "cap_needed num a0 = syscall_caps num" "syscall_caps num \<noteq> 0"
      "0 < (of_nat num :: u64) \<and> (of_nat num :: u64) < 64 \<and> map_of syscall_names num \<noteq> None \<and> unat (of_nat num :: u64) = num"
      using that by (auto simp: cap_needed_def syscall_caps_def syscall_cap_table_def syscall_names_def rv_const)
    with nc show ?thesis by (simp add: gate_def)
  qed
  ultimately show ?thesis by blast
qed

theorem no_sandbox_confined_witness:
  "descends (CAP_PROFILE_USER_DEFAULT OR CAP_PROC_PS) CAP_PROFILE_USER_DEFAULT \<and>
   gate CAP_PROFILE_USER_DEFAULT (of_nat SYS_PS) 0 = Denied"
proof -
  let ?c = "CAP_PROFILE_USER_DEFAULT OR CAP_PROC_PS"
  have d: "descends ?c CAP_PROFILE_USER_DEFAULT"
  proof (rule descends.spawn [OF descends.self])
    show "gate ?c (of_nat SYS_SPAWN) 0 = Allowed" by code_simp
    show "sys_spawn_caps ?c 0 = Some CAP_PROFILE_USER_DEFAULT" by code_simp
  qed
  have "\<not> has_capability ?c CAP_PROC_SANDBOX" "CAP_PROFILE_USER_DEFAULT \<noteq> ?c" by code_simp+
  from no_sandbox_confined [OF this(1) d this(2), of 0] d show ?thesis by blast
qed

end
