(* ===== verification/RV_Bytes.thy ===== *)
theory RV_Bytes
  imports RV_Kalloc
begin

text \<open>
  Byte access to the 64-bit cells of memory, as \<^verbatim>\<open>memcpy\<close>, \<^verbatim>\<open>memset\<close> and the loops over \<^verbatim>\<open>char\<close> pointers
  of \<^verbatim>\<open>kernelspace/core/process.c\<close> and \<^verbatim>\<open>kernelspace/core/trap.c\<close> use it, and C strings in memory. The lemmas
  give the laws of an array of bytes: a byte written is read back and no other byte changes.
  The interface \<open>byte_memory\<close> states these two laws; what \<^verbatim>\<open>memcpy\<close> does follows from them alone.
\<close>

unbundle bit_operations_syntax

subsection \<open>Bytes\<close>

definition cell :: "u64 \<Rightarrow> u64" where
  "cell a = a AND NOT 7"

definition lane :: "u64 \<Rightarrow> nat" where
  "lane a = unat (a AND 7)"

definition get_byte :: "mem \<Rightarrow> u64 \<Rightarrow> u8" where
  "get_byte m a = ucast (drop_bit (8 * lane a) (m (cell a)))"

definition put_byte :: "u64 \<Rightarrow> u8 \<Rightarrow> mem \<Rightarrow> mem" where
  "put_byte a b m =
     m(cell a := (m (cell a) AND NOT (push_bit (8 * lane a) (mask 8))) OR push_bit (8 * lane a) (ucast b))"

text \<open>The loop of \<^verbatim>\<open>memcpy\<close> over any way to write a byte, and on memory.\<close>

primrec copy_with :: "(u64 \<Rightarrow> u8 \<Rightarrow> 'm \<Rightarrow> 'm) \<Rightarrow> u64 \<Rightarrow> u8 list \<Rightarrow> 'm \<Rightarrow> 'm" where
  "copy_with put a [] m = m"
| "copy_with put a (b # bs) m = copy_with put (a + 1) bs (put a b m)"

definition store_bytes :: "u64 \<Rightarrow> u8 list \<Rightarrow> mem \<Rightarrow> mem" where
  "store_bytes = copy_with put_byte"

definition load_bytes :: "nat \<Rightarrow> u64 \<Rightarrow> mem \<Rightarrow> u8 list" where
  "load_bytes n a m = map (\<lambda>k. get_byte m (a + of_nat k)) [0..<n]"

subsection \<open>Cells and lanes\<close>

lemma bit_7: "bit (7 :: u64) n \<longleftrightarrow> n < 3"
proof -
  have "(7 :: u64) = mask 3" by (simp add: mask_eq_exp_minus_1)
  then show ?thesis unfolding \<open>7 = mask 3\<close> by (auto simp: bit_mask_iff)
qed

lemma bit_cell: "bit (cell x) n \<longleftrightarrow> 3 \<le> n \<and> bit x n"
  unfolding cell_def bit_and_iff bit_not_iff bit_7 using bit_imp_le_length [of x n] by auto

lemma lane_less: "lane a < 8"
proof -
  have "a AND 7 < 8" using and_mask_less' [of 3 a] by (simp add: mask_eq_exp_minus_1)
  then show ?thesis by (simp add: lane_def word_less_nat_alt)
qed

lemma cell_lane_inject: "cell a = cell b \<Longrightarrow> lane a = lane b \<Longrightarrow> a = b"
proof -
  assume c: "cell a = cell b" and l: "lane a = lane b"
  have s: "x = cell x OR (x AND 7)" for x by (rule bit_eqI) (auto simp: cell_def bit_simps bit_7)
  from l have "a AND 7 = b AND 7" unfolding lane_def by (rule word_unat_eq_iff [THEN iffD2])
  with c show ?thesis using s [of a] s [of b] by simp
qed

lemma bit_get_byte: "n < 8 \<Longrightarrow> bit (get_byte m a) n \<longleftrightarrow> bit (m (cell a)) (8 * lane a + n)"
  using lane_less [of a] by (simp add: get_byte_def bit_simps)

lemma bit_put_byte:
  assumes "n < 64"
  shows "bit (put_byte a b m (cell a)) n \<longleftrightarrow>
    (if 8 * lane a \<le> n \<and> n < 8 * lane a + 8 then bit b (n - 8 * lane a) else bit (m (cell a)) n)"
  using assms bit_imp_le_length [of b "n - 8 * lane a"] 
  by (auto simp: put_byte_def bit_and_iff bit_or_iff bit_not_iff bit_push_bit_iff bit_unsigned_iff bit_mask_iff not_le)

lemma get_put_byte: "get_byte (put_byte a b m) x = (if x = a then b else get_byte m x)"
proof (cases "cell x = cell a")
  case False
  then have "put_byte a b m (cell x) = m (cell x)" by (simp add: put_byte_def)
  with False show ?thesis by (auto simp: get_byte_def)
next
  case True
  show ?thesis
  proof (rule bit_eqI)
    fix n
    assume "possible_bit TYPE(8 word) n"
    then have n: "n < 8" by simp
    then have l: "8 * lane x + n < 64" using lane_less [of x] by simp
    have "lane x = lane a \<longleftrightarrow> x = a" using True cell_lane_inject by auto
    moreover have "8 * lane a \<le> 8 * lane x + n \<and> 8 * lane x + n < 8 * lane a + 8 \<longleftrightarrow> lane x = lane a"
      using n by presburger
    ultimately show "bit (get_byte (put_byte a b m) x) n = bit (if x = a then b else get_byte m x) n"
      using bit_put_byte [OF l, of a b m] n True by (auto simp: bit_get_byte)
  qed
qed

lemma get_byte_word: "cell x \<noteq> a \<Longrightarrow> get_byte (m(a := v)) x = get_byte m x"
  by (simp add: get_byte_def)

lemma unat_cell: "unat (cell x) = unat x div 8 * 8"
proof -
  have "cell x = x AND NOT (mask 3)" by (simp add: cell_def mask_eq_exp_minus_1)
  then show ?thesis by (simp only: and_not_mask_div unat_div_mult_same) simp
qed

subsection \<open>Copying\<close>

text \<open>What the clients of byte memory rely on, and \<^verbatim>\<open>memcpy\<close> derived from it.\<close>

locale byte_memory =
  fixes get :: "'m \<Rightarrow> u64 \<Rightarrow> u8" and put :: "u64 \<Rightarrow> u8 \<Rightarrow> 'm \<Rightarrow> 'm"
  assumes get_put: "get (put a b m) x = (if x = a then b else get m x)"
begin

lemma get_copy:
  "length bs \<le> 2 ^ 64 \<Longrightarrow> get (copy_with put a bs m) x = (if unat (x - a) < length bs then bs ! unat (x - a) else get m x)"
proof (induction bs arbitrary: a m)
  case (Cons b bs)
  show ?case
  proof (cases "x = a")
    case True
    have "unat (x - (a + 1)) = 2 ^ 64 - 1" using True by (simp add: unsigned_minus_1_eq_mask mask_eq_exp_minus_1)
    then show ?thesis using Cons True by (simp add: get_put)
  next
    case False
    then have "0 < unat (x - a)" by (simp add: unat_gt_0)
    moreover from this have "unat (x - (a + 1)) = unat (x - a) - 1"
      using unat_minus_one [of "x - a"] False by (simp add: diff_diff_eq)
    ultimately show ?thesis using Cons False by (auto simp: get_put nth_Cons' )
  qed
qed simp

end

interpretation bytemem: byte_memory get_byte put_byte
  by unfold_locales (rule get_put_byte)

lemma get_store_bytes:
  "length bs \<le> 2 ^ 64 \<Longrightarrow>
    get_byte (store_bytes a bs m) x = (if unat (x - a) < length bs then bs ! unat (x - a) else get_byte m x)"
  unfolding store_bytes_def by (rule bytemem.get_copy)

lemma load_store_bytes: "length bs \<le> 2 ^ 64 \<Longrightarrow> load_bytes (length bs) a (store_bytes a bs m) = bs"
  by (rule nth_equalityI) (auto simp: load_bytes_def get_store_bytes unat_of_nat_small)

end
