(* ===== verification/RV_Args.thy ===== *)
theory RV_Args
  imports RV_Bytes
begin

text \<open>
  The arguments of a new process, the middle part of \<^verbatim>\<open>spawn\<close> in \<^verbatim>\<open>kernelspace/core/process.c\<close>: the argument
  string is split into words and a redirection (\<open>parse_args\<close>), the words are copied below the top of the
  stack page (\<open>push_args\<close>) and the array \<^verbatim>\<open>argv\<close> is put below them (\<open>put_argv\<close>). The theorems show that the
  words are those a reader of the command line expects and that the new process finds them through \<^verbatim>\<open>argv\<close>.
\<close>

unbundle bit_operations_syntax

subsection \<open>Definitions\<close>

text \<open>
  The argument string: words separated by spaces until the first \<open>>\<close>, then the word after it as the file the
  output is redirected to. \<open>argc\<close> counts the arguments so far; the loop stops at 15, before it looks further.
\<close>

function parse_args :: "nat \<Rightarrow> string \<Rightarrow> string list \<times> string option" where
  "parse_args argc s =
     (if s = [] \<or> 15 \<le> argc then ([], None)
      else
        let t = dropWhile (\<lambda>c. c = CHR '' '') s in
        if t = [] then ([], None)
        else if hd t = CHR ''>'' then
          let u = dropWhile (\<lambda>c. c = CHR '' '') (tl t)
          in ([], if u = [] then None else Some (takeWhile (\<lambda>c. c \<noteq> CHR '' '') u))
        else
          let w = takeWhile (\<lambda>c. c \<noteq> CHR '' '' \<and> c \<noteq> CHR ''>'') t;
              (ws, redir) = parse_args (Suc argc) (drop (length w) t)
          in (w # ws, redir))"
  by pat_completeness auto
termination
  by (relation "measure (\<lambda>(argc, _). 15 - argc)") auto

declare parse_args.simps [simp del]

text \<open>One string pushed below the last: the new offset in the stack page, its user address, the memory.\<close>

definition push_arg :: "u64 \<Rightarrow> string \<Rightarrow> u64 \<times> u64 list \<times> mem \<Rightarrow> u64 \<times> u64 list \<times> mem" where
  "push_arg stack t = (\<lambda>(off, uargs, m).
     let off1 = off - of_nat (length t + 1)
     in (off1, uargs @ [USTACK_TOP - PGSIZE + off1], store_bytes (stack + off1) (map of_char t @ [0]) m))"

definition push_args :: "u64 \<Rightarrow> string list \<Rightarrow> mem \<Rightarrow> u64 \<times> u64 list \<times> mem" where
  "push_args stack ts m = fold (push_arg stack) ts (PGSIZE, [], m)"

primrec put_words :: "u64 \<Rightarrow> u64 list \<Rightarrow> mem \<Rightarrow> mem" where
  "put_words a [] m = m"
| "put_words a (w # ws) m = put_words (a + 8) ws (m(a := w))"

text \<open>The array \<^verbatim>\<open>argv\<close> with its null pointer, 16-byte aligned: its offset in the page and the memory.\<close>

definition put_argv :: "u64 \<Rightarrow> u64 \<Rightarrow> u64 list \<Rightarrow> mem \<Rightarrow> u64 \<times> mem" where
  "put_argv stack off uargs m =
     (let sp = (off - (of_nat (length uargs) + 1) * 8) AND NOT 0xF
      in (sp, put_words (stack + sp) (uargs @ [0]) m))"

subsection \<open>Words\<close>

text \<open>The words of a line: its maximal runs of characters other than the space.\<close>

function words :: "string \<Rightarrow> string list" where
  "words s =
     (let t = dropWhile (\<lambda>c. c = CHR '' '') s in
      if t = [] then [] else takeWhile (\<lambda>c. c \<noteq> CHR '' '') t # words (dropWhile (\<lambda>c. c \<noteq> CHR '' '') t))"
  by pat_completeness auto
termination
proof (relation "measure length", goal_cases)
  case (2 s t)
  have "length t \<le> length s" using 2(1) by (simp add: length_dropWhile_le)
  moreover have "length (dropWhile (\<lambda>c. c \<noteq> CHR '' '') t) < length t"
  proof -
    obtain c cs where t: "t = c # cs" using 2(2) by (cases t) auto
    moreover have "c \<noteq> CHR '' ''" using 2(1) t hd_dropWhile [of "\<lambda>c. c = CHR '' ''" s] by (metis list.sel(1) list.simps(3))
    ultimately show ?thesis by (simp add: length_dropWhile_le less_Suc_eq_le)
  qed
  ultimately show ?case by simp
qed simp

declare words.simps [simp del]

definition line_of :: "string \<Rightarrow> string" where
  "line_of s = takeWhile (\<lambda>c. c \<noteq> CHR ''>'') s"

definition redir_of :: "string \<Rightarrow> string option" where
  "redir_of s = (case words (tl (dropWhile (\<lambda>c. c \<noteq> CHR ''>'') s)) of [] \<Rightarrow> None | w # _ \<Rightarrow> Some w)"

lemma words_Nil [simp]: "words [] = []"
  by (simp add: words.simps)

lemma words_blank: "words s = words (dropWhile (\<lambda>c. c = CHR '' '') s)"
  by (subst (1 2) words.simps) (simp add: Let_def)

lemma line_blank: "line_of (dropWhile (\<lambda>c. c = CHR '' '') s) = dropWhile (\<lambda>c. c = CHR '' '') (line_of s)"
  by (induction s) (auto simp: line_of_def)

lemma redir_blank: "redir_of (dropWhile (\<lambda>c. c = CHR '' '') s) = redir_of s"
  by (induction s) (auto simp: redir_of_def)

lemma first_word:
  assumes "t = c # cs" "c \<noteq> CHR '' ''" "c \<noteq> CHR ''>''"
  defines "w \<equiv> takeWhile (\<lambda>c. c \<noteq> CHR '' '' \<and> c \<noteq> CHR ''>'') t"
  shows "words (line_of t) = w # words (line_of (drop (length w) t))" "redir_of (drop (length w) t) = redir_of t" "w \<noteq> []"
proof -
  have d: "drop (length w) t = dropWhile (\<lambda>c. c \<noteq> CHR '' '' \<and> c \<noteq> CHR ''>'') t"
    by (simp add: w_def dropWhile_eq_drop)
  have l: "takeWhile (\<lambda>c. c \<noteq> CHR '' '') (line_of t) = w"
    by (simp add: w_def line_of_def takeWhile_takeWhile conj_commute)
  have "dropWhile (\<lambda>c. c \<noteq> CHR '' '') (line_of t) = line_of (drop (length w) t)"
    unfolding d line_of_def by (induction t) auto
  moreover have "dropWhile (\<lambda>c. c = CHR '' '') (line_of t) = line_of t" "line_of t \<noteq> []"
    using assms(1-3) by (simp_all add: line_of_def)
  ultimately show "words (line_of t) = w # words (line_of (drop (length w) t))"
    using words.simps [of "line_of t"] l by (simp add: Let_def)
  show "redir_of (drop (length w) t) = redir_of t" unfolding d redir_of_def by (induction t) auto
  show "w \<noteq> []" using assms(1-3) by (simp add: w_def)
qed

lemma parse_args_words:
  "parse_args argc s =
     (take (15 - argc) (words (line_of s)), if length (words (line_of s)) < 15 - argc then redir_of s else None)"
proof (induction argc s rule: parse_args.induct)
  case (1 argc s)
  define t where "t = dropWhile (\<lambda>c. c = CHR '' '') s"
  have w: "words (line_of s) = words (line_of t)" "redir_of s = redir_of t"
    unfolding t_def line_blank redir_blank by (rule words_blank, rule refl)
  consider (stop) "s = [] \<or> 15 \<le> argc" | (blank) "s \<noteq> []" "argc < 15" "t = []"
    | (redir) cs where "s \<noteq> []" "argc < 15" "t = CHR ''>'' # cs"
    | (word) c cs where "s \<noteq> []" "argc < 15" "t = c # cs" "c \<noteq> CHR ''>''"
    by (cases t) fastforce+
  then show ?case
  proof cases
    case stop
    then show ?thesis by (auto simp: parse_args.simps [of argc s] line_of_def redir_of_def)
  next
    case blank
    then show ?thesis unfolding w
      by (simp add: parse_args.simps [of argc s] line_of_def redir_of_def Let_def flip: t_def)
  next
    case redir
    then have l: "line_of t = []" by (simp add: line_of_def)
    have "redir_of t = (let u = dropWhile (\<lambda>c. c = CHR '' '') cs in if u = [] then None else Some (takeWhile (\<lambda>c. c \<noteq> CHR '' '') u))"
      using redir words.simps [of cs] by (simp add: redir_of_def Let_def)
    then show ?thesis unfolding w l using redir
      by (simp add: parse_args.simps [of argc s] Let_def flip: t_def)
  next
    case word
    define w where "w = takeWhile (\<lambda>c. c \<noteq> CHR '' '' \<and> c \<noteq> CHR ''>'') t"
    have "c \<noteq> CHR '' ''" using word(3) hd_dropWhile [of "\<lambda>c. c = CHR '' ''" s] unfolding t_def by (metis list.sel(1) list.simps(3))
    note f = first_word [OF word(3) this word(4), folded w_def]
    have IH: "parse_args (Suc argc) (drop (length w) t) =
       (take (15 - Suc argc) (words (line_of (drop (length w) t))),
        if length (words (line_of (drop (length w) t))) < 15 - Suc argc then redir_of (drop (length w) t) else None)"
      using word by (intro "1.IH" [OF _ t_def _ _ w_def]) auto
    have p: "parse_args argc s = (let (ws, r) = parse_args (Suc argc) (drop (length w) t) in (w # ws, r))"
    proof -
      have "t \<noteq> []" "hd t \<noteq> CHR ''>''" using word(3,4) by simp_all
      then show ?thesis using word(1,2) by (simp add: parse_args.simps [of argc s] Let_def flip: t_def w_def)
    qed
    have n: "15 - argc = Suc (15 - Suc argc)" using word(2) by simp
    show ?thesis unfolding p IH \<open>words (line_of s) = words (line_of t)\<close> \<open>redir_of s = redir_of t\<close> f(1) n
      by (simp add: f(2))
  qed
qed

lemma words_length: "sum_list (map length (words s)) \<le> length s"
proof (induction s rule: words.induct)
  case (1 s)
  define t where "t = dropWhile (\<lambda>c. c = CHR '' '') s"
  show ?case
  proof (cases "t = []")
    case False
    let ?d = "dropWhile (\<lambda>c. c \<noteq> CHR '' '') t"
    have "words s = takeWhile (\<lambda>c. c \<noteq> CHR '' '') t # words ?d"
      using False by (simp add: words.simps [of s] Let_def flip: t_def)
    moreover have "sum_list (map length (words ?d)) \<le> length ?d" using 1 t_def False by blast
    moreover have "length (takeWhile (\<lambda>c. c \<noteq> CHR '' '') t) + length ?d = length t"
      by (metis length_append takeWhile_dropWhile_id)
    moreover have "length t \<le> length s" unfolding t_def by (rule length_dropWhile_le)
    ultimately show ?thesis by simp
  qed (simp add: words.simps [of s] Let_def flip: t_def)
qed

lemma parse_args_bounds:
  assumes "parse_args 1 s = (ws, redir)"
  shows "length ws \<le> 14" "sum_list (map length ws) \<le> length s"
proof -
  have ws: "ws = take 14 (words (line_of s))" using assms by (simp add: parse_args_words)
  then show "length ws \<le> 14" by simp
  have "sum_list (map length (words (line_of s))) = sum_list (map length ws) + sum_list (map length (drop 14 (words (line_of s))))"
    unfolding ws sum_list_append [symmetric] map_append [symmetric] by simp
  moreover have "length (line_of s) \<le> length s" by (simp add: line_of_def length_takeWhile_le)
  ultimately show "sum_list (map length ws) \<le> length s" using words_length [of "line_of s"] by simp
qed

subsection \<open>The stack page\<close>

lemma unat_neg: "z \<noteq> 0 \<Longrightarrow> unat (- z) = 2 ^ 64 - unat (z :: u64)"
proof -
  assume "z \<noteq> 0"
  then have "uint z \<noteq> 0" by (simp add: uint_0_iff)
  then have z: "0 < uint z" "uint z < 2 ^ 64" using uint_ge_0 [of z] uint_lt2p [of z] by (linarith, simp)
  have "uint (- z) = - uint z mod 2 ^ 64" by (simp add: uint_word_ariths)
  also have "\<dots> = 2 ^ 64 - uint z" using z by (simp add: zmod_zminus1_eq_if)
  finally have "nat (uint (- z)) = nat (2 ^ 64 - uint z)" by simp
  then show ?thesis using z by (simp add: nat_diff_distrib)
qed

lemma unat_diff_less:
  fixes y :: u64
  assumes "k + n \<le> 2 ^ 64" "k < 2 ^ 64"
  shows "unat (y - of_nat k) < n \<longleftrightarrow> k \<le> unat y \<and> unat y < k + n"
proof -
  have k: "unat (of_nat k :: u64) = k" using assms(2) by (intro unat_of_nat_small) simp
  show ?thesis
  proof (cases "k \<le> unat y")
    case True
    then have "unat (y - of_nat k) = unat y - k" by (subst unat_sub) (simp_all add: word_le_nat_alt k)
    then show ?thesis using True by auto
  next
    case False
    then have "unat (of_nat k - y) = k - unat y" by (subst unat_sub) (simp_all add: word_le_nat_alt k)
    moreover have "of_nat k - y \<noteq> 0" using False k by auto
    ultimately have "unat (- (of_nat k - y)) = 2 ^ 64 - (k - unat y)" using unat_neg [of "of_nat k - y"] by metis
    then show ?thesis using False assms by simp
  qed
qed

definition str_at :: "mem \<Rightarrow> u64 \<Rightarrow> string \<Rightarrow> bool" where
  "str_at m a t \<longleftrightarrow> load_bytes (length t + 1) a m = map of_char t @ [0]"

text \<open>The room the strings take, and where they start below \<open>k\<close>.\<close>

definition room :: "string list \<Rightarrow> nat" where
  "room ts = sum_list (map (\<lambda>t. length t + 1) ts)"

lemma room_sum: "room ts = sum_list (map length ts) + length ts"
  by (induction ts) (simp_all add: room_def)

primrec arg_offs :: "nat \<Rightarrow> string list \<Rightarrow> nat list" where
  "arg_offs k [] = []"
| "arg_offs k (t # ts) = (k - (length t + 1)) # arg_offs (k - (length t + 1)) ts"

lemma length_arg_offs [simp]: "length (arg_offs k ts) = length ts"
  by (induction ts arbitrary: k) simp_all

lemma arg_offs_bounds:
  "room ts \<le> k \<Longrightarrow> j < length ts \<Longrightarrow> k - room ts \<le> arg_offs k ts ! j \<and> arg_offs k ts ! j + length (ts ! j) + 1 \<le> k"
proof (induction ts arbitrary: k j)
  case (Cons t ts)
  let ?k = "k - (length t + 1)"
  have r: "room (t # ts) = length t + 1 + room ts" by (simp add: room_def)
  show ?case
  proof (cases j)
    case 0
    then show ?thesis using Cons.prems by (simp add: r)
  next
    case (Suc i)
    then have "?k - room ts \<le> arg_offs ?k ts ! i \<and> arg_offs ?k ts ! i + length (ts ! i) + 1 \<le> ?k"
      using Cons.prems by (intro Cons.IH) (simp_all add: r)
    then show ?thesis using Suc Cons.prems by (auto simp: r)
  qed
qed simp

lemma str_at_cong:
  assumes "\<And>x. unat (x - a) < length t + 1 \<Longrightarrow> get_byte m' x = get_byte m x" "length t < 2 ^ 63"
  shows "str_at m' a t = str_at m a t"
proof -
  have "get_byte m' (a + of_nat k) = get_byte m (a + of_nat k)" if "k < length t + 1" for k
    using that assms(2) by (intro assms(1)) (simp add: unat_of_nat_small)
  then have "load_bytes (length t + 1) a m' = load_bytes (length t + 1) a m" by (simp add: load_bytes_def)
  then show ?thesis by (simp only: str_at_def)
qed

lemma push_args_fold:
  assumes "room ts \<le> k" "k \<le> 4096"
  shows "\<exists>m'. fold (push_arg stack) ts (of_nat k, us, m) =
      (of_nat (k - room ts), us @ map (\<lambda>o1. USTACK_TOP - PGSIZE + of_nat o1) (arg_offs k ts), m') \<and>
    (\<forall>x. \<not> (k - room ts \<le> unat (x - stack) \<and> unat (x - stack) < k) \<longrightarrow> get_byte m' x = get_byte m x) \<and>
    (\<forall>j < length ts. str_at m' (stack + of_nat (arg_offs k ts ! j)) (ts ! j))"
  using assms
proof (induction ts arbitrary: k us m)
  case (Cons t ts)
  define k1 where "k1 = k - (length t + 1)"
  let ?bs = "map of_char t @ [0]" and ?a = "stack + of_nat k1"
  define m1 where "m1 = store_bytes ?a ?bs m"
  have r: "room ts \<le> k1" "k1 \<le> 4096" "k1 + (length t + 1) = k" "k - room (t # ts) = k1 - room ts"
    using Cons.prems by (auto simp: room_def k1_def)
  have o1: "of_nat k - of_nat (length t + 1) = (of_nat k1 :: u64)"
    using r(3) by (metis add_diff_cancel_right' of_nat_add)
  have in1: "unat (x - ?a) < length t + 1 \<longleftrightarrow> k1 \<le> unat (x - stack) \<and> unat (x - stack) < k" for x
    using unat_diff_less [of k1 "length t + 1" "x - stack"] r Cons.prems(2) by (simp add: diff_diff_eq)
  have g1: "get_byte m1 x = (if unat (x - ?a) < length t + 1 then ?bs ! unat (x - ?a) else get_byte m x)" for x
    using get_store_bytes [of ?bs ?a m x] r Cons.prems(2) by (simp add: m1_def)
  obtain m' where m': "fold (push_arg stack) ts (of_nat k1, us @ [USTACK_TOP - PGSIZE + of_nat k1], m1) =
      (of_nat (k1 - room ts), (us @ [USTACK_TOP - PGSIZE + of_nat k1]) @ map (\<lambda>o1. USTACK_TOP - PGSIZE + of_nat o1) (arg_offs k1 ts), m')"
    "\<And>x. \<not> (k1 - room ts \<le> unat (x - stack) \<and> unat (x - stack) < k1) \<Longrightarrow> get_byte m' x = get_byte m1 x"
    "\<And>j. j < length ts \<Longrightarrow> str_at m' (stack + of_nat (arg_offs k1 ts ! j)) (ts ! j)"
    using Cons.IH [OF r(1,2), of "us @ [USTACK_TOP - PGSIZE + of_nat k1]" m1] by blast
  have ao: "arg_offs k (t # ts) = k1 # arg_offs k1 ts" by (simp add: k1_def)
  have "fold (push_arg stack) (t # ts) (of_nat k, us, m) =
      (of_nat (k - room (t # ts)), us @ map (\<lambda>o1. USTACK_TOP - PGSIZE + of_nat o1) (arg_offs k (t # ts)), m')"
    using m'(1) o1 unfolding ao r(4) by (simp add: push_arg_def Let_def m1_def)
  moreover have "get_byte m' x = get_byte m x" if "\<not> (k - room (t # ts) \<le> unat (x - stack) \<and> unat (x - stack) < k)" for x
  proof -
    have "\<not> (k1 - room ts \<le> unat (x - stack) \<and> unat (x - stack) < k1)" using that r by auto
    moreover have "\<not> unat (x - ?a) < length t + 1" using that in1 [of x] r by auto
    ultimately show ?thesis using m'(2) [of x] g1 [of x] by simp
  qed
  moreover have "str_at m' ?a t"
  proof -
    have "str_at m1 ?a t" using load_store_bytes [of ?bs ?a m] r Cons.prems(2) by (simp add: str_at_def m1_def)
    then show ?thesis using m'(2) in1 r Cons.prems(2) by (subst str_at_cong [of ?a t m' m1]) auto
  qed
  moreover have "str_at m' (stack + of_nat (arg_offs k (t # ts) ! j)) ((t # ts) ! j)" if "j < length (t # ts)" for j
    using that m'(3) \<open>str_at m' ?a t\<close> unfolding ao by (cases j) simp_all
  ultimately show ?case by blast
qed (simp add: room_def)

text \<open>Later writes below the strings leave them alone.\<close>

lemma strs_survive:
  assumes "room ts \<le> 4096" "j < length ts" "str_at m1 (stack + of_nat (arg_offs 4096 ts ! j)) (ts ! j)"
    and same: "\<And>e. 4096 - room ts \<le> e \<Longrightarrow> e < 4096 \<Longrightarrow> get_byte m3 (stack + of_nat e) = get_byte m1 (stack + of_nat e)"
  shows "str_at m3 (stack + of_nat (arg_offs 4096 ts ! j)) (ts ! j)"
proof -
  define d where "d = arg_offs 4096 ts ! j"
  have d: "4096 - room ts \<le> d" "d + length (ts ! j) + 1 \<le> 4096" using arg_offs_bounds [OF assms(1,2)] by (simp_all add: d_def)
  have "get_byte m3 x = get_byte m1 x" if "unat (x - (stack + of_nat d)) < length (ts ! j) + 1" for x
  proof -
    define e where "e = unat (x - stack)"
    have "d \<le> e" "e < 4096"
      using unat_diff_less [of d "length (ts ! j) + 1" "x - stack"] that d(2) by (simp_all add: e_def diff_diff_eq)
    then show ?thesis using same [of e] d(1) by (simp add: e_def)
  qed
  then have "str_at m3 (stack + of_nat d) (ts ! j) = str_at m1 (stack + of_nat d) (ts ! j)"
    using d(2) by (intro str_at_cong) auto
  then show ?thesis using assms(3) by (simp only: d_def)
qed

lemma unat_word_addr: "unat a + 8 * n \<le> 2 ^ 64 \<Longrightarrow> j < n \<Longrightarrow> unat (a + 8 * of_nat j :: u64) = unat a + 8 * j"
proof -
  assume n: "unat a + 8 * n \<le> 2 ^ 64" "j < n"
  have j: "8 * of_nat j = (of_nat (8 * j) :: u64)" by simp
  have "unat (of_nat (8 * j) :: u64) = 8 * j" using n by (intro unat_of_nat_small) simp
  then show ?thesis using n unat_add_lem [of a "of_nat (8 * j)"] unfolding j by simp
qed

lemma put_words_other: "(\<And>j. j < length ws \<Longrightarrow> x \<noteq> a + 8 * of_nat j) \<Longrightarrow> put_words a ws m x = m x"
proof (induction ws arbitrary: a m)
  case (Cons w ws)
  have "x \<noteq> a" using Cons.prems [of 0] by simp
  moreover have "x \<noteq> a + 8 + 8 * of_nat j" if "j < length ws" for j
    using Cons.prems [of "Suc j"] that by (simp add: algebra_simps)
  ultimately show ?case using Cons.IH [of "a + 8"] by simp
qed simp

lemma put_words_nth:
  "unat a + 8 * length ws \<le> 2 ^ 64 \<Longrightarrow> j < length ws \<Longrightarrow> put_words a ws m (a + 8 * of_nat j) = ws ! j"
proof (induction ws arbitrary: a m j)
  case (Cons w ws)
  show ?case
  proof (cases j)
    case 0
    have "a \<noteq> a + 8 + 8 * of_nat i" if "i < length ws" for i
      using unat_word_addr [OF Cons.prems(1), of "Suc i"] that by (auto simp: algebra_simps)
    then show ?thesis using 0 by (simp add: put_words_other)
  next
    case (Suc i)
    then have "1 < length (w # ws)" using Cons.prems(2) by auto
    then have "unat (a + 8) = unat a + 8" using unat_word_addr [OF Cons.prems(1), of 1] by simp
    then have "put_words (a + 8) ws (m(a := w)) (a + 8 + 8 * of_nat i) = ws ! i"
      using Cons.prems Suc by (intro Cons.IH) simp_all
    then show ?thesis using Suc by (simp add: algebra_simps)
  qed
qed simp

lemma put_words_bytes:
  assumes "unat a mod 8 = 0" "unat a + 8 * length ws \<le> 2 ^ 64" "\<not> (unat a \<le> unat x \<and> unat x < unat a + length ws * 8)"
  shows "get_byte (put_words a ws m) x = get_byte m x"
proof -
  have "cell x \<noteq> a + 8 * of_nat j" if "j < length ws" for j
  proof
    assume "cell x = a + 8 * of_nat j"
    then have "unat x div 8 * 8 = unat a + j * 8" using unat_word_addr [OF assms(2) that] by (simp flip: unat_cell)
    then show False using block_index [of "unat a" 8 "length ws" "unat x"] assms(1,3) that by auto
  qed
  then show ?thesis by (simp add: get_byte_def put_words_other)
qed

lemma page_bytes: "(\<And>a. PGROUNDDOWN a = page \<Longrightarrow> m' a = m a) \<Longrightarrow> PGROUNDDOWN x = page \<Longrightarrow> get_byte m' x = get_byte m x"
proof -
  have "n div 8 * 8 div 4096 = n div 4096" for n :: nat
    using div_mult2_eq [of "n div 8 * 8" 8 512] div_mult2_eq [of n 8 512] by simp
  then have "PGROUNDDOWN (cell x) = PGROUNDDOWN x" by (simp add: word_unat_eq_iff unat_PGROUNDDOWN unat_cell)
  then show "(\<And>a. PGROUNDDOWN a = page \<Longrightarrow> m' a = m a) \<Longrightarrow> PGROUNDDOWN x = page \<Longrightarrow> get_byte m' x = get_byte m x"
    by (simp add: get_byte_def)
qed

text \<open>\<^verbatim>\<open>argv\<close> lies below the strings, aligned, inside the page.\<close>

lemma put_argv_place:
  assumes "8 * (length uargs + 1) + 16 \<le> k" "k \<le> 4096"
  obtains p where "put_argv stack (of_nat k) uargs m = (of_nat p, put_words (stack + of_nat p) (uargs @ [0]) m)"
    "p mod 16 = 0" "p + 8 * (length uargs + 1) \<le> k"
proof -
  define q where "q = k - 8 * (length uargs + 1)"
  have e: "of_nat k - (of_nat (length uargs) + 1) * 8 = (of_nat q :: u64)"
  proof -
    have "k = q + 8 * (length uargs + 1)" using assms(1) by (simp add: q_def)
    then have "of_nat k = (of_nat q + of_nat (8 * (length uargs + 1)) :: u64)" by (metis of_nat_add)
    then show ?thesis by (simp add: algebra_simps)
  qed
  have "(of_nat q :: u64) AND NOT 0xF = of_nat (q div 16 * 16)"
  proof -
    have "(of_nat q :: u64) AND NOT 0xF = of_nat q AND NOT (mask 4)" by (simp add: mask_eq_exp_minus_1)
    moreover have "unat (of_nat q :: u64) = q" using assms(2) by (intro unat_of_nat_small) (simp add: q_def)
    ultimately have "unat ((of_nat q :: u64) AND NOT 0xF) = q div 16 * 16"
      by (simp only: and_not_mask_div unat_div_mult_same) simp
    moreover have "unat (of_nat (q div 16 * 16) :: u64) = q div 16 * 16"
      using assms(2) div_times_less_eq_dividend [of q 16] by (intro unat_of_nat_small) (simp add: q_def)
    ultimately show ?thesis by (simp only: word_unat_eq_iff)
  qed
  then have "put_argv stack (of_nat k) uargs m = (of_nat (q div 16 * 16), put_words (stack + of_nat (q div 16 * 16)) (uargs @ [0]) m)"
    unfolding put_argv_def Let_def e by (simp only:)
  moreover have "q div 16 * 16 + 8 * (length uargs + 1) \<le> k" using assms(1) div_times_less_eq_dividend [of q 16] by (simp add: q_def)
  ultimately show ?thesis by (intro that [of "q div 16 * 16"]) simp_all
qed

subsection \<open>Properties\<close>

text \<open>
  C32. The kernel splits an argument string as a shell would: the arguments are the first 14 words before the first
  \<open>>\<close>, and the output goes to the first word after it; with 14 words or more the redirection is not seen.
\<close>

theorem parse_args_correct:
  "parse_args 1 s =
     (take 14 (words (line_of s)), if length (words (line_of s)) < 14 then redir_of s else None)"
  by (simp add: parse_args_words)

text \<open>
  C33. A new process finds its arguments: for a path and an argument string as the system call passes them (at most 63
  characters), \<^verbatim>\<open>argv\<close> is 16-byte aligned inside the stack page, entry \<open>j\<close> holds the user address of a copy of the
  \<open>j\<close>-th argument ended by a zero byte, the array ends with a null pointer, and neither the copies of the strings nor the array
  change a byte outside the page. Opening the redirection file between the two may change memory outside the page.
\<close>

theorem spawn_argv_correct:
  assumes "page_aligned stack" and "length path \<le> 63" and "length args \<le> 63"
    and "parse_args 1 args = (ws, redir)" and "push_args stack (path # ws) m = (off, uargs, m1)"
    and "\<forall>a. PGROUNDDOWN a = stack \<longrightarrow> m2 a = m1 a" and "put_argv stack off uargs m2 = (sp, m3)"
  shows "sp mod 16 = 0 \<and> sp < PGSIZE \<and> length uargs = length ws + 1 \<and>
    (\<forall>j < length uargs. \<exists>p < 4096. m3 (stack + sp + 8 * of_nat j) = USTACK_TOP - PGSIZE + of_nat p \<and>
       load_bytes (length ((path # ws) ! j) + 1) (stack + of_nat p) m3 = map of_char ((path # ws) ! j) @ [0]) \<and>
    m3 (stack + sp + 8 * of_nat (length uargs)) = 0 \<and>
    (\<forall>x. PGROUNDDOWN x \<noteq> stack \<longrightarrow> get_byte m1 x = get_byte m x \<and> get_byte m3 x = get_byte m2 x)"
proof -
  let ?ts = "path # ws"
  define k where "k = 4096 - room ?ts"
  have ws: "length ws \<le> 14" "sum_list (map length ws) \<le> 63" using parse_args_bounds [OF assms(4)] assms(3) by simp_all
  have r: "room ?ts \<le> 141" using ws assms(2) by (simp add: room_sum)
  have "fold (push_arg stack) ?ts (of_nat 4096, [], m) = (off, uargs, m1)"
    using assms(5) by (simp only: push_args_def PGSIZE_def of_nat_numeral)
  then have f: "off = of_nat k" "uargs = map (\<lambda>o1. USTACK_TOP - PGSIZE + of_nat o1) (arg_offs 4096 ?ts)"
      "\<And>x. \<not> unat (x - stack) < 4096 \<Longrightarrow> get_byte m1 x = get_byte m x"
      "\<And>j. j < length ?ts \<Longrightarrow> str_at m1 (stack + of_nat (arg_offs 4096 ?ts ! j)) (?ts ! j)"
    using push_args_fold [of ?ts 4096 stack "[]" m] r unfolding k_def by auto
  have n: "length uargs = length ws + 1" by (simp add: f(2))
  have "8 * (length uargs + 1) + 16 \<le> k" "k \<le> 4096" using n ws r by (simp_all add: k_def)
  then obtain p where p: "put_argv stack (of_nat k) uargs m2 = (of_nat p, put_words (stack + of_nat p) (uargs @ [0]) m2)"
      "p mod 16 = 0" "p + 8 * (length uargs + 1) \<le> k"
    by (rule put_argv_place)
  have sp: "sp = of_nat p" "m3 = put_words (stack + of_nat p) (uargs @ [0]) m2" using assms(7) p(1) f(1) by auto
  have up: "unat (of_nat p :: u64) = p" using p(3) by (intro unat_of_nat_small) (simp add: k_def)
  have us: "unat (stack + of_nat p) = unat stack + p" using assms(1) p(3) by (intro unat_in_page) (simp_all add: k_def)
  have al: "unat stack mod 4096 = 0" using assms(1) by (simp add: page_aligned_unat)
  then obtain a b where "unat stack = 8 * (512 * a)" "p = 8 * (2 * b)" using p(2) by (auto simp: mod_eq_0_iff_dvd elim!: dvdE)
  then have al8: "unat (stack + of_nat p) mod 8 = 0" unfolding us by simp
  have fit: "unat (stack + of_nat p) + 8 * length (uargs @ [0]) \<le> 2 ^ 64"
    using page_room [OF assms(1)] p(3) unfolding us by (simp add: k_def)
  have other: "get_byte m3 x = get_byte m2 x" if "\<not> (unat stack + p \<le> unat x \<and> unat x < unat stack + k)" for x
    unfolding sp(2) using that p(3) by (intro put_words_bytes [OF al8 fit]) (auto simp: us)
  have strs: "str_at m3 (stack + of_nat (arg_offs 4096 ?ts ! j)) (?ts ! j)" if j: "j < length ?ts" for j
  proof (rule strs_survive [OF _ j f(4) [OF j]])
    show "room ?ts \<le> 4096" using r by simp
    fix e :: nat
    assume e: "4096 - room ?ts \<le> e" "e < 4096"
    then have "unat (stack + of_nat e) = unat stack + e" "PGROUNDDOWN (stack + of_nat e) = stack"
      using assms(1) unat_in_page PGROUNDDOWN_in_page by simp_all
    then show "get_byte m3 (stack + of_nat e) = get_byte m1 (stack + of_nat e)"
      using other [of "stack + of_nat e"] page_bytes [of stack m2 m1 "stack + of_nat e"] assms(6) e(1) by (simp add: k_def)
  qed
  have wd: "m3 (stack + sp + 8 * of_nat j) = (uargs @ [0]) ! j" if "j < length uargs + 1" for j
    unfolding sp using put_words_nth [OF fit, of j m2] that by simp
  have "\<exists>q < 4096. m3 (stack + sp + 8 * of_nat j) = USTACK_TOP - PGSIZE + of_nat q \<and>
      load_bytes (length (?ts ! j) + 1) (stack + of_nat q) m3 = map of_char (?ts ! j) @ [0]" if j: "j < length uargs" for j
  proof (intro exI conjI)
    have jt: "j < length ?ts" using j n by simp
    then show "arg_offs 4096 ?ts ! j < 4096" using arg_offs_bounds [of ?ts 4096 j] r by linarith
    have "(uargs @ [0]) ! j = uargs ! j" using j by (rule nth_append_left)
    also have "\<dots> = USTACK_TOP - PGSIZE + of_nat (arg_offs 4096 ?ts ! j)"
      unfolding f(2) using jt by (intro nth_map) (simp only: length_arg_offs)
    finally show "m3 (stack + sp + 8 * of_nat j) = USTACK_TOP - PGSIZE + of_nat (arg_offs 4096 ?ts ! j)" using wd [of j] j by simp
    show "load_bytes (length (?ts ! j) + 1) (stack + of_nat (arg_offs 4096 ?ts ! j)) m3 = map of_char (?ts ! j) @ [0]"
      using strs [OF jt] by (simp only: str_at_def)
  qed
  moreover have "get_byte m3 x = get_byte m2 x" if "PGROUNDDOWN x \<noteq> stack" for x
  proof (rule other, rule)
    assume "unat stack + p \<le> unat x \<and> unat x < unat stack + k"
    then have "x = stack + of_nat (unat x - unat stack)" "unat x - unat stack < 4096"
      using \<open>k \<le> 4096\<close> by (simp add: of_nat_diff, linarith)
    then show False using that PGROUNDDOWN_in_page [OF assms(1)] by metis
  qed
  moreover have "get_byte m1 x = get_byte m x" if "PGROUNDDOWN x \<noteq> stack" for x
    using that PGROUNDDOWN_in_page [OF assms(1), of "unat (x - stack)"] by (intro f(3)) auto
  moreover have "sp mod 16 = 0" using p(2) by (simp add: sp(1) word_unat_eq_iff unat_mod up)
  moreover have "sp < PGSIZE" using p(3) by (simp add: sp(1) word_less_nat_alt up rv_const k_def)
  ultimately show ?thesis using wd [of "length uargs"] n by (simp add: nth_append)
qed

theorem spawn_argv_correct_witness:
  "\<exists>off uargs m1 sp m3. push_args 0x87FF8000 [''ls'', ''-l''] (\<lambda>_. 0) = (off, uargs, m1) \<and>
     put_argv 0x87FF8000 off uargs m1 = (sp, m3) \<and> sp mod 16 = 0 \<and> length uargs = 2 \<and>
     (\<exists>p < 4096. m3 (0x87FF8000 + sp + 8) = USTACK_TOP - PGSIZE + of_nat p \<and>
        load_bytes 3 (0x87FF8000 + of_nat p) m3 = [45, 108, 0])"
proof -
  obtain off uargs m1 where a: "push_args 0x87FF8000 [''ls'', ''-l''] (\<lambda>_. 0) = (off, uargs, m1)" by (cases "push_args 0x87FF8000 [''ls'', ''-l''] (\<lambda>_. 0)") auto
  obtain sp m3 where b: "put_argv 0x87FF8000 off uargs m1 = (sp, m3)" by (cases "put_argv 0x87FF8000 off uargs m1") auto
  have p: "parse_args 1 '' -l > out'' = ([''-l''], Some ''out'')" by code_simp
  have al: "page_aligned 0x87FF8000" by (simp add: rv_const)
  have r: "sp mod 16 = 0" "length uargs = 2"
    "\<forall>j < length uargs. \<exists>p < 4096. m3 (0x87FF8000 + sp + 8 * of_nat j) = USTACK_TOP - PGSIZE + of_nat p \<and>
       load_bytes (length ([''ls'', ''-l''] ! j) + 1) (0x87FF8000 + of_nat p) m3 = map of_char ([''ls'', ''-l''] ! j) @ [0]"
    using spawn_argv_correct [OF al _ _ p a _ b] by simp_all
  then show ?thesis using a b r(3) [rule_format, of 1] by (auto simp: numeral_3_eq_3)
qed

end
