(* ===== verification/RV_Proc.thy ===== *)
theory RV_Proc
  imports RV_Fat RV_Caps RV_Args
begin

text \<open>
  The life of a process, the rest of \<^verbatim>\<open>kernelspace/core/process.c\<close>: the process table at boot
  (\<^verbatim>\<open>procinit\<close>), a new slot (\<^verbatim>\<open>allocproc\<close>), a program loaded into it (\<^verbatim>\<open>spawn\<close>, with the ELF headers of
  \<^verbatim>\<open>kernelspace/include/elf.h\<close>), the first process (\<^verbatim>\<open>userinit\<close>), the heap (\<^verbatim>\<open>growproc\<close>), the return from
  \<^verbatim>\<open>sleep\<close>, and the end of a process (\<^verbatim>\<open>exit\<close>, \<^verbatim>\<open>wait\<close>). \<open>RV_Sched\<close> has the scheduler and the lists of fields
  these functions set. The section under \<^verbatim>\<open>p->lock\<close> is one step; the depth of locks on the hart is kept
  where \<^verbatim>\<open>sched\<close> tests it. The address of \<^verbatim>\<open>forkret\<close> and the size of the \<^verbatim>\<open>PCB\<close>, which the linker and the compiler
  choose, are arguments.
\<close>

unbundle bit_operations_syntax

subsection \<open>The saved registers of a process\<close>

text \<open>Offsets in \<^verbatim>\<open>user_context_t\<close>, which fills the page \<^verbatim>\<open>p->context\<close>.\<close>

definition uc_kernel_satp :: u64 where [rv_const]: "uc_kernel_satp = 0"
definition uc_kernel_sp :: u64 where [rv_const]: "uc_kernel_sp = 8"
definition uc_kernel_trap :: u64 where [rv_const]: "uc_kernel_trap = 16"
definition uc_epc :: u64 where [rv_const]: "uc_epc = 24"
definition uc_kernel_hartid :: u64 where [rv_const]: "uc_kernel_hartid = 32"
definition uc_sp :: u64 where [rv_const]: "uc_sp = 48"
definition uc_a0 :: u64 where [rv_const]: "uc_a0 = 112"
definition uc_a1 :: u64 where [rv_const]: "uc_a1 = 120"
definition uc_a2 :: u64 where [rv_const]: "uc_a2 = 128"
definition uc_a7 :: u64 where [rv_const]: "uc_a7 = 168"

definition get_ctx :: "nat \<Rightarrow> u64 \<Rightarrow> kernel \<Rightarrow> u64" where
  "get_ctx i off s = mem s (p_context (procs s ! i) + off)"

definition set_ctx :: "nat \<Rightarrow> u64 \<Rightarrow> u64 \<Rightarrow> kernel \<Rightarrow> kernel" where
  "set_ctx i off v s = s\<lparr>mem := (mem s)(p_context (procs s ! i) + off := v)\<rparr>"

subsection \<open>The process table at boot\<close>

text \<open>A block of a new slab page is zero, so these are the fields of a \<^verbatim>\<open>PCB\<close> nobody has set yet.\<close>

definition zero_pcb :: pcb where
  "zero_pcb =
     \<lparr>p_state = UNUSED, p_chan = NoChan, p_pagetable = 0, p_sz = 0, p_kstack = 0, p_context = 0,
      p_sched_ctx = \<lparr>c_ra = 0, c_sp = 0, c_s0 = 0, c_s1 = 0, c_s2 = 0, c_s3 = 0, c_s4 = 0, c_s5 = 0,
        c_s6 = 0, c_s7 = 0, c_s8 = 0, c_s9 = 0, c_s10 = 0, c_s11 = 0\<rparr>,
      p_pid = 0, p_owner_pid = 0, p_priority = 0, p_effective_priority = 0, p_skipped_count = 0, p_cpu_usage = 0,
      p_exit_status = 0, p_killed = False, p_name = [], p_cwd_cluster = 0, p_cwd_path = [], p_caps = 0,
      p_tracing = 0, p_handles = replicate MAX_HANDLES 0\<rparr>"

primrec init_slots :: "nat \<Rightarrow> kmem_cache \<Rightarrow> kernel \<Rightarrow> (kmem_cache \<times> kernel) res" where
  "init_slots 0 c s = Inr (c, s)"
| "init_slots (Suc n) c s =
     rbind (kmem_cache_alloc c s) (\<lambda>(p, c1, s1).
       if p = 0 then Inl (Panic ''procinit: kmem_cache_alloc failed'')
       else
         let (ks, s2) = kalloc s1 in
         if ks = 0 then Inl (Panic ''procinit: kstack kalloc failed'')
         else init_slots n c1 (s2\<lparr>procs := procs s2 @ [zero_pcb\<lparr>p_kstack := ks\<rparr>]\<rparr>))"

definition procinit :: "u32 \<Rightarrow> kernel \<Rightarrow> (kmem_cache \<times> kernel) res" where
  "procinit sizeof_PCB s =
     (let (r, s1) = kmem_cache_create sizeof_PCB (s\<lparr>next_pid := 0\<rparr>) in
      case r of
        None \<Rightarrow> Inl (Panic ''procinit: kmem_cache_create failed'')
      | Some (_, c) \<Rightarrow> init_slots MAXPROCESSES c (s1\<lparr>procs := []\<rparr>))"

subsection \<open>A new slot\<close>

definition first_context :: "u64 \<Rightarrow> u64 \<Rightarrow> swtch_context" where
  "first_context ra sp =
     \<lparr>c_ra = ra, c_sp = sp, c_s0 = 0, c_s1 = 0, c_s2 = 0, c_s3 = 0, c_s4 = 0, c_s5 = 0,
      c_s6 = 0, c_s7 = 0, c_s8 = 0, c_s9 = 0, c_s10 = 0, c_s11 = 0\<rparr>"

definition unused_slot :: "pcb list \<Rightarrow> nat option" where
  "unused_slot ps = find (\<lambda>i. p_state (ps ! i) = UNUSED) [0..<length ps]"

definition allocproc :: "u64 \<Rightarrow> kernel \<Rightarrow> (nat option \<times> kernel) res" where
  "allocproc forkret s =
     (case unused_slot (procs s) of
        None \<Rightarrow> Inr (None, s)
      | Some i \<Rightarrow>
          rbind (allocpid s) (\<lambda>(pid, s1).
            let (ctx, s2) = kalloc (upd_proc i (init_pcb pid) s1);
                s3 = upd_proc i (p_context_update (\<lambda>_. ctx)) s2
            in if ctx = 0 then Inr (None, s3)
               else
                 let (pt, s4) = uvmcreate ctx (s3\<lparr>mem := fill_page (mem s3) ctx 0\<rparr>);
                     s5 = upd_proc i (p_pagetable_update (\<lambda>_. pt)) s4
                 in if pt = 0 then Inr (None, s5)
                    else
                      let s6 = upd_proc i (\<lambda>p. p\<lparr>p_sched_ctx := first_context forkret (p_kstack p + PGSIZE),
                                 p_cwd_cluster := fs_get_root_cluster s5, p_cwd_path := ''/'', p_caps := 0\<rparr>) s5
                      in Inr (Some i, s6\<lparr>pid_alive := (pid_alive s6)(p_pid (procs s6 ! i) := True)\<rparr>)))"

subsection \<open>Loading a program\<close>

definition get64 :: "u8 list \<Rightarrow> nat \<Rightarrow> u64" where
  "get64 b off = ucast (get32 b off) OR push_bit 32 (ucast (get32 b (off + 4)))"

definition ELF_MAGIC :: u32 where [rv_const]: "ELF_MAGIC = 0x464C457F"
definition ELF_PROG_LOAD :: u32 where [rv_const]: "ELF_PROG_LOAD = 1"
definition ELF_PROG_FLAG_EXEC :: u32 where [rv_const]: "ELF_PROG_FLAG_EXEC = 1"
definition ELF_PROG_FLAG_WRITE :: u32 where [rv_const]: "ELF_PROG_FLAG_WRITE = 2"
definition ELF_PROG_FLAG_READ :: u32 where [rv_const]: "ELF_PROG_FLAG_READ = 4"

text \<open>The fields of the 64 bytes of \<^verbatim>\<open>struct elfhdr\<close> and the 56 bytes of \<^verbatim>\<open>struct proghdr\<close> that \<^verbatim>\<open>spawn\<close> reads.\<close>

definition elf_magic :: "u8 list \<Rightarrow> u32" where "elf_magic b = get32 b 0"
definition elf_entry :: "u8 list \<Rightarrow> u64" where "elf_entry b = get64 b 24"
definition elf_phoff :: "u8 list \<Rightarrow> u64" where "elf_phoff b = get64 b 32"
definition elf_phnum :: "u8 list \<Rightarrow> u16" where "elf_phnum b = get16 b 56"

definition ph_type :: "u8 list \<Rightarrow> u32" where "ph_type b = get32 b 0"
definition ph_flags :: "u8 list \<Rightarrow> u32" where "ph_flags b = get32 b 4"
definition ph_off :: "u8 list \<Rightarrow> u64" where "ph_off b = get64 b 8"
definition ph_vaddr :: "u8 list \<Rightarrow> u64" where "ph_vaddr b = get64 b 16"
definition ph_filesz :: "u8 list \<Rightarrow> u64" where "ph_filesz b = get64 b 32"
definition ph_memsz :: "u8 list \<Rightarrow> u64" where "ph_memsz b = get64 b 40"

definition seg_perm :: "u32 \<Rightarrow> u64" where
  "seg_perm flags =
     PTE_U OR (if flags AND ELF_PROG_FLAG_READ \<noteq> 0 then PTE_R else 0)
       OR (if flags AND ELF_PROG_FLAG_WRITE \<noteq> 0 then PTE_W else 0)
       OR (if flags AND ELF_PROG_FLAG_EXEC \<noteq> 0 then PTE_X else 0)"

text \<open>
  The page \<open>j\<close> of a segment: allocated, zeroed, filled from the file and mapped. \<open>load_pages\<close> is the loop;
  its first argument counts the passes left, the multiples of \<^verbatim>\<open>PGSIZE\<close> below \<^verbatim>\<open>ph.memsz\<close>.
\<close>

definition load_page :: "nat option \<Rightarrow> string \<Rightarrow> u8 list \<Rightarrow> u64 \<Rightarrow> u64 \<Rightarrow> kernel \<Rightarrow> (bool \<times> kernel) res" where
  "load_page me path ph pt j s =
     (let (pa, s1) = kalloc s in
      if pa = 0 then Inr (False, s1)
      else
        let s2 = s1\<lparr>mem := fill_page (mem s1) pa 0\<rparr>;
            left = (if j < ph_filesz ph then ph_filesz ph - j else 0);
            count = (if PGSIZE < left then PGSIZE else left)
        in rbind (if 0 < count then
                    rbind (fs_read_file_offset me path (ucast (ph_off ph + j)) (ucast count) s2) (\<lambda>(n, bs, s3).
                      Inr (n = int (unat count), s3\<lparr>mem := store_bytes pa bs (mem s3)\<rparr>))
                  else Inr (True, s2)) (\<lambda>(ok, s4).
             if \<not> ok then Inr (False, kfree pa s4)
             else
               let (r, s5) = mappages pt (ph_vaddr ph + j) pa PGSIZE (seg_perm (ph_flags ph)) s4
               in if r < 0 then Inr (False, kfree pa s5) else Inr (True, s5)))"

primrec load_pages :: "nat \<Rightarrow> nat option \<Rightarrow> string \<Rightarrow> u8 list \<Rightarrow> u64 \<Rightarrow> u64 \<Rightarrow> kernel \<Rightarrow> (bool \<times> kernel) res" where
  "load_pages 0 me path ph pt j s = Inr (True, s)"
| "load_pages (Suc n) me path ph pt j s =
     rbind (load_page me path ph pt j s) (\<lambda>(ok, s1).
       if ok then load_pages n me path ph pt (j + PGSIZE) s1 else Inr (False, s1))"

definition seg_pages :: "u64 \<Rightarrow> nat" where
  "seg_pages memsz = (unat memsz + 4095) div 4096"

primrec load_segments ::
    "nat \<Rightarrow> nat option \<Rightarrow> string \<Rightarrow> u64 \<Rightarrow> u32 \<Rightarrow> u64 \<Rightarrow> kernel \<Rightarrow> (u64 option \<times> kernel) res" where
  "load_segments 0 me path pt off sz s = Inr (Some sz, s)"
| "load_segments (Suc n) me path pt off sz s =
     rbind (fs_read_file_offset me path off 56 s) (\<lambda>(r, ph, s1).
       if r \<noteq> 56 then Inr (None, s1)
       else if ph_type ph \<noteq> ELF_PROG_LOAD then load_segments n me path pt (off + 56) sz s1
       else if ph_memsz ph < ph_filesz ph then Inr (None, s1)
       else if ph_vaddr ph + ph_memsz ph < ph_vaddr ph then Inr (None, s1)
       else
         rbind (load_pages (seg_pages (ph_memsz ph)) me path ph pt 0 s1) (\<lambda>(ok, s2).
           if \<not> ok then Inr (None, s2)
           else load_segments n me path pt (off + 56)
             (if sz < ph_vaddr ph + ph_memsz ph then ph_vaddr ph + ph_memsz ph else sz) s2))"

text \<open>The entry point and the end of the highest segment.\<close>

definition load_image :: "nat option \<Rightarrow> string \<Rightarrow> u64 \<Rightarrow> kernel \<Rightarrow> ((u64 \<times> u64) option \<times> kernel) res" where
  "load_image me path pt s =
     rbind (fs_read_file_offset me path 0 64 s) (\<lambda>(r, elf, s1).
       if r \<noteq> 64 then Inr (None, s1)
       else if elf_magic elf \<noteq> ELF_MAGIC then Inr (None, s1)
       else
         rbind (load_segments (unat (elf_phnum elf)) me path pt (ucast (elf_phoff elf)) 0 s1) (\<lambda>(sz, s2).
           Inr (map_option (Pair (elf_entry elf)) sz, s2)))"

subsection \<open>Spawning\<close>

definition O_WRONLY :: u32 where [rv_const]: "O_WRONLY = 1"

definition redirect :: "nat option \<Rightarrow> nat \<Rightarrow> string option \<Rightarrow> kernel \<Rightarrow> kernel res" where
  "redirect me i file s =
     (case file of
        None \<Rightarrow> Inr s
      | Some f \<Rightarrow>
          (case me of
             None \<Rightarrow> Inl (Undefined ''spawn: no process'')
           | Some j \<Rightarrow>
               rbind (CreateHandler j f (O_WRONLY OR O_CREATE OR O_TRUNC) s) (\<lambda>(k, s1).
                 Inr (if 0 \<le> k
                      then set_handle j (nat k) 0 (set_handle i (unat STDOUT) (p_handles (procs s1 ! j) ! nat k) s1)
                      else s1))))"

text \<open>The loop over the handles that \<^verbatim>\<open>wait\<close> and the failure path of \<^verbatim>\<open>spawn\<close> share.\<close>

definition close_files :: "nat \<Rightarrow> kernel \<Rightarrow> kernel res" where
  "close_files i =
     rfold (\<lambda>k s.
       let f = p_handles (procs s ! i) ! k
       in rbind (if f \<noteq> 0 \<and> f \<noteq> - 1 then file_close f s else Inr s) (\<lambda>s1. Inr (set_handle i k 0 s1)))
       [0..<MAX_HANDLES]"

text \<open>Giving back the address space and the page of saved registers.\<close>

definition free_space :: "nat \<Rightarrow> kernel \<Rightarrow> kernel res" where
  "free_space i s =
     (let p = procs s ! i in
      rbind (if p_pagetable p \<noteq> 0 then uvmfree (p_pagetable p) (p_sz p) s else Inr s) (\<lambda>s1.
        let s2 = (if p_context p \<noteq> 0 then kfree (p_context p) s1 else s1)
        in close_files i (upd_proc i (\<lambda>p. p\<lparr>p_context := 0, p_pagetable := 0\<rparr>) s2)))"

definition spawn_bad :: "nat \<Rightarrow> kernel \<Rightarrow> (int \<times> kernel) res" where
  "spawn_bad i s =
     rbind (free_space i s) (\<lambda>s1. Inr (-1, upd_proc i (p_state_update (\<lambda>_. UNUSED)) s1))"

definition inherit :: "pcb option \<Rightarrow> u64 \<Rightarrow> pcb \<Rightarrow> pcb" where
  "inherit parent cap p =
     (case parent of
        None \<Rightarrow> p\<lparr>p_owner_pid := 1, p_caps := cap\<rparr>
      | Some q \<Rightarrow> p\<lparr>p_owner_pid := p_pid q, p_cwd_cluster := p_cwd_cluster q, p_cwd_path := p_cwd_path q,
          p_tracing := p_tracing q, p_caps := cap\<rparr>)"

text \<open>From the loaded image to the runnable process.\<close>

definition start_image ::
    "nat option \<Rightarrow> nat \<Rightarrow> string \<Rightarrow> string option \<Rightarrow> u64 \<Rightarrow> u64 \<Rightarrow> kernel \<Rightarrow> (int \<times> kernel) res" where
  "start_image me i path args entry sz s =
     (let s1 = set_ctx i uc_epc entry (upd_proc i (\<lambda>p. p\<lparr>p_sz := PGROUNDUP sz\<rparr>) s);
          (stack, s2) = kalloc (upd_proc i (\<lambda>p. p\<lparr>p_name := take 15 (base_name path)\<rparr>) s1)
      in if stack = 0 then spawn_bad i s2
         else
           let s3 = s2\<lparr>mem := fill_page (mem s2) stack 0\<rparr>;
               (_, s4) = mappages (p_pagetable (procs s3 ! i)) (USTACK_TOP - PGSIZE) stack PGSIZE (PTE_W OR PTE_R OR PTE_U) s3;
               (ws, redir) = (case args of None \<Rightarrow> ([], None) | Some a \<Rightarrow> parse_args 1 a);
               (off, uargs, m) = push_args stack (path # ws) (mem s4)
           in rbind (redirect me i redir (s4\<lparr>mem := m\<rparr>)) (\<lambda>s5.
                let (sp, m) = put_argv stack off uargs (mem s5);
                    va = USTACK_TOP - PGSIZE + sp;
                    s6 = set_ctx i uc_sp va (s5\<lparr>mem := m\<rparr>);
                    s7 = set_ctx i uc_a1 va (set_ctx i uc_a0 (of_nat (length uargs)) s6);
                    s8 = upd_proc i (p_state_update (\<lambda>_. RUNNABLE)) s7
                in Inr (sint (p_pid (procs s8 ! i)), s8)))"

definition spawn :: "u64 \<Rightarrow> nat \<Rightarrow> string \<Rightarrow> string option \<Rightarrow> u64 \<Rightarrow> kernel \<Rightarrow> (int \<times> kernel) res" where
  "spawn forkret h path args cap s =
     rbind (allocproc forkret s) (\<lambda>(slot, s1).
       case slot of
         None \<Rightarrow> Inr (-1, s1)
       | Some i \<Rightarrow>
           let me = myproc h s1;
               s2 = upd_proc i (inherit (map_option ((!) (procs s1)) me) cap) s1
           in rbind (load_image me path (p_pagetable (procs s2 ! i)) s2) (\<lambda>(image, s3).
                case image of
                  None \<Rightarrow> spawn_bad i s3
                | Some (entry, sz) \<Rightarrow> start_image me i path args entry sz s3))"

definition userinit :: "u64 \<Rightarrow> nat \<Rightarrow> kernel \<Rightarrow> kernel res" where
  "userinit forkret h s =
     rbind (spawn forkret h ''sysctl'' (Some ''normal'') CAP_PROFILE_SYSCONTROLLER s) (\<lambda>(r, s1).
       if r < 0 then Inl (Panic ''userinit: failed to spawn syscontroller'') else Inr s1)"

subsection \<open>The heap of a process\<close>

primrec grow_pages :: "nat \<Rightarrow> u64 \<Rightarrow> u64 \<Rightarrow> kernel \<Rightarrow> bool \<times> kernel" where
  "grow_pages 0 pt a s = (True, s)"
| "grow_pages (Suc n) pt a s =
     (let (pa, s1) = kalloc s in
      if pa = 0 then (False, s1)
      else
        let (r, s2) = mappages pt a pa PGSIZE (PTE_W OR PTE_R OR PTE_U) (s1\<lparr>mem := fill_page (mem s1) pa 0\<rparr>)
        in if r < 0 then (False, kfree pa s2) else grow_pages n pt (a + PGSIZE) s2)"

text \<open>\<open>n\<close> is a signed 32-bit number. The passes of the loop are the pages from \<^verbatim>\<open>PGROUNDUP(sz)\<close> to \<^verbatim>\<open>sz + n\<close>.\<close>

definition growproc :: "nat \<Rightarrow> u32 \<Rightarrow> kernel \<Rightarrow> (int \<times> kernel) res" where
  "growproc h n s =
     (case myproc h s of
        None \<Rightarrow> Inl (Undefined ''growproc: no process'')
      | Some i \<Rightarrow>
          let p = procs s ! i; sz = p_sz p; top = sz + scast n; a = PGROUNDUP sz in
          if 0 < sint n then
            if USTACK_TOP - PGSIZE \<le> top then Inr (-1, s)
            else
              let (ok, s1) = grow_pages (if a < top then seg_pages (top - a) else 0) (p_pagetable p) a s
              in if \<not> ok then Inr (-1, s1) else Inr (0, upd_proc i (\<lambda>p. p\<lparr>p_sz := top\<rparr>) s1)
          else Inr (0, upd_proc i (\<lambda>p. p\<lparr>p_sz := top\<rparr>) s))"

subsection \<open>The end of a process\<close>

definition exit :: "nat \<Rightarrow> u32 \<Rightarrow> kernel \<Rightarrow> kernel res" where
  "exit h status s =
     (case myproc h s of
        None \<Rightarrow> Inl (Undefined ''exit: no process'')
      | Some i \<Rightarrow>
          rbind (rfold (\<lambda>k s. if p_handles (procs s ! i) ! k \<noteq> 0 then CloseHandle i (of_nat k) s else Inr s)
                   [0..<MAX_HANDLES] s)
            (exit_tail h i status))"

text \<open>\<^verbatim>\<open>sleep\<close> after the switch back: \<open>True\<close> when the process has exited instead of returning.\<close>

definition sleep_resume :: "nat \<Rightarrow> kernel \<Rightarrow> (bool \<times> kernel) res" where
  "sleep_resume h s =
     (case myproc h s of
        None \<Rightarrow> Inl (Undefined ''sleep: no process'')
      | Some i \<Rightarrow>
          rbind (release h (upd_proc i (p_chan_update (\<lambda>_. NoChan)) s)) (\<lambda>s1.
            let s2 = acquire h s1
            in if p_killed (procs s2 ! i) then rbind (exit h (- 1) s2) (\<lambda>s3. Inr (True, s3)) else Inr (False, s2)))"

definition WAIT_NONBLOCK_KEY :: u32 where [rv_const]: "WAIT_NONBLOCK_KEY = - 0x1145"

text \<open>Which slots \<^verbatim>\<open>wait\<close> looks for.\<close>

definition wait_match :: "u32 \<Rightarrow> u32 \<Rightarrow> 'a proc_table_scheme \<Rightarrow> pcb \<Rightarrow> bool" where
  "wait_match me pid s p =
     (if p_state p = UNUSED \<or> p_pid p = 0 \<or> p_pid p = me then False
      else if pid = WAIT_NONBLOCK_KEY then p_owner_pid p = me \<or> \<not> pid_alive s (p_owner_pid p)
      else p_pid p = pid \<and> p_owner_pid p = me)"

datatype waited = Returned int | Asleep

definition reap :: "nat \<Rightarrow> kernel \<Rightarrow> kernel res" where
  "reap i s =
     (let pid = p_pid (procs s ! i) in
      rbind (free_space i s) (\<lambda>s1. Inr ((upd_proc i reap_pcb s1)\<lparr>pid_alive := (pid_alive s1)(pid := False)\<rparr>)))"

text \<open>
  One pass of the loop, with \<^verbatim>\<open>proc_pool.lock\<close> held: the first matching zombie is reaped; else the process sleeps
  if a matching one lives.
\<close>

definition wait_pass :: "nat \<Rightarrow> nat \<Rightarrow> u32 \<Rightarrow> kernel \<Rightarrow> (waited \<times> kernel) res" where
  "wait_pass h me pid s =
     (let cur = p_pid (procs s ! me);
          found = filter (\<lambda>i. wait_match cur pid s (procs s ! i)) [0..<length (procs s)]
      in case find (\<lambda>i. p_state (procs s ! i) = ZOMBIE) found of
           Some i \<Rightarrow>
             rbind (reap i s) (\<lambda>s1. rbind (release h s1) (\<lambda>s2.
               Inr (Returned (if pid = WAIT_NONBLOCK_KEY then sint (p_pid (procs s ! i))
                              else sint (p_exit_status (procs s ! i))), s2)))
         | None \<Rightarrow>
             if pid = WAIT_NONBLOCK_KEY then rbind (release h s) (\<lambda>s1. Inr (Returned 0, s1))
             else if found = [] then rbind (release h s) (\<lambda>s1. Inr (Returned (-1), s1))
             else rbind (sleep h ChanProcPool s) (\<lambda>s1. Inr (Asleep, s1)))"

definition wait :: "nat \<Rightarrow> u32 \<Rightarrow> kernel \<Rightarrow> (waited \<times> kernel) res" where
  "wait h pid s =
     (case myproc h s of
        None \<Rightarrow> Inl (Undefined ''wait: no process'')
      | Some i \<Rightarrow>
          if pid = WAIT_NONBLOCK_KEY \<and> p_pid (procs s ! i) \<noteq> 1 then Inr (Returned (-1), s)
          else wait_pass h i pid (acquire h s))"

text \<open>\<^verbatim>\<open>wait\<close> after it was woken: the next pass, or nothing when the process was killed.\<close>

definition wait_resume :: "nat \<Rightarrow> u32 \<Rightarrow> kernel \<Rightarrow> (waited \<times> kernel) option res" where
  "wait_resume h pid s =
     rbind (sleep_resume h s) (\<lambda>(exited, s1).
       if exited then Inr None
       else case myproc h s1 of
         None \<Rightarrow> Inl (Undefined ''wait: no process'')
       | Some i \<Rightarrow> rbind (wait_pass h i pid s1) (\<lambda>r. Inr (Some r)))"

subsection \<open>What memory management leaves alone\<close>

text \<open>A relation that every step of a loop keeps is kept by the loop.\<close>

lemma rfold_rel:
  assumes "\<And>s. R s s" and "\<And>s t u. R s t \<Longrightarrow> R t u \<Longrightarrow> R s u" and "\<And>x s s'. f x s = Inr s' \<Longrightarrow> R s s'"
  shows "rfold f xs s = Inr s' \<Longrightarrow> R s s'"
proof (induction xs arbitrary: s)
  case (Cons x xs)
  then obtain t where "f x s = Inr t" "rfold f xs t = Inr s'" by (auto simp: rbind_def split: sum.splits)
  then show ?case using Cons.IH assms(2,3) by blast
qed (simp add: assms(1))

text \<open>The page allocator and the page tables change memory and the bitmap, and no other field of the kernel.\<close>

named_theorems kept \<open>the fields beyond memory that an operation leaves alone\<close>

lemma kalloc_more [kept]: "phys.more (snd (kalloc s)) = phys.more s"
  by (simp add: kalloc_def Let_def split: option.splits)

lemma kfree_more [kept]: "phys.more (kfree pa s) = phys.more s"
  by (simp add: kfree_def Let_def)

lemma walk_loop_more [kept]: "phys.more (snd (walk_loop l pt va alloc s)) = phys.more s"
proof (induction l arbitrary: pt s)
  case (Suc l)
  show ?case using Suc kalloc_more [of s] by (auto simp: Let_def add_table_def split: prod.splits)
qed simp

lemma map_page_more [kept]: "phys.more (snd (map_page pt perm a pa s)) = phys.more s"
  using walk_loop_more [of 2 pt a True s] by (auto simp: map_page_def walk_def split: prod.splits)

lemma mappages_loop_more: "phys.more (snd (mappages_loop pt a lastva pa perm s)) = phys.more s"
proof (induction pt a lastva pa perm s rule: mappages_loop.induct)
  case (1 pt a lastva pa perm s)
  obtain e s1 where m: "map_page pt perm a pa s = (e, s1)" by fastforce
  then have "phys.more s1 = phys.more s" using map_page_more [of pt perm a pa s] by simp
  then show ?case using 1 [OF m [symmetric]] m by (simp add: mappages_loop.simps [of pt a])
qed

lemma mappages_more [kept]: "phys.more (snd (mappages pt va pa sz perm s)) = phys.more s"
  by (simp add: mappages_def mappages_loop_more)

lemma unmap_page_more: "unmap_page pt df a s = Inr s' \<Longrightarrow> phys.more s' = phys.more s"
  using walk_loop_more [of 2 pt a False s]
  by (auto simp: unmap_page_def walk_def Let_def kfree_more split: prod.splits if_splits)

lemma unmap_loop_more: "unmap_loop n pt a df s = Inr s' \<Longrightarrow> phys.more s' = phys.more s"
proof (induction n arbitrary: a s)
  case (Suc n)
  then obtain t where "unmap_page pt df a s = Inr t" "unmap_loop n pt (a + PGSIZE) df t = Inr s'"
    by (auto simp: rbind_def split: sum.splits)
  then show ?case using Suc.IH unmap_page_more by metis
qed simp

lemma freewalk_more:
  fixes s :: "'a phys_scheme"
  shows "freewalk n pt s = Inr s' \<Longrightarrow> phys.more s' = phys.more s"
proof (induction n arbitrary: pt s s')
  case (Suc n)
  then obtain t where t: "rfold (freewalk_entry (freewalk n) pt) [0..<512] s = Inr t" "s' = kfree pt t"
    by (auto simp: rbind_def split: sum.splits)
  have "phys.more s2 = phys.more s1" if "freewalk_entry (freewalk n) pt k s1 = Inr s2" for k and s1 s2 :: "'a phys_scheme"
    using that by (auto simp: freewalk_entry_def Let_def rbind_def dest: Suc.IH split: if_splits sum.splits)
  then have "phys.more t = phys.more s"
    using t(1) by (rule rfold_rel [where R = "\<lambda>s s'. phys.more s' = phys.more s", rotated 2]) simp_all
  then show ?case by (simp add: t(2) kept)
qed simp

lemma uvmfree_more: "uvmfree pt sz s = Inr s' \<Longrightarrow> phys.more s' = phys.more s"
proof -
  assume "uvmfree pt sz s = Inr s'"
  then obtain t where t: "rfold (\<lambda>(va, n, df). uvmunmap pt va n df) (free_regions sz) s = Inr t" "freewalk 3 pt t = Inr s'"
    by (auto simp: uvmfree_def rbind_def simp del: freewalk.simps split: sum.splits)
  have "phys.more s2 = phys.more s1" if "(\<lambda>(va, n, df). uvmunmap pt va n df) r s1 = Inr s2" for r s1 s2
    using that unmap_loop_more by (fastforce simp: uvmunmap_def Let_def split: prod.splits if_splits)
  then have "phys.more t = phys.more s"
    using t(1) by (rule rfold_rel [where R = "\<lambda>s s'. phys.more s' = phys.more s", rotated 2]) simp_all
  then show ?thesis using freewalk_more [OF t(2)] by simp
qed

lemma moreD:
  assumes "phys.more s' = phys.more (s :: kernel)"
  shows "procs s' = procs s" "pid_alive s' = pid_alive s" "hart s' = hart s" "cpu_proc s' = cpu_proc s" "files s' = files s"
    "fs s' = fs s" "next_pid s' = next_pid s"
  using assms by (cases s; cases s'; simp)+

subsection \<open>What closing leaves alone\<close>

definition same_harts :: "kernel \<Rightarrow> kernel \<Rightarrow> bool" where
  "same_harts s s' \<longleftrightarrow> hart s' = hart s \<and> cpu_proc s' = cpu_proc s \<and> length (procs s') = length (procs s)"

lemma same_harts_refl [simp]: "same_harts s s"
  by (simp add: same_harts_def)

lemma same_harts_trans: "same_harts s t \<Longrightarrow> same_harts t u \<Longrightarrow> same_harts s u"
  by (simp add: same_harts_def)

lemma set_handle_harts: "same_harts s (set_handle i k v s)"
  by (simp add: same_harts_def set_handle_def upd_proc_def)

lemma file_close_procs: "file_close f s = Inr s' \<Longrightarrow> procs s' = procs s \<and> same_harts s s'"
  by (auto simp: file_close_def kmem_cache_free_def same_harts_def rbind_def Let_def
      split: if_splits option.splits sum.splits)

lemma CloseHandle_harts: "CloseHandle i h s = Inr s' \<Longrightarrow> same_harts s s'"
proof -
  assume c: "CloseHandle i h s = Inr s'"
  show ?thesis
  proof (cases "handle_of i h s = 0 \<or> handle_of i h s = - 1")
    case True
    then show ?thesis using c set_handle_harts by (auto simp: CloseHandle_def same_harts_def)
  next
    case False
    then obtain t where "file_close (handle_of i h s) s = Inr t" "s' = set_handle i (nat (sint h)) 0 t"
      using c by (auto simp: CloseHandle_def rbind_def split: sum.splits)
    then show ?thesis using file_close_procs set_handle_harts same_harts_trans by blast
  qed
qed

lemma exit_handles_harts:
  "rfold (\<lambda>k s. if p_handles (procs s ! i) ! k \<noteq> 0 then CloseHandle i (of_nat k) s else Inr s) xs s = Inr s' \<Longrightarrow> same_harts s s'"
  by (erule rfold_rel [where R = same_harts, rotated -1])
    (auto dest: CloseHandle_harts intro: same_harts_trans split: if_splits)

lemma exit_tail_locks: "nlock (hart s h) \<noteq> 0 \<Longrightarrow> exit_tail h i status s = Inl (Panic ''sched locks'')"
  by (simp add: exit_tail_def Let_def sched_def mycpu_def wakeup_def upd_proc_def acquire_def push_off_def)

lemma sint_handle: "k < 64 \<Longrightarrow> sint (of_nat k :: u32) = int k"
  by (simp add: signed_of_nat signed_take_bit_int_eq_self)

lemma close_std:
  assumes "i < length (procs s)" "length (p_handles (procs s ! i)) = MAX_HANDLES" "set (p_handles (procs s ! i)) \<subseteq> {0, - 1}"
    "\<forall>k \<in> set xs. k < MAX_HANDLES"
  shows "\<exists>s'. rfold (\<lambda>k s. if p_handles (procs s ! i) ! k \<noteq> 0 then CloseHandle i (of_nat k) s else Inr s) xs s = Inr s'"
  using assms
proof (induction xs arbitrary: s)
  case (Cons k xs)
  have k: "k < 64" using Cons.prems by (simp add: rv_const)
  then have "sint (of_nat k :: u32) = int k" by (intro sint_handle)
  then have h: "handle_of i (of_nat k) s = p_handles (procs s ! i) ! k" using k by (simp add: handle_of_def rv_const)
  have m: "p_handles (procs s ! i) ! k \<in> {0, - 1}" using Cons.prems(2,3) k by (metis nth_mem rv_const(1) subsetD MAX_HANDLES_def)
  show ?case
  proof (cases "p_handles (procs s ! i) ! k = 0")
    case True
    then show ?thesis using Cons by (simp add: rbind_def)
  next
    case False
    then have "CloseHandle i (of_nat k) s = Inr (set_handle i (nat (sint (of_nat k :: u32))) 0 s)"
      using m by (simp add: CloseHandle_def h)
    moreover have "\<exists>s'. rfold (\<lambda>k s. if p_handles (procs s ! i) ! k \<noteq> 0 then CloseHandle i (of_nat k) s else Inr s) xs
        (set_handle i (nat (sint (of_nat k :: u32))) 0 s) = Inr s'"
      using Cons.prems set_update_subset_insert [of "p_handles (procs s ! i)"]
      by (intro Cons.IH) (auto simp: set_handle_def upd_proc_def)
    ultimately show ?thesis using False by (simp add: rbind_def)
  qed
qed simp

subsection \<open>Reaping\<close>

lemma close_files_none:
  assumes "i < length (procs s)" "length (p_handles (procs s ! i)) = MAX_HANDLES" "set (p_handles (procs s ! i)) \<subseteq> {0}"
  shows "close_files i s = Inr s"
proof -
  have h: "p_handles (procs s ! i) ! k = 0" if "k < MAX_HANDLES" for k
    using assms(2,3) that by (metis nth_mem singletonD subsetD)
  then have "(p_handles (procs s ! i))[k := 0] = p_handles (procs s ! i)" if "k < MAX_HANDLES" for k
    using that by (metis list_update_id)
  then have u: "set_handle i k 0 s = s" if "k < MAX_HANDLES" for k
    using that by (simp add: set_handle_def upd_proc_def)
  have "rfold (\<lambda>k s. let f = p_handles (procs s ! i) ! k
      in rbind (if f \<noteq> 0 \<and> f \<noteq> - 1 then file_close f s else Inr s) (\<lambda>s1. Inr (set_handle i k 0 s1))) ks s = Inr s"
    if "\<forall>k \<in> set ks. k < MAX_HANDLES" for ks
    using that by (induction ks) (simp_all add: h u rbind_def)
  then show ?thesis by (simp add: close_files_def)
qed

lemma space_ok_hart [simp]:
  "space_ok (s\<lparr>hart := x\<rparr>) root sz = space_ok s root sz" "free_pages (s\<lparr>hart := x\<rparr>) = free_pages s"
  "pool_pages (s\<lparr>hart := x\<rparr>) = pool_pages s"
  by (simp_all add: space_ok_def pt_wf_def phys_wf_def pool_pages_def free_pages_def live_pages_def page_addr_def)

lemma find_filter_first:
  assumes "i < n" "P i" "Q i" "\<And>j. j < i \<Longrightarrow> \<not> P j"
  shows "find Q (filter P [0..<n]) = Some i"
proof -
  have f: "find Q (filter P xs) = find (\<lambda>x. P x \<and> Q x) xs" for xs by (induction xs) auto
  show ?thesis unfolding f using assms by (auto simp: find_Some_iff)
qed

text \<open>The frames and tables of an address space, and its page of saved registers.\<close>

definition space_pages :: "kernel \<Rightarrow> pcb \<Rightarrow> u64 set" where
  "space_pages s p = tables (mem s) (p_pagetable p) \<union>
     {PTE2PA (leaf (mem s) (p_pagetable p) v) | v. v \<in> user_paths (p_sz p) \<and> vld (leaf (mem s) (p_pagetable p) v)}"

definition space_closed :: "kernel \<Rightarrow> pcb \<Rightarrow> bool" where
  "space_closed s p \<longleftrightarrow> p_pagetable p \<noteq> 0 \<and> space_ok s (p_pagetable p) (p_sz p) \<and> p_context p \<in> pool_pages s \<and> p_context p \<noteq> 0 \<and>
     (\<forall>v \<in> vpaths. vld (leaf (mem s) (p_pagetable p) v) \<longrightarrow> v \<in> user_paths (p_sz p) \<union> kernel_paths)"

lemma reap_frees:
  assumes "i < length (procs s)" and "space_closed s (procs s ! i)" and "length (p_handles (procs s ! i)) = MAX_HANDLES"
    and "set (p_handles (procs s ! i)) \<subseteq> {0}"
  obtains s' where "reap i s = Inr s'" "procs s' = (procs s)[i := reap_pcb (procs s ! i)]"
    "pid_alive s' = (pid_alive s)(p_pid (procs s ! i) := False)" "hart s' = hart s"
    "free_pages s' = free_pages s \<union> space_pages s (procs s ! i) \<union> {p_context (procs s ! i)}"
proof -
  let ?p = "procs s ! i"
  obtain s1 where s1: "uvmfree (p_pagetable ?p) (p_sz ?p) s = Inr s1" "phys_wf s1" "pool_pages s1 = pool_pages s"
      "free_pages s1 = free_pages s \<union> space_pages s ?p"
    using assms(2) uvmfree_frees [of s "p_pagetable ?p" "p_sz ?p"] by (auto simp: space_closed_def space_pages_def Un_assoc)
  note m1 = moreD [OF uvmfree_more [OF s1(1)]]
  let ?s2 = "kfree (p_context ?p) s1"
  have s2: "free_pages ?s2 = insert (p_context ?p) (free_pages s1)"
    using kfree_pool(2) [OF s1(2)] assms(2) s1(3) by (simp add: space_closed_def)
  note m2 = moreD [OF kfree_more [of "p_context ?p" s1]]
  let ?f = "\<lambda>p :: pcb. p\<lparr>p_context := 0, p_pagetable := 0\<rparr>"
  have "close_files i (upd_proc i ?f ?s2) = Inr (upd_proc i ?f ?s2)"
    using assms by (intro close_files_none) (simp_all add: upd_proc_def m1 m2)
  then have "reap i s = Inr ((upd_proc i reap_pcb (upd_proc i ?f ?s2))\<lparr>pid_alive := (pid_alive s)(p_pid ?p := False)\<rparr>)"
    using assms(2) s1(1) by (simp add: reap_def free_space_def space_closed_def Let_def rbind_def upd_proc_def m1 m2)
  then show ?thesis
    using that assms(1) s1(4) s2 by (auto simp: upd_proc_def m1 m2 reap_pcb_def free_pages_def page_addr_def)
qed

subsection \<open>Properties\<close>

text \<open>
  C31. A process woken from \<^verbatim>\<open>sleep\<close> goes on with the lock it slept on, its channel cleared, if nobody killed it.
  A killed one never leaves: it calls \<^verbatim>\<open>exit\<close> with that lock held, so the kernel stops, with \<^verbatim>\<open>sched locks\<close> when
  the process has no file open.
\<close>

theorem sleep_resume_correct:
  assumes "myproc h s = Some i" and "i < length (procs s)" and "nlock (hart s h) = 1" and "\<not> sie (hart s h)"
    and "length (p_handles (procs s ! i)) = MAX_HANDLES"
  shows "if p_killed (procs s ! i) then
      (\<exists>e. sleep_resume h s = Inl e \<and> (set (p_handles (procs s ! i)) \<subseteq> {0, - 1} \<longrightarrow> e = Panic ''sched locks''))
    else \<exists>s'. sleep_resume h s = Inr (False, s') \<and> nlock (hart s' h) = 1 \<and> \<not> sie (hart s' h) \<and>
      p_chan (procs s' ! i) = NoChan"
proof -
  let ?s = "upd_proc i (p_chan_update (\<lambda>_. NoChan)) s"
  let ?cl = "rfold (\<lambda>k s. if p_handles (procs s ! i) ! k \<noteq> 0 then CloseHandle i (of_nat k) s else Inr s) [0..<MAX_HANDLES]"
  obtain s1 where r: "release h ?s = Inr s1" "procs s1 = procs ?s" "cpu_proc s1 = cpu_proc s" "nlock (hart s1 h) = 0"
    using assms(3,4) by (auto simp: release_def pop_off_def rbind_def upd_proc_def Let_def)
  let ?t = "acquire h s1"
  have t: "procs ?t = procs ?s" "myproc h ?t = Some i" "nlock (hart ?t h) = 1" "\<not> sie (hart ?t h)"
    using r assms(1) by (simp_all add: acquire_def push_off_def Let_def myproc_def)
  have p: "procs ?t ! i = (procs s ! i)\<lparr>p_chan := NoChan\<rparr>" "i < length (procs ?t)"
    using assms(2) by (simp_all add: t(1) upd_proc_def)
  show ?thesis
  proof (cases "p_killed (procs s ! i)")
    case False
    then show ?thesis using assms(1) r(1) t p by (simp add: sleep_resume_def rbind_def Let_def)
  next
    case True
    have e: "sleep_resume h s = rbind (rbind (?cl ?t) (exit_tail h i (- 1))) (\<lambda>s3. Inr (True, s3))"
      using True assms(1) r(1) t(2) p by (simp add: sleep_resume_def exit_def rbind_def Let_def)
    have x: "exit_tail h i (- 1) u = Inl (Panic ''sched locks'')" if "?cl ?t = Inr u" for u
      using exit_handles_harts [OF that] t(3) by (intro exit_tail_locks) (simp add: same_harts_def)
    have "set (p_handles (procs s ! i)) \<subseteq> {0, - 1} \<Longrightarrow> \<exists>u. ?cl ?t = Inr u"
      using p assms(5) by (intro close_std) auto
    then show ?thesis using True e x by (cases "?cl ?t") (auto simp: rbind_def)
  qed
qed

definition demo_child :: pcb where
  "demo_child = zero_pcb\<lparr>p_state := ZOMBIE, p_pid := 2, p_owner_pid := 1, p_exit_status := 7, p_pagetable := 0x87FF9000,
     p_sz := USERBASE + 4096, p_context := 0x87FFE000\<rparr>"

text \<open>Process 1 runs on hart 0 with the lock of its slot held; process 2 is its ended child with one page of memory.\<close>

definition demo_family :: "bool \<Rightarrow> int \<Rightarrow> kernel" where
  "demo_family killed n = (demo_kernel demo_disk)
     \<lparr>mem := mem demo_space, km_start := km_start demo_space, km_npage := km_npage demo_space,
      km_bitmap := km_bitmap demo_space,
      procs := [zero_pcb\<lparr>p_state := RUNNING, p_pid := 1, p_killed := killed\<rparr>, demo_child],
      cpu_proc := (\<lambda>h. if h = 0 then Some 0 else None),
      hart := (\<lambda>_. \<lparr>nlock = n, intena = True, sie = False\<rparr>)\<rparr>"

theorem sleep_resume_correct_witness: "sleep_resume 0 (demo_family True 1) = Inl (Panic ''sched locks'')"
proof -
  have p: "procs (demo_family True 1) ! 0 = zero_pcb\<lparr>p_state := RUNNING, p_pid := 1, p_killed := True\<rparr>"
    by (simp add: demo_family_def)
  have "p_handles (procs (demo_family True 1) ! 0) = replicate MAX_HANDLES 0" by (simp add: p zero_pcb_def)
  then have "set (p_handles (procs (demo_family True 1) ! 0)) \<subseteq> {0, - 1}" by auto
  then show ?thesis
    using sleep_resume_correct [of 0 "demo_family True 1" 0]
    by (simp add: p) (simp add: demo_family_def myproc_def zero_pcb_def)
qed

text \<open>
  C19. Waiting for a child that has ended returns its exit status and gives back everything it owned: its slot is
  unused, its pid free, and the frames, the tables and the page of saved registers of its address space are
  free pages again; no other process changes.
\<close>

theorem wait_reaps_child:
  assumes "myproc h s = Some me" and "0 \<le> nlock (hart s h)" and "i < length (procs s)"
    and "p_state (procs s ! i) = ZOMBIE" and "p_pid (procs s ! i) = pid" and "pid \<noteq> 0"
    and "p_owner_pid (procs s ! i) = p_pid (procs s ! me)" and "pid \<noteq> p_pid (procs s ! me)" and "pid \<noteq> WAIT_NONBLOCK_KEY"
    and "\<forall>j < i. p_pid (procs s ! j) \<noteq> pid" and "space_closed s (procs s ! i)"
    and "p_handles (procs s ! i) = replicate MAX_HANDLES 0"
  shows "\<exists>s'. wait h pid s = Inr (Returned (sint (p_exit_status (procs s ! i))), s') \<and>
    procs s' = (procs s)[i := reap_pcb (procs s ! i)] \<and> pid_alive s' = (pid_alive s)(pid := False) \<and>
    free_pages s' = free_pages s \<union> space_pages s (procs s ! i) \<union> {p_context (procs s ! i)}"
proof -
  let ?s = "acquire h s" and ?cur = "p_pid (procs s ! me)"
  have a: "procs ?s = procs s" "pid_alive ?s = pid_alive s" "mem ?s = mem s" "free_pages ?s = free_pages s"
    "space_closed ?s p = space_closed s p" for p
    by (simp_all add: acquire_def space_closed_def)
  have "find (\<lambda>j. p_state (procs ?s ! j) = ZOMBIE)
      (filter (\<lambda>j. wait_match ?cur pid ?s (procs ?s ! j)) [0..<length (procs ?s)]) = Some i"
    using assms(3-10) by (intro find_filter_first) (auto simp: a wait_match_def)
  moreover obtain s1 where s1: "reap i ?s = Inr s1" "procs s1 = (procs s)[i := reap_pcb (procs s ! i)]"
      "pid_alive s1 = (pid_alive s)(pid := False)" "hart s1 = hart ?s"
      "free_pages s1 = free_pages s \<union> space_pages s (procs s ! i) \<union> {p_context (procs s ! i)}"
    by (rule reap_frees [of i ?s]) (use assms(3,5,11,12) in \<open>auto simp: a space_pages_def\<close>)
  moreover have "\<exists>s2. release h s1 = Inr s2 \<and> procs s2 = procs s1 \<and> pid_alive s2 = pid_alive s1 \<and> free_pages s2 = free_pages s1"
    using assms(2) s1(4) by (auto simp: release_def acquire_def pop_off_def push_off_def Let_def rbind_def)
  ultimately show ?thesis using assms(1,9) by (auto simp: wait_def wait_pass_def Let_def rbind_def a)
qed

lemma space_ok_phys:
  assumes "mem s' = mem s" "km_start s' = km_start s" "km_npage s' = km_npage s" "km_bitmap s' = km_bitmap s"
  shows "space_ok s' root sz = space_ok s root sz" "pool_pages s' = pool_pages s"
  using assms
  by (simp_all add: space_ok_def pt_wf_def phys_wf_def pool_pages_def free_pages_def live_pages_def page_addr_def)

theorem wait_reaps_child_witness:
  "\<exists>s'. wait 0 2 (demo_family False 0) = Inr (Returned 7, s') \<and> p_state (procs s' ! 1) = UNUSED \<and>
     0x87FF9000 \<in> free_pages s' \<and> 0x87FFE000 \<in> free_pages s'"
proof -
  let ?s = "demo_family False 0"
  have f: "mem ?s = mem demo_space" "km_start ?s = km_start demo_space" "km_npage ?s = km_npage demo_space"
    "km_bitmap ?s = km_bitmap demo_space" by (simp_all add: demo_family_def)
  have "page_addr demo_phys 6 = 0x87FFE000" by (simp add: page_addr_def demo_phys_def rv_const)
  moreover have "page_addr demo_phys 6 \<in> pool_pages demo_phys" unfolding pool_pages_def by (simp add: demo_phys_def)
  ultimately have c: "0x87FFE000 \<in> pool_pages ?s" using demo_space_leaf(1) by (simp add: space_ok_phys(2) [OF f] pt_ext_def)
  have p: "procs ?s ! 1 = demo_child" "length (procs ?s) = 2" "procs ?s ! 0 = zero_pcb\<lparr>p_state := RUNNING, p_pid := 1, p_killed := False\<rparr>"
    by (simp_all add: demo_family_def)
  have d: "p_pagetable demo_child = 0x87FF9000" "p_sz demo_child = USERBASE + 4096" "p_context demo_child = 0x87FFE000"
    by (simp_all add: demo_child_def)
  have sc: "space_closed ?s demo_child"
    using demo_space_leaf(2) demo_user_path(1) demo_space_ok [of "USERBASE + 4096"] c
    by (auto simp: space_closed_def d f space_ok_phys [OF f])
  have "0x87FF9000 \<in> tables (mem demo_space) 0x87FF9000"
    unfolding tables_def by (intro CollectI exI [of _ "[]"]) simp
  then have "0x87FF9000 \<in> space_pages ?s demo_child" by (simp add: space_pages_def d f)
  moreover have "\<exists>s'. wait 0 2 ?s = Inr (Returned (sint (p_exit_status (procs ?s ! 1))), s') \<and>
      procs s' = (procs ?s)[1 := reap_pcb (procs ?s ! 1)] \<and> pid_alive s' = (pid_alive ?s)(2 := False) \<and>
      free_pages s' = free_pages ?s \<union> space_pages ?s (procs ?s ! 1) \<union> {p_context (procs ?s ! 1)}"
    using sc by (intro wait_reaps_child [where me = 0])
      (simp_all add: p d rv_const, simp_all add: demo_family_def myproc_def demo_child_def zero_pcb_def rv_const)
  ultimately show ?thesis using p d by (auto simp: demo_child_def zero_pcb_def reap_pcb_def)
qed

end
