(* ===== verification/RV_Spawn.thy ===== *)
theory RV_Spawn
  imports RV_Proc
begin

text \<open>
  What \<^verbatim>\<open>spawn\<close> of \<^verbatim>\<open>kernelspace/core/process.c\<close> promises: the process a successful \<^verbatim>\<open>spawn\<close> leaves behind.
  The file system the loader reads from may hold any bytes and the disk may fail at any request, so the
  lemmas first show that no operation of the file system touches the process table beyond the
  handles of the caller.
\<close>

unbundle bit_operations_syntax

subsection \<open>The file system and the process table\<close>

definition table :: "kernel \<Rightarrow> (pcb list \<times> (u32 \<Rightarrow> bool) \<times> u32 \<times> (nat \<Rightarrow> nat option) \<times> (nat \<Rightarrow> cpu))" where
  "table s = (procs s, pid_alive s, next_pid s, cpu_proc s, hart s)"

lemma table_upd [simp]:
  "table (s\<lparr>mem := m\<rparr>) = table s" "table (s\<lparr>vq := q\<rparr>) = table s" "table (s\<lparr>requests := r\<rparr>) = table s"
  "table (s\<lparr>fs := f\<rparr>) = table s" "table (s\<lparr>disk := d\<rparr>) = table s" "table (s\<lparr>files := g\<rparr>) = table s"
  "table (s\<lparr>file_cache := c\<rparr>) = table s"
  by (simp_all add: table_def)

lemma table_more:
  assumes "phys.more s' = phys.more s"
  shows "table s' = table s"
  using moreD [OF assms] by (simp add: table_def)

named_theorems tbl \<open>operations that leave the process table alone\<close>

lemma disk_tbl [tbl]:
  "disk_read x b s = (ok, c, s') \<Longrightarrow> table s' = table s" "disk_write x b s = (ok, s') \<Longrightarrow> table s' = table s"
  "read_cache x s = (ok, s') \<Longrightarrow> table s' = table s"
  by (auto simp: disk_read_def disk_write_def read_cache_def submit_def vreg_def Let_def split: if_splits)

lemma cache_tbl [simp]: "table (write_cache x s) = table s" "table (upd_cache f s) = table s"
  by (auto simp: write_cache_def upd_cache_def disk_write_def submit_def vreg_def Let_def)

lemma next_tbl [tbl]:
  "get_next_cluster c s = (n, s') \<Longrightarrow> table s' = table s" "set_next_cluster c n s = (ok, s') \<Longrightarrow> table s' = table s"
  by (auto simp: get_next_cluster_def set_next_cluster_def dest!: tbl split: prod.splits if_splits)

lemma clear_sectors_tbl [simp]: "table (clear_sectors n x s) = table s"
proof (induction n arbitrary: x s)
  case (Suc n)
  then show ?case by (cases "disk_write x (replicate 512 0) s") (auto dest: tbl)
qed simp

lemma alloc_scan_tbl: "alloc_scan n sec s = (c, s') \<Longrightarrow> table s' = table s"
proof (induction n arbitrary: sec s)
  case (Suc n)
  then show ?case
    by (auto simp: Let_def simp del: free_entry.simps dest!: tbl split: prod.splits if_splits option.splits)
qed simp

lemma alloc_cluster_tbl [tbl]: "alloc_cluster s = (c, s') \<Longrightarrow> table s' = table s"
  by (simp add: alloc_cluster_def alloc_scan_tbl)

lemma clear_chain_tbl: "clear_chain n c s = Inr s' \<Longrightarrow> table s' = table s"
proof (induction n arbitrary: c s)
  case (Suc n)
  then show ?case by (auto simp: Let_def dest!: tbl split: prod.splits if_splits)
qed (simp split: if_splits)

lemma clear_cluster_chain_tbl [tbl]: "clear_cluster_chain c s = Inr s' \<Longrightarrow> table s' = table s"
  by (simp add: clear_cluster_chain_def clear_chain_tbl)

lemma scan_sectors_tbl [tbl]: "scan_sectors n x f s = (r, s') \<Longrightarrow> table s' = table s"
proof (induction n arbitrary: x s)
  case (Suc n)
  then show ?case by (auto dest!: tbl split: prod.splits if_splits option.splits)
qed simp

lemma scan_dir_tbl [tbl]: "scan_dir n c l f s = Inr (r, l', s') \<Longrightarrow> table s' = table s"
proof (induction n arbitrary: c l s)
  case (Suc n)
  then show ?case by (auto dest!: tbl split: prod.splits if_splits option.splits)
qed (simp split: if_splits)

lemma find_tbl [tbl]:
  "find_dir_entry d nm s = Inr (r, s') \<Longrightarrow> table s' = table s" "find_free_dir_entry d s = Inr (r', s') \<Longrightarrow> table s' = table s"
  by (auto simp: find_dir_entry_def find_free_dir_entry_def rbind_def Let_def dest!: tbl split: sum.splits option.splits prod.splits if_splits)

lemma path_walk_tbl [tbl]: "path_walk p d s = Inr (c, s') \<Longrightarrow> table s' = table s"
proof (induction "length p" arbitrary: p d s rule: less_induct)
  case less
  let ?q = "tl (dropWhile (\<lambda>c. c \<noteq> CHR ''/'') p)"
  have IH: "table s' = table t" if "path_walk ?q e t = Inr (c, s')" "p \<noteq> []" for e t
    using that length_dropWhile_le [of "\<lambda>c. c \<noteq> CHR ''/''" p] by (intro less.hyps) (auto simp: neq_Nil_conv)
  from less.prems show ?case
    by (subst (asm) path_walk.simps) (auto simp: Let_def rbind_def dest!: tbl split: if_splits sum.splits option.splits, metis IH, metis IH)
qed

lemma dir_tbl [tbl]:
  "get_path_cluster me p s = Inr (c, s') \<Longrightarrow> table s' = table s" "dir_of me p s = Inr (c, s') \<Longrightarrow> table s' = table s"
proof -
  show g: "table s' = table s" if "get_path_cluster me p s = Inr (c, s')" for p
    using that by (auto simp: get_path_cluster_def dest: tbl split: if_splits list.splits char.splits bool.splits)
  show "dir_of me p s = Inr (c, s') \<Longrightarrow> table s' = table s"
    by (auto simp: dir_of_def dest: g split: option.splits)
qed

lemma skip_tbl [tbl]: "skip_clusters n c s = (r, s') \<Longrightarrow> table s' = table s"
proof (induction n arbitrary: c s)
  case (Suc n)
  then show ?case by (auto dest!: tbl split: prod.splits if_splits)
qed simp

lemma read_sectors_tbl [tbl]: "read_sectors n x skip want s = (bs, ok, s') \<Longrightarrow> table s' = table s"
proof (induction n arbitrary: x skip want s bs)
  case (Suc n)
  then show ?case by (auto simp: Let_def dest!: tbl split: prod.splits if_splits)
qed simp

lemma read_chain_tbl [tbl]: "read_chain n c off want s = Inr (bs, s') \<Longrightarrow> table s' = table s"
proof (induction n arbitrary: c off want s bs)
  case (Suc n)
  then show ?case by (auto simp: rbind_def dest!: tbl split: prod.splits if_splits sum.splits)
qed (simp split: if_splits)

lemma fs_read_tbl [tbl]: "fs_read_file_offset me path off len s = Inr (n, bs, s') \<Longrightarrow> table s' = table s"
  by (auto simp: fs_read_file_offset_def rbind_def Let_def dest!: tbl split: sum.splits option.splits prod.splits if_splits)

lemma truncate_tbl [tbl]: "truncate x i c s = Inr (d, s') \<Longrightarrow> table s' = table s"
  by (auto simp: truncate_def rbind_def Let_def dest!: tbl split: sum.splits prod.splits if_splits)

subsection \<open>Memory management and the process table\<close>

lemma kalloc_tbl [tbl]: "kalloc s = (p, s') \<Longrightarrow> table s' = table s"
  using kalloc_more [of s] by (intro table_more) simp

lemma kfree_tbl [simp]: "table (kfree p s) = table s"
  by (intro table_more kfree_more)

lemma mappages_tbl [tbl]: "mappages pt va pa sz perm s = (r, s') \<Longrightarrow> table s' = table s"
  using mappages_more [of pt va pa sz perm s] by (intro table_more) simp

lemma uvmcreate_tbl [tbl]: "uvmcreate ctx s = (pt, s') \<Longrightarrow> table s' = table s"
proof -
  have "phys.more (map_regions pt rs s) = phys.more s" for pt rs and s :: kernel
    by (induction rs arbitrary: s) (auto simp: kept)
  then have "phys.more (uvmmap_kernel pt s) = phys.more s" for pt and s :: kernel
    by (simp only: uvmmap_kernel_def)
  then show "uvmcreate ctx s = (pt, s') \<Longrightarrow> table s' = table s"
    using kalloc_more [of s] by (intro table_more) (auto simp: uvmcreate_def Let_def mappages_more split: prod.splits if_splits)
qed

lemma kmem_cache_alloc_tbl [tbl]: "kmem_cache_alloc c s = Inr (f, c', s') \<Longrightarrow> table s' = table s"
  by (auto simp: kmem_cache_alloc_def take_block_def Let_def dest!: tbl split: prod.splits if_splits)

lemma load_page_tbl [tbl]: "load_page me path ph pt j s = Inr (ok, s') \<Longrightarrow> table s' = table s"
  by (auto simp: load_page_def rbind_def Let_def dest!: tbl split: prod.splits if_splits sum.splits)

lemma load_pages_tbl [tbl]: "load_pages n me path ph pt j s = Inr (ok, s') \<Longrightarrow> table s' = table s"
proof (induction n arbitrary: j s)
  case (Suc n)
  then show ?case by (auto simp: rbind_def dest!: tbl split: prod.splits if_splits sum.splits)
qed simp

lemma load_segments_tbl [tbl]: "load_segments n me path pt off sz s = Inr (r, s') \<Longrightarrow> table s' = table s"
proof (induction n arbitrary: off sz s)
  case (Suc n)
  then show ?case by (auto simp: rbind_def dest!: tbl split: prod.splits if_splits sum.splits)
qed simp

lemma load_image_tbl [tbl]: "load_image me path pt s = Inr (r, s') \<Longrightarrow> table s' = table s"
  by (auto simp: load_image_def rbind_def dest!: tbl split: prod.splits if_splits sum.splits)

subsection \<open>Slots without their handles\<close>

definition bare :: "kernel \<Rightarrow> pcb list \<times> (u32 \<Rightarrow> bool) \<times> (nat \<Rightarrow> nat option)" where
  "bare s = (map (p_handles_update (\<lambda>_. [])) (procs s), pid_alive s, cpu_proc s)"

lemma table_bare: "table s' = table s \<Longrightarrow> bare s' = bare s"
  by (simp add: table_def bare_def)

lemma bare_upd [simp]: "bare (s\<lparr>files := g\<rparr>) = bare s" "bare (s\<lparr>mem := m\<rparr>) = bare s"
  by (simp_all add: bare_def)

lemma cache_bare [simp]: "bare (write_cache x s) = bare s" "bare (upd_cache f s) = bare s"
  by (intro table_bare; simp)+

lemma set_handle_bare [simp]: "bare (set_handle i k f s) = bare s"
proof -
  have "map (p_handles_update (\<lambda>_. [])) (ps[i := (ps ! i)\<lparr>p_handles := hs\<rparr>]) = map (p_handles_update (\<lambda>_. [])) ps" for hs and ps :: "pcb list"
    by (cases "i < length ps") (simp_all add: map_update list_update_same_conv list_update_beyond)
  then show ?thesis by (simp add: bare_def set_handle_def upd_proc_def)
qed

lemma file_bare:
  "file_alloc s = Inr (f, s') \<Longrightarrow> bare s' = bare s" "file_close f s = Inr s' \<Longrightarrow> bare s' = bare s"
  by (auto simp: file_alloc_def file_close_def kmem_cache_free_def rbind_def Let_def intro!: table_bare dest!: tbl
      split: sum.splits prod.splits if_splits option.splits)

lemma open_file_bare: "open_file me nm c sz s = Inr (k, s') \<Longrightarrow> bare s' = bare s"
  by (auto simp: open_file_def rbind_def Let_def dest!: file_bare split: sum.splits prod.splits if_splits option.splits)

lemma CreateHandler_bare: "CreateHandler me path mode s = Inr (k, s') \<Longrightarrow> bare s' = bare s"
  by (auto simp: CreateHandler_def rbind_def Let_def dest!: tbl table_bare open_file_bare
      split: sum.splits prod.splits if_splits option.splits)

lemma redirect_bare: "redirect me i f s = Inr s' \<Longrightarrow> bare s' = bare s"
  by (auto simp: redirect_def rbind_def dest!: CreateHandler_bare split: sum.splits prod.splits if_splits option.splits)

subsection \<open>The new process\<close>

lemma allocpid_unused: "allocpid s = Inr (pid, s') \<Longrightarrow> \<not> pid_alive s pid \<and> pid < 65535 \<and>
    s' = s\<lparr>next_pid := pid, pid_alive := (pid_alive s)(pid := True)\<rparr>"
proof -
  have "\<not> alive n \<and> n < 65535" if "allocpid_scan alive st np = Inr n" for alive st np n
    using that
  proof (induction alive st np rule: allocpid_scan.induct)
    case (1 alive st np)
    let ?n = "if MAXPID < np + 1 then 2 else np + 1"
    have "?n < 65535" if "?n \<noteq> MAXPID" using that by (auto simp: rv_const order_less_le not_less)
    then show ?case using 1 by (subst (asm) (2) allocpid_scan.simps) (auto simp: Let_def split: if_splits)
  qed
  then show "allocpid s = Inr (pid, s') \<Longrightarrow> ?thesis" by (auto simp: allocpid_def rbind_def split: sum.splits)
qed

definition fresh_slot :: "u64 \<Rightarrow> u32 \<Rightarrow> u32 \<Rightarrow> u64 \<Rightarrow> u64 \<Rightarrow> pcb \<Rightarrow> pcb" where
  "fresh_slot forkret pid root ctx pt p = (init_pcb pid p)\<lparr>p_context := ctx, p_pagetable := pt,
     p_sched_ctx := first_context forkret (p_kstack p + PGSIZE), p_cwd_cluster := root, p_cwd_path := ''/'', p_caps := 0\<rparr>"

lemma allocproc_slot:
  assumes "allocproc forkret s = Inr (Some i, s')"
  obtains pid ctx pt root where "unused_slot (procs s) = Some i" "\<not> pid_alive s pid" "pid < 65535" "cpu_proc s' = cpu_proc s"
    "procs s' = (procs s)[i := fresh_slot forkret pid root ctx pt (procs s ! i)]" "pid_alive s' = (pid_alive s)(pid := True)"
    "\<exists>t. allocpid s = Inr (pid, t)"
proof -
  have i: "unused_slot (procs s) = Some i" using assms by (auto simp: allocproc_def rbind_def Let_def split: option.splits sum.splits prod.splits if_splits)
  then have l: "i < length (procs s)" by (auto simp: unused_slot_def find_Some_iff)
  obtain pid s1 where p: "allocpid s = Inr (pid, s1)" using assms i by (auto simp: allocproc_def rbind_def split: sum.splits)
  note q = allocpid_unused [OF p]
  obtain ctx s2 where k: "kalloc (upd_proc i (init_pcb pid) s1) = (ctx, s2)" by fastforce
  let ?s3 = "upd_proc i (p_context_update (\<lambda>_. ctx)) s2"
  obtain pt s4 where u: "uvmcreate ctx (?s3\<lparr>mem := fill_page (mem ?s3) ctx 0\<rparr>) = (pt, s4)" by fastforce
  have t2: "table s2 = table (upd_proc i (init_pcb pid) s1)" "table s4 = table ?s3" using k u by (auto dest!: tbl)
  have f4: "procs s4 = (procs s)[i := (init_pcb pid (procs s ! i))\<lparr>p_context := ctx\<rparr>]" "cpu_proc s4 = cpu_proc s"
    "pid_alive s4 = (pid_alive s)(pid := True)"
    using t2 q l by (simp_all add: table_def upd_proc_def)
  have "ctx \<noteq> 0 \<and> pt \<noteq> 0" using assms i p k u by (auto simp: allocproc_def rbind_def Let_def split: if_splits)
  then have s': "procs s' = (procs s)[i := fresh_slot forkret pid (fs_get_root_cluster s4) ctx pt (procs s ! i)] \<and> cpu_proc s' = cpu_proc s \<and>
      pid_alive s' = (pid_alive s)(pid := True)"
    using assms i p k u l f4
    by (auto simp: allocproc_def rbind_def Let_def upd_proc_def fresh_slot_def fs_get_root_cluster_def init_pcb_def)
  then show ?thesis using that [of pid] i p q by blast
qed

lemma spawn_bad_neg: "spawn_bad i s = Inr (r, s') \<Longrightarrow> r = - 1"
  by (auto simp: spawn_bad_def rbind_def split: sum.splits)

definition started :: "u64 \<Rightarrow> string \<Rightarrow> pcb \<Rightarrow> pcb" where
  "started sz path p = p\<lparr>p_sz := PGROUNDUP sz, p_name := take 15 (base_name path), p_state := RUNNABLE\<rparr>"

lemma state_handles: "p\<lparr>p_state := st, p_handles := hs\<rparr> = p\<lparr>p_handles := hs, p_state := st\<rparr>"
  by (cases p) simp

lemma bare_upd_proc:
  assumes "bare s' = bare s"
  shows "map (p_handles_update (\<lambda>_. [])) (procs (upd_proc i (p_state_update (\<lambda>_. st)) s')) =
    map (p_handles_update (\<lambda>_. [])) ((procs s)[i := (procs s ! i)\<lparr>p_state := st\<rparr>])"
proof (rule nth_equalityI)
  have m: "map (p_handles_update (\<lambda>_. [])) (procs s') = map (p_handles_update (\<lambda>_. [])) (procs s)"
    using assms by (simp add: bare_def)
  then have l: "length (procs s') = length (procs s)" by (rule map_eq_imp_length_eq)
  then show "length (map (p_handles_update (\<lambda>_. [])) (procs (upd_proc i (p_state_update (\<lambda>_. st)) s'))) =
      length (map (p_handles_update (\<lambda>_. [])) ((procs s)[i := (procs s ! i)\<lparr>p_state := st\<rparr>]))"
    by (simp add: upd_proc_def)
  have e: "(procs s' ! j)\<lparr>p_handles := []\<rparr> = (procs s ! j)\<lparr>p_handles := []\<rparr>" if "j < length (procs s)" for j
    using arg_cong [OF m, of "\<lambda>xs. xs ! j"] that l by simp
  fix j
  assume "j < length (map (p_handles_update (\<lambda>_. [])) (procs (upd_proc i (p_state_update (\<lambda>_. st)) s')))"
  then have j: "j < length (procs s)" by (simp add: upd_proc_def l)
  show "map (p_handles_update (\<lambda>_. [])) (procs (upd_proc i (p_state_update (\<lambda>_. st)) s')) ! j =
      map (p_handles_update (\<lambda>_. [])) ((procs s)[i := (procs s ! i)\<lparr>p_state := st\<rparr>]) ! j"
  proof (cases "i = j")
    case True
    then show ?thesis using arg_cong [OF e [OF j], of "p_state_update (\<lambda>_. st)"] j l by (simp add: upd_proc_def state_handles)
  qed (use e [OF j] j l in \<open>simp add: upd_proc_def\<close>)
qed

lemma start_image_slot:
  assumes "start_image me i path args entry sz s = Inr (r, s')" and "0 \<le> r" and "i < length (procs s)"
  shows "map (p_handles_update (\<lambda>_. [])) (procs s') =
      map (p_handles_update (\<lambda>_. [])) ((procs s)[i := started sz path (procs s ! i)]) \<and>
    pid_alive s' = pid_alive s \<and> r = sint (p_pid (procs s ! i))"
proof -
  let ?s1 = "upd_proc i (\<lambda>p. p\<lparr>p_name := take 15 (base_name path)\<rparr>) (set_ctx i uc_epc entry (upd_proc i (\<lambda>p. p\<lparr>p_sz := PGROUNDUP sz\<rparr>) s))"
  obtain stack s2 where k: "kalloc ?s1 = (stack, s2)" by fastforce
  have nz: "stack \<noteq> 0" using assms(1,2) k spawn_bad_neg by (fastforce simp: start_image_def Let_def)
  let ?s3 = "s2\<lparr>mem := fill_page (mem s2) stack 0\<rparr>"
  obtain x s4 where m: "mappages (p_pagetable (procs ?s3 ! i)) (USTACK_TOP - PGSIZE) stack PGSIZE (PTE_W OR PTE_R OR PTE_U) ?s3 = (x, s4)" by fastforce
  obtain ws redir where a: "(case args of None \<Rightarrow> ([], None) | Some a \<Rightarrow> parse_args 1 a) = (ws, redir)" by fastforce
  obtain off uargs mm where p: "push_args stack (path # ws) (mem s4) = (off, uargs, mm)" by (metis prod_cases3)
  obtain s5 where d: "redirect me i redir (s4\<lparr>mem := mm\<rparr>) = Inr s5"
    using assms(1) k nz m a p by (auto simp: start_image_def Let_def rbind_def split: sum.splits)
  have "table s4 = table ?s1" using k m by (auto dest!: tbl)
  then have t4: "procs s4 = (procs s)[i := (procs s ! i)\<lparr>p_sz := PGROUNDUP sz, p_name := take 15 (base_name path)\<rparr>]" "pid_alive s4 = pid_alive s"
    using assms(3) by (simp_all add: table_def upd_proc_def set_ctx_def)
  have b: "bare s5 = bare s4" using redirect_bare [OF d] by simp
  let ?s8 = "upd_proc i (p_state_update (\<lambda>_. RUNNABLE)) s5"
  have s': "procs s' = procs ?s8" "pid_alive s' = pid_alive s5" "r = sint (p_pid (procs ?s8 ! i))"
    using assms(1) k nz m a p d by (auto simp: start_image_def Let_def rbind_def upd_proc_def set_ctx_def split: prod.splits)
  have q: "map (p_handles_update (\<lambda>_. [])) (procs ?s8) = map (p_handles_update (\<lambda>_. [])) ((procs s)[i := started sz path (procs s ! i)])"
    using bare_upd_proc [OF b, of i RUNNABLE] assms(3) by (simp add: t4 started_def)
  have l: "length (procs ?s8) = length (procs s)" using map_eq_imp_length_eq [OF q] by simp
  have "map (p_handles_update (\<lambda>_. [])) (procs ?s8) ! i = map (p_handles_update (\<lambda>_. [])) ((procs s)[i := started sz path (procs s ! i)]) ! i"
    by (simp only: q)
  then have "(procs ?s8 ! i)\<lparr>p_handles := []\<rparr> = (started sz path (procs s ! i))\<lparr>p_handles := []\<rparr>"
    using assms(3) by (simp add: l)
  from arg_cong [OF this, of p_pid] have "p_pid (procs ?s8 ! i) = p_pid (procs s ! i)" by (simp add: started_def)
  then show ?thesis using q s' b t4(2) by (simp add: bare_def)
qed

text \<open>The table after a successful \<^verbatim>\<open>spawn\<close>, but for the handles.\<close>

lemma spawn_slot:
  assumes "spawn forkret h path args cap s = Inr (r, s')" and "0 \<le> r"
  obtains i pid ctx pt root sz q where "unused_slot (procs s) = Some i" "\<not> pid_alive s pid" "pid < 65535"
    "q = started sz path (inherit (map_option ((!) ((procs s)[i := fresh_slot forkret pid root ctx pt (procs s ! i)])) (myproc h s)) cap
       (fresh_slot forkret pid root ctx pt (procs s ! i)))"
    "map (p_handles_update (\<lambda>_. [])) (procs s') = map (p_handles_update (\<lambda>_. [])) ((procs s)[i := q])"
    "pid_alive s' = (pid_alive s)(pid := True)" "r = sint (p_pid q)" "\<exists>t. allocpid s = Inr (pid, t)"
proof -
  obtain i s1 where a: "allocproc forkret s = Inr (Some i, s1)"
    using assms by (auto simp: spawn_def rbind_def split: sum.splits option.splits)
  obtain pid ctx pt root where f: "unused_slot (procs s) = Some i" "\<not> pid_alive s pid" "pid < 65535" "cpu_proc s1 = cpu_proc s"
      "procs s1 = (procs s)[i := fresh_slot forkret pid root ctx pt (procs s ! i)]" "pid_alive s1 = (pid_alive s)(pid := True)"
      "\<exists>t. allocpid s = Inr (pid, t)"
    by (rule allocproc_slot [OF a])
  have l: "i < length (procs s)" using f(1) by (auto simp: unused_slot_def find_Some_iff)
  have me: "myproc h s1 = myproc h s" by (simp add: myproc_def f(4))
  let ?p = "fresh_slot forkret pid root ctx pt (procs s ! i)"
  define q where "q = inherit (map_option ((!) (procs s1)) (myproc h s)) cap ?p"
  let ?s2 = "upd_proc i (inherit (map_option ((!) (procs s1)) (myproc h s)) cap) s1"
  have p2: "procs ?s2 = (procs s)[i := q]" "pid_alive ?s2 = (pid_alive s)(pid := True)"
    using f l by (simp_all add: upd_proc_def q_def)
  obtain entry sz s3 where b: "load_image (myproc h s) path (p_pagetable (procs ?s2 ! i)) ?s2 = Inr (Some (entry, sz), s3)"
      "start_image (myproc h s) i path args entry sz s3 = Inr (r, s')"
    using assms a me by (auto simp: spawn_def rbind_def Let_def dest!: spawn_bad_neg split: sum.splits option.splits)
  have t3: "procs s3 = (procs s)[i := q]" "pid_alive s3 = (pid_alive s)(pid := True)"
    using load_image_tbl [OF b(1)] p2 by (simp_all add: table_def)
  have "map (p_handles_update (\<lambda>_. [])) (procs s') = map (p_handles_update (\<lambda>_. [])) ((procs s)[i := started sz path q])"
      "pid_alive s' = (pid_alive s)(pid := True)" "r = sint (p_pid (started sz path q))"
    using start_image_slot [OF b(2) assms(2)] l by (simp_all add: t3 started_def)
  then show ?thesis using that [OF f(1-3), where q = "started sz path q"] f(7) by (simp add: q_def f(5))
qed

lemma spawn_pid_sint: "pid < 65535 \<Longrightarrow> sint (pid :: u32) = int (unat pid)"
proof -
  assume "pid < 65535"
  then have u: "unat pid < 65535" by (simp add: word_less_nat_alt)
  have "sint (of_nat n :: u32) = int n" if "n < 65535" for n
    using that by (simp add: signed_of_nat signed_take_bit_int_eq_self)
  from this [OF u] show ?thesis by simp
qed

subsection \<open>Properties\<close>

text \<open>
  A successful \<^verbatim>\<open>spawn\<close> starts a new process with exactly the rights it was given, whatever the disk holds: it takes
  the first unused slot and a pid nobody has, which is its result; the process is runnable, has the capabilities
  passed in and no others, belongs to the caller, and takes over its working directory and tracing; no other slot
  changes but for the handles.
\<close>

theorem spawn_correct:
  assumes "spawn forkret h path args cap s = Inr (r, s')" and "0 \<le> r"
    and "myproc h s = Some me" and "p_state (procs s ! me) = RUNNING"
  shows "\<exists>i pid. unused_slot (procs s) = Some i \<and> r = int (unat pid) \<and> \<not> pid_alive s pid \<and>
    pid_alive s' = (pid_alive s)(pid := True) \<and> p_state (procs s' ! i) = RUNNABLE \<and> p_pid (procs s' ! i) = pid \<and>
    p_caps (procs s' ! i) = cap \<and> \<not> p_killed (procs s' ! i) \<and> p_name (procs s' ! i) = take 15 (base_name path) \<and>
    p_owner_pid (procs s' ! i) = p_pid (procs s ! me) \<and> p_tracing (procs s' ! i) = p_tracing (procs s ! me) \<and>
    p_cwd_cluster (procs s' ! i) = p_cwd_cluster (procs s ! me) \<and> p_cwd_path (procs s' ! i) = p_cwd_path (procs s ! me) \<and>
    (\<forall>j < length (procs s). j \<noteq> i \<longrightarrow> (procs s' ! j)\<lparr>p_handles := []\<rparr> = (procs s ! j)\<lparr>p_handles := []\<rparr>)"
proof -
  obtain i pid ctx pt root sz q where f: "unused_slot (procs s) = Some i" "\<not> pid_alive s pid" "pid < 65535"
    and q: "q = started sz path (inherit (map_option ((!) ((procs s)[i := fresh_slot forkret pid root ctx pt (procs s ! i)])) (myproc h s)) cap
       (fresh_slot forkret pid root ctx pt (procs s ! i)))"
    and st: "map (p_handles_update (\<lambda>_. [])) (procs s') = map (p_handles_update (\<lambda>_. [])) ((procs s)[i := q])"
      "pid_alive s' = (pid_alive s)(pid := True)" "r = sint (p_pid q)" "\<exists>t. allocpid s = Inr (pid, t)"
    by (rule spawn_slot [OF assms(1,2)])
  have l: "i < length (procs s)" "me \<noteq> i" using f(1) assms(4) by (auto simp: unused_slot_def find_Some_iff)
  have "length (procs s') = length (procs s)" using map_eq_imp_length_eq [OF st(1)] by simp
  then have e: "(procs s' ! j)\<lparr>p_handles := []\<rparr> = ((procs s)[i := q] ! j)\<lparr>p_handles := []\<rparr>" if "j < length (procs s)" for j
    using arg_cong [OF st(1), of "\<lambda>xs. xs ! j"] that by simp
  have ep: "(procs s' ! i)\<lparr>p_handles := []\<rparr> = q\<lparr>p_handles := []\<rparr>" using e [OF l(1)] l(1) by simp
  note fields = arg_cong [OF ep, of p_state] arg_cong [OF ep, of p_pid] arg_cong [OF ep, of p_caps] arg_cong [OF ep, of p_killed]
    arg_cong [OF ep, of p_name] arg_cong [OF ep, of p_owner_pid] arg_cong [OF ep, of p_tracing]
    arg_cong [OF ep, of p_cwd_cluster] arg_cong [OF ep, of p_cwd_path]
  have "p_state q = RUNNABLE" "p_pid q = pid" "p_caps q = cap" "\<not> p_killed q" "p_name q = take 15 (base_name path)"
    "p_owner_pid q = p_pid (procs s ! me)" "p_tracing q = p_tracing (procs s ! me)"
    "p_cwd_cluster q = p_cwd_cluster (procs s ! me)" "p_cwd_path q = p_cwd_path (procs s ! me)"
    using l(2) assms(3) by (simp_all add: q started_def inherit_def fresh_slot_def init_pcb_def)
  then show ?thesis using f st(2,3) spawn_pid_sint [OF f(3)] fields e by (intro exI [of _ i] exI [of _ pid]) simp
qed

end
