(* ===== verification/RV_Trap.thy ===== *)
theory RV_Trap
  imports RV_Proc
begin

text \<open>
  The system calls and traps, \<^verbatim>\<open>kernelspace/core/trap.c\<close>, with \<^verbatim>\<open>kernelspace/drivers/plic.c\<close>. One definition per handler, the
  table of handlers, \<^verbatim>\<open>syscall_dispatcher\<close>, the interrupts, and the way into and out of the kernel.
  Arguments and results are in the saved registers of the process; user memory is reached through its
  page table, and an access no entry allows is the kernel exception on which \<^verbatim>\<open>kernel_trap_handler\<close> panics.
  A call that sleeps stops in \<open>Blocks\<close> with what it goes on with; \<open>resume\<close> is the rest of it.
\<close>

unbundle bit_operations_syntax

subsection \<open>User memory\<close>

text \<open>
  The translation of the hardware in supervisor mode with \<^verbatim>\<open>SSTATUS_SUM\<close> set: the last-level entry must be valid and
  readable, or writable for a store; \<^verbatim>\<open>PTE_U\<close> plays no role.
\<close>

definition mmu :: "bool \<Rightarrow> mem \<Rightarrow> u64 \<Rightarrow> u64 \<Rightarrow> u64 option" where
  "mmu wr m pt va =
     (let e = leaf m pt (vpath va) in
      if va < MAXVA \<and> e AND PTE_V \<noteq> 0 \<and> e AND (if wr then PTE_W else PTE_R) \<noteq> 0
      then Some (PTE2PA e + (va AND 0xFFF)) else None)"

definition fault :: kerror where
  "fault = Panic ''kerneltrap''"

text \<open>The loops that copy a string of at most \<open>n\<close> characters, and \<open>n\<close> bytes, from user memory; \<^verbatim>\<open>memcpy\<close> to it.\<close>

primrec copy_user_str :: "nat \<Rightarrow> u64 \<Rightarrow> u64 \<Rightarrow> mem \<Rightarrow> string res" where
  "copy_user_str 0 pt va m = Inr []"
| "copy_user_str (Suc n) pt va m =
     (case mmu False m pt va of
        None \<Rightarrow> Inl fault
      | Some pa \<Rightarrow>
          let b = get_byte m pa
          in if b = 0 then Inr [] else rbind (copy_user_str n pt (va + 1) m) (\<lambda>t. Inr (char_of (unat b) # t)))"

primrec user_read :: "nat \<Rightarrow> u64 \<Rightarrow> u64 \<Rightarrow> mem \<Rightarrow> u8 list res" where
  "user_read 0 pt va m = Inr []"
| "user_read (Suc n) pt va m =
     (case mmu False m pt va of
        None \<Rightarrow> Inl fault
      | Some pa \<Rightarrow> rbind (user_read n pt (va + 1) m) (\<lambda>bs. Inr (get_byte m pa # bs)))"

primrec user_write :: "u8 list \<Rightarrow> u64 \<Rightarrow> u64 \<Rightarrow> mem \<Rightarrow> mem res" where
  "user_write [] pt va m = Inr m"
| "user_write (b # bs) pt va m =
     (case mmu True m pt va of
        None \<Rightarrow> Inl fault
      | Some pa \<Rightarrow> user_write bs pt (va + 1) (put_byte pa b m))"

subsection \<open>Results\<close>

datatype pending = WaitFor u32 | SleepUntil u64 u64 | ReadCons u64 nat nat

datatype outcome = Ret u64 | Blocks pending | Exits | Resets u32

text \<open>
  What the linker and the boot code fix: addresses of functions, and the caches that a shutdown destroys. \<open>Resets\<close> is the call
  of the SBI that resets the machine and does not return.
\<close>

record kenv =
  forkret_addr :: u64
  user_trap_addr :: u64
  user_vector :: u64
  pcb_cache :: "(u64 \<times> kmem_cache) option"
  file_cache_page :: u64

definition ret_int :: "int \<Rightarrow> outcome" where
  "ret_int r = Ret (word_of_int r)"

definition arg :: "u64 \<Rightarrow> nat \<Rightarrow> kernel \<Rightarrow> u64" where
  "arg off me s = get_ctx me off s"

definition user_pt :: "nat \<Rightarrow> kernel \<Rightarrow> u64" where
  "user_pt me s = p_pagetable (procs s ! me)"

definition put_user :: "nat \<Rightarrow> u64 \<Rightarrow> u8 list \<Rightarrow> kernel \<Rightarrow> kernel res" where
  "put_user me va bs s = rbind (user_write bs (user_pt me s) va (mem s)) (\<lambda>m. Inr (s\<lparr>mem := m\<rparr>))"

definition kpath :: "nat \<Rightarrow> u64 \<Rightarrow> kernel \<Rightarrow> string res" where
  "kpath me va s = copy_user_str 63 (user_pt me s) va (mem s)"

subsection \<open>Files\<close>

type_synonym handler = "kenv \<Rightarrow> nat \<Rightarrow> nat \<Rightarrow> kernel \<Rightarrow> (outcome \<times> kernel) res"

text \<open>The calls with one path.\<close>

definition path_call :: "(nat \<Rightarrow> string \<Rightarrow> kernel \<Rightarrow> (int \<times> kernel) res) \<Rightarrow> handler" where
  "path_call f e h me s =
     (let path = arg uc_a0 me s in
      if path = 0 then Inr (ret_int (-1), s)
      else rbind (kpath me path s) (\<lambda>p. rbind (f me p s) (\<lambda>(r, s1). Inr (ret_int r, s1))))"

definition sys_create_file :: handler where
  "sys_create_file e h me s = path_call (\<lambda>me p. CreateHandler me p (ucast (arg uc_a1 me s))) e h me s"

definition sys_mkdir :: handler where "sys_mkdir = path_call MakeDir"
definition sys_chdir :: handler where "sys_chdir = path_call ChangeDir"
definition sys_unlink :: handler where "sys_unlink = path_call Unlink"

definition sys_rename :: handler where
  "sys_rename e h me s =
     (let old = arg uc_a0 me s; new = arg uc_a1 me s in
      if old = 0 \<or> new = 0 then Inr (ret_int (-1), s)
      else
        rbind (kpath me old s) (\<lambda>p. rbind (kpath me new s) (\<lambda>q.
          rbind (mv me p q s) (\<lambda>(r, s1). Inr (ret_int r, s1)))))"

text \<open>\<^verbatim>\<open>console_read\<close> from \<open>i\<close> bytes on, with room for \<open>n\<close> more at \<open>buf\<close>; the bytes taken are stored before it sleeps.\<close>

definition read_console :: "nat \<Rightarrow> nat \<Rightarrow> u64 \<Rightarrow> nat \<Rightarrow> nat \<Rightarrow> kernel \<Rightarrow> (outcome \<times> kernel) res" where
  "read_console h me buf n i s =
     (case console_take n i s of (bs, slp, s1) \<Rightarrow>
        rbind (put_user me buf bs s1) (\<lambda>s2.
          if slp then
            rbind (sleep h ChanCons (acquire h s2)) (\<lambda>s3.
              Inr (Blocks (ReadCons (buf + of_nat (length bs)) (n - length bs) (i + length bs)), s3))
          else Inr (Ret (of_nat (i + length bs)), s2)))"

definition bad_handle :: "nat \<Rightarrow> u32 \<Rightarrow> kernel \<Rightarrow> bool" where
  "bad_handle me h s \<longleftrightarrow> handle_of me h s = 0"

definition sys_read_file :: handler where
  "sys_read_file e h me s =
     (let hd = ucast (arg uc_a0 me s); buf = arg uc_a1 me s; len = ucast (arg uc_a2 me s) :: u32 in
      if bad_handle me hd s then Inr (ret_int (-1), s)
      else if handle_of me hd s = - 1 then read_console h me buf (nat (sint len)) 0 s
      else
        rbind (ReadFile me hd len s) (\<lambda>(r, bs, s1).
          rbind (put_user me buf bs s1) (\<lambda>s2. Inr (ret_int r, s2))))"

definition sys_write_file :: handler where
  "sys_write_file e h me s =
     (let hd = ucast (arg uc_a0 me s); buf = arg uc_a1 me s; len = ucast (arg uc_a2 me s) :: u32 in
      if bad_handle me hd s then Inr (ret_int (-1), s)
      else if handle_of me hd s = - 1 then
        rbind (user_read (unat len) (user_pt me s) buf (mem s)) (\<lambda>bs.
          rbind (WriteFile me hd bs s) (\<lambda>(r, s1). Inr (ret_int r, s1)))
      else
        let len1 = (if ucast PGSIZE < len then ucast PGSIZE else len) in
        rbind (kmalloc len1 s) (\<lambda>(kbuf, s1).
          if kbuf = 0 then Inr (ret_int (-1), s1)
          else
            rbind (user_read (unat len1) (user_pt me s1) buf (mem s1)) (\<lambda>bs.
              rbind (WriteFile me hd bs (s1\<lparr>mem := store_bytes kbuf bs (mem s1)\<rparr>)) (\<lambda>(r, s2).
                rbind (kmfree kbuf s2) (\<lambda>s3. Inr (ret_int r, s3))))))"

definition sys_close_handle :: handler where
  "sys_close_handle e h me s = rbind (CloseHandle me (ucast (arg uc_a0 me s)) s) (\<lambda>s1. Inr (Ret 0, s1))"

definition sys_ls :: handler where
  "sys_ls e h me s = rbind (fs_ls me s) (\<lambda>s1. Inr (Ret 0, s1))"

text \<open>The loop of \<^verbatim>\<open>sys_getcwd\<close> runs to \<^verbatim>\<open>len - 1\<close>, unsigned, or to the end of the path.\<close>

definition sys_getcwd :: handler where
  "sys_getcwd e h me s =
     (let buf = arg uc_a0 me s; len = ucast (arg uc_a1 me s) :: u32 in
      if buf = 0 then Inr (ret_int (-1), s)
      else
        rbind (put_user me buf (map of_char (take (unat (len - 1)) (p_cwd_path (procs s ! me))) @ [0]) s)
          (\<lambda>s1. Inr (Ret 0, s1)))"

subsection \<open>Processes\<close>

definition spawn_call :: "(u64 \<Rightarrow> u64 \<Rightarrow> u64 option) \<Rightarrow> handler" where
  "spawn_call child_caps e h me s =
     (let path = arg uc_a0 me s; redir = arg uc_a1 me s in
      case child_caps (p_caps (procs s ! me)) (arg uc_a2 me s) of
        None \<Rightarrow> Inr (Ret WITHOUT_CAP, s)
      | Some cap \<Rightarrow>
          if path = 0 then Inr (ret_int (-1), s)
          else
            rbind (kpath me path s) (\<lambda>p.
              rbind (if redir = 0 then Inr None else rbind (kpath me redir s) (\<lambda>a. Inr (Some a))) (\<lambda>args.
                rbind (spawn (forkret_addr e) h p args cap s) (\<lambda>(r, s1). Inr (ret_int r, s1)))))"

definition sys_spawn :: handler where "sys_spawn = spawn_call sys_spawn_caps"
definition sys_sandbox :: handler where "sys_sandbox = spawn_call sys_sandbox_caps"

definition sys_wait :: handler where
  "sys_wait e h me s =
     (let pid = ucast (arg uc_a0 me s) in
      rbind (wait h pid s) (\<lambda>(r, s1).
        Inr (case r of Returned v \<Rightarrow> ret_int v | Asleep \<Rightarrow> Blocks (WaitFor pid), s1)))"

definition sys_exit :: handler where
  "sys_exit e h me s = rbind (exit h (ucast (arg uc_a0 me s)) s) (\<lambda>s1. Inr (Exits, s1))"

definition sys_getpid :: handler where
  "sys_getpid e h me s = Inr (Ret (ucast (p_pid (procs s ! me))), s)"

definition sys_kill :: handler where
  "sys_kill e h me s = (case kill h (ucast (arg uc_a0 me s)) s of (r, s1) \<Rightarrow> Inr (ret_int r, s1))"

definition sys_sbrk :: handler where
  "sys_sbrk e h me s =
     rbind (growproc h (ucast (arg uc_a0 me s)) s) (\<lambda>(r, s1).
       Inr (if r < 0 then ret_int (-1) else Ret (p_sz (procs s ! me)), s1))"

definition sys_trace :: handler where
  "sys_trace e h me s = Inr (Ret 0, upd_proc me (\<lambda>p. p\<lparr>p_tracing := ucast (arg uc_a0 me s)\<rparr>) s)"

definition sys_getcaps :: handler where
  "sys_getcaps e h me s = Inr (Ret (p_caps (procs s ! me)), s)"

text \<open>The 40 bytes of \<^verbatim>\<open>proc_info_t\<close>; what follows the NUL of the name is taken as zero.\<close>

definition PROC_STATE :: "procstate \<Rightarrow> u32" where
  "PROC_STATE st = (case st of UNUSED \<Rightarrow> 0 | SLEEPING \<Rightarrow> 1 | RUNNABLE \<Rightarrow> 2 | RUNNING \<Rightarrow> 3 | ZOMBIE \<Rightarrow> 4)"

definition proc_info :: "pcb \<Rightarrow> u8 list" where
  "proc_info p =
     to_le32 (p_pid p) @ to_le32 (p_owner_pid p) @ map of_char (p_name p) @ replicate (16 - length (p_name p)) 0 @
     to_le32 (word_of_int (p_priority p)) @ to_le32 (word_of_int (p_effective_priority p)) @
     to_le32 (PROC_STATE (p_state p)) @ to_le32 (of_nat (length (filter (\<lambda>f. f \<noteq> 0) (p_handles p))))"

primrec ps_loop :: "pcb list \<Rightarrow> nat \<Rightarrow> u64 \<Rightarrow> nat \<Rightarrow> nat \<Rightarrow> kernel \<Rightarrow> (nat \<times> kernel) res" where
  "ps_loop [] me buf cnt mx s = Inr (cnt, s)"
| "ps_loop (p # ps) me buf cnt mx s =
     (if mx \<le> cnt then Inr (cnt, s)
      else if p_state p = UNUSED then ps_loop ps me buf cnt mx s
      else rbind (put_user me (buf + of_nat (40 * cnt)) (proc_info p) s) (ps_loop ps me buf (Suc cnt) mx))"

definition sys_ps :: handler where
  "sys_ps e h me s =
     (let buf = arg uc_a0 me s; mx = ucast (arg uc_a1 me s) :: u32 in
      if buf = 0 then Inr (ret_int (-1), s)
      else rbind (ps_loop (procs s) me buf 0 (unat mx) s) (\<lambda>(cnt, s1). Inr (Ret (of_nat cnt), s1)))"

subsection \<open>Time\<close>

definition sys_get_ticks :: handler where
  "sys_get_ticks e h me s = Inr (Ret (ticks s), s)"

text \<open>The loop of \<^verbatim>\<open>sys_sleep\<close>, with \<^verbatim>\<open>tick_lock\<close> held; it sleeps once per pass.\<close>

definition sleep_pass :: "nat \<Rightarrow> nat \<Rightarrow> u64 \<Rightarrow> u64 \<Rightarrow> kernel \<Rightarrow> (outcome \<times> kernel) res" where
  "sleep_pass h me ticks0 time s =
     (if ticks s - ticks0 < time then
        if p_killed (procs s ! me) then rbind (release h s) (\<lambda>s1. Inr (ret_int (-1), s1))
        else rbind (sleep h ChanTicks s) (\<lambda>s1. Inr (Blocks (SleepUntil ticks0 time), s1))
      else rbind (release h s) (\<lambda>s1. Inr (Ret 0, s1)))"

definition sys_sleep :: handler where
  "sys_sleep e h me s = sleep_pass h me (ticks s) (arg uc_a0 me s) (acquire h s)"

subsection \<open>The system\<close>

definition sys_trap :: handler where
  "sys_trap e h me s = Inr (Ret 0, s)"

definition sys_panic :: handler where
  "sys_panic e h me s = Inl (Panic ''sys_panic'')"

definition SBI_SRST_RESET_TYPE_SHUTDOWN :: u32 where [rv_const]: "SBI_SRST_RESET_TYPE_SHUTDOWN = 0"
definition SBI_SRST_RESET_TYPE_COLD_REBOOT :: u32 where [rv_const]: "SBI_SRST_RESET_TYPE_COLD_REBOOT = 1"

definition shutdown :: "string \<Rightarrow> u32 \<Rightarrow> handler" where
  "shutdown msg typ e h me s =
     rbind (printf (msg @ [CHR 0x0A]) [] s) (\<lambda>s1.
       rbind (case pcb_cache e of None \<Rightarrow> Inr s1 | Some (page, c) \<Rightarrow> kmem_cache_destroy page c s1) (\<lambda>s2.
         rbind (if file_cache_page e = 0 then Inr s2 else kmem_cache_destroy (file_cache_page e) (file_cache s2) s2) (\<lambda>s3.
           Inr (Resets typ, s3))))"

definition sys_poweroff :: handler where
  "sys_poweroff = shutdown ''Powering off...'' SBI_SRST_RESET_TYPE_SHUTDOWN"

definition sys_reboot :: handler where
  "sys_reboot = shutdown ''Rebooting...'' SBI_SRST_RESET_TYPE_COLD_REBOOT"

definition RVDOS_ABI_VER :: u32 where [rv_const]: "RVDOS_ABI_VER = 3"

definition KERNEL_ABI_INFO :: "u8 list" where
  "KERNEL_ABI_INFO =
     to_le32 RVDOS_ABI_VER @ replicate 4 0 @ to_le32 (ucast CAP_ALL) @ to_le32 (ucast (drop_bit 32 CAP_ALL))"

definition sys_get_abi_info :: handler where
  "sys_get_abi_info e h me s =
     (let info = arg uc_a1 me s in
      if info = 0 then Inr (ret_int (-1), s)
      else rbind (put_user me info KERNEL_ABI_INFO s) (\<lambda>s1. Inr (Ret 0, s1)))"

definition KERNEL_VERSION :: string where "KERNEL_VERSION = ''Alpha-0.8.1''"

definition sys_get_version :: handler where
  "sys_get_version e h me s =
     (let buf = arg uc_a0 me s; len = ucast (arg uc_a1 me s) :: u32 in
      if buf = 0 then Inr (ret_int (-1), s)
      else if len < of_nat (length KERNEL_VERSION) + 1 then Inr (ret_int (-1), s)
      else rbind (put_user me buf (map of_char KERNEL_VERSION @ [0]) s) (\<lambda>s1. Inr (Ret 0, s1)))"

subsection \<open>Dispatching\<close>

definition syscall_table :: "(nat \<times> handler) list" where
  "syscall_table =
     [(SYS_GET_ABI_INFO, sys_get_abi_info), (SYS_GETCAPS, sys_getcaps), (SYS_GET_VERSION, sys_get_version),
      (SYS_TRAP, sys_trap), (SYS_GET_TICKS, sys_get_ticks), (SYS_SPAWN, sys_spawn), (SYS_EXIT, sys_exit),
      (SYS_GETPID, sys_getpid), (SYS_CREATE_FILE, sys_create_file), (SYS_READ_FILE, sys_read_file),
      (SYS_WRITE_FILE, sys_write_file), (SYS_CLOSE_HANDLE, sys_close_handle), (SYS_WAIT, sys_wait),
      (SYS_LS, sys_ls), (SYS_PANIC, sys_panic), (SYS_POWEROFF, sys_poweroff), (SYS_REBOOT, sys_reboot),
      (SYS_MKDIR, sys_mkdir), (SYS_CHDIR, sys_chdir), (SYS_UNLINK, sys_unlink), (SYS_GETCWD, sys_getcwd),
      (SYS_RENAME, sys_rename), (SYS_PS, sys_ps), (SYS_SBRK, sys_sbrk), (SYS_KILL, sys_kill),
      (SYS_SLEEP, sys_sleep), (SYS_TRACE, sys_trace), (SYS_SANDBOX, sys_sandbox)]"

text \<open>After a handler has returned: its result, and the line a traced process prints.\<close>

definition finish :: "nat \<Rightarrow> nat \<Rightarrow> u64 \<Rightarrow> outcome \<times> kernel \<Rightarrow> (outcome \<times> kernel) res" where
  "finish me num arg0 = (\<lambda>(r, s).
     case r of
       Ret v \<Rightarrow>
         let s1 = set_ctx me uc_a0 v s in
         if p_tracing (procs s1 ! me) \<noteq> 0 then
           rbind (printf (''PID %d: syscall %s(0x%x) -> %d'' @ [CHR 0x0A])
               [PInt (p_pid (procs s1 ! me)), PStr (map_of syscall_names num), PInt (ucast arg0), PInt (ucast v)] s1)
             (\<lambda>s2. Inr (r, s2))
         else Inr (r, s1)
     | _ \<Rightarrow> Inr (r, s))"

definition syscall_dispatcher :: "kenv \<Rightarrow> nat \<Rightarrow> nat \<Rightarrow> kernel \<Rightarrow> (outcome \<times> kernel) res" where
  "syscall_dispatcher e h me s =
     (let num = arg uc_a7 me s; p = procs s ! me; arg0 = arg uc_a0 me s in
      case gate (p_caps p) num arg0 of
        Unknown \<Rightarrow>
          rbind (printf (''Unknown syscall %d on Hart %d at EPC %p'' @ [CHR 0x0A])
              [PInt (ucast num), PInt (of_nat h), PPtr (arg uc_epc me s)] s)
            (\<lambda>s1. Inr (Ret (- 1), set_ctx me uc_a0 (- 1) s1))
      | Denied \<Rightarrow>
          rbind (printf (''PID %d: without capability %s (has %d, needs %d)'' @ [CHR 0x0A])
              [PInt (p_pid p), PStr (map_of syscall_names (unat num)), PInt (ucast (p_caps p)),
               PInt (ucast (cap_needed (unat num) arg0))] s)
            (\<lambda>s1. Inr (Ret WITHOUT_CAP, set_ctx me uc_a0 WITHOUT_CAP s1))
      | Allowed \<Rightarrow>
          rbind (the (map_of syscall_table (unat num)) e h me s) (finish me (unat num) arg0))"

text \<open>A sleeping call goes on: \<open>None\<close> when it was killed and has left.\<close>

definition resume :: "nat \<Rightarrow> nat \<Rightarrow> pending \<Rightarrow> kernel \<Rightarrow> (outcome \<times> kernel) res" where
  "resume h me pnd s =
     rbind (sleep_resume h s) (\<lambda>(exited, s1).
       if exited then Inr (Exits, s1)
       else case pnd of
         WaitFor pid \<Rightarrow>
           rbind (wait_pass h me pid s1) (\<lambda>(r, s2).
             Inr (case r of Returned v \<Rightarrow> ret_int v | Asleep \<Rightarrow> Blocks pnd, s2))
       | SleepUntil ticks0 time \<Rightarrow> sleep_pass h me ticks0 time s1
       | ReadCons buf n i \<Rightarrow> rbind (release h s1) (\<lambda>s2. read_console h me buf n i s2))"


subsection \<open>The interrupt controller\<close>

definition PLIC_PRIORITY :: u64 where [rv_const]: "PLIC_PRIORITY = PLIC + 0x0"
definition UART0_IRQ :: u64 where [rv_const]: "UART0_IRQ = 10"
definition VIRTIO0_IRQ :: u64 where [rv_const]: "VIRTIO0_IRQ = 1"
definition PLIC_SENABLE :: "u64 \<Rightarrow> u64" where "PLIC_SENABLE hid = PLIC + 0x2080 + hid * 0x100"
definition PLIC_SPRIORITY :: "u64 \<Rightarrow> u64" where "PLIC_SPRIORITY hid = PLIC + 0x201000 + hid * 0x2000"
definition PLIC_SCLAIM :: "u64 \<Rightarrow> u64" where "PLIC_SCLAIM hid = PLIC + 0x201004 + hid * 0x2000"

text \<open>What a handler does to the devices beside the UART: a store to a 32-bit register, a call of the SBI timer.\<close>

datatype dev_op = Store32 u64 u32 | SetTimer u64

definition plic_init :: "dev_op list" where
  "plic_init = [Store32 (PLIC_PRIORITY + UART0_IRQ * 4) 1, Store32 (PLIC_PRIORITY + VIRTIO0_IRQ * 4) 1]"

definition plic_inithart :: "nat \<Rightarrow> dev_op list" where
  "plic_inithart h =
     [Store32 (PLIC_SENABLE (of_nat h)) (push_bit (unat UART0_IRQ) 1 OR push_bit (unat VIRTIO0_IRQ) 1),
      Store32 (PLIC_SPRIORITY (of_nat h)) 0]"

text \<open>The registers a handler reads: the claim register of each hart, and the clock.\<close>

record inputs =
  reg32 :: "u64 \<Rightarrow> u32"
  r_time :: u64

definition plic_claim :: "nat \<Rightarrow> inputs \<Rightarrow> u32" where
  "plic_claim h inp = reg32 inp (PLIC_SCLAIM (of_nat h))"

definition plic_complete :: "nat \<Rightarrow> u32 \<Rightarrow> dev_op list" where
  "plic_complete h irq = [Store32 (PLIC_SCLAIM (of_nat h)) irq]"

subsection \<open>Interrupts\<close>

text \<open>\<^verbatim>\<open>xsmode_trap_init\<close>: the first hart initialises \<^verbatim>\<open>trap_lock\<close> and \<^verbatim>\<open>tick_lock\<close>; each hart sets \<^verbatim>\<open>stvec\<close>.\<close>

definition xsmode_trap_init :: "u64 \<Rightarrow> int \<Rightarrow> nat \<Rightarrow> spinlock \<times> spinlock \<Rightarrow> u64 \<times> spinlock \<times> spinlock" where
  "xsmode_trap_init kernel_vector primary_hart h = (\<lambda>(trap_lock, tick_lock).
     (kernel_vector, if int h = primary_hart then (init_lock trap_lock, init_lock tick_lock) else (trap_lock, tick_lock)))"

definition handle_timer :: "inputs \<Rightarrow> nat \<Rightarrow> kernel \<Rightarrow> (dev_op list \<times> kernel) res" where
  "handle_timer inp h s =
     (let s1 = acquire h s; s2 = wakeup h ChanTicks (s1\<lparr>ticks := ticks s1 + 1\<rparr>) in
      rbind (release h s2) (\<lambda>s3. Inr ([SetTimer (r_time inp + 1000000)], s3)))"

definition handle_external :: "inputs \<Rightarrow> nat \<Rightarrow> kernel \<Rightarrow> (dev_op list \<times> kernel) res" where
  "handle_external inp h s =
     (let irq = plic_claim h inp in
      rbind (if irq = ucast UART0_IRQ then Inr (uart_intr h s)
             else if irq = ucast VIRTIO0_IRQ then Inr s
             else if irq \<noteq> 0 then printf (''Unexpected interrupt irq=%d'' @ [CHR 0x0A]) [PInt irq] s
             else Inr s) (\<lambda>s1.
        Inr (if irq \<noteq> 0 then plic_complete h irq else [], s1)))"

definition interrupt_table :: "u64 \<Rightarrow> (inputs \<Rightarrow> nat \<Rightarrow> kernel \<Rightarrow> (dev_op list \<times> kernel) res) option" where
  "interrupt_table n =
     (if n = 1 then Some handle_timer else if n = 5 then Some handle_timer
      else if n = 9 then Some handle_external else None)"

definition is_interrupt :: "u64 \<Rightarrow> bool" where
  "is_interrupt scause \<longleftrightarrow> bit scause 63"

text \<open>A trap taken in the kernel; it ends with \<^verbatim>\<open>sepc\<close> and \<^verbatim>\<open>sstatus\<close> as they were.\<close>

definition kernel_trap_handler :: "inputs \<Rightarrow> nat \<Rightarrow> u64 \<Rightarrow> u64 \<Rightarrow> kernel \<Rightarrow> (dev_op list \<times> kernel) res" where
  "kernel_trap_handler inp h sstatus scause s =
     (if sstatus AND SSTATUS_SPP = 0 then Inl (Panic ''kernel_trap_handler: not from supervisor mode'')
      else if is_interrupt scause then
        case interrupt_table (scause AND 0xfff) of
          Some f \<Rightarrow> f inp h s
        | None \<Rightarrow>
            rbind (printf (''Unexpected kernel interrupt: %p'' @ [CHR 0x0A]) [PPtr scause] s) (\<lambda>s1. Inr ([], s1))
      else Inl (Panic ''kerneltrap''))"

subsection \<open>Traps from user mode\<close>

text \<open>The registers \<^verbatim>\<open>user_ret\<close> finds when it goes to user mode.\<close>

record user_regs =
  r_stvec :: u64
  r_sstatus :: u64
  r_sepc :: u64

datatype trap_end = ToUser user_regs | Gone | Stopped pending nat u64 | Yielded | Halted u32

definition set_sie :: "bool \<Rightarrow> nat \<Rightarrow> kernel \<Rightarrow> kernel" where
  "set_sie b h s = s\<lparr>hart := (hart s)(h := (hart s h)\<lparr>sie := b\<rparr>)\<rparr>"

text \<open>
  \<^verbatim>\<open>sstatus\<close> of a hart: its \<^verbatim>\<open>SIE\<close> bit is \<open>sie\<close> of the hart, which \<open>intr_on\<close>, \<open>intr_off\<close>, \<open>push_off\<close> and \<open>pop_off\<close>
  change; \<open>st\<close> stands for the other bits. A write of the register sets the bit.
\<close>

definition r_sstatus_of :: "nat \<Rightarrow> u64 \<Rightarrow> kernel \<Rightarrow> u64" where
  "r_sstatus_of h st s = (st AND NOT SSTATUS_SIE) OR (if sie (hart s h) then SSTATUS_SIE else 0)"

definition w_sstatus :: "nat \<Rightarrow> u64 \<Rightarrow> kernel \<Rightarrow> kernel" where
  "w_sstatus h x s = set_sie (x AND SSTATUS_SIE \<noteq> 0) h s"

definition user_trap_return :: "kenv \<Rightarrow> nat \<Rightarrow> u64 \<Rightarrow> kernel \<Rightarrow> (trap_end \<times> kernel) res" where
  "user_trap_return e h st s =
     (case myproc h s of
        None \<Rightarrow> Inl (Undefined ''user_trap_return: no process'')
      | Some me \<Rightarrow>
          if p_killed (procs s ! me) then rbind (exit h (- 1) s) (\<lambda>s1. Inr (Gone, s1))
          else
            let s1 = set_sie False h s;
                s2 = set_ctx me uc_kernel_satp (satp s1 h) s1;
                s3 = set_ctx me uc_kernel_sp (p_kstack (procs s2 ! me) + PGSIZE) s2;
                s4 = set_ctx me uc_kernel_trap (user_trap_addr e) s3;
                s5 = set_ctx me uc_kernel_hartid (of_nat h) s4;
                x = (r_sstatus_of h st s5 AND NOT SSTATUS_SPP) OR SSTATUS_SPIE;
                s6 = w_sstatus h x s5
            in Inr (ToUser \<lparr>r_stvec = user_vector e, r_sstatus = x, r_sepc = get_ctx me uc_epc s6\<rparr>, s6))"

text \<open>From the end of a system call to user mode.\<close>

definition after_call :: "kenv \<Rightarrow> nat \<Rightarrow> u64 \<Rightarrow> nat \<Rightarrow> u64 \<Rightarrow> outcome \<times> kernel \<Rightarrow> (trap_end \<times> kernel) res" where
  "after_call e h sstatus num arg0 = (\<lambda>(r, s).
     case r of
       Ret _ \<Rightarrow> user_trap_return e h sstatus s
     | Blocks pnd \<Rightarrow> Inr (Stopped pnd num arg0, s)
     | Exits \<Rightarrow> Inr (Gone, s)
     | Resets typ \<Rightarrow> Inr (Halted typ, s))"

definition user_trap_handler ::
    "kenv \<Rightarrow> inputs \<Rightarrow> nat \<Rightarrow> u64 \<Rightarrow> u64 \<Rightarrow> u64 \<Rightarrow> u64 \<Rightarrow> kernel \<Rightarrow> (dev_op list \<times> trap_end \<times> kernel) res" where
  "user_trap_handler e inp h sstatus scause sepc stval s =
     (case myproc h s of
        None \<Rightarrow> Inl (Undefined ''user_trap_handler: no process'')
      | Some me \<Rightarrow>
          if sstatus AND SSTATUS_SPP \<noteq> 0 then Inl (Panic ''user_trap_handler: not from user mode'')
          else
            let s1 = set_ctx me uc_epc sepc s in
            if scause = 8 then
              let s2 = set_sie True h (set_ctx me uc_epc (get_ctx me uc_epc s1 + 4) s1);
                  num = unat (arg uc_a7 me s2); arg0 = arg uc_a0 me s2
              in rbind (rbind (syscall_dispatcher e h me s2) (after_call e h sstatus num arg0)) (\<lambda>r. Inr ([], r))
            else if is_interrupt scause then
              case interrupt_table (scause AND 0xfff) of
                None \<Rightarrow> rbind (user_trap_return e h sstatus s1) (\<lambda>r. Inr ([], r))
              | Some f \<Rightarrow>
                  rbind (f inp h s1) (\<lambda>(dv, s2).
                    if scause AND 0xfff = 5 \<and> p_state (procs s2 ! me) = RUNNING
                    then rbind (yield h s2) (\<lambda>s3. Inr (dv, Yielded, s3))
                    else rbind (user_trap_return e h sstatus s2) (\<lambda>r. Inr (dv, r)))
            else
              let p = procs s1 ! me in
              rbind (printf (''PID %d (%s): User exception %p, epc %p, tval %p'' @ [CHR 0x0A])
                  [PInt (p_pid p), PStr (Some (p_name p)), PPtr scause, PPtr sepc, PPtr stval] s1) (\<lambda>s2.
                rbind (exit h (- 1) s2) (\<lambda>s3. Inr ([], Gone, s3))))"

text \<open>The rest of a trap after the process was switched out in it, and the first run of a process.\<close>

definition user_trap_resume :: "kenv \<Rightarrow> nat \<Rightarrow> u64 \<Rightarrow> trap_end \<Rightarrow> kernel \<Rightarrow> (trap_end \<times> kernel) res" where
  "user_trap_resume e h sstatus t s =
     (case (t, myproc h s) of
        (Stopped pnd num arg0, Some me) \<Rightarrow>
          rbind (resume h me pnd s) (\<lambda>r. rbind (finish me num arg0 r) (after_call e h sstatus num arg0))
      | (Yielded, Some me) \<Rightarrow> rbind (release h s) (user_trap_return e h sstatus)
      | _ \<Rightarrow> Inl (Undefined ''resume: not switched out''))"

definition forkret :: "kenv \<Rightarrow> nat \<Rightarrow> u64 \<Rightarrow> kernel \<Rightarrow> (trap_end \<times> kernel) res" where
  "forkret e h sstatus s = rbind (release h s) (user_trap_return e h sstatus)"

end
