(* ===== verification/RV_Confine.thy ===== *)
theory RV_Confine
  imports RV_Spawn RV_Trap
begin

text \<open>
  What the system calls and traps of \<^verbatim>\<open>kernelspace/core/trap.c\<close> do to the process table. The first part
  extends the frame lemmas of \<open>RV_Spawn\<close> to every operation a handler calls: no operation of the file system, the
  console or the memory changes a slot beyond its handles and its working directory, and only \<^verbatim>\<open>spawn\<close> writes a
  capability mask. The properties are about whole traps, from \<^verbatim>\<open>user_trap_handler\<close> to the way back.
\<close>

unbundle bit_operations_syntax

subsection \<open>Writing, listing and moving\<close>

lemma table_bufs [simp]:
  "table (s\<lparr>uart_out := x\<rparr>) = table s" "table (s\<lparr>sbi_out := y\<rparr>) = table s" "table (s\<lparr>cons_r := z\<rparr>) = table s"
  "table (s\<lparr>cons_w := z\<rparr>) = table s" "table (s\<lparr>cons_e := z\<rparr>) = table s" "table (s\<lparr>cons_buf := b\<rparr>) = table s"
  "table (s\<lparr>uart_rx := x\<rparr>) = table s" "table (s\<lparr>buckets := k\<rparr>) = table s" "table (s\<lparr>ticks := t\<rparr>) = table s"
  by (simp_all add: table_def)

lemma putc_tbl [simp]: "table (uart_putc_no_lock c s) = table s" "table (uart_putc c s) = table s"
  by (simp_all add: uart_putc_no_lock_def uart_putc_def)

lemma puts_tbl [simp]: "table (fold uart_putc_no_lock cs s) = table s"
  by (induction cs arbitrary: s) simp_all

lemma print_tbl [simp]: "table (printint x b sg s) = table s" "table (printptr p s) = table s"
  by (simp_all add: printint_def printptr_def Let_def del: fold.simps)

lemma printf_tbl [tbl]: "printf fmt as s = Inr s' \<Longrightarrow> table s' = table s"
proof -
  have "table s' = table s" if "print_fmt fmt as s = Inr s'" for s s' :: kernel
    using that by (induction fmt as s rule: print_fmt.induct) (auto split: if_splits list.splits parg.splits option.splits)
  then show "printf fmt as s = Inr s' \<Longrightarrow> table s' = table s" by (simp add: printf_def)
qed

lemma upd_file_tbl [simp]: "table (upd_file f g s) = table s"
  by (simp add: upd_file_def)

lemma update_entry_tbl [tbl]: "update_dir_entry_info_cwd cwd p c n s = Inr s' \<Longrightarrow> table s' = table s"
  by (auto simp: update_dir_entry_info_cwd_def rbind_def Let_def dest!: tbl split: sum.splits option.splits prod.splits if_splits)

lemma disk_write_tbl [simp]: "table (snd (disk_write x b s)) = table s"
  by (cases "disk_write x b s") (auto dest: tbl)

lemma write_sectors_tbl [tbl]: "write_sectors n x skip bs s = (m, s') \<Longrightarrow> table s' = table s"
proof (induction n arbitrary: x skip bs s m)
  case (Suc n)
  then show ?case by (auto simp: Let_def dest!: tbl split: prod.splits if_splits)
qed simp

lemma next_or_new_tbl [tbl]: "next_or_new c s = (r, s') \<Longrightarrow> table s' = table s"
proof -
  have "table (snd (set_next_cluster c n t)) = table t" for c n t
    by (cases "set_next_cluster c n t") (auto dest: tbl)
  then show "next_or_new c s = (r, s') \<Longrightarrow> table s' = table s"
    by (auto simp: next_or_new_def Let_def dest!: tbl split: prod.splits if_splits)
qed

lemma skip_or_new_tbl [tbl]: "skip_or_new n c s = (r, s') \<Longrightarrow> table s' = table s"
proof (induction n arbitrary: c s)
  case (Suc n)
  then show ?case by (auto dest!: tbl split: prod.splits option.splits)
qed simp

lemma write_chain_tbl [tbl]: "write_chain n c off bs s = Inr (m, s') \<Longrightarrow> table s' = table s"
proof (induction n arbitrary: c off bs s m)
  case (Suc n)
  then show ?case by (auto simp: rbind_def dest!: tbl split: prod.splits option.splits if_splits sum.splits)
qed (simp split: if_splits)

lemma write_file_tbl [tbl]: "write_file me f x bs s = Inr (r, s') \<Longrightarrow> table s' = table s"
  by (auto simp: write_file_def rbind_def Let_def dest!: tbl split: prod.splits option.splits if_splits sum.splits)

lemma WriteFile_tbl [tbl]: "WriteFile me h bs s = Inr (r, s') \<Longrightarrow> table s' = table s"
  by (auto simp: WriteFile_def rbind_def Let_def dest!: tbl split: prod.splits option.splits if_splits sum.splits)

lemma ReadFile_tbl [tbl]: "ReadFile me h len s = Inr (r, bs, s') \<Longrightarrow> table s' = table s"
  by (auto simp: ReadFile_def rbind_def Let_def dest!: tbl split: prod.splits option.splits if_splits sum.splits)

lemma ls_entries_tbl [tbl]: "ls_entries n me i buf s = Inr (fin, s') \<Longrightarrow> table s' = table s"
proof (induction n arbitrary: i s)
  case (Suc n)
  then show ?case by (auto simp: rbind_def Let_def dest!: tbl split: prod.splits if_splits sum.splits)
qed simp

lemma ls_sectors_tbl [tbl]: "ls_sectors n me x s = Inr (fin, s') \<Longrightarrow> table s' = table s"
proof (induction n arbitrary: x s)
  case (Suc n)
  then show ?case by (auto simp: rbind_def dest!: tbl split: prod.splits if_splits sum.splits)
qed simp

lemma ls_chain_tbl: "ls_chain n me c s = Inr s' \<Longrightarrow> table s' = table s"
proof (induction n arbitrary: c s)
  case (Suc n)
  then show ?case by (auto simp: rbind_def dest!: tbl split: prod.splits if_splits sum.splits)
qed (simp split: if_splits)

lemma fs_ls_tbl [tbl]: "fs_ls me s = Inr s' \<Longrightarrow> table s' = table s"
  by (simp add: fs_ls_def ls_chain_tbl)

lemma MakeDir_tbl [tbl]: "MakeDir me p s = Inr (r, s') \<Longrightarrow> table s' = table s"
  by (auto simp: MakeDir_def rbind_def Let_def dest!: tbl split: prod.splits option.splits if_splits sum.splits)

lemma empty_sectors_tbl [tbl]: "empty_sectors n x s = Inr (r, s') \<Longrightarrow> table s' = table s"
proof (induction n arbitrary: x s)
  case (Suc n)
  then show ?case by (auto dest!: tbl split: prod.splits if_splits option.splits)
qed simp

lemma empty_chain_tbl [tbl]: "empty_chain n c s = Inr (r, s') \<Longrightarrow> table s' = table s"
proof (induction n arbitrary: c s)
  case (Suc n)
  then show ?case by (auto simp: rbind_def dest!: tbl split: prod.splits if_splits sum.splits option.splits)
qed (simp split: if_splits)

lemma Unlink_tbl [tbl]: "Unlink me p s = Inr (r, s') \<Longrightarrow> table s' = table s"
  by (auto simp: Unlink_def rbind_def Let_def dest!: tbl split: prod.splits option.splits if_splits sum.splits)

lemma mv_tbl [tbl]: "mv me p q s = Inr (r, s') \<Longrightarrow> table s' = table s"
  by (auto simp: mv_def rbind_def Let_def dest!: tbl split: prod.splits option.splits if_splits sum.splits)

lemma heap_tbl [tbl]:
  "kmalloc sz s = Inr (p, s') \<Longrightarrow> table s' = table s" "kmfree p s = Inr s' \<Longrightarrow> table s' = table s"
  by (auto simp: kmalloc_def kmfree_def kmem_cache_free_def rbind_def Let_def dest!: tbl split: prod.splits if_splits sum.splits)

lemma put_user_tbl [tbl]: "put_user me va bs s = Inr s' \<Longrightarrow> table s' = table s"
  by (auto simp: put_user_def rbind_def split: sum.splits)

lemma console_take_tbl [tbl]: "console_take n i s = (bs, slp, s') \<Longrightarrow> table s' = table s"
proof (induction n arbitrary: i s bs)
  case (Suc n)
  then show ?case by (auto simp: Let_def dest!: tbl split: prod.splits if_splits)
qed simp

lemma grow_pages_tbl [tbl]: "grow_pages n pt a s = (ok, s') \<Longrightarrow> table s' = table s"
proof (induction n arbitrary: a s)
  case (Suc n)
  then show ?case by (auto simp: Let_def dest!: tbl split: prod.splits if_splits)
qed simp

lemma uvmfree_tbl [tbl]: "uvmfree pt sz s = Inr s' \<Longrightarrow> table s' = table s"
  by (intro table_more uvmfree_more)

lemma destroy_tbl [tbl]: "kmem_cache_destroy p c s = Inr s' \<Longrightarrow> table s' = table s"
proof -
  have "table s' = table s" if "destroy_loop n q s = Inr s'" for n q and s s' :: kernel
    using that by (induction n arbitrary: q s) (auto simp: Let_def split: if_splits)
  then show "kmem_cache_destroy p c s = Inr s' \<Longrightarrow> table s' = table s"
    by (auto simp: kmem_cache_destroy_def rbind_def split: sum.splits)
qed

lemma ps_loop_tbl [tbl]: "ps_loop ps me buf cnt mx s = Inr (n, s') \<Longrightarrow> table s' = table s"
proof (induction ps arbitrary: cnt s)
  case (Cons p ps)
  then show ?case by (auto simp: rbind_def dest!: tbl split: if_splits sum.splits)
qed simp


subsection \<open>The capability masks\<close>

definition caps_of :: "kernel \<Rightarrow> u64 list \<times> (nat \<Rightarrow> nat option)" where
  "caps_of s = (map p_caps (procs s), cpu_proc s)"

named_theorems cps \<open>operations that leave the capability masks alone\<close>

lemma table_caps: "table s' = table s \<Longrightarrow> caps_of s' = caps_of s"
  by (simp add: table_def caps_of_def)

lemma bare_caps: "bare s' = bare s \<Longrightarrow> caps_of s' = caps_of s"
proof -
  have m: "map p_caps ps = map p_caps (map (p_handles_update (\<lambda>_. [])) ps)" for ps by (simp add: comp_def)
  show "bare s' = bare s \<Longrightarrow> caps_of s' = caps_of s"
    unfolding bare_def caps_of_def by (subst (1 2) m) simp
qed

lemma caps_fields [simp]:
  "caps_of (s\<lparr>mem := m\<rparr>) = caps_of s" "caps_of (s\<lparr>hart := x\<rparr>) = caps_of s" "caps_of (s\<lparr>pid_alive := a\<rparr>) = caps_of s"
  "caps_of (s\<lparr>ticks := t\<rparr>) = caps_of s" "caps_of (s\<lparr>uart_rx := rx\<rparr>) = caps_of s" "caps_of (s\<lparr>cons_e := z\<rparr>) = caps_of s"
  "caps_of (s\<lparr>cons_w := z\<rparr>) = caps_of s" "caps_of (s\<lparr>cons_buf := b\<rparr>) = caps_of s"
  by (simp_all add: caps_of_def)

lemma caps_steps [simp]:
  "caps_of (acquire h s) = caps_of s" "caps_of (set_sie b h s) = caps_of s" "caps_of (set_ctx i off v s) = caps_of s"
  "caps_of (w_sstatus h x s) = caps_of s"
  by (simp_all add: acquire_def set_sie_def set_ctx_def w_sstatus_def)

lemma caps_calls [simp]:
  "caps_of (kfree p s) = caps_of s" "caps_of (uart_putc c s) = caps_of s" "caps_of (set_handle i k f s) = caps_of s"
  by (rule table_caps, simp, rule table_caps, simp, rule bare_caps, simp)

lemma upd_proc_caps: "(\<And>p. p_caps (f p) = p_caps p) \<Longrightarrow> caps_of (upd_proc i f s) = caps_of s"
  by (cases "i < length (procs s)") (simp_all add: caps_of_def upd_proc_def map_update list_update_same_conv list_update_beyond)

lemma wake_pcb_caps [simp]: "p_caps (wake_pcb ch p) = p_caps p"
  by (simp add: wake_pcb_def Let_def)

lemma wakeup_caps [simp]: "caps_of (wakeup h ch s) = caps_of s"
proof -
  have "map p_caps (procs (wakeup h ch s)) = map p_caps (procs s)"
    by (rule nth_equalityI) (simp_all add: wakeup_def)
  then show ?thesis by (simp add: caps_of_def) (simp add: wakeup_def)
qed

lemma release_caps [cps]: "release h s = Inr s' \<Longrightarrow> caps_of s' = caps_of s"
  by (auto simp: release_def rbind_def split: sum.splits)

lemma leave_caps [cps]:
  "sleep h ch s = Inr s' \<Longrightarrow> caps_of s' = caps_of s" "yield h s = Inr s' \<Longrightarrow> caps_of s' = caps_of s"
  by (auto simp: sleep_def yield_def rbind_def Let_def sleep_pcb_def yield_pcb_def upd_proc_caps dest!: cps
      split: option.splits sum.splits)

lemma close_caps [cps]: "file_close f s = Inr s' \<Longrightarrow> caps_of s' = caps_of s" "CloseHandle me k s = Inr s' \<Longrightarrow> caps_of s' = caps_of s"
  by (auto simp: CloseHandle_def rbind_def Let_def dest!: file_bare bare_caps split: if_splits sum.splits)

lemma fold_caps:
  assumes "\<And>x s s'. f x s = Inr s' \<Longrightarrow> caps_of s' = caps_of s"
  shows "rfold f xs s = Inr s' \<Longrightarrow> caps_of s' = caps_of s"
  using assms by (rule rfold_rel [where R = "\<lambda>s s'. caps_of s' = caps_of s", rotated 2]) simp_all

lemma exit_caps [cps]: "exit h st s = Inr s' \<Longrightarrow> caps_of s' = caps_of s"
proof -
  have t: "caps_of s' = caps_of s" if "exit_tail h i st s = Inr s'" for i and s s' :: kernel
    using that by (auto simp: exit_tail_def rbind_def Let_def zombie_pcb_def upd_proc_caps split: sum.splits)
  assume "exit h st s = Inr s'"
  then obtain i u where "rfold (\<lambda>k s. if p_handles (procs s ! i) ! k \<noteq> 0 then CloseHandle i (of_nat k) s else Inr s) [0..<MAX_HANDLES] s = Inr u"
      "exit_tail h i st u = Inr s'"
    by (auto simp: exit_def rbind_def split: option.splits sum.splits)
  moreover have "caps_of u = caps_of s"
    using calculation(1) by (rule fold_caps [rotated]) (auto dest: cps split: if_splits)
  ultimately show ?thesis using t by simp
qed

lemma free_space_caps [cps]: "free_space i s = Inr s' \<Longrightarrow> caps_of s' = caps_of s"
proof -
  have "caps_of s' = caps_of s" if "close_files i s = Inr s'" for s s' :: kernel
    using that unfolding close_files_def
    by (rule fold_caps [rotated]) (auto simp: rbind_def Let_def dest!: cps split: sum.splits if_splits)
  then show "free_space i s = Inr s' \<Longrightarrow> caps_of s' = caps_of s"
    by (auto simp: free_space_def rbind_def Let_def upd_proc_caps dest!: uvmfree_tbl table_caps split: sum.splits if_splits)
qed

lemma wait_caps [cps]:
  "wait_pass h me pid s = Inr (r, s') \<Longrightarrow> caps_of s' = caps_of s" "wait h pid s = Inr (r, s') \<Longrightarrow> caps_of s' = caps_of s"
proof -
  show p: "caps_of s' = caps_of s" if "wait_pass h me pid s = Inr (r, s')" for me and s :: kernel
    using that by (auto simp: wait_pass_def reap_def reap_pcb_def rbind_def Let_def upd_proc_caps dest!: cps
        split: option.splits sum.splits if_splits)
  show "wait h pid s = Inr (r, s') \<Longrightarrow> caps_of s' = caps_of s"
    by (auto simp: wait_def dest!: p split: option.splits if_splits)
qed

lemma kill_caps [cps]: "kill h pid s = (r, s') \<Longrightarrow> caps_of s' = caps_of s"
  by (auto simp: kill_def kill_pcb_def Let_def upd_proc_caps split: option.splits if_splits)

lemma growproc_caps [cps]: "growproc h n s = Inr (r, s') \<Longrightarrow> caps_of s' = caps_of s"
  by (auto simp: growproc_def Let_def upd_proc_caps dest!: tbl table_caps split: option.splits if_splits prod.splits)

lemma ChangeDir_caps [cps]: "ChangeDir me p s = Inr (r, s') \<Longrightarrow> caps_of s' = caps_of s"
  by (auto simp: ChangeDir_def rbind_def Let_def upd_proc_caps dest!: tbl table_caps split: option.splits if_splits prod.splits sum.splits)

lemma sleep_resume_caps [cps]: "sleep_resume h s = Inr (x, s') \<Longrightarrow> caps_of s' = caps_of s"
  by (auto simp: sleep_resume_def rbind_def Let_def upd_proc_caps dest!: cps split: option.splits if_splits sum.splits)

lemma uart_intr_caps [simp]: "caps_of (uart_intr h s) = caps_of s"
proof -
  have k: "caps_of (uart_key h c s) = caps_of s" for c and s :: kernel
    by (simp add: uart_key_def Let_def)
  have "caps_of (uart_drain n h s) = caps_of s" for n and s :: kernel
    by (induction n arbitrary: s) (auto simp: uart_getc_def k split: prod.splits option.splits list.splits)
  then show ?thesis by (simp only: uart_intr_def)
qed


subsection \<open>Confinement\<close>

text \<open>Between two states, each slot keeps its mask or gets a part of \<open>c\<close>.\<close>

definition within :: "u64 \<Rightarrow> u64 \<Rightarrow> u64 \<Rightarrow> bool" where
  "within c old new \<longleftrightarrow> new = old \<or> has_capability c new"

definition confined :: "u64 \<Rightarrow> kernel \<Rightarrow> kernel \<Rightarrow> bool" where
  "confined c s s' \<longleftrightarrow> list_all2 (within c) (map p_caps (procs s)) (map p_caps (procs s')) \<and> cpu_proc s' = cpu_proc s"

lemma confined_refl: "caps_of s' = caps_of s \<Longrightarrow> confined c s s'"
  by (simp add: confined_def caps_of_def within_def list_all2_refl)

lemma confined_trans [trans]: "confined c s t \<Longrightarrow> confined c t u \<Longrightarrow> confined c s u"
  unfolding confined_def
  by (elim conjE, intro conjI, rule list_all2_trans [where ?P1.0 = "within c" and ?P2.0 = "within c"]) (auto simp: within_def)

lemma confined_cong: "caps_of t = caps_of s \<Longrightarrow> confined c t s' = confined c s s'"
  by (simp add: confined_def caps_of_def)

lemma upd_proc_confined: "(\<And>p. within c (p_caps p) (p_caps (f p))) \<Longrightarrow> confined c s (upd_proc i f s)"
  by (cases "i < length (procs s)")
    (auto simp: confined_def upd_proc_def list_all2_conv_all_nth nth_list_update within_def list_update_beyond)

lemma has_capability_0 [simp]: "has_capability c 0"
  by (simp add: has_capability_def)

lemma allocpid_caps [cps]: "allocpid s = Inr (pid, s') \<Longrightarrow> caps_of s' = caps_of s"
  by (auto simp: allocpid_def rbind_def caps_of_def split: sum.splits)

lemma kalloc_caps [cps]: "kalloc s = (p, s') \<Longrightarrow> caps_of s' = caps_of s"
  and uvmcreate_caps [cps]: "uvmcreate ctx s = (pt, s') \<Longrightarrow> caps_of s' = caps_of s"
  and mappages_caps [cps]: "mappages pt va pa sz perm s = (x, s') \<Longrightarrow> caps_of s' = caps_of s"
  by (rule table_caps, erule tbl)+

lemma redirect_caps [cps]: "redirect me i f s = Inr s' \<Longrightarrow> caps_of s' = caps_of s"
  by (rule bare_caps, erule redirect_bare)

lemma init_pcb_caps [simp]: "caps_of (upd_proc i (init_pcb pid) s) = caps_of s"
  by (simp add: upd_proc_caps init_pcb_def)

lemma allocproc_confined:
  assumes "allocproc fr s = Inr (r, s')"
  shows "confined c s s'"
proof (cases "unused_slot (procs s)")
  case None
  then show ?thesis using assms by (simp add: allocproc_def confined_refl)
next
  case (Some i)
  then obtain pid s1 where a: "allocpid s = Inr (pid, s1)" using assms by (auto simp: allocproc_def rbind_def split: sum.splits)
  obtain ctx s2 where k: "kalloc (upd_proc i (init_pcb pid) s1) = (ctx, s2)" by fastforce
  let ?s3 = "upd_proc i (p_context_update (\<lambda>_. ctx)) s2"
  obtain pt s4 where u: "uvmcreate ctx (?s3\<lparr>mem := fill_page (mem ?s3) ctx 0\<rparr>) = (pt, s4)" by fastforce
  let ?s5 = "upd_proc i (p_pagetable_update (\<lambda>_. pt)) s4"
  let ?f = "\<lambda>p. p\<lparr>p_sched_ctx := first_context fr (p_kstack p + PGSIZE), p_cwd_cluster := fs_get_root_cluster ?s5,
    p_cwd_path := ''/'', p_caps := 0\<rparr>"
  have c: "caps_of ?s3 = caps_of s" "caps_of ?s5 = caps_of s"
    using a k u by (auto simp: upd_proc_caps dest!: cps)
  have "s' \<in> {?s3, ?s5} \<or> caps_of s' = caps_of (upd_proc i ?f ?s5)"
    using assms Some a k u by (auto simp: allocproc_def rbind_def Let_def split: if_splits)
  moreover have "confined c ?s5 (upd_proc i ?f ?s5)" by (rule upd_proc_confined) (simp add: within_def)
  ultimately show ?thesis using c confined_refl confined_cong [OF c(2)] confined_trans by blast
qed

lemma spawn_bad_caps [cps]: "spawn_bad i s = Inr (r, s') \<Longrightarrow> caps_of s' = caps_of s"
  by (auto simp: spawn_bad_def rbind_def upd_proc_caps dest!: cps split: sum.splits)

lemma start_image_caps [cps]: "start_image me i path args entry sz s = Inr (r, s') \<Longrightarrow> caps_of s' = caps_of s"
  by (auto simp: start_image_def rbind_def Let_def upd_proc_caps dest!: cps split: prod.splits sum.splits if_splits)

lemma load_image_caps [cps]: "load_image me path pt s = Inr (r, s') \<Longrightarrow> caps_of s' = caps_of s"
  by (rule table_caps, erule tbl)

lemma spawn_confined:
  assumes "spawn fr h path args cap s = Inr (r, s')" and "has_capability c cap"
  shows "confined c s s'"
proof -
  obtain slot s1 where a: "allocproc fr s = Inr (slot, s1)" using assms(1) by (auto simp: spawn_def rbind_def split: sum.splits)
  show ?thesis
  proof (cases slot)
    case None
    then show ?thesis using assms(1) a allocproc_confined [OF a] by (simp add: spawn_def rbind_def)
  next
    case (Some i)
    let ?s2 = "upd_proc i (inherit (map_option ((!) (procs s1)) (myproc h s1)) cap) s1"
    have "caps_of s' = caps_of ?s2"
      using assms(1) a Some by (auto simp: spawn_def rbind_def Let_def dest!: cps split: sum.splits option.splits)
    moreover have "confined c s1 ?s2"
      by (rule upd_proc_confined) (use assms(2) in \<open>simp add: within_def inherit_def split: option.splits\<close>)
    ultimately show ?thesis using allocproc_confined [OF a] confined_refl confined_trans by blast
  qed
qed


subsection \<open>The handlers\<close>

definition keeps_caps :: "handler \<Rightarrow> bool" where
  "keeps_caps f \<longleftrightarrow> (\<forall>e h me s r s'. f e h me s = Inr (r, s') \<longrightarrow> confined (p_caps (procs s ! me)) s s')"

lemma keeps_caps_refl: "(\<And>e h me s r s'. f e h me s = Inr (r, s') \<Longrightarrow> caps_of s' = caps_of s) \<Longrightarrow> keeps_caps f"
  by (auto simp: keeps_caps_def intro: confined_refl)

lemma CreateHandler_caps [cps]: "CreateHandler me path mode s = Inr (k, s') \<Longrightarrow> caps_of s' = caps_of s"
  by (rule bare_caps, erule CreateHandler_bare)

lemma read_console_caps [cps]: "read_console h me buf n i s = Inr (r, s') \<Longrightarrow> caps_of s' = caps_of s"
  by (auto simp: read_console_def rbind_def dest!: cps dest!: tbl table_caps split: prod.splits sum.splits if_splits)

lemma sleep_pass_caps [cps]: "sleep_pass h me t0 tm s = Inr (r, s') \<Longrightarrow> caps_of s' = caps_of s"
  by (auto simp: sleep_pass_def rbind_def dest!: cps split: sum.splits if_splits)

lemma path_call_caps:
  assumes "\<And>me p s r s'. f me p s = Inr (r, s') \<Longrightarrow> caps_of s' = caps_of s"
  shows "path_call f e h me s = Inr (r, s') \<Longrightarrow> caps_of s' = caps_of s"
  by (auto simp: path_call_def rbind_def Let_def dest: assms split: sum.splits if_splits)

lemma file_calls_keep:
  "keeps_caps sys_create_file" "keeps_caps sys_mkdir" "keeps_caps sys_chdir" "keeps_caps sys_unlink" "keeps_caps sys_rename"
  by (rule keeps_caps_refl, auto simp: sys_create_file_def sys_mkdir_def sys_chdir_def sys_unlink_def sys_rename_def rbind_def Let_def
      dest!: tbl table_caps path_call_caps [rotated] cps split: sum.splits if_splits)+

lemma transfer_calls_keep:
  "keeps_caps sys_read_file" "keeps_caps sys_write_file" "keeps_caps sys_close_handle" "keeps_caps sys_ls" "keeps_caps sys_getcwd"
  by (rule keeps_caps_refl, auto simp: sys_read_file_def sys_write_file_def sys_close_handle_def sys_ls_def sys_getcwd_def rbind_def Let_def
      dest!: tbl table_caps cps split: sum.splits if_splits)+

lemma process_calls_keep:
  "keeps_caps sys_wait" "keeps_caps sys_exit" "keeps_caps sys_getpid" "keeps_caps sys_kill" "keeps_caps sys_sbrk"
  "keeps_caps sys_trace" "keeps_caps sys_getcaps" "keeps_caps sys_ps"
  by (rule keeps_caps_refl, auto simp: sys_wait_def sys_exit_def sys_getpid_def sys_kill_def sys_sbrk_def sys_trace_def sys_getcaps_def
      sys_ps_def rbind_def Let_def upd_proc_caps dest!: tbl table_caps cps split: sum.splits if_splits prod.splits)+

lemma system_calls_keep:
  "keeps_caps sys_get_ticks" "keeps_caps sys_sleep" "keeps_caps sys_trap" "keeps_caps sys_panic" "keeps_caps sys_poweroff"
  "keeps_caps sys_reboot" "keeps_caps sys_get_abi_info" "keeps_caps sys_get_version"
  by (rule keeps_caps_refl, auto simp: sys_get_ticks_def sys_sleep_def sys_trap_def sys_panic_def sys_poweroff_def sys_reboot_def
      shutdown_def sys_get_abi_info_def sys_get_version_def rbind_def Let_def
      dest!: tbl table_caps cps split: sum.splits if_splits option.splits)+

lemma spawn_call_keep:
  assumes "\<And>caps msk cap. child_caps caps msk = Some cap \<Longrightarrow> has_capability caps cap"
  shows "keeps_caps (spawn_call child_caps)"
  unfolding keeps_caps_def
proof (intro allI impI)
  fix e h me s r s'
  assume c: "spawn_call child_caps e h me s = Inr (r, s')"
  show "confined (p_caps (procs s ! me)) s s'"
  proof (cases "child_caps (p_caps (procs s ! me)) (arg uc_a2 me s)")
    case None
    then show ?thesis using c by (simp add: spawn_call_def confined_refl)
  next
    case (Some cap)
    then have "s' = s \<or> (\<exists>p args x. spawn (forkret_addr e) h p args cap s = Inr (x, s'))"
      using c by (auto simp: spawn_call_def Let_def rbind_def split: if_splits sum.splits)
    then show ?thesis using spawn_confined assms [OF Some] confined_refl by blast
  qed
qed

lemma spawn_calls_keep: "keeps_caps sys_spawn" "keeps_caps sys_sandbox"
  unfolding sys_spawn_def sys_sandbox_def
  by (rule spawn_call_keep; simp add: sys_spawn_caps_def sys_sandbox_caps_def resolve_child_subset)+

lemma handlers_keep: "map_of syscall_table n = Some f \<Longrightarrow> keeps_caps f"
proof -
  have "\<forall>(n, f) \<in> set syscall_table. keeps_caps f"
    by (simp add: syscall_table_def file_calls_keep transfer_calls_keep process_calls_keep system_calls_keep spawn_calls_keep)
  then show "map_of syscall_table n = Some f \<Longrightarrow> ?thesis" by (auto dest: map_of_SomeD)
qed

lemma gate_known: "gate c num a0 = Allowed \<Longrightarrow> \<exists>f. map_of syscall_table (unat num) = Some f"
proof -
  have "map fst syscall_table = map fst syscall_names" by (simp add: syscall_table_def syscall_names_def)
  then have "map_of syscall_table n = None \<longleftrightarrow> map_of syscall_names n = None" for n
    by (metis list.set_map map_of_eq_None_iff)
  moreover have "gate c num a0 = Allowed \<Longrightarrow> map_of syscall_names (unat num) \<noteq> None" by (auto simp: gate_def split: if_splits)
  ultimately show "gate c num a0 = Allowed \<Longrightarrow> ?thesis" by (metis not_None_eq)
qed

lemma finish_caps: "finish me num a0 (r, s) = Inr (r', s') \<Longrightarrow> caps_of s' = caps_of s"
  by (auto simp: finish_def rbind_def Let_def dest!: tbl table_caps split: outcome.splits sum.splits if_splits)

lemma dispatcher_confined:
  assumes "syscall_dispatcher e h me s = Inr (r, s')"
  shows "confined (p_caps (procs s ! me)) s s'"
proof (cases "gate (p_caps (procs s ! me)) (arg uc_a7 me s) (arg uc_a0 me s)")
  case Allowed
  then obtain f where f: "map_of syscall_table (unat (arg uc_a7 me s)) = Some f" using gate_known by blast
  then obtain r1 s1 where "f e h me s = Inr (r1, s1)" "finish me (unat (arg uc_a7 me s)) (arg uc_a0 me s) (r1, s1) = Inr (r, s')"
    using assms Allowed by (auto simp: syscall_dispatcher_def Let_def rbind_def split: sum.splits)
  then show ?thesis
    using handlers_keep [OF f] finish_caps confined_refl confined_trans unfolding keeps_caps_def by blast
next
  case Denied
  then show ?thesis using assms
    by (auto simp: syscall_dispatcher_def Let_def rbind_def intro!: confined_refl dest!: tbl table_caps split: sum.splits)
next
  case Unknown
  then show ?thesis using assms
    by (auto simp: syscall_dispatcher_def Let_def rbind_def intro!: confined_refl dest!: tbl table_caps split: sum.splits)
qed


subsection \<open>Traps\<close>

lemma return_caps [cps]: "user_trap_return e h st s = Inr (t, s') \<Longrightarrow> caps_of s' = caps_of s"
  by (auto simp: user_trap_return_def rbind_def Let_def dest!: cps split: option.splits if_splits sum.splits)

lemma after_call_caps [cps]: "after_call e h st num a0 (r, s) = Inr (t, s') \<Longrightarrow> caps_of s' = caps_of s"
  by (auto simp: after_call_def dest!: cps split: outcome.splits)

lemma interrupt_caps [cps]: "interrupt_table n = Some f \<Longrightarrow> f inp h s = Inr (dv, s') \<Longrightarrow> caps_of s' = caps_of s"
  by (auto simp: interrupt_table_def handle_timer_def handle_external_def rbind_def Let_def dest!: cps tbl table_caps
      split: if_splits sum.splits)

lemma kernel_trap_caps [cps]: "kernel_trap_handler inp h st cause s = Inr (dv, s') \<Longrightarrow> caps_of s' = caps_of s"
  by (auto simp: kernel_trap_handler_def rbind_def dest!: tbl table_caps intro: cps split: if_splits option.splits sum.splits)

lemma resume_caps [cps]: "resume h me pnd s = Inr (r, s') \<Longrightarrow> caps_of s' = caps_of s"
  by (auto simp: resume_def rbind_def dest!: cps split: sum.splits if_splits pending.splits)

lemma trap_resume_caps [cps]: "user_trap_resume e h st t s = Inr (t', s') \<Longrightarrow> caps_of s' = caps_of s"
  by (auto simp: user_trap_resume_def rbind_def dest!: finish_caps cps split: trap_end.splits option.splits sum.splits)

lemma forkret_caps [cps]: "forkret e h st s = Inr (t, s') \<Longrightarrow> caps_of s' = caps_of s"
  by (auto simp: forkret_def rbind_def dest!: cps split: sum.splits)

lemma set_ctx_procs [simp]: "procs (set_ctx me off v s) = procs s" "procs (set_sie b h s) = procs s"
  by (simp_all add: set_ctx_def set_sie_def)

lemma user_trap_confined:
  assumes "user_trap_handler e inp h st cause epc tval s = Inr (dv, t, s')" and "myproc h s = Some me"
  shows "confined (p_caps (procs s ! me)) s s'"
proof (cases "cause = 8")
  case True
  let ?s2 = "set_sie True h (set_ctx me uc_epc (get_ctx me uc_epc (set_ctx me uc_epc epc s) + 4) (set_ctx me uc_epc epc s))"
  obtain r s3 where d: "syscall_dispatcher e h me ?s2 = Inr (r, s3)" "caps_of s' = caps_of s3"
    using assms True by (auto simp: user_trap_handler_def rbind_def Let_def dest!: cps split: if_splits sum.splits)
  have "confined (p_caps (procs ?s2 ! me)) ?s2 s3" by (rule dispatcher_confined [OF d(1)])
  then have "confined (p_caps (procs s ! me)) s s3" by (simp add: confined_cong [of ?s2 s])
  then show ?thesis using confined_refl [OF d(2)] confined_trans by blast
next
  case False
  then have "caps_of s' = caps_of s"
    using assms
    by (auto simp: user_trap_handler_def rbind_def Let_def dest!: interrupt_caps cps tbl table_caps
        split: if_splits sum.splits option.splits)
  then show ?thesis by (rule confined_refl)
qed

subsection \<open>Runs of the kernel\<close>

text \<open>
  The process control blocks are slab objects in the kernel's RAM (\<^verbatim>\<open>procinit\<close>), which every user page table maps for
  the kernel, and no handler checks the pointers it is given. Where a system call stores for its caller: \<open>stored_range\<close>
  is the buffer of the call in the saved registers, \<open>user_page\<close> an address that user mode may access itself.
\<close>

definition user_page :: "mem \<Rightarrow> u64 \<Rightarrow> u64 \<Rightarrow> bool" where
  "user_page m pt va \<longleftrightarrow>
     (let e = leaf m pt (vpath va) in va < MAXVA \<and> e AND PTE_V \<noteq> 0 \<and> e AND PTE_U \<noteq> 0)"

definition own_range :: "nat \<Rightarrow> u64 \<Rightarrow> nat \<Rightarrow> kernel \<Rightarrow> bool" where
  "own_range me va n s = list_all (\<lambda>i. user_page (mem s) (user_pt me s) (va + of_nat i)) [0..<n]"

definition stored_range :: "nat \<Rightarrow> kernel \<Rightarrow> u64 \<times> nat" where
  "stored_range me s =
     (let num = unat (arg uc_a7 me s); a0 = arg uc_a0 me s; a1 = arg uc_a1 me s; a2 = arg uc_a2 me s in
      if num = SYS_GETCWD then (a0, length (take (unat ((ucast a1 :: u32) - 1)) (p_cwd_path (procs s ! me))) + 1)
      else if num = SYS_READ_FILE then (a1, unat (ucast a2 :: u32))
      else if num = SYS_PS then (a0, 40 * min (unat (ucast a1 :: u32)) (length (procs s)))
      else if num = SYS_GET_VERSION then (a0, length KERNEL_VERSION + 1)
      else if num = SYS_GET_ABI_INFO then (a1, length KERNEL_ABI_INFO)
      else (0, 0))"

text \<open>A trap, and the rest of a call that slept, store to the caller's own pages only.\<close>

definition own_call :: "nat \<Rightarrow> u64 \<Rightarrow> kernel \<Rightarrow> bool" where
  "own_call h cause s \<longleftrightarrow>
     (case myproc h s of
        Some me \<Rightarrow> cause = 8 \<longrightarrow> (case stored_range me s of (va, n) \<Rightarrow> own_range me va n s)
      | None \<Rightarrow> True)"

definition own_rest :: "nat \<Rightarrow> trap_end \<Rightarrow> kernel \<Rightarrow> bool" where
  "own_rest h t s \<longleftrightarrow>
     (case (myproc h s, t) of
        (Some me, Stopped (ReadCons buf n i) num a0) \<Rightarrow> own_range me buf n s
      | _ \<Rightarrow> True)"

text \<open>
  What user code can do to memory: stores to the pages it may write, and the registers that
  \<^verbatim>\<open>user_vector\<close> saves in its context on the next trap.
\<close>

definition user_code :: "nat \<Rightarrow> kernel \<Rightarrow> mem \<Rightarrow> bool" where
  "user_code me s m \<longleftrightarrow>
     (\<forall>a. get_byte m a \<noteq> get_byte (mem s) a \<longrightarrow>
        (let off = a - p_context (procs s ! me) in 40 \<le> off \<and> off < 288) \<or>
        (\<exists>va. user_page (mem s) (user_pt me s) va \<and> mmu True (mem s) (user_pt me s) va = Some a))"

text \<open>
  The steps of a hart: a trap from user mode, a trap in the kernel, the rest of a trap whose process was
  switched out, the first run of a process, the two halves of the scheduler, and user code. Any hart may
  take any step at any time. The flag tells whether the step stores through its caller's own pointers only; a step that does not
  may overwrite the kernel's own data, the control blocks among them, and then any state may follow.
\<close>

inductive kstep :: "kenv \<Rightarrow> nat \<Rightarrow> bool \<Rightarrow> trap_end option \<Rightarrow> kernel \<Rightarrow> kernel \<Rightarrow> bool" for e h where
  user: "user_trap_handler e inp h st cause epc tval s = Inr (dv, t, s') \<Longrightarrow> kstep e h (own_call h cause s) (Some t) s s'"
| kernel: "kernel_trap_handler inp h st cause s = Inr (dv, s') \<Longrightarrow> kstep e h True None s s'"
| rest: "user_trap_resume e h st t0 s = Inr (t, s') \<Longrightarrow> kstep e h (own_rest h t0 s) (Some t) s s'"
| first: "forkret e h st s = Inr (t, s') \<Longrightarrow> kstep e h True (Some t) s s'"
| run: "pick (procs s) = Some i \<Longrightarrow> kstep e h True None s (dispatch h i s)"
| stop: "i < length (procs s) \<Longrightarrow> kstep e h True None s (switched_back h i s)"
| prog: "myproc h s = Some me \<Longrightarrow> user_code me s m \<Longrightarrow> kstep e h True None s (s\<lparr>mem := m\<rparr>)"
| wild: "kstep e h False t s s' \<Longrightarrow> kstep e h False None s s''"

text \<open>The runs in which every pointer passed to a system call is the caller's own.\<close>

definition own_runs :: "kenv \<Rightarrow> kernel \<Rightarrow> kernel \<Rightarrow> bool" where
  "own_runs e = (\<lambda>s s'. \<exists>h t. kstep e h True t s s')\<^sup>*\<^sup>*"

definition all_caps :: "kernel \<Rightarrow> u64" where
  "all_caps s = foldr (OR) (map p_caps (procs s)) 0"

definition below :: "u64 \<Rightarrow> kernel \<Rightarrow> bool" where
  "below c s \<longleftrightarrow> (\<forall>p \<in> set (procs s). has_capability c (p_caps p)) \<and> (\<forall>h i. cpu_proc s h = Some i \<longrightarrow> i < length (procs s))"

lemma below_confined:
  assumes "below c s" and "confined d s s'" and "has_capability c d"
  shows "below c s'"
proof -
  have l: "length (procs s') = length (procs s)" using assms(2) list_all2_lengthD by (fastforce simp: confined_def)
  have "has_capability c (p_caps (procs s' ! i))" if "i < length (procs s')" for i
  proof -
    have "within d (p_caps (procs s ! i)) (p_caps (procs s' ! i))"
      using assms(2) that l by (auto simp: confined_def list_all2_conv_all_nth)
    moreover have "has_capability c (p_caps (procs s ! i))" using assms(1) that l by (simp add: below_def)
    ultimately show ?thesis using assms(3) has_capability_mono by (auto simp: within_def)
  qed
  then show ?thesis using assms(1,2) l by (auto simp: below_def confined_def in_set_conv_nth)
qed

lemma below_caps: "below c s \<Longrightarrow> map p_caps (procs s') = map p_caps (procs s) \<Longrightarrow>
    (\<forall>h i. cpu_proc s' h = Some i \<longrightarrow> i < length (procs s)) \<Longrightarrow> below c s'"
proof -
  assume b: "below c s" and m: "map p_caps (procs s') = map p_caps (procs s)" and h: "\<forall>h i. cpu_proc s' h = Some i \<longrightarrow> i < length (procs s)"
  have l: "length (procs s') = length (procs s)" by (rule map_eq_imp_length_eq [OF m])
  have "p_caps (procs s' ! i) = p_caps (procs s ! i)" if "i < length (procs s')" for i
    using arg_cong [OF m, of "\<lambda>xs. xs ! i"] that l by simp
  then show "below c s'" using b h l by (auto simp: below_def all_set_conv_all_nth)
qed

lemma pick_less: "pick ps = Some i \<Longrightarrow> i < length ps"
  using pick_scanned [of ps] by (auto simp: scanned_def)

lemma below_same: "caps_of s' = caps_of s \<Longrightarrow> below c s \<Longrightarrow> below c s'"
  by (rule below_confined [where d = 0]) (auto intro: confined_refl)

lemma below_dispatch: "i < length (procs s) \<Longrightarrow> below c s \<Longrightarrow> below c (dispatch h i s)"
  by (rule below_caps [of c s]) (auto simp: dispatch_def upd_proc_def below_def map_update list_update_same_conv)

lemma below_switched:
  assumes "below c s"
  shows "below c (switched_back h i s)"
proof (rule below_caps [OF assms])
  have c: "p_caps (account p) = p_caps p" "p_caps (age p) = p_caps p" for p
    by (simp_all add: account_def age_def age_body_def Let_def)
  have "map p_caps (after_run i ps) = map p_caps ps" for ps
    by (cases "i < length ps") (simp_all add: after_run_def c map_update comp_def list_update_same_conv list_update_beyond)
  then show "map p_caps (procs (switched_back h i s)) = map p_caps (procs s)" by (simp add: switched_back_def)
qed (use assms in \<open>auto simp: switched_back_def below_def\<close>)

lemma below_step:
  assumes "kstep e h True t s s'" and "below c s"
  shows "below c s'"
  using assms(1)
proof (cases rule: kstep.cases)
  case (user inp st cause epc tval dv t)
  then obtain me where me: "myproc h s = Some me" by (auto simp: user_trap_handler_def split: option.splits)
  then have "has_capability c (p_caps (procs s ! me))" using assms(2) by (simp add: below_def myproc_def)
  then show ?thesis using below_confined user_trap_confined [OF user(3) me] assms(2) by blast
next
  case (run i)
  then show ?thesis using below_dispatch [OF pick_less] assms(2) by simp
next
  case (stop i)
  then show ?thesis using below_switched assms(2) by simp
qed (use assms(2) in \<open>auto dest!: cps intro: below_same\<close>)

lemma below_runs: "own_runs e s s' \<Longrightarrow> below c s \<Longrightarrow> below c s'"
  unfolding own_runs_def by (induction rule: rtranclp_induct) (auto dest: below_step)

lemma all_caps_top: "p \<in> set (procs s) \<Longrightarrow> has_capability (all_caps s) (p_caps p)"
proof -
  have "x \<in> set xs \<Longrightarrow> bit x n \<Longrightarrow> bit (foldr (OR) xs 0) n" for x n and xs :: "u64 list"
    by (induction xs) (auto simp: bit_or_iff)
  from this [of "p_caps p" "map p_caps (procs s)"] show "p \<in> set (procs s) \<Longrightarrow> ?thesis"
    by (simp add: all_caps_def has_capability_bits)
qed

end
