(* ===== verification/RV_Traps.thy ===== *)
theory RV_Traps
  imports RV_Confine
begin

text \<open>
  Properties of whole traps: the capability masks over runs of the kernel, the way back to user mode, the
  timing of \<^verbatim>\<open>sys_sleep\<close>, and the stores of a system call through a pointer into the kernel.
\<close>

unbundle bit_operations_syntax

subsection \<open>A sleeping system call\<close>

text \<open>
  What can happen to a process \<open>me\<close> between its call of \<^verbatim>\<open>sys_sleep\<close> and the return, in any order: a timer interrupt on
  any hart; the scheduler of any idle hart runs the process again when it is runnable, for one more pass of the loop
  (\<open>pass\<close>) or to the end (\<open>ret\<close>); and steps of the other processes and harts, which leave the process and the ticks as they are
  (\<open>others\<close>; a kill of the process is excluded). \<open>sleeping\<close> counts the timer interrupts.
\<close>

definition idle :: "nat \<Rightarrow> kernel \<Rightarrow> bool" where
  "idle k s \<longleftrightarrow> cpu_proc s k = None \<and> nlock (hart s k) = 0"

definition others :: "nat \<Rightarrow> kernel \<Rightarrow> kernel \<Rightarrow> bool" where
  "others me s s' \<longleftrightarrow> ticks s' = ticks s \<and> length (procs s') = length (procs s) \<and> (\<forall>k. cpu_proc s' k \<noteq> Some me) \<and>
     p_state (procs s' ! me) = p_state (procs s ! me) \<and> p_chan (procs s' ! me) = p_chan (procs s ! me) \<and>
     p_killed (procs s' ! me) = p_killed (procs s ! me)"

inductive sleeping :: "nat \<Rightarrow> outcome \<times> kernel \<Rightarrow> nat \<Rightarrow> outcome \<times> kernel \<Rightarrow> bool" for me c where
  start: "sleeping me c 0 c"
| tick: "sleeping me c m (Blocks pnd, s) \<Longrightarrow> handle_timer inp k s = Inr (dv, s') \<Longrightarrow> sleeping me c (Suc m) (Blocks pnd, s')"
| pass: "sleeping me c m (Blocks pnd, s) \<Longrightarrow> idle k s \<Longrightarrow> p_state (procs s ! me) = RUNNABLE \<Longrightarrow>
    resume k me pnd (dispatch k me (acquire k s)) = Inr (Blocks pnd', s1) \<Longrightarrow> release k (switched_back k me s1) = Inr s' \<Longrightarrow>
    sleeping me c m (Blocks pnd', s')"
| ret: "sleeping me c m (Blocks pnd, s) \<Longrightarrow> idle k s \<Longrightarrow> p_state (procs s ! me) = RUNNABLE \<Longrightarrow>
    resume k me pnd (dispatch k me (acquire k s)) = Inr (Ret v, s') \<Longrightarrow> sleeping me c m (Ret v, s')"
| others: "sleeping me c m (Blocks pnd, s) \<Longrightarrow> others me s s' \<Longrightarrow> sleeping me c m (Blocks pnd, s')"

lemma pop_push: "0 \<le> nlock c \<Longrightarrow> \<exists>c'. pop_off (push_off c) = Inr c' \<and> nlock c' = nlock c"
  by (simp add: pop_off_def push_off_def Let_def)

lemma fields_acquire [simp]: "procs (acquire h s) = procs s" "cpu_proc (acquire h s) = cpu_proc s" "ticks (acquire h s) = ticks s"
  "hart (acquire h s) = (hart s)(h := push_off (hart s h))"
  by (simp_all add: acquire_def)

lemma release_ok: "pop_off (hart s h) = Inr c \<Longrightarrow> release h s = Inr (s\<lparr>hart := (hart s)(h := c)\<rparr>)"
  by (simp add: release_def rbind_def)

lemma handle_timer_fields:
  assumes "handle_timer inp k s = Inr (dv, s')"
  shows "procs s' = procs (wakeup k ChanTicks s)" "cpu_proc s' = cpu_proc s" "ticks s' = ticks s + 1"
  using assms by (auto simp: handle_timer_def release_def acquire_def wakeup_def myproc_def rbind_def Let_def split: sum.splits)

lemma handle_timer_ok:
  assumes "0 \<le> nlock (hart s k)"
  shows "\<exists>dv s'. handle_timer inp k s = Inr (dv, s') \<and> (\<forall>j. nlock (hart s' j) = nlock (hart s j))"
proof -
  obtain c where "pop_off (push_off (hart s k)) = Inr c" "nlock c = nlock (hart s k)" using pop_push [OF assms] by blast
  then show ?thesis by (simp add: handle_timer_def release_def acquire_def wakeup_def myproc_def rbind_def Let_def)
qed

lemma age_fields: "p_state (age (account p)) = p_state p" "p_chan (age (account p)) = p_chan p" "p_killed (age (account p)) = p_killed p"
  by (simp_all add: age_def age_body_def account_def Let_def)

lemma switched_back_fields:
  assumes "me < length (procs s)"
  shows "procs (switched_back h me s) ! me = age (account (procs s ! me))" "length (procs (switched_back h me s)) = length (procs s)"
    "cpu_proc (switched_back h me s) = (cpu_proc s)(h := None)" "hart (switched_back h me s) = hart s" "ticks (switched_back h me s) = ticks s"
  using assms by (simp_all add: switched_back_def after_run_def)

text \<open>A runnable process goes on in \<^verbatim>\<open>sys_sleep\<close> with \<^verbatim>\<open>tick_lock\<close> held.\<close>

lemma resume_sleep:
  assumes "me < length (procs s)" "\<not> p_killed (procs s ! me)" "nlock (hart s h) = 0"
  obtains t where "resume h me (SleepUntil t0 tm) (dispatch h me (acquire h s)) = sleep_pass h me t0 tm t" "ticks t = ticks s"
    "cpu_proc t = (cpu_proc s)(h := Some me)" "length (procs t) = length (procs s)" "p_state (procs t ! me) = RUNNING"
    "\<not> p_killed (procs t ! me)" "nlock (hart t h) = 1" "\<not> sie (hart t h)" "\<forall>j. j \<noteq> h \<longrightarrow> hart t j = hart s j"
proof -
  let ?s3 = "dispatch h me (acquire h s)"
  have h3: "hart ?s3 = (hart s)(h := push_off (hart s h))" "cpu_proc ?s3 = (cpu_proc s)(h := Some me)" "ticks ?s3 = ticks s"
    "procs ?s3 = (procs s)[me := (procs s ! me)\<lparr>p_state := RUNNING\<rparr>]"
    by (simp_all add: dispatch_def upd_proc_def)
  obtain c where c: "pop_off (push_off (hart s h)) = Inr c" "nlock c = 0" using pop_push [of "hart s h"] assms(3) by auto
  let ?u = "upd_proc me (p_chan_update (\<lambda>_. NoChan)) ?s3"
  have r: "release h ?u = Inr (?u\<lparr>hart := (hart ?u)(h := c)\<rparr>)"
    using c by (intro release_ok) (simp add: upd_proc_def h3)
  let ?t = "acquire h (?u\<lparr>hart := (hart ?u)(h := c)\<rparr>)"
  have p: "procs ?t = (procs s)[me := (procs s ! me)\<lparr>p_state := RUNNING, p_chan := NoChan\<rparr>]"
    using assms(1) by (simp add: upd_proc_def h3)
  have "resume h me (SleepUntil t0 tm) ?s3 = sleep_pass h me t0 tm ?t"
    using r p assms(1,2) by (simp add: resume_def sleep_resume_def myproc_def h3(2) rbind_def Let_def)
  then show ?thesis
    by (rule that) (use c p assms(1,2) in \<open>simp_all add: upd_proc_def h3, simp_all add: push_off_def Let_def\<close>)
qed

text \<open>A process that has gone to sleep on the ticks and is off its hart; the call it is in.\<close>

definition waits :: "nat \<Rightarrow> u64 \<Rightarrow> u64 \<Rightarrow> nat \<Rightarrow> kernel \<Rightarrow> bool" where
  "waits me t0 n m s \<longleftrightarrow> me < length (procs s) \<and> \<not> p_killed (procs s ! me) \<and> (\<forall>k. cpu_proc s k \<noteq> Some me) \<and>
     ticks s = t0 + of_nat m \<and>
     (p_state (procs s ! me) = SLEEPING \<and> p_chan (procs s ! me) = ChanTicks \<and> m < unat n \<or> p_state (procs s ! me) = RUNNABLE)"

lemma sleep_fields:
  assumes "cpu_proc t h = Some me" "me < length (procs t)" "nlock (hart t h) = 1" "\<not> sie (hart t h)"
  obtains s' where "sleep h ChanTicks t = Inr s'" "ticks s' = ticks t" "cpu_proc s' = cpu_proc t" "hart s' = hart t"
    "procs s' = (procs t)[me := (procs t ! me)\<lparr>p_chan := ChanTicks, p_state := SLEEPING\<rparr>]"
proof -
  have "pop_off (push_off (hart t h)) = Inr (hart t h)"
    using assms(3,4) by (cases "hart t h") (simp add: pop_off_def push_off_def Let_def)
  then have "release h (acquire h t) = Inr t" by (simp add: release_def acquire_def rbind_def)
  then show ?thesis
    using assms that [of "t\<lparr>procs := (procs t)[me := (procs t ! me)\<lparr>p_chan := ChanTicks, p_state := SLEEPING\<rparr>]\<rparr>"]
    by (simp add: sleep_def myproc_def sched_def mycpu_def rbind_def Let_def upd_proc_def sleep_pcb_def)
qed

text \<open>Off the hart: the scheduler accounts for the process and gives up the lock.\<close>

lemma off_hart:
  assumes "cpu_proc s h = Some me" "me < length (procs s)" "nlock (hart s h) = 1" "\<not> sie (hart s h)"
  obtains s' where "release h (switched_back h me s) = Inr s'" "ticks s' = ticks s" "cpu_proc s' = (cpu_proc s)(h := None)"
    "nlock (hart s' h) = 0" "\<forall>j. j \<noteq> h \<longrightarrow> hart s' j = hart s j" "length (procs s') = length (procs s)"
    "procs s' ! me = age (account (procs s ! me))"
proof -
  obtain c where c: "pop_off (hart s h) = Inr c" "nlock c = 0" using assms(3,4) by (auto simp: pop_off_def Let_def)
  note b = switched_back_fields [OF assms(2), of h]
  show ?thesis using c b release_ok [of "switched_back h me s" h c] that [of "(switched_back h me s)\<lparr>hart := (hart s)(h := c)\<rparr>"]
    by simp
qed

text \<open>One more pass on hart \<open>k\<close>: it returns 0 when enough ticks have passed, and goes back to sleep otherwise.\<close>

lemma pass_result:
  assumes w: "waits me t0 n m s" and "m < 2 ^ 64" and k: "idle k s"
  obtains s1 where "resume k me (SleepUntil t0 n) (dispatch k me (acquire k s)) =
      Inr (if unat n \<le> m then Ret 0 else Blocks (SleepUntil t0 n), s1)"
    "nlock (hart s1 k) = (if unat n \<le> m then 0 else 1)" "ticks s1 = ticks s"
    "\<not> unat n \<le> m \<longrightarrow> (\<exists>s2. release k (switched_back k me s1) = Inr s2) \<and>
      (\<forall>s2. release k (switched_back k me s1) = Inr s2 \<longrightarrow> waits me t0 n m s2)"
proof -
  note wd = w [unfolded waits_def]
  have "nlock (hart s k) = 0" using k by (simp add: idle_def)
  then obtain t where t: "resume k me (SleepUntil t0 n) (dispatch k me (acquire k s)) = sleep_pass k me t0 n t" "ticks t = ticks s"
    "cpu_proc t = (cpu_proc s)(k := Some me)" "length (procs t) = length (procs s)"
    "\<not> p_killed (procs t ! me)" "nlock (hart t k) = 1" "\<not> sie (hart t k)"
    using resume_sleep [of me s k t0 n] wd by metis
  have "unat (of_nat m :: u64) = m" using assms(2) by (simp add: unsigned_of_nat take_bit_nat_eq_self)
  then have e: "ticks t - t0 < n \<longleftrightarrow> \<not> unat n \<le> m" using wd t(2) by (simp add: word_less_nat_alt not_le)
  show ?thesis
  proof (cases "unat n \<le> m")
    case True
    obtain c where "pop_off (hart t k) = Inr c" "nlock c = 0" using t(6,7) by (auto simp: pop_off_def Let_def)
    then show ?thesis using that [of "t\<lparr>hart := (hart t)(k := c)\<rparr>"] t(1,2) True e release_ok [of t k c]
      by (simp add: sleep_pass_def rbind_def)
  next
    case False
    have c: "cpu_proc t k = Some me" "me < length (procs t)" using t(3,4) wd by simp_all
    obtain s1 where s1: "sleep k ChanTicks t = Inr s1" "ticks s1 = ticks t" "cpu_proc s1 = cpu_proc t" "hart s1 = hart t"
      "procs s1 = (procs t)[me := (procs t ! me)\<lparr>p_chan := ChanTicks, p_state := SLEEPING\<rparr>]"
      by (rule sleep_fields [OF c t(6,7)])
    have c1: "cpu_proc s1 k = Some me" "me < length (procs s1)" "nlock (hart s1 k) = 1" "\<not> sie (hart s1 k)"
      using c s1 t(6,7) by simp_all
    obtain s2 where s2: "release k (switched_back k me s1) = Inr s2" "ticks s2 = ticks s1" "cpu_proc s2 = (cpu_proc s1)(k := None)"
      "length (procs s2) = length (procs s1)" "procs s2 ! me = age (account (procs s1 ! me))"
      by (rule off_hart [OF c1])
    have "waits me t0 n m s2" using s2 s1 c t wd False by (simp add: waits_def age_fields)
    then show ?thesis using that [of s1] t(1,2) s1(1,2) c1(3) s2(1) False e t(5) by (simp add: sleep_pass_def rbind_def)
  qed
qed

lemma tick_wakes:
  assumes w: "waits me t0 n m s" and "handle_timer inp k s = Inr (dv, s')"
  shows "waits me t0 n (Suc m) s' \<and> p_state (procs s' ! me) = RUNNABLE"
proof -
  note f = handle_timer_fields [OF assms(2)]
  note wd = w [unfolded waits_def]
  have "procs s' ! me = wake_pcb ChanTicks (procs s ! me)" "length (procs s') = length (procs s)"
    using wd by (simp_all add: f wakeup_def myproc_def)
  then show ?thesis using wd f by (auto simp: waits_def wake_pcb_def Let_def)
qed

definition call_state :: "nat \<Rightarrow> u64 \<Rightarrow> u64 \<Rightarrow> nat \<Rightarrow> outcome \<times> kernel \<Rightarrow> bool" where
  "call_state me t0 n m = (\<lambda>(r, s). case r of
     Blocks pnd \<Rightarrow> pnd = SleepUntil t0 n \<and> waits me t0 n m s
   | Ret v \<Rightarrow> v = 0 \<and> unat n \<le> m
   | _ \<Rightarrow> False)"

lemma sleeping_inv:
  assumes "sleeping me c m c'" and "call_state me t0 n 0 c" and "m < 2 ^ 64"
  shows "call_state me t0 n m c'"
  using assms(1,3)
proof induction
  case start
  then show ?case using assms(2) by simp
next
  case (tick m pnd s inp k dv s')
  then show ?case using tick_wakes by (auto simp: call_state_def)
next
  case (pass m pnd s k pnd' s1 s')
  then have w: "pnd = SleepUntil t0 n" "waits me t0 n m s" by (auto simp: call_state_def)
  show ?case by (rule pass_result [OF w(2) pass.prems pass.hyps(2)]) (use pass.hyps w(1) in \<open>auto simp: call_state_def split: if_splits\<close>)
next
  case (ret m pnd s k v s')
  then have w: "pnd = SleepUntil t0 n" "waits me t0 n m s" by (auto simp: call_state_def)
  show ?case by (rule pass_result [OF w(2) ret.prems ret.hyps(2)]) (use ret.hyps w(1) in \<open>auto simp: call_state_def split: if_splits\<close>)
next
  case (others m pnd s s')
  then show ?case by (auto simp: call_state_def waits_def others_def)
qed

text \<open>The call itself: on hart \<open>h\<close> up to the scheduler.\<close>

lemma sys_sleep_blocks:
  assumes "myproc h s = Some me" and "me < length (procs s)" and "\<not> p_killed (procs s ! me)" and "nlock (hart s h) = 0"
    and "\<forall>k. k \<noteq> h \<longrightarrow> myproc k s \<noteq> Some me" and "arg uc_a0 me s = n" and "n \<noteq> 0"
  shows "\<exists>s1 s2. sys_sleep e h me s = Inr (Blocks (SleepUntil (ticks s) n), s1) \<and> release h (switched_back h me s1) = Inr s2 \<and>
    waits me (ticks s) n 0 s2 \<and> p_state (procs s2 ! me) = SLEEPING \<and> nlock (hart s2 h) = 0 \<and> cpu_proc s2 h = None"
proof -
  let ?t = "acquire h s"
  have t: "cpu_proc ?t h = Some me" "me < length (procs ?t)" "nlock (hart ?t h) = 1" "\<not> sie (hart ?t h)"
    using assms by (simp_all add: myproc_def push_off_def Let_def)
  obtain s1 where s1: "sleep h ChanTicks ?t = Inr s1" "ticks s1 = ticks ?t" "cpu_proc s1 = cpu_proc ?t" "hart s1 = hart ?t"
    "procs s1 = (procs ?t)[me := (procs ?t ! me)\<lparr>p_chan := ChanTicks, p_state := SLEEPING\<rparr>]"
    by (rule sleep_fields [OF t])
  have c: "cpu_proc s1 h = Some me" "me < length (procs s1)" "nlock (hart s1 h) = 1" "\<not> sie (hart s1 h)" using t s1 by simp_all
  obtain s2 where s2: "release h (switched_back h me s1) = Inr s2" "ticks s2 = ticks s1" "cpu_proc s2 = (cpu_proc s1)(h := None)"
    "nlock (hart s2 h) = 0" "length (procs s2) = length (procs s1)" "procs s2 ! me = age (account (procs s1 ! me))"
    by (rule off_hart [OF c])
  have "sys_sleep e h me s = Inr (Blocks (SleepUntil (ticks s) n), s1)"
    using assms(3,6,7) s1(1) by (simp add: sys_sleep_def sleep_pass_def rbind_def word_neq_0_conv)
  moreover have "waits me (ticks s) n 0 s2" "p_state (procs s2 ! me) = SLEEPING"
    using s1 s2 assms by (auto simp: waits_def age_fields myproc_def unat_gt_0)
  ultimately show ?thesis using s2 by auto
qed

subsection \<open>Back to user mode\<close>

inductive_cases kstep_someE: "kstep e h own (Some t) s s'"

lemma to_user_return:
  assumes "kstep e h own (Some (ToUser r)) s s'"
  shows "\<exists>st t. user_trap_return e h st t = Inr (ToUser r, s')"
proof -
  have a: "\<exists>t. user_trap_return e h st t = Inr (ToUser r, s')" if "after_call e h st num a0 x = Inr (ToUser r, s')" for st num a0 x
    using that by (cases x) (auto simp: after_call_def split: outcome.splits)
  from assms show ?thesis
    by (elim kstep_someE)
      (auto simp: user_trap_handler_def user_trap_resume_def forkret_def rbind_def Let_def
        split: option.splits if_splits sum.splits trap_end.splits, (blast dest: a)+)
qed

text \<open>With interrupts off, the value for \<^verbatim>\<open>sstatus\<close> has \<^verbatim>\<open>SIE\<close> and \<^verbatim>\<open>SPP\<close> clear and \<^verbatim>\<open>SPIE\<close> set.\<close>

lemma sstatus_bits:
  fixes st :: u64
  defines "x \<equiv> ((st AND NOT SSTATUS_SIE) AND NOT SSTATUS_SPP) OR SSTATUS_SPIE"
  shows "x AND SSTATUS_SIE = 0" "x AND SSTATUS_SPP = 0" "x AND SSTATUS_SPIE \<noteq> 0"
proof -
  have s: "SSTATUS_SIE = push_bit 1 1" "SSTATUS_SPP = push_bit 8 1" "SSTATUS_SPIE = push_bit 5 1" by (simp_all add: rv_const)
  note b = x_def s bit_and_iff bit_or_iff bit_not_iff bit_push_bit_iff bit_1_iff bit_0_eq
  show "x AND SSTATUS_SIE = 0" "x AND SSTATUS_SPP = 0" by (rule bit_word_eqI; simp only: b; auto)+
  have "bit (x AND SSTATUS_SPIE) 5" by (simp only: b) auto
  then show "x AND SSTATUS_SPIE \<noteq> 0" by (metis bit_0_eq bot_apply bot_bool_def)
qed

lemma user_trap_return_regs:
  assumes "user_trap_return e h st s = Inr (ToUser r, s')"
  shows "\<exists>me. myproc h s' = Some me \<and> \<not> p_killed (procs s' ! me) \<and> \<not> sie (hart s' h) \<and> r_stvec r = user_vector e \<and>
    r_sstatus r AND SSTATUS_SIE = 0 \<and> r_sstatus r AND SSTATUS_SPP = 0 \<and> r_sstatus r AND SSTATUS_SPIE \<noteq> 0 \<and>
    r_sepc r = get_ctx me uc_epc s' \<and>
    get_ctx me uc_kernel_satp s' = satp s' h \<and> get_ctx me uc_kernel_sp s' = p_kstack (procs s' ! me) + PGSIZE \<and>
    get_ctx me uc_kernel_trap s' = user_trap_addr e \<and> get_ctx me uc_kernel_hartid s' = of_nat h"
  using assms sstatus_bits [of st]
  by (auto simp: user_trap_return_def rbind_def Let_def set_ctx_def get_ctx_def set_sie_def w_sstatus_def r_sstatus_of_def
      myproc_def uc_kernel_satp_def uc_kernel_sp_def
      uc_kernel_trap_def uc_kernel_hartid_def uc_epc_def split: option.splits if_splits sum.splits)

subsection \<open>The kernel's own pages\<close>

lemma page_split: "PGROUNDDOWN a + (a AND 0xFFF) = a"
proof -
  have "(0xFFF :: u64) = mask 12" by (simp add: mask_eq_exp_minus_1)
  then have m: "a AND 0xFFF = take_bit 12 a" by (simp add: take_bit_eq_mask)
  have "PGROUNDDOWN a + take_bit 12 a = PGROUNDDOWN a OR take_bit 12 a"
    by (intro disjunctive_add) (auto simp: bit_PGROUNDDOWN bit_simps)
  also have "\<dots> = a" by (rule bit_word_eqI) (auto simp: bit_PGROUNDDOWN bit_simps)
  finally show ?thesis by (simp add: m)
qed

lemma mmu_kernel:
  assumes "0x80000000 \<le> a" "a < PHYSTOP" "leaf m pt (vpath a) = PA2PTE (PGROUNDDOWN a) OR (PTE_R OR PTE_W OR PTE_X) OR PTE_V"
  shows "mmu wr m pt a = Some a"
proof -
  let ?f = "PTE_R OR PTE_W OR PTE_X OR PTE_V"
  have l: "leaf m pt (vpath a) = PA2PTE (PGROUNDDOWN a) OR ?f" using assms(3) by (simp add: or.assoc)
  have "PTE_FLAGS (PA2PTE (PGROUNDDOWN a) OR ?f) = ?f" by (rule PTE_FLAGS_PA2PTE) (simp add: rv_const)
  then have fl: "(PA2PTE (PGROUNDDOWN a) OR ?f) AND 0x3FF = ?f" by (simp add: PTE_FLAGS_def)
  have "(PA2PTE (PGROUNDDOWN a) OR ?f) AND b = ?f AND b" if "0x3FF AND b = b" for b
    by (metis fl that and.assoc)
  then have "(PA2PTE (PGROUNDDOWN a) OR ?f) AND PTE_V \<noteq> 0" "(PA2PTE (PGROUNDDOWN a) OR ?f) AND PTE_R \<noteq> 0"
    "(PA2PTE (PGROUNDDOWN a) OR ?f) AND PTE_W \<noteq> 0" by (simp_all add: rv_const)
  moreover have "a < MAXVA" using assms(2) by (simp add: rv_const word_less_nat_alt)
  moreover have "PTE2PA (PA2PTE (PGROUNDDOWN a) OR ?f) = PGROUNDDOWN a" by (rule PTE2PA_PA2PTE [OF page_aligned_PGROUNDDOWN]) (simp add: rv_const)
  ultimately show ?thesis using page_split [of a] by (simp add: mmu_def l Let_def)
qed

subsection \<open>Properties\<close>

text \<open>
  C20. \<^verbatim>\<open>sys_sleep\<close> sleeps for as many timer interrupts as it was asked to, on whatever harts they come and whatever else
  runs meanwhile (short of a kill, and for less than \<open>2 ^ 64\<close> interrupts, so that the 64-bit tick counter may wrap once). Asked for none, it returns 0 at
  once. Otherwise it goes to sleep, and however timer interrupts, runs of the process on idle harts and steps of the
  others follow: it has not returned before the last of the \<open>n\<close> interrupts, and it has returned nothing but 0; each interrupt makes it
  runnable; an idle hart that then runs it finds it back asleep if fewer than \<open>n\<close> have passed and at the return with no lock held if not; and after \<open>n\<close> of them
  it is never asleep.
\<close>

theorem sys_sleep_exact:
  assumes "myproc h s = Some me" and "me < length (procs s)" and "\<not> p_killed (procs s ! me)" and "nlock (hart s h) = 0"
    and "\<forall>k. k \<noteq> h \<longrightarrow> myproc k s \<noteq> Some me" and "arg uc_a0 me s = n"
  shows "if n = 0 then \<exists>s'. sys_sleep e h me s = Inr (Ret 0, s') \<and> nlock (hart s' h) = 0
    else \<exists>s1 s2 pnd. sys_sleep e h me s = Inr (Blocks pnd, s1) \<and> release h (switched_back h me s1) = Inr s2 \<and>
      p_state (procs s2 ! me) = SLEEPING \<and>
      (\<forall>m r s'. sleeping me (Blocks pnd, s2) m (r, s') \<and> m < 2 ^ 64 \<longrightarrow>
        (r = Ret 0 \<and> unat n \<le> m \<or>
         r = Blocks pnd \<and> (p_state (procs s' ! me) = SLEEPING \<and> m < unat n \<or> p_state (procs s' ! me) = RUNNABLE) \<and>
         (\<forall>inp k dv s''. handle_timer inp k s' = Inr (dv, s'') \<longrightarrow> p_state (procs s'' ! me) = RUNNABLE) \<and>
         (\<forall>k. idle k s' \<longrightarrow> (\<exists>s''. resume k me pnd (dispatch k me (acquire k s')) = Inr (if unat n \<le> m then Ret 0 else Blocks pnd, s'') \<and>
           nlock (hart s'' k) = (if unat n \<le> m then 0 else 1)))))"
proof (cases "n = 0")
  case True
  have "pop_off (push_off (hart s h)) = Inr ((hart s h)\<lparr>intena := sie (hart s h)\<rparr>)"
    using assms(4) by (cases "hart s h") (auto simp: pop_off_def push_off_def Let_def)
  then have "release h (acquire h s) = Inr (s\<lparr>hart := (hart s)(h := (hart s h)\<lparr>intena := sie (hart s h)\<rparr>)\<rparr>)"
    by (simp add: release_def acquire_def rbind_def)
  then show ?thesis using True assms(4,6) by (simp add: sys_sleep_def sleep_pass_def rbind_def)
next
  case False
  let ?p = "SleepUntil (ticks s) n"
  obtain s1 s2 where s: "sys_sleep e h me s = Inr (Blocks ?p, s1)" "release h (switched_back h me s1) = Inr s2"
    "waits me (ticks s) n 0 s2" "p_state (procs s2 ! me) = SLEEPING"
    using sys_sleep_blocks [OF assms False] by blast
  have "(r = Ret 0 \<and> unat n \<le> m \<or>
         r = Blocks ?p \<and> (p_state (procs s' ! me) = SLEEPING \<and> m < unat n \<or> p_state (procs s' ! me) = RUNNABLE) \<and>
         (\<forall>inp k dv s''. handle_timer inp k s' = Inr (dv, s'') \<longrightarrow> p_state (procs s'' ! me) = RUNNABLE) \<and>
         (\<forall>k. idle k s' \<longrightarrow> (\<exists>s''. resume k me ?p (dispatch k me (acquire k s')) = Inr (if unat n \<le> m then Ret 0 else Blocks ?p, s'') \<and>
           nlock (hart s'' k) = (if unat n \<le> m then 0 else 1))))"
    if r: "sleeping me (Blocks ?p, s2) m (r, s')" and m: "m < 2 ^ 64" for m r s'
  proof -
    have c: "call_state me (ticks s) n m (r, s')" using sleeping_inv [OF r _ m] s(3) by (simp add: call_state_def)
    show ?thesis
    proof (cases r)
      case (Blocks pnd)
      then have w: "pnd = ?p" "waits me (ticks s) n m s'" using c by (simp_all add: call_state_def)
      have "\<exists>s''. resume k me ?p (dispatch k me (acquire k s')) = Inr (if unat n \<le> m then Ret 0 else Blocks ?p, s'') \<and>
          nlock (hart s'' k) = (if unat n \<le> m then 0 else 1)" if "idle k s'" for k
        by (rule pass_result [OF w(2) m that]) blast
      moreover have "p_state (procs s' ! me) = SLEEPING \<and> m < unat n \<or> p_state (procs s' ! me) = RUNNABLE"
        using w(2) by (auto simp: waits_def)
      ultimately show ?thesis using Blocks w tick_wakes by blast
    qed (use c in \<open>simp_all add: call_state_def\<close>)
  qed
  then show ?thesis using False s by auto
qed

text \<open>Process 1 on hart 0, in a trap, with the number and the arguments of a system call in its saved registers.\<close>

definition demo_call :: "u64 \<Rightarrow> u64 \<Rightarrow> u64 \<Rightarrow> kernel" where
  "demo_call num x y = (demo_kernel demo_disk)
     \<lparr>mem := (\<lambda>a. 0)(0x87FFE000 + uc_a7 := num, 0x87FFE000 + uc_a0 := x, 0x87FFE000 + uc_a1 := y,
        0x87FFA010 := PA2PTE 0x87FFB000 OR PTE_V, 0x87FFB000 := PA2PTE 0x87FFC000 OR PTE_V,
        0x87FFC008 := PA2PTE 0x80001000 OR (PTE_R OR PTE_W OR PTE_X) OR PTE_V, 0x80001010 := 0x1234),
      procs := [zero_pcb\<lparr>p_state := RUNNING, p_pid := 1, p_context := 0x87FFE000, p_pagetable := 0x87FFA000,
        p_kstack := 0x87FF0000, p_caps := CAP_PROFILE_USER_DEFAULT\<rparr>],
      cpu_proc := (\<lambda>h. if h = 0 then Some 0 else None), hart := (\<lambda>_. \<lparr>nlock = 0, intena = True, sie = False\<rparr>), ticks := 0\<rparr>"

definition demo_env :: kenv where
  "demo_env = \<lparr>forkret_addr = 0x80200000, user_trap_addr = 0x80200100, user_vector = 0x80200200, pcb_cache = None, file_cache_page = 0\<rparr>"

lemma demo_call_fields [simp]:
  "myproc 0 (demo_call num x y) = Some 0" "length (procs (demo_call num x y)) = 1" "\<not> p_killed (procs (demo_call num x y) ! 0)"
  "hart (demo_call num x y) = (\<lambda>_. \<lparr>nlock = 0, intena = True, sie = False\<rparr>)" "ticks (demo_call num x y) = 0"
  "arg uc_a0 0 (demo_call num x y) = x" "arg uc_a1 0 (demo_call num x y) = y" "arg uc_a7 0 (demo_call num x y) = num"
  by (simp_all add: demo_call_def myproc_def arg_def get_ctx_def rv_const zero_pcb_def demo_kernel_def uart.defs demo_uart_def)

text \<open>Any number of timer interrupts on a hart that holds no lock.\<close>

lemma ticks_on:
  assumes "0 \<le> nlock (hart s k)"
  shows "\<exists>s'. sleeping me (Blocks pnd, s) m (Blocks pnd, s') \<and> cpu_proc s' = cpu_proc s \<and> (\<forall>j. nlock (hart s' j) = nlock (hart s j))"
proof (induction m)
  case 0
  show ?case using sleeping.start by blast
next
  case (Suc m)
  then obtain s1 where s1: "sleeping me (Blocks pnd, s) m (Blocks pnd, s1)" "cpu_proc s1 = cpu_proc s"
    "\<forall>j. nlock (hart s1 j) = nlock (hart s j)" by blast
  obtain dv s' where s': "handle_timer \<lparr>reg32 = (\<lambda>_. 0), r_time = 7\<rparr> k s1 = Inr (dv, s')" "\<forall>j. nlock (hart s' j) = nlock (hart s1 j)"
    using handle_timer_ok [of s1 k] s1(3) assms by metis
  show ?case using sleeping.tick [OF s1(1) s'(1)] handle_timer_fields(2) [OF s'(1)] s1 s'(2) by auto
qed

theorem sys_sleep_exact_witness:
  "\<exists>s1 s2 s3 s4 pnd. sys_sleep demo_env 0 0 (demo_call 32 3 0) = Inr (Blocks pnd, s1) \<and> release 0 (switched_back 0 0 s1) = Inr s2 \<and>
     sleeping 0 (Blocks pnd, s2) 3 (Blocks pnd, s3) \<and> sleeping 0 (Blocks pnd, s2) 3 (Ret 0, s4) \<and> nlock (hart s4 0) = 0"
proof -
  let ?s = "demo_call 32 3 0"
  have h: "\<forall>k. k \<noteq> 0 \<longrightarrow> myproc k ?s \<noteq> Some 0" by (simp add: myproc_def demo_call_def)
  obtain s1 s2 pnd where s: "sys_sleep demo_env 0 0 ?s = Inr (Blocks pnd, s1)" "release 0 (switched_back 0 0 s1) = Inr s2"
    and all: "\<forall>m r s'. sleeping 0 (Blocks pnd, s2) m (r, s') \<and> m < 2 ^ 64 \<longrightarrow>
        (r = Ret 0 \<and> unat (3 :: u64) \<le> m \<or>
         r = Blocks pnd \<and> (p_state (procs s' ! 0) = SLEEPING \<and> m < unat (3 :: u64) \<or> p_state (procs s' ! 0) = RUNNABLE) \<and>
         (\<forall>inp k dv s''. handle_timer inp k s' = Inr (dv, s'') \<longrightarrow> p_state (procs s'' ! 0) = RUNNABLE) \<and>
         (\<forall>k. idle k s' \<longrightarrow> (\<exists>s''. resume k 0 pnd (dispatch k 0 (acquire k s')) =
             Inr (if unat (3 :: u64) \<le> m then Ret 0 else Blocks pnd, s'') \<and>
           nlock (hart s'' k) = (if unat (3 :: u64) \<le> m then 0 else 1))))"
    using sys_sleep_exact [of 0 ?s 0 3 demo_env] h by auto
  have i: "nlock (hart s2 0) = 0" "cpu_proc s2 0 = None"
    using sys_sleep_blocks [of 0 ?s 0 3 demo_env] h s by auto
  obtain s3 where s3: "sleeping 0 (Blocks pnd, s2) 3 (Blocks pnd, s3)" "cpu_proc s3 = cpu_proc s2" "\<forall>j. nlock (hart s3 j) = nlock (hart s2 j)"
    using ticks_on [of s2 0 0 pnd 3] i by auto
  have id: "idle 0 s3" using i s3 by (simp add: idle_def)
  have r: "p_state (procs s3 ! 0) = RUNNABLE" using all s3(1) by force
  obtain s4 where s4: "resume 0 0 pnd (dispatch 0 0 (acquire 0 s3)) = Inr (Ret 0, s4)" "nlock (hart s4 0) = 0"
    using all s3(1) id by force
  have "sleeping 0 (Blocks pnd, s2) 3 (Ret 0, s4)" by (rule sleeping.ret [OF s3(1) id r s4(1)])
  then show ?thesis using s s3(1) s4(2) by blast
qed

text \<open>
  C2. User mode is entered in one way only: however a process gets there, from a system call, an interrupt, a
  sleep or its first run, it is not marked as killed; interrupts are off, and the \<^verbatim>\<open>sstatus\<close> written keeps them off (\<^verbatim>\<open>SIE\<close> clear) until \<^verbatim>\<open>sret\<close>, which goes to user mode
  (\<^verbatim>\<open>SPP\<close> clear) with interrupts on (\<^verbatim>\<open>SPIE\<close> set) and the saved program counter; and the next trap finds \<^verbatim>\<open>user_vector\<close> installed and this hart's page table,
  id, handler and the process's own kernel stack in the saved context.
\<close>

theorem user_mode_entry:
  assumes "kstep e h own (Some (ToUser r)) s s'"
  shows "\<exists>me. myproc h s' = Some me \<and> \<not> p_killed (procs s' ! me) \<and> \<not> sie (hart s' h) \<and> r_stvec r = user_vector e \<and>
    r_sstatus r AND SSTATUS_SIE = 0 \<and> r_sstatus r AND SSTATUS_SPP = 0 \<and> r_sstatus r AND SSTATUS_SPIE \<noteq> 0 \<and>
    r_sepc r = get_ctx me uc_epc s' \<and>
    get_ctx me uc_kernel_satp s' = satp s' h \<and> get_ctx me uc_kernel_sp s' = p_kstack (procs s' ! me) + PGSIZE \<and>
    get_ctx me uc_kernel_trap s' = user_trap_addr e \<and> get_ctx me uc_kernel_hartid s' = of_nat h"
proof -
  obtain st t where "user_trap_return e h st t = Inr (ToUser r, s')" using to_user_return [OF assms] by blast
  then show ?thesis by (rule user_trap_return_regs)
qed


text \<open>The trap of the system call \<^verbatim>\<open>getpid\<close>.\<close>

lemma demo_getpid:
  "\<exists>r s'. user_trap_handler demo_env \<lparr>reg32 = (\<lambda>_. 0), r_time = 7\<rparr> 0 0 8 0x88000000 0 (demo_call 14 0 0) = Inr ([], ToUser r, s') \<and>
     r_sepc r = 0x88000004 \<and> get_ctx 0 uc_a0 s' = 1 \<and> procs s' = procs (demo_call 14 0 0)"
proof -
  let ?s = "demo_call 14 0 0"
  let ?s1 = "set_ctx 0 uc_epc 0x88000000 ?s"
  let ?s2 = "set_sie True 0 (set_ctx 0 uc_epc (get_ctx 0 uc_epc ?s1 + 4) ?s1)"
  have p: "procs ?s2 ! 0 = procs ?s ! 0" "myproc 0 ?s2 = Some 0" "arg uc_a7 0 ?s2 = 14" "arg uc_a0 0 ?s2 = 0"
    by (simp_all add: set_ctx_def set_sie_def myproc_def demo_call_def arg_def get_ctx_def rv_const zero_pcb_def)
  have q: "p_caps (procs ?s ! 0) = CAP_PROFILE_USER_DEFAULT" "p_pid (procs ?s ! 0) = 1" "p_tracing (procs ?s ! 0) = 0"
    by (simp_all add: demo_call_def zero_pcb_def)
  have "gate CAP_PROFILE_USER_DEFAULT 14 0 = Allowed" by code_simp
  moreover have "map_of syscall_table 14 = Some sys_getpid" by (simp add: syscall_table_def rv_const)
  ultimately have d: "syscall_dispatcher demo_env 0 0 ?s2 = Inr (Ret 1, set_ctx 0 uc_a0 1 ?s2)"
    using p q by (simp add: syscall_dispatcher_def sys_getpid_def finish_def rbind_def Let_def)
  have u: "user_trap_handler demo_env \<lparr>reg32 = (\<lambda>_. 0), r_time = 7\<rparr> 0 0 8 0x88000000 0 ?s =
      rbind (user_trap_return demo_env 0 0 (set_ctx 0 uc_a0 1 ?s2)) (\<lambda>r. Inr ([], r))"
    using d p by (simp add: user_trap_handler_def after_call_def rbind_def Let_def)
  show ?thesis unfolding u
    by (simp add: user_trap_return_def rbind_def Let_def set_ctx_def get_ctx_def set_sie_def w_sstatus_def myproc_def demo_call_def zero_pcb_def rv_const)
qed

lemma demo_own: "own_call 0 8 (demo_call 14 0 0)"
proof -
  have "stored_range 0 (demo_call 14 0 0) = (0, 0)"
    by (simp add: stored_range_def Let_def) (simp add: rv_const)
  then show ?thesis by (simp add: own_call_def own_range_def)
qed

theorem user_mode_entry_witness:
  "\<exists>r s'. kstep demo_env 0 True (Some (ToUser r)) (demo_call 14 0 0) s' \<and> r_sepc r = 0x88000004 \<and>
     r_sstatus r AND SSTATUS_SIE = 0 \<and> (\<exists>me. myproc 0 s' = Some me \<and> get_ctx me uc_kernel_hartid s' = 0)"
proof -
  obtain r s' where u: "kstep demo_env 0 True (Some (ToUser r)) (demo_call 14 0 0) s'" "r_sepc r = 0x88000004"
    using demo_getpid kstep.user demo_own by metis
  from user_mode_entry [OF u(1)] obtain me where "r_sstatus r AND SSTATUS_SIE = 0" "myproc 0 s' = Some me"
    "get_ctx me uc_kernel_hartid s' = of_nat 0" by blast
  with u show ?thesis by (intro exI [of _ r] exI [of _ s']) (auto intro!: exI [of _ me])
qed



text \<open>
  C34. A pointer argument is not checked: the page table of every process maps the RAM of the kernel for the kernel
  to use, and a system call stores through it for the user. \<^verbatim>\<open>sys_getcwd\<close> with length 1 sets any byte of the kernel's
  memory to 0, changes no other, and reports success.
\<close>

theorem sys_getcwd_kernel_store:
  assumes "0x80000000 \<le> a" and "a < PHYSTOP" and "arg uc_a0 me s = a" and "arg uc_a1 me s = 1"
    and "leaf (mem s) (user_pt me s) (vpath a) = PA2PTE (PGROUNDDOWN a) OR (PTE_R OR PTE_W OR PTE_X) OR PTE_V"
  shows "\<exists>s'. sys_getcwd e h me s = Inr (Ret 0, s') \<and> get_byte (mem s') a = 0 \<and>
    (\<forall>x. x \<noteq> a \<longrightarrow> get_byte (mem s') x = get_byte (mem s) x)"
proof -
  have "mmu True (mem s) (user_pt me s) a = Some a" using mmu_kernel [OF assms(1,2,5)] by simp
  moreover have "a \<noteq> 0" using assms(1) by auto
  ultimately show ?thesis using assms(3,4)
    by (simp add: sys_getcwd_def put_user_def rbind_def get_put_byte)
qed

theorem sys_getcwd_kernel_store_witness:
  "\<exists>s'. sys_getcwd demo_env 0 0 (demo_call 27 0x80001010 1) = Inr (Ret 0, s') \<and>
     get_byte (mem (demo_call 27 0x80001010 1)) 0x80001010 = 0x34 \<and> get_byte (mem s') 0x80001010 = 0"
proof -
  have "leaf (mem (demo_call 27 0x80001010 1)) (user_pt 0 (demo_call 27 0x80001010 1)) (vpath 0x80001010) =
      PA2PTE (PGROUNDDOWN 0x80001010) OR (PTE_R OR PTE_W OR PTE_X) OR PTE_V"
    by code_simp
  moreover have "get_byte (mem (demo_call 27 0x80001010 1)) 0x80001010 = 0x34" by code_simp
  ultimately show ?thesis
    using sys_getcwd_kernel_store [where a = "0x80001010" and me = 0 and s = "demo_call 27 0x80001010 1" and e = demo_env and h = 0]
    by (auto simp: PHYSTOP_def)
qed

end
