(* ===== verification/RV_Boot.thy ===== *)
theory RV_Boot
  imports RV_Traps
begin

text \<open>
  The boot sequence (\<^verbatim>\<open>kernelspace/core/main.c\<close>) and the SBI calls (\<^verbatim>\<open>kernelspace/lib/sbi.c\<close>). Every hart enters \<^verbatim>\<open>main\<close>; the one that wins the
  compare-and-swap on \<^verbatim>\<open>primary_hart\<close> initialises the kernel and starts the others, which wait for \<^verbatim>\<open>started\<close>. The
  registers of the harts and the requests to the firmware are in the record \<open>boot\<close>, beside the kernel state; \<open>bstep\<close> is the step relation of all harts. A loop that waits is a step that is not enabled.
  A hart that has called \<^verbatim>\<open>scheduler\<close> goes on while later harts arrive: it may change the kernel state, its page table register and its trap vector in any way, and takes timer interrupts.
\<close>

unbundle bit_operations_syntax

subsection \<open>SBI\<close>

record sbi_req =
  sbi_ext :: u64
  sbi_fid :: u64
  sbi_a0 :: u64
  sbi_a1 :: u64
  sbi_a2 :: u64

definition SBI_EXT_0_1_CONSOLE_PUTCHAR :: u64 where [rv_const]: "SBI_EXT_0_1_CONSOLE_PUTCHAR = 0x01"
definition SBI_EXT_SRST :: u64 where [rv_const]: "SBI_EXT_SRST = 0x53525354"
definition SBI_EXT_TIME :: u64 where [rv_const]: "SBI_EXT_TIME = 0x54494D45"
definition SBI_EXT_HSM :: u64 where [rv_const]: "SBI_EXT_HSM = 0x48534D"
definition SBI_FUNC_SRST_RESET :: u64 where [rv_const]: "SBI_FUNC_SRST_RESET = 0"
definition SBI_FUNC_HSM_HART_START :: u64 where [rv_const]: "SBI_FUNC_HSM_HART_START = 0"

text \<open>The registers of the \<^verbatim>\<open>ecall\<close>.\<close>

definition sbi_call :: "u64 \<Rightarrow> u64 \<Rightarrow> u64 \<Rightarrow> u64 \<Rightarrow> u64 \<Rightarrow> sbi_req" where
  "sbi_call ext fid arg0 arg1 arg2 = \<lparr>sbi_ext = ext, sbi_fid = fid, sbi_a0 = arg0, sbi_a1 = arg1, sbi_a2 = arg2\<rparr>"

definition sbi_console_putchar :: "u8 \<Rightarrow> sbi_req" where
  "sbi_console_putchar ch = sbi_call SBI_EXT_0_1_CONSOLE_PUTCHAR 0 (ucast ch) 0 0"

definition sbi_set_timer :: "u64 \<Rightarrow> sbi_req" where
  "sbi_set_timer stime_value = sbi_call SBI_EXT_TIME 0 stime_value 0 0"

definition sbi_system_reset :: "u32 \<Rightarrow> u32 \<Rightarrow> sbi_req" where
  "sbi_system_reset type reason = sbi_call SBI_EXT_SRST SBI_FUNC_SRST_RESET (ucast type) (ucast reason) 0"

definition sbi_hart_start :: "u64 \<Rightarrow> u64 \<Rightarrow> u64 \<Rightarrow> sbi_req" where
  "sbi_hart_start hartid start_addr opaque = sbi_call SBI_EXT_HSM SBI_FUNC_HSM_HART_START hartid start_addr opaque"

subsection \<open>The state\<close>

definition SIE_SEIE :: u64 where [rv_const]: "SIE_SEIE = 0x200"
definition SIE_STIE :: u64 where [rv_const]: "SIE_STIE = 0x20"
definition SIE_SSIE :: u64 where [rv_const]: "SIE_SSIE = 2"
definition MAXCPUCORE :: nat where [rv_const]: "MAXCPUCORE = 8"

text \<open>
  The variables of \<^verbatim>\<open>main.c\<close>, the kernel, the control registers of each hart, the stores to the interrupt controller and the requests to
  the firmware with the hart that makes them. \<open>kpt\<close> is the variable \<^verbatim>\<open>kernel_pagetable\<close>; the kernel record has a copy of it and of \<^verbatim>\<open>satp\<close> for the trap code.
\<close>

record boot =
  bk :: kernel
  primary_hart :: int
  up :: bool
  kpt :: u64
  csr_satp :: "nat \<Rightarrow> u64"
  csr_stvec :: "nat \<Rightarrow> u64"
  csr_sie :: "nat \<Rightarrow> u64"
  locks :: "spinlock \<times> spinlock"
  plic_ops :: "dev_op list"
  sbi :: "(nat \<times> sbi_req) list"

text \<open>What the linker, the compiler and the machine supply; \<open>clock\<close> is the reading of \<^verbatim>\<open>r_time()\<close>.\<close>

record benv =
  kend :: u64
  img :: image
  sizeof_PCB :: u32
  forkret_at :: u64
  kernel_vector :: u64
  entry :: u64
  clock :: u64

type_synonym init_step = "benv \<Rightarrow> nat \<Rightarrow> boot \<Rightarrow> boot res"

definition on_kernel :: "(kernel \<Rightarrow> kernel res) \<Rightarrow> boot \<Rightarrow> boot res" where
  "on_kernel f b = rbind (f (bk b)) (\<lambda>s. Inr (b\<lparr>bk := s\<rparr>))"

definition or_sie :: "nat \<Rightarrow> u64 \<Rightarrow> boot \<Rightarrow> boot" where
  "or_sie h bits b = b\<lparr>csr_sie := (csr_sie b)(h := csr_sie b h OR bits)\<rparr>"

definition set_satp :: "nat \<Rightarrow> boot \<Rightarrow> boot" where
  "set_satp h b =
     (let v = kvminithart (kpt b) (csr_satp b h) in
      b\<lparr>csr_satp := (csr_satp b)(h := v), bk := (bk b)\<lparr>satp := (satp (bk b))(h := v)\<rparr>\<rparr>)"

subsection \<open>Messages\<close>

definition nl :: string where "nl = [CHR 0x0A]"

primrec print_times :: "nat \<Rightarrow> kernel \<Rightarrow> kernel res" where
  "print_times 0 s = Inr s"
| "print_times (Suc n) s = rbind (printf '' '' [] s) (print_times n)"

definition boot_log :: "string \<Rightarrow> int \<Rightarrow> kernel \<Rightarrow> kernel res" where
  "boot_log msg status s =
     rbind (printf '' [ RVDOS ] '' [] s) (\<lambda>s1.
     rbind (printf ''%s'' [PStr (Some msg)] s1) (\<lambda>s2.
     rbind (print_times (35 - length msg) s2) (\<lambda>s3.
       if status = 0 then printf (''[  OK  ]'' @ nl) [] s3
       else if status = 1 then printf (''[ FAIL ]'' @ nl) [] s3
       else printf (''[ WARN ]'' @ nl) [] s3)))"

text \<open>
  \<^verbatim>\<open>read_icon\<close>. The text is printed before its end is marked: it goes on behind the \<open>n\<close> bytes of the file to the first zero byte in
  memory, which may lie outside the buffer.
\<close>

definition text_at :: "u64 \<Rightarrow> mem \<Rightarrow> string res" where
  "text_at a m =
     (let bs = load_bytes (unat (PHYSTOP - a)) a m in
      if 0 \<in> set bs then Inr (map (char_of \<circ> unat) (takeWhile (\<lambda>b. b \<noteq> 0) bs)) else Inl (Undefined ''read_icon: no end of text''))"

definition read_icon :: "u64 \<Rightarrow> kernel \<Rightarrow> kernel res" where
  "read_icon buf s =
     (if buf = 0 then Inr s
      else
        rbind (fs_read_file None ''ICON'' 4096 s) (\<lambda>(n, bs, s1).
        let s2 = s1\<lparr>mem := store_bytes buf bs (mem s1)\<rparr> in
        rbind (text_at buf (mem s2)) (\<lambda>t.
        rbind (printf (''Welcome to RVDOS'' @ nl @ ''%s'' @ nl) [PStr (Some t)] s2) (\<lambda>s3.
          if 0 < n then Inr (s3\<lparr>mem := store_bytes (buf + of_int (if n < 4096 then n else 4095)) [0] (mem s3)\<rparr>)
          else printf (''Failed to read ICON file!'' @ nl) [] s3))))"

subsection \<open>The steps of the first hart\<close>

definition init_banner :: init_step where
  "init_banner e h = on_kernel (\<lambda>s.
     rbind (printf (nl @ ''--- Entering RVDOS ---'' @ nl) [] s) (\<lambda>s.
     rbind (printf (''Kernel Version: %s'' @ nl) [PStr (Some KERNEL_VERSION)] s) (\<lambda>s.
     rbind (printf (''Kernel ABI Version: %d'' @ nl) [PInt RVDOS_ABI_VER] s) (\<lambda>s.
     printf (''Boot Hart ID: %d, Mode: S-mode (SBI)'' @ nl @ nl) [PInt (of_nat h)] s))))"

definition init_memory :: init_step where
  "init_memory e h = on_kernel (\<lambda>s. boot_log ''Physical Memory'' 0 (kinit (kend e) s))"

definition init_slab :: init_step where
  "init_slab e h = on_kernel (\<lambda>s. boot_log ''Slab Allocator'' 0 (kmalloc_init s))"

definition init_paging :: init_step where
  "init_paging e h b =
     rbind (kvminit (img e) (bk b)) (\<lambda>(pt, s).
       on_kernel (boot_log ''Kernel Page Table'' 0) (set_satp h (b\<lparr>bk := s\<lparr>kernel_pagetable := pt\<rparr>, kpt := pt\<rparr>)))"

definition init_uart :: init_step where
  "init_uart e h = on_kernel (\<lambda>s. boot_log ''UART Driver'' 0 (uart_init s))"

definition init_plic :: init_step where
  "init_plic e h b =
     on_kernel (boot_log ''PLIC (Interrupt Controller)'' 0) (b\<lparr>plic_ops := plic_ops b @ plic_init @ plic_inithart h\<rparr>)"

definition init_traps :: init_step where
  "init_traps e h b =
     (case xsmode_trap_init (kernel_vector e) (primary_hart b) h (locks b) of (v, l) \<Rightarrow>
        on_kernel (boot_log ''Trap Handlers'' 0) (b\<lparr>csr_stvec := (csr_stvec b)(h := v), locks := l\<rparr>))"

definition init_procs :: init_step where
  "init_procs e h = on_kernel (\<lambda>s. rbind (procinit (sizeof_PCB e) s) (\<lambda>(_, s). boot_log ''Process Manager'' 0 s))"

definition init_fs :: init_step where
  "init_fs e h = on_kernel (\<lambda>s. rbind (fs_init s) (boot_log ''FAT32 File System'' 0))"

definition init_icon :: init_step where
  "init_icon e h = on_kernel (\<lambda>s.
     rbind (kmalloc 4096 s) (\<lambda>(buf, s). if buf = 0 then Inr s else rbind (read_icon buf s) (kmfree buf)))"

definition init_user :: init_step where
  "init_user e h = on_kernel (\<lambda>s.
     rbind (printf (nl @ ''System initialization complete.'' @ nl) [] s) (userinit (forkret_at e) h))"

definition sbi_timer_init :: "benv \<Rightarrow> nat \<Rightarrow> boot \<Rightarrow> boot" where
  "sbi_timer_init e h b = b\<lparr>sbi := sbi b @ [(h, sbi_set_timer (clock e + 1000000))]\<rparr>"

definition init_timer :: init_step where
  "init_timer e h b = Inr (or_sie h SIE_STIE (sbi_timer_init e h b))"

definition init_steps :: "init_step list" where
  "init_steps = [init_banner, init_memory, init_slab, init_paging, init_uart, init_plic, init_traps, init_procs, init_fs,
     init_icon, init_user, init_timer]"

text \<open>One hart started through the firmware, which reports success or not.\<close>

definition start_hart :: "benv \<Rightarrow> (nat \<Rightarrow> bool) \<Rightarrow> nat \<Rightarrow> nat \<Rightarrow> boot \<Rightarrow> boot res" where
  "start_hart e fw h k b =
     (if k = h then Inr b
      else
        let b1 = b\<lparr>sbi := sbi b @ [(h, sbi_hart_start (of_nat k) (entry e) 0)]\<rparr> in
        if fw k then on_kernel (printf ('' [ RVDOS ] Hart %d started (SBI HSM)'' @ nl) [PInt (of_nat k)]) b1 else Inr b1)"

text \<open>What the other harts do when they are released, and the end of \<^verbatim>\<open>main\<close> on every hart.\<close>

definition join_hart :: "benv \<Rightarrow> nat \<Rightarrow> boot \<Rightarrow> boot" where
  "join_hart e h b =
     (let b1 = set_satp h (b\<lparr>csr_stvec := (csr_stvec b)(h := kernel_vector e)\<rparr>)
      in or_sie h SIE_STIE (b1\<lparr>plic_ops := plic_ops b1 @ plic_inithart h\<rparr>))"

text \<open>The requests to the firmware among what a trap handler does.\<close>

definition timer_reqs :: "nat \<Rightarrow> dev_op list \<Rightarrow> (nat \<times> sbi_req) list" where
  "timer_reqs h ops = concat (map (\<lambda>d. case d of SetTimer t \<Rightarrow> [(h, sbi_set_timer t)] | Store32 a v \<Rightarrow> []) ops)"

definition enter_scheduler :: "nat \<Rightarrow> boot \<Rightarrow> boot" where
  "enter_scheduler h b = (let b1 = or_sie h (SIE_SSIE OR SIE_SEIE) b in b1\<lparr>bk := set_sie True h (bk b1)\<rparr>)"

subsection \<open>All harts\<close>

text \<open>
  Where a hart is in \<^verbatim>\<open>main\<close>: before the compare-and-swap, before step \<open>k\<close> of the initialisation, before the start of hart \<open>k\<close>, waiting,
  about to enter the scheduler, or in the scheduler and the processes and traps behind it. There, step \<open>work\<close> stands for whatever the kernel and the processes do but for setting
  the timer: only \<open>handle_timer\<close> does that, and it runs only on a hart that has a timer. \<^verbatim>\<open>main.c\<close> alone writes \<^verbatim>\<open>primary_hart\<close>, \<^verbatim>\<open>started\<close> and \<^verbatim>\<open>sie\<close>,
  and \<^verbatim>\<open>kvminit\<close> alone \<^verbatim>\<open>kernel_pagetable\<close>; a system call that stores through a pointer outside its process could hit them and is left out.
\<close>

datatype place = Off | Entered | Init nat | Starting nat | Waiting | Leaving | Scheduler

inductive bstep :: "benv \<Rightarrow> (nat \<Rightarrow> bool) \<Rightarrow> (nat \<Rightarrow> place) \<times> boot \<Rightarrow> (nat \<Rightarrow> place) \<times> boot \<Rightarrow> bool"
  for e :: benv and fw :: "nat \<Rightarrow> bool" where
  enter: "pc h = Off \<Longrightarrow> bstep e fw (pc, b) (pc(h := Entered), b)"
| first: "pc h = Entered \<Longrightarrow> primary_hart b = - 1 \<Longrightarrow> bstep e fw (pc, b) (pc(h := Init 0), b\<lparr>primary_hart := int h\<rparr>)"
| other: "pc h = Entered \<Longrightarrow> primary_hart b \<noteq> - 1 \<Longrightarrow> bstep e fw (pc, b) (pc(h := Waiting), b)"
| init: "pc h = Init k \<Longrightarrow> k < length init_steps \<Longrightarrow> (init_steps ! k) e h b = Inr b' \<Longrightarrow>
    bstep e fw (pc, b) (pc(h := Init (Suc k)), b')"
| ready: "pc h = Init (length init_steps) \<Longrightarrow> bstep e fw (pc, b) (pc(h := Starting 0), b\<lparr>up := True\<rparr>)"
| start: "pc h = Starting k \<Longrightarrow> k < MAXCPUCORE \<Longrightarrow> start_hart e fw h k b = Inr b' \<Longrightarrow> bstep e fw (pc, b) (pc(h := Starting (Suc k)), b')"
| leave: "pc h = Starting MAXCPUCORE \<Longrightarrow> bstep e fw (pc, b) (pc(h := Leaving), b)"
| join: "pc h = Waiting \<Longrightarrow> up b \<Longrightarrow> bstep e fw (pc, b) (pc(h := Leaving), join_hart e h b)"
| sched: "pc h = Leaving \<Longrightarrow> bstep e fw (pc, b) (pc(h := Scheduler), enter_scheduler h b)"
| timer: "pc h = Scheduler \<Longrightarrow> (h, sbi_set_timer t) \<in> set (sbi b) \<Longrightarrow> handle_timer inp h (bk b) = Inr (ops, s) \<Longrightarrow>
    bstep e fw (pc, b) (pc, b\<lparr>bk := s, sbi := sbi b @ timer_reqs h ops\<rparr>)"
| work: "pc h = Scheduler \<Longrightarrow> \<forall>r \<in> set rs. sbi_ext r \<noteq> SBI_EXT_TIME \<Longrightarrow>
    bstep e fw (pc, b) (pc, b\<lparr>bk := s, csr_satp := (csr_satp b)(h := v), csr_stvec := (csr_stvec b)(h := w), locks := l,
      plic_ops := plic_ops b @ os, sbi := sbi b @ map (Pair h) rs\<rparr>)"



subsection \<open>The initialisation leaves one process\<close>


lemma print_times_tbl [tbl]: "print_times n s = Inr s' \<Longrightarrow> table s' = table s"
  by (induction n arbitrary: s) (auto simp: rbind_def dest!: tbl split: sum.splits)

lemma boot_log_tbl [tbl]: "boot_log msg st s = Inr s' \<Longrightarrow> table s' = table s"
  by (auto simp: boot_log_def rbind_def dest!: tbl split: sum.splits if_splits)

lemma satp_tbl [simp]: "table (s\<lparr>satp := x\<rparr>) = table s" "table (s\<lparr>kernel_pagetable := y\<rparr>) = table s" "table (s\<lparr>file_cache := c\<rparr>) = table s"
  "table (s\<lparr>uart_regs := r\<rparr>) = table s" "table (s\<lparr>uart_inited := i\<rparr>) = table s"
  by (simp_all add: table_def)

lemma uart_init_tbl [simp]: "table (uart_init s) = table s"
  by (simp add: uart_init_def uart_reg_def)

lemma kmalloc_init_tbl [simp]: "table (kmalloc_init s) = table s"
  by (simp add: kmalloc_init_def)

lemma kinit_tbl [simp]: "table (kinit k s) = table s"
proof -
  have "table (kinit_free p s) = table s" for p and s :: kernel
    by (induction p s rule: kinit_free.induct) (subst kinit_free.simps, simp)
  then show ?thesis by (simp add: kinit_def kinit_reserve_def Let_def table_def)
qed

lemma mappages_snd_tbl [simp]: "table (snd (mappages pt va pa sz perm s)) = table s"
  by (cases "mappages pt va pa sz perm s") (auto dest: tbl)

lemma map_regions_tbl [simp]: "table (map_regions pt rs s) = table s"
  by (induction rs arbitrary: s) (auto split: prod.splits)

lemma kvminit_tbl [tbl]: "kvminit im s = Inr (pt, s') \<Longrightarrow> table s' = table s"
  by (auto simp: kvminit_def Let_def dest!: tbl split: prod.splits if_splits)

lemma cache_create_tbl [tbl]: "kmem_cache_create sz s = (r, s') \<Longrightarrow> table s' = table s"
  by (auto simp: kmem_cache_create_def dest!: tbl split: prod.splits if_splits)

lemma vreg_tbl [simp]: "table (vreg r v s) = table s"
  by (simp add: vreg_def)

lemma virtio_init_tbl [tbl]: "virtio_disk_init s = Inr (r, s') \<Longrightarrow> table s' = table s"
  by (auto simp: virtio_disk_init_def Let_def rbind_def dest!: tbl split: prod.splits if_splits sum.splits)

lemma fs_init_tbl [tbl]: "fs_init s = Inr s' \<Longrightarrow> table s' = table s"
  by (auto simp: fs_init_def Let_def rbind_def dest!: tbl split: prod.splits if_splits sum.splits option.splits)

lemma read_icon_tbl [tbl]: "read_icon buf s = Inr s' \<Longrightarrow> table s' = table s"
  by (auto simp: read_icon_def fs_read_file_def Let_def rbind_def dest!: tbl split: prod.splits if_splits sum.splits)





text \<open>The table after boot: the first process and no other.\<close>

definition first_only :: "kernel \<Rightarrow> bool" where
  "first_only s \<longleftrightarrow>
     length (procs s) = MAXPROCESSES \<and> p_state (procs s ! 0) = RUNNABLE \<and> p_pid (procs s ! 0) = 1 \<and>
     p_caps (procs s ! 0) = CAP_PROFILE_SYSCONTROLLER \<and> p_name (procs s ! 0) = ''sysctl'' \<and>
     (\<forall>j. 0 < j \<longrightarrow> j < MAXPROCESSES \<longrightarrow> p_state (procs s ! j) = UNUSED) \<and> pid_alive s = (\<lambda>_. False)(1 := True)"









lemma length_init_steps [simp]: "length init_steps = 12"
  by (simp add: init_steps_def)


subsection \<open>All interleavings\<close>

















lemma first_only_upd [simp]: "first_only (s\<lparr>satp := x\<rparr>) = first_only s" "first_only (s\<lparr>hart := y\<rparr>) = first_only s"
  by (simp_all add: first_only_def)









subsection \<open>Properties\<close>







end
