(* ===== verification/RV_Malloc.thy ===== *)
theory RV_Malloc
  imports RV_Prelude
begin

text \<open>
  The heap of a program, \<^verbatim>\<open>userspace/include/stdlib.c\<close>: \<^verbatim>\<open>malloc\<close>, \<^verbatim>\<open>free\<close> and \<^verbatim>\<open>morecore\<close> over a ring of free blocks ordered by
  address. A header is 16 bytes, so block \<open>x\<close> with \<open>n\<close> units covers \<open>16 * n\<close> bytes from \<open>x\<close> on; the
  caller gets the address behind the header. Pointers are natural numbers: they stay below the top of the
  address space and never wrap. \<^verbatim>\<open>unsigned\<close> sizes wrap at 32 bits, and \<^verbatim>\<open>sbrk\<close> takes a signed 32-bit number.

  The abstraction is a pair of sets: the nodes of the ring and the blocks handed out. The invariant
  \<open>heap_inv\<close> says that the two together partition the heap, and that no two free blocks touch.
\<close>

subsection \<open>State and operations\<close>

record uheap =
  hptr :: "nat \<Rightarrow> nat"
  hsize :: "nat \<Rightarrow> nat"
  freep :: nat
  ubrk :: nat

text \<open>
  \<^verbatim>\<open>sbrk\<close>, answered by \<^verbatim>\<open>growproc\<close>: \<open>room b n\<close> says whether the kernel can grow the process from \<open>b\<close> by \<open>n\<close> bytes.
  It never refuses a number that is not positive.
\<close>

definition to_int32 :: "nat \<Rightarrow> int" where
  "to_int32 n = (int n + 2 ^ 31) mod 2 ^ 32 - 2 ^ 31"

definition sbrk :: "(nat \<Rightarrow> nat \<Rightarrow> bool) \<Rightarrow> int \<Rightarrow> uheap \<Rightarrow> nat option \<times> uheap" where
  "sbrk room n s =
     (if 0 < n \<and> \<not> room (ubrk s) (nat n) then (None, s)
      else (Some (ubrk s), s\<lparr>ubrk := nat ((int (ubrk s) + n) mod 2 ^ 64)\<rparr>))"

text \<open>The search of \<^verbatim>\<open>free\<close> for the node before \<open>bp\<close>; the fuel bounds the number of nodes.\<close>

primrec free_find :: "nat \<Rightarrow> nat \<Rightarrow> nat \<Rightarrow> uheap \<Rightarrow> nat res" where
  "free_find 0 bp p s = Inl (Undefined ''free: endless list'')"
| "free_find (Suc n) bp p s =
     (if p < bp \<and> bp < hptr s p then Inr p
      else if hptr s p \<le> p \<and> (p < bp \<or> bp < hptr s p) then Inr p
      else free_find n bp (hptr s p) s)"

definition link :: "nat \<Rightarrow> nat \<Rightarrow> uheap \<Rightarrow> uheap" where
  "link p q s = s\<lparr>hptr := (hptr s)(p := q)\<rparr>"

definition resize :: "nat \<Rightarrow> nat \<Rightarrow> uheap \<Rightarrow> uheap" where
  "resize p n s = s\<lparr>hsize := (hsize s)(p := n mod 2 ^ 32)\<rparr>"

definition nodes_max :: "uheap \<Rightarrow> nat" where
  "nodes_max s = ubrk s div 16 + 2"

text \<open>Linking block \<open>bp\<close> in behind node \<open>p\<close>, joined with the neighbours it touches.\<close>

definition give_back :: "nat \<Rightarrow> nat \<Rightarrow> uheap \<Rightarrow> uheap" where
  "give_back p bp s =
     (let s1 = (if bp + 16 * hsize s bp = hptr s p
                then link bp (hptr s (hptr s p)) (resize bp (hsize s bp + hsize s (hptr s p)) s)
                else link bp (hptr s p) s)
      in if p + 16 * hsize s1 p = bp
         then link p (hptr s1 bp) (resize p (hsize s1 p + hsize s1 bp) s1)
         else link p bp s1)"

definition free :: "nat \<Rightarrow> uheap \<Rightarrow> uheap res" where
  "free ap s =
     (let bp = ap - 16 in
      if freep s = 0 then Inl (Undefined ''free: null'')
      else rbind (free_find (nodes_max s) bp (freep s) s) (\<lambda>p. Inr ((give_back p bp s)\<lparr>freep := p\<rparr>)))"

definition morecore :: "(nat \<Rightarrow> nat \<Rightarrow> bool) \<Rightarrow> nat \<Rightarrow> uheap \<Rightarrow> (nat \<times> uheap) res" where
  "morecore room nu0 s =
     (let nu = (if nu0 < 4096 then 4096 else nu0) in
      case sbrk room (to_int32 (nu * 16)) s of
        (None, s1) \<Rightarrow> Inr (0, s1)
      | (Some cp, s1) \<Rightarrow> rbind (free (cp + 16) (resize cp nu s1)) (\<lambda>s2. Inr (freep s2, s2)))"

text \<open>Taking \<open>n\<close> units from node \<open>p\<close>, whose predecessor is \<open>prevp\<close>: all of it, or the tail.\<close>

definition carve :: "nat \<Rightarrow> nat \<Rightarrow> nat \<Rightarrow> uheap \<Rightarrow> nat \<times> uheap" where
  "carve n prevp p s =
     (if hsize s p = n then (p + 16, (link prevp (hptr s p) s)\<lparr>freep := prevp\<rparr>)
      else
        let s1 = resize p (hsize s p - n) s; q = p + 16 * hsize s1 p
        in (q + 16, (resize q n s1)\<lparr>freep := prevp\<rparr>))"

primrec malloc_loop :: "nat \<Rightarrow> (nat \<Rightarrow> nat \<Rightarrow> bool) \<Rightarrow> nat \<Rightarrow> nat \<Rightarrow> nat \<Rightarrow> uheap \<Rightarrow> (nat \<times> uheap) res" where
  "malloc_loop 0 room n prevp p s = Inl (Undefined ''malloc: endless list'')"
| "malloc_loop (Suc k) room n prevp p s =
     (if n \<le> hsize s p then Inr (carve n prevp p s)
      else if p = freep s then
        rbind (morecore room n s) (\<lambda>(p1, s1).
          if p1 = 0 then Inr (0, s1) else malloc_loop k room n p1 (hptr s1 p1) s1)
      else malloc_loop k room n p (hptr s p) s)"

definition units :: "nat \<Rightarrow> nat" where
  "units nbytes = ((nbytes + 15) div 16 + 1) mod 2 ^ 32"

text \<open>\<open>base\<close> is the address of the static header of that name. The loop passes the ring once, and once more after \<^verbatim>\<open>morecore\<close>.\<close>

definition malloc :: "(nat \<Rightarrow> nat \<Rightarrow> bool) \<Rightarrow> nat \<Rightarrow> nat \<Rightarrow> uheap \<Rightarrow> (nat \<times> uheap) res" where
  "malloc room base nbytes s =
     (let s1 = (if freep s = 0 then (resize base 0 (link base base s))\<lparr>freep := base\<rparr> else s)
      in malloc_loop (2 * nodes_max s1 + 2) room (units nbytes) (freep s1) (hptr s1 (freep s1)) s1)"

subsection \<open>Rings\<close>

text \<open>The successor of a node in a finite set of addresses, from the largest back to the smallest.\<close>

definition above :: "nat set \<Rightarrow> nat \<Rightarrow> nat set" where
  "above N p = {q \<in> N. p < q}"

definition nxt :: "nat set \<Rightarrow> nat \<Rightarrow> nat" where
  "nxt N p = (if above N p = {} then Min N else Min (above N p))"

definition prv :: "nat set \<Rightarrow> nat \<Rightarrow> nat" where
  "prv N x = Max {q \<in> N. q < x}"

text \<open>Steps from \<open>p\<close> to \<open>t\<close> along the ring.\<close>

definition steps :: "nat set \<Rightarrow> nat \<Rightarrow> nat \<Rightarrow> nat" where
  "steps N p t = (if p \<le> t then card {q \<in> N. p < q \<and> q \<le> t} else card (above N p) + card {q \<in> N. q \<le> t})"

lemma finite_above [simp]: "finite N \<Longrightarrow> finite (above N p)"
  by (simp add: above_def)

lemma nxt_in: "finite N \<Longrightarrow> p \<in> N \<Longrightarrow> nxt N p \<in> N"
proof (cases "above N p = {}")
  case False
  assume "finite N"
  then have "Min (above N p) \<in> above N p" using False by (intro Min_in) auto
  then show ?thesis using False by (simp add: nxt_def) (simp add: above_def)
qed (auto simp: nxt_def intro: Min_in)

lemma nxt_cases:
  assumes "finite N" "p \<in> N"
  obtains (up) "p < nxt N p" "\<And>q. q \<in> N \<Longrightarrow> p < q \<Longrightarrow> nxt N p \<le> q"
    | (wrap) "nxt N p = Min N" "\<And>q. q \<in> N \<Longrightarrow> q \<le> p"
proof (cases "above N p = {}")
  case True
  then show ?thesis by (intro wrap) (auto simp: nxt_def above_def not_less)
next
  case False
  then have "Min (above N p) \<in> above N p" using assms by (intro Min_in) auto
  then show ?thesis using assms False by (intro up) (auto simp: nxt_def above_def)
qed

lemma steps_less: "finite N \<Longrightarrow> p \<in> N \<Longrightarrow> steps N p t < card N"
proof -
  assume f: "finite N" and p: "p \<in> N"
  have c: "card S < card N" if "S \<subseteq> N - {p}" for S
    using f p that by (metis card_Diff1_less card_mono finite_Diff order_le_less_trans)
  show ?thesis
  proof (cases "p \<le> t")
    case True
    then show ?thesis by (simp add: steps_def) (rule c, auto)
  next
    case False
    then have "card (above N p) + card {q \<in> N. q \<le> t} = card (above N p \<union> {q \<in> N. q \<le> t})"
      using f by (intro card_Un_disjoint [symmetric]) (auto simp: above_def)
    also have "\<dots> < card N" using False by (intro c) (auto simp: above_def)
    finally show ?thesis using False by (simp add: steps_def)
  qed
qed

lemma steps_zero: "finite N \<Longrightarrow> t \<in> N \<Longrightarrow> steps N p t = 0 \<Longrightarrow> p = t"
  by (auto simp: steps_def order_le_less split: if_splits)

lemma steps_nxt:
  assumes f: "finite N" and p: "p \<in> N" and t: "t \<in> N" and ne: "p \<noteq> t"
  shows "Suc (steps N (nxt N p) t) = steps N p t"
proof -
  have suc: "Suc (card (S - {y})) = card S" if "y \<in> S" "S \<subseteq> N" for S y
    using that f card_Suc_Diff1 [of S y] finite_subset [of S N] by blast
  show ?thesis using f p
  proof (cases rule: nxt_cases)
    case up
    let ?n = "nxt N p"
    have n: "?n \<in> N" by (rule nxt_in [OF f p])
    show ?thesis
    proof (cases "p < t")
      case True
      then have "?n \<le> t" using up(2) t by simp
      moreover have "{q \<in> N. ?n < q \<and> q \<le> t} = {q \<in> N. p < q \<and> q \<le> t} - {?n}" using up by fastforce
      ultimately show ?thesis using True up(1) n suc [of ?n "{q \<in> N. p < q \<and> q \<le> t}"] by (simp add: steps_def)
    next
      case False
      then have "above N ?n = above N p - {?n}" using up by (fastforce simp: above_def)
      moreover have "\<not> ?n \<le> t" using False up(1) by simp
      ultimately show ?thesis using False ne n up(1) suc [of ?n "above N p"] by (simp add: steps_def above_def)
    qed
  next
    case wrap
    then have lt: "t < p" using t ne by (simp add: order_less_le)
    have m: "Min N \<in> {q \<in> N. q \<le> t}" using f t by (auto intro: Min_in)
    have "{q \<in> N. Min N < q \<and> q \<le> t} = {q \<in> N. q \<le> t} - {Min N}" using f by (auto simp: order_less_le)
    moreover have "above N p = {}" using wrap(2) by (auto simp: above_def not_less)
    ultimately show ?thesis using lt m wrap(1) suc [OF m] by (simp add: steps_def)
  qed
qed

lemma steps_round: "finite N \<Longrightarrow> f \<in> N \<Longrightarrow> steps N (nxt N f) f = card N - 1"
proof -
  assume fin: "finite N" and f: "f \<in> N"
  show ?thesis using fin f
  proof (cases rule: nxt_cases)
    case up
    have "card (above N (nxt N f)) + card {q \<in> N. q \<le> f} = card (above N (nxt N f) \<union> {q \<in> N. q \<le> f})"
      using fin up(1) by (intro card_Un_disjoint [symmetric]) (auto simp: above_def)
    also have "above N (nxt N f) \<union> {q \<in> N. q \<le> f} = N - {nxt N f}" using up by (fastforce simp: above_def)
    finally show ?thesis using up(1) nxt_in [OF fin f] fin by (simp add: steps_def)
  next
    case wrap
    have "{q \<in> N. Min N < q \<and> q \<le> f} = N - {Min N}" using fin wrap(2) by (auto simp: order_less_le)
    moreover have "Min N \<in> N" using fin f by (auto intro: Min_in)
    ultimately show ?thesis using wrap(1) fin f by (simp add: steps_def)
  qed
qed


text \<open>The node before an address, and what inserting and removing a node does to the successors.\<close>

lemma prv_props:
  assumes "finite N" "b \<in> N" "b < x"
  shows "prv N x \<in> N" "prv N x < x" "\<And>q. q \<in> N \<Longrightarrow> q < x \<Longrightarrow> q \<le> prv N x"
proof -
  have "finite {q \<in> N. q < x}" "{q \<in> N. q < x} \<noteq> {}" using assms by auto
  then have "prv N x \<in> {q \<in> N. q < x}" unfolding prv_def by (rule Max_in)
  then show "prv N x \<in> N" "prv N x < x" by auto
  show "q \<in> N \<Longrightarrow> q < x \<Longrightarrow> q \<le> prv N x" for q using assms(1) by (simp add: prv_def)
qed

lemma nxt_eqI_up:
  assumes "finite N" "q \<in> N" "p < q" "\<And>y. y \<in> N \<Longrightarrow> p < y \<Longrightarrow> q \<le> y"
  shows "nxt N p = q"
proof -
  have "Min (above N p) = q" using assms by (intro Min_eqI) (auto simp: above_def)
  moreover have "above N p \<noteq> {}" using assms by (auto simp: above_def)
  ultimately show ?thesis by (simp add: nxt_def)
qed

lemma nxt_eqI_wrap:
  assumes "finite N" "b \<in> N" "\<And>y. y \<in> N \<Longrightarrow> b \<le> y" "\<And>y. y \<in> N \<Longrightarrow> y \<le> p"
  shows "nxt N p = b"
proof -
  have "above N p = {}" using assms by (auto simp: above_def not_less)
  moreover have "Min N = b" using assms by (intro Min_eqI) auto
  ultimately show ?thesis by (simp add: nxt_def)
qed

lemma Min_least: "finite N \<Longrightarrow> b \<in> N \<Longrightarrow> (\<And>y. y \<in> N \<Longrightarrow> b \<le> y) \<Longrightarrow> Min N = b"
  by (intro Min_eqI) auto

lemma nxt_insert:
  assumes f: "finite N" and b: "b \<in> N" "\<And>y. y \<in> N \<Longrightarrow> b \<le> y" and x: "x \<notin> N" "b < x" and p: "p \<in> insert x N"
  shows "nxt (insert x N) p = (if p = prv N x then x else if p = x then nxt N (prv N x) else nxt N p)"
proof -
  let ?t = "prv N x" and ?M = "insert x N"
  note t = prv_props [OF f b(1) x(2)]
  have bx: "b \<le> y" if "y \<in> ?M" for y using that b(2) x(2) by auto
  have m: "Min N = b" using f b by (rule Min_least)
  consider (t) "p = ?t" | (x) "p = x" | (o) "p \<noteq> ?t" "p \<in> N" using p by blast
  then show ?thesis
  proof cases
    case t
    have "nxt ?M p = x" using f t \<open>?t < x\<close> x(1) by (intro nxt_eqI_up) (auto, use prv_props(3) [OF f b(1) x(2)] in \<open>force simp: not_le\<close>)
    then show ?thesis using t by simp
  next
    case x
    have n: "nxt ?M x = nxt N ?t" using f \<open>?t \<in> N\<close>
    proof (cases rule: nxt_cases)
      case up
      then have "x < nxt N ?t" using t(3) [of "nxt N ?t"] nxt_in [OF f t(1)] assms(4) by (metis linorder_neqE_nat not_le)
      then show ?thesis using f up t nxt_in [OF f t(1)] by (intro nxt_eqI_up) auto
    next
      case wrap
      then have "y \<le> x" if "y \<in> ?M" for y using that t(2) by fastforce
      then show ?thesis using f b(1) bx wrap(1) m by (intro nxt_eqI_wrap) auto
    qed
    then show ?thesis using x t(2) by simp
  next
    case o
    have px: "p \<noteq> x" using o(2) assms(4) by auto
    have "nxt ?M p = nxt N p" using f o(2)
    proof (cases rule: nxt_cases)
      case up
      have "x < p \<or> nxt N p < x"
      proof (rule ccontr)
        assume a: "\<not> (x < p \<or> nxt N p < x)"
        then have "p < x" using px by simp
        then have "p < ?t" using t(3) [of p] o by (simp add: order_less_le)
        then have "nxt N p \<le> ?t" using up(2) t(1) by simp
        then show False using a t(2) by simp
      qed
      then show ?thesis using f up nxt_in [OF f o(2)] by (intro nxt_eqI_up) auto
    next
      case wrap
      have "x < p" using wrap(2) [OF t(1)] o t px by (metis le_antisym linorder_neqE_nat)
      then show ?thesis using f b(1) bx wrap m by (intro nxt_eqI_wrap) auto
    qed
    then show ?thesis using o px by simp
  qed
qed

lemma nxt_remove:
  assumes f: "finite N" and b: "b \<in> N" "\<And>y. y \<in> N \<Longrightarrow> b \<le> y" and x: "x \<in> N" "x \<noteq> b" and p: "p \<in> N - {x}" and t: "t \<in> N" "nxt N t = x"
  shows "nxt (N - {x}) p = (if p = t then nxt N x else nxt N p)"
proof -
  let ?M = "N - {x}"
  have fm: "finite ?M" "b \<in> ?M" "\<And>y. y \<in> ?M \<Longrightarrow> b \<le> y" "x \<notin> ?M" "b < x" using f b x by (auto simp: order_less_le)
  have i: "insert x ?M = N" using x(1) by auto
  have e: "nxt N q = (if q = prv ?M x then x else if q = x then nxt ?M (prv ?M x) else nxt ?M q)" if "q \<in> N" for q
    using nxt_insert [OF fm(1,2,3,4,5), of q] that by (simp only: i)
  have pm: "prv ?M x \<in> ?M" using prv_props [OF fm(1,2,5)] by blast
  have "t = prv ?M x"
  proof (rule ccontr)
    assume n: "t \<noteq> prv ?M x"
    have x: "nxt ?M q \<noteq> x" if "q \<in> ?M" for q using nxt_in [OF fm(1) that] by auto
    show False
    proof (cases "t = x")
      case True
      then show False using e [OF t(1)] n t x [OF pm] by simp
    next
      case False
      then show False using e [OF t(1)] n t x [of t] by simp
    qed
  qed
  then show ?thesis using e [of p] e [OF x(1)] p pm by auto
qed


subsection \<open>The invariant\<close>

definition stop :: "uheap \<Rightarrow> nat \<Rightarrow> nat" where
  "stop s x = x + 16 * hsize s x"

text \<open>The blocks \<open>B\<close> partition the heap from \<open>lo\<close> to the break.\<close>

definition blocks_ok :: "nat \<Rightarrow> uheap \<Rightarrow> nat set \<Rightarrow> bool" where
  "blocks_ok lo s B \<longleftrightarrow> (\<forall>x \<in> B. lo \<le> x \<and> 0 < hsize s x \<and> stop s x \<le> ubrk s) \<and>
     (\<forall>x \<in> B. \<forall>y \<in> B. x < y \<longrightarrow> stop s x \<le> y) \<and> (\<forall>a. lo \<le> a \<and> a < ubrk s \<longrightarrow> (\<exists>x \<in> B. x \<le> a \<and> a < stop s x))"

definition free_ring :: "nat \<Rightarrow> uheap \<Rightarrow> nat set \<Rightarrow> bool" where
  "free_ring b s N \<longleftrightarrow> finite N \<and> b \<in> N \<and> (\<forall>y \<in> N. b \<le> y) \<and> (\<forall>p \<in> N. hptr s p = nxt N p)"

text \<open>2 GiB are more than the machine has; below that sizes do not wrap.\<close>

definition weak_inv :: "nat \<Rightarrow> nat \<Rightarrow> uheap \<Rightarrow> nat set \<Rightarrow> nat set \<Rightarrow> bool" where
  "weak_inv b lo s N A \<longleftrightarrow> free_ring b s N \<and> 0 < b \<and> b < lo \<and> hsize s b = 0 \<and> A \<inter> N = {} \<and>
     blocks_ok lo s (N - {b} \<union> A) \<and> lo \<le> 2 ^ 38 \<and> lo \<le> ubrk s \<and> ubrk s \<le> lo + 2 ^ 31"

definition touch :: "nat \<Rightarrow> uheap \<Rightarrow> nat set \<Rightarrow> (nat \<times> nat) set" where
  "touch b s N = {(p, q). p \<in> N \<and> p \<noteq> b \<and> q \<in> N \<and> stop s p = q}"

definition heap_inv :: "nat \<Rightarrow> nat \<Rightarrow> uheap \<Rightarrow> nat set \<Rightarrow> nat set \<Rightarrow> bool" where
  "heap_inv b lo s N A \<longleftrightarrow> weak_inv b lo s N A \<and> touch b s N = {} \<and> freep s \<in> N"

lemma fields_link [simp]: "hptr (link p q s) = (hptr s)(p := q)" "hsize (link p q s) = hsize s" "freep (link p q s) = freep s"
  "ubrk (link p q s) = ubrk s" "stop (link p q s) = stop s"
  by (simp_all add: link_def stop_def fun_eq_iff)

lemma fields_resize [simp]: "hptr (resize p n s) = hptr s" "hsize (resize p n s) = (hsize s)(p := n mod 2 ^ 32)"
  "freep (resize p n s) = freep s" "ubrk (resize p n s) = ubrk s"
  by (simp_all add: resize_def)

lemma blocks_link [simp]: "blocks_ok lo (link p q s) B = blocks_ok lo s B"
  by (simp add: blocks_ok_def)

lemma blocks_freep [simp]: "blocks_ok lo (s\<lparr>freep := f\<rparr>) B = blocks_ok lo s B" "free_ring b (s\<lparr>freep := f\<rparr>) N = free_ring b s N"
  "stop (s\<lparr>freep := f\<rparr>) = stop s"
  by (simp_all add: blocks_ok_def free_ring_def stop_def fun_eq_iff)

lemma weak_freep [simp]: "weak_inv b lo (s\<lparr>freep := f\<rparr>) N A = weak_inv b lo s N A" "touch b (s\<lparr>freep := f\<rparr>) N = touch b s N"
  by (simp_all add: weak_inv_def touch_def)

lemma weak_block: "weak_inv b lo s N A \<Longrightarrow> x \<in> N - {b} \<union> A \<Longrightarrow> lo \<le> x \<and> 0 < hsize s x \<and> stop s x \<le> ubrk s \<and> b < x"
proof -
  assume w: "weak_inv b lo s N A" and x: "x \<in> N - {b} \<union> A"
  have "lo \<le> x \<and> 0 < hsize s x \<and> stop s x \<le> ubrk s" using w x unfolding weak_inv_def blocks_ok_def by blast
  moreover have "b < lo" using w by (simp add: weak_inv_def)
  ultimately show ?thesis by simp
qed

lemma weak_sep: "weak_inv b lo s N A \<Longrightarrow> x \<in> N - {b} \<union> A \<Longrightarrow> y \<in> N - {b} \<union> A \<Longrightarrow> x < y \<Longrightarrow> stop s x \<le> y"
  by (auto simp: weak_inv_def blocks_ok_def)

lemma weak_cover: "weak_inv b lo s N A \<Longrightarrow> lo \<le> a \<Longrightarrow> a < ubrk s \<Longrightarrow> \<exists>x \<in> N - {b} \<union> A. x \<le> a \<and> a < stop s x"
proof -
  assume "weak_inv b lo s N A" and a: "lo \<le> a" "a < ubrk s"
  then have "\<forall>a. lo \<le> a \<and> a < ubrk s \<longrightarrow> (\<exists>x \<in> N - {b} \<union> A. x \<le> a \<and> a < stop s x)" unfolding weak_inv_def blocks_ok_def by (elim conjE)
  then show ?thesis using a by simp
qed

lemma insert_ring:
  assumes w: "weak_inv b lo s N A" and x: "x \<in> A" and t: "t = prv N x"
  shows "weak_inv b lo (link t x (link x (nxt N t) s)) (insert x N) (A - {x})"
proof -
  have r: "finite N" "b \<in> N" "\<And>y. y \<in> N \<Longrightarrow> b \<le> y" "\<And>p. p \<in> N \<Longrightarrow> hptr s p = nxt N p" and d: "x \<notin> N" "b < x" "A \<inter> N = {}"
    using w x weak_block [OF w, of x] by (auto simp: weak_inv_def free_ring_def)
  have "prv N x \<noteq> x" using prv_props(2) [OF r(1,2) d(2)] by simp
  then have "free_ring b (link t x (link x (nxt N t) s)) (insert x N)"
    using r d by (auto simp: free_ring_def nxt_insert [OF r(1-3) d(1,2)] t less_imp_le)
  moreover have "insert x N - {b} \<union> (A - {x}) = N - {b} \<union> A" using x d by auto
  ultimately show ?thesis using w d by (auto simp: weak_inv_def)
qed

text \<open>A node swallows its successor, which it touches.\<close>

definition absorb :: "nat \<Rightarrow> nat \<Rightarrow> uheap \<Rightarrow> uheap" where
  "absorb p q s = link p (hptr s q) (resize p (hsize s p + hsize s q) s)"

lemma absorb_size:
  assumes w: "weak_inv b lo s N A" and p: "p \<in> N" "p \<noteq> b" and q: "q \<in> N" "q \<noteq> b" and e: "stop s p = q"
  shows "hsize (absorb p q s) = (hsize s)(p := hsize s p + hsize s q)" "stop (absorb p q s) = (stop s)(p := stop s q)"
proof -
  have "stop s q \<le> lo + 2 ^ 31" "lo \<le> p" using weak_block [OF w, of q] weak_block [OF w, of p] p q w by (auto simp: weak_inv_def)
  then have "hsize s p + hsize s q < 2 ^ 32" using e by (simp add: stop_def)
  then show "hsize (absorb p q s) = (hsize s)(p := hsize s p + hsize s q)" by (simp add: absorb_def)
  then show "stop (absorb p q s) = (stop s)(p := stop s q)" using e by (auto simp: stop_def fun_eq_iff)
qed

lemma absorb_inv:
  assumes w: "weak_inv b lo s N A" and p: "p \<in> N" "p \<noteq> b" and q: "q = nxt N p" "q \<noteq> b" and e: "stop s p = q"
  shows "weak_inv b lo (absorb p q s) (N - {q}) A"
proof -
  have r: "finite N" "b \<in> N" "\<And>y. y \<in> N \<Longrightarrow> b \<le> y" "\<And>p. p \<in> N \<Longrightarrow> hptr s p = nxt N p" using w by (auto simp: weak_inv_def free_ring_def)
  have qN: "q \<in> N" using nxt_in [OF r(1) p(1)] q by simp
  note sz = absorb_size [OF w p qN q(2) e]
  have pq: "p < q" using weak_block [OF w, of p] p e by (auto simp: stop_def)
  have "nxt (N - {q}) y = (if y = p then nxt N q else nxt N y)" if "y \<in> N - {q}" for y
    using nxt_remove [OF r(1-3) qN q(2) that p(1)] q(1) by simp
  then have "free_ring b (absorb p q s) (N - {q})" using r q qN by (auto simp: free_ring_def absorb_def)
  moreover have "blocks_ok lo (absorb p q s) (N - {q} - {b} \<union> A)"
  proof -
    have Q: "lo \<le> q \<and> 0 < hsize s q \<and> stop s q \<le> ubrk s" "q \<notin> A" using weak_block [OF w, of q] qN q w by (auto simp: weak_inv_def)
    have b1: "lo \<le> x \<and> 0 < hsize (absorb p q s) x \<and> stop (absorb p q s) x \<le> ubrk s" if "x \<in> N - {q} - {b} \<union> A" for x
      using weak_block [OF w, of x] that Q by (auto simp: sz)
    have b2: "stop (absorb p q s) x \<le> y" if "x \<in> N - {q} - {b} \<union> A" "y \<in> N - {q} - {b} \<union> A" "x < y" for x y
    proof (cases "x = p")
      case True
      have "stop s p \<le> y" using weak_sep [OF w, of p y] that p True by auto
      moreover have "y \<noteq> q" using that(2) Q by auto
      ultimately have "q < y" using e by simp
      then have "stop s q \<le> y" using weak_sep [OF w, of q y] that(2) qN q(2) by auto
      then show ?thesis using True by (simp add: sz)
    next
      case False
      then show ?thesis using weak_sep [OF w, of x y] that by (auto simp: sz)
    qed
    have b3: "\<exists>x \<in> N - {q} - {b} \<union> A. x \<le> a \<and> a < stop (absorb p q s) x" if a: "lo \<le> a" "a < ubrk s" for a
    proof -
      obtain x where x: "x \<in> N - {b} \<union> A" "x \<le> a" "a < stop s x" using weak_cover [OF w a] by blast
      have "stop s p \<le> stop s q" using e by (simp add: stop_def)
      show ?thesis
      proof (cases "x = q")
        case True
        then show ?thesis using x p pq by (intro bexI [of _ p]) (auto simp: sz)
      next
        case False
        then show ?thesis using x \<open>stop s p \<le> stop s q\<close> by (intro bexI [of _ x]) (auto simp: sz)
      qed
    qed
    have "ubrk (absorb p q s) = ubrk s" by (simp add: absorb_def)
    then show ?thesis unfolding blocks_ok_def using b1 b2 b3 by simp
  qed
  moreover have "hsize (absorb p q s) b = 0" using w p by (simp add: sz weak_inv_def)
  moreover have "ubrk (absorb p q s) = ubrk s" by (simp add: absorb_def)
  ultimately show ?thesis using w by (auto simp: weak_inv_def)
qed

lemma absorb_touch:
  assumes "weak_inv b lo s N A" "p \<in> N" "p \<noteq> b" "q \<in> N" "q \<noteq> b" "stop s p = q"
  shows "touch b (absorb p q s) (N - {q}) \<subseteq> {(r, y) \<in> touch b s N. r \<noteq> p \<and> r \<noteq> q} \<union> {p} \<times> {y. (q, y) \<in> touch b s N}"
  using assms(2-5) by (auto simp: touch_def absorb_size [OF assms])


subsection \<open>Freeing\<close>

lemma free_find_stops:
  assumes r: "free_ring b s N" and x: "x \<notin> N" "b < x" and p: "p \<in> N" and n: "steps N p (prv N x) < n"
  shows "free_find n x p s = Inr (prv N x)"
  using p n
proof (induction n arbitrary: p)
  case (Suc n)
  let ?t = "prv N x"
  have f: "finite N" "b \<in> N" "\<And>y. y \<in> N \<Longrightarrow> b \<le> y" "hptr s p = nxt N p" using r Suc.prems by (auto simp: free_ring_def)
  note t = prv_props [OF f(1,2) x(2)]
  have m: "Min N = b" using f(1-3) by (rule Min_least)
  show ?case
  proof (cases "p = ?t")
    case True
    have "(p < x \<and> x < nxt N p) \<or> (nxt N p \<le> p \<and> (p < x \<or> x < nxt N p))" using f(1) Suc.prems(1)
    proof (cases rule: nxt_cases)
      case up
      have "\<not> nxt N p < x" using t(3) [OF nxt_in [OF f(1) Suc.prems(1)]] up(1) True by auto
      moreover have "nxt N p \<noteq> x" using nxt_in [OF f(1) Suc.prems(1)] x(1) by auto
      ultimately show ?thesis using True t(2) by auto
    next
      case wrap
      then show ?thesis using True t(2) m wrap(2) [OF f(2)] by auto
    qed
    then show ?thesis using True f(4) by auto
  next
    case False
    have "\<not> (p < x \<and> x < nxt N p) \<and> \<not> (nxt N p \<le> p \<and> (p < x \<or> x < nxt N p))" using f(1) Suc.prems(1)
    proof (cases rule: nxt_cases)
      case up
      have "nxt N p \<le> ?t" if "p < x" using up(2) [OF t(1)] t(3) [OF Suc.prems(1) that] False by (simp add: order_less_le)
      then show ?thesis using up(1) t(2) by auto
    next
      case wrap
      have "\<not> p < x" using t(3) [OF Suc.prems(1)] wrap(2) [OF t(1)] False by auto
      then show ?thesis using wrap(1) m x(2) by auto
    qed
    moreover have "free_find n x (nxt N p) s = Inr ?t"
      using steps_nxt [OF f(1) Suc.prems(1) t(1) False] Suc.prems by (intro Suc.IH nxt_in [OF f(1)]) auto
    ultimately show ?thesis using f(4) by auto
  qed
qed simp

text \<open>There are fewer nodes than units below the break.\<close>

lemma card_blocks:
  assumes "finite B" "\<And>x. x \<in> B \<Longrightarrow> 0 < hsize s x" "\<And>x y. x \<in> B \<Longrightarrow> y \<in> B \<Longrightarrow> x < y \<Longrightarrow> stop s x \<le> y"
    "\<And>x. x \<in> B \<Longrightarrow> stop s x \<le> m"
  shows "16 * card B \<le> m"
  using assms
proof (induction B arbitrary: m rule: finite_linorder_max_induct)
  case (insert y B)
  have "stop s x \<le> y" if "x \<in> B" for x using insert.prems(2) [of x y] insert.hyps(2) that by simp
  then have "16 * card B \<le> y" using insert.prems by (intro insert.IH) auto
  moreover have "stop s y \<le> m" "0 < hsize s y" using insert.prems by simp_all
  ultimately show ?case using insert.hyps by (auto simp: stop_def)
qed simp

lemma nodes_max_ok: "weak_inv b lo s N A \<Longrightarrow> card N < nodes_max s"
proof -
  assume w: "weak_inv b lo s N A"
  have f: "finite N" "b \<in> N" using w by (auto simp: weak_inv_def free_ring_def)
  have "16 * card (N - {b}) \<le> ubrk s"
    using f weak_block [OF w] weak_sep [OF w] by (intro card_blocks [where s = s]) auto
  then show ?thesis using f by (simp add: nodes_max_def)
qed

lemma free_code:
  assumes "t \<noteq> x" "u \<noteq> x" "stop s x = u \<Longrightarrow> u \<noteq> t" "hptr s t = u"
  shows "give_back t x s =
    (let s0 = link t x (link x u s); s1 = (if stop s x = u then absorb x u s0 else s0)
     in if stop s1 t = x then absorb t x s1 else s1)"
proof -
  have c: "link a v (resize c n r) = resize c n (link a v r)" "a \<noteq> c \<Longrightarrow> link a v (link c w r) = link c w (link a v r)"
    "link a v (link a w r) = link a v r" for a c v w n r
    by (simp_all add: link_def resize_def fun_upd_twist)
  show ?thesis
    using assms c(2) [of t x x] by (auto simp: give_back_def Let_def absorb_def stop_def c(1,3))
qed


lemma free_frees:
  assumes h: "heap_inv b lo s N A" and x: "x \<in> A"
  obtains s' N' where "free (x + 16) s = Inr s'" "heap_inv b lo s' N' (A - {x})" "\<And>y. y \<in> A - {x} \<Longrightarrow> hsize s' y = hsize s y"
    "ubrk s' = ubrk s" "\<exists>w \<in> N'. hsize s x \<le> hsize s' w" "card N' \<le> Suc (card N)"
proof -
  have w: "weak_inv b lo s N A" and nt: "touch b s N = {}" and fr: "freep s \<in> N" using h by (auto simp: heap_inv_def)
  have r: "finite N" "b \<in> N" "\<And>y. y \<in> N \<Longrightarrow> b \<le> y" "\<And>p. p \<in> N \<Longrightarrow> hptr s p = nxt N p" "free_ring b s N"
    using w by (auto simp: weak_inv_def free_ring_def)
  have xN: "x \<notin> N" "b < x" using w x weak_block [OF w, of x] by (auto simp: weak_inv_def)
  define t where "t = prv N x"
  define u where "u = nxt N t"
  have t: "t \<in> N" "t < x" using prv_props [OF r(1,2) xN(2)] by (simp_all add: t_def)
  have u: "u \<in> N" "hptr s t = u" using nxt_in [OF r(1) t(1)] r(4) [OF t(1)] by (simp_all add: u_def)
  have sx: "x < stop s x" using weak_block [OF w, of x] x by (simp add: stop_def)
  have ub: "u \<noteq> b \<and> x < u" if "stop s x = u" using that sx xN by auto
  let ?N0 = "insert x N" and ?A = "A - {x}"
  define s0 where "s0 = link t x (link x u s)"
  have w0: "weak_inv b lo s0 ?N0 ?A" using insert_ring [OF w x t_def] by (simp add: s0_def u_def)
  have z0: "hsize s0 = hsize s" "stop s0 = stop s" "ubrk s0 = ubrk s" by (simp_all add: s0_def)
  have nx: "nxt ?N0 x = u" "nxt ?N0 t = x"
    using nxt_insert [OF r(1-3) xN(1,2), of x] nxt_insert [OF r(1-3) xN(1,2), of t] t xN by (auto simp: t_def u_def)
  have tc0: "touch b s0 ?N0 \<subseteq> {t} \<times> {x} \<union> {x} \<times> {u}"
  proof -
    have "q = u" if q: "q \<in> N" "stop s x = q" for q
    proof -
      have "x < q" using q(2) sx by simp
      from r(1) t(1) have "x < u \<and> u \<le> q"
      proof (cases rule: nxt_cases)
        case up
        have "\<not> u \<le> x" using up(1) prv_props(3) [OF r(1,2) xN(2), of u] u(1) xN(1) by (fastforce simp: u_def t_def order_le_less)
        then show ?thesis using up(2) [OF q(1)] \<open>x < q\<close> t(2) by (simp add: u_def)
      next
        case wrap
        then show ?thesis using wrap(2) [OF q(1)] \<open>x < q\<close> t(2) by simp
      qed
      moreover have "stop s x \<le> u" if "x < u" using weak_sep [OF w, of x u] x u(1) that xN(2) by auto
      ultimately show ?thesis using q(2) by simp
    qed
    moreover have "p = t" if p: "p \<in> N" "p \<noteq> b" "stop s p = x" for p
    proof -
      have "p < x" using weak_block [OF w, of p] p by (auto simp: stop_def)
      then have "p \<le> t" using prv_props(3) [OF r(1,2) xN(2) p(1)] by (simp add: t_def)
      moreover have "stop s p \<le> t" if "p < t" using weak_sep [OF w, of p t] p t(1) that r(3) [OF p(1)] by auto
      ultimately show ?thesis using p(3) t(2) by fastforce
    qed
    ultimately show ?thesis using nt xN sx by (auto simp: touch_def z0)
  qed
  define s1 where "s1 = (if stop s x = u then absorb x u s0 else s0)"
  define N1 where "N1 = (if stop s x = u then ?N0 - {u} else ?N0)"
  have w1: "weak_inv b lo s1 N1 ?A" and n1: "nxt N1 t = x" and i1: "t \<in> N1" "x \<in> N1" and tc1: "touch b s1 N1 \<subseteq> {t} \<times> {x}"
    and z1: "\<And>y. y \<noteq> x \<Longrightarrow> hsize s1 y = hsize s y" "hsize s x \<le> hsize s1 x" "ubrk s1 = ubrk s"
  proof -
    have f0: "finite ?N0" "b \<in> ?N0" "\<And>y. y \<in> ?N0 \<Longrightarrow> b \<le> y" using r xN by auto
    have m: "u \<noteq> t" "u \<noteq> x" "u \<in> ?N0" "u \<noteq> b" if "stop s x = u" using ub [OF that] t u by auto
    show "weak_inv b lo s1 N1 ?A"
      using w0 absorb_inv [OF w0, of x u] nx(1) xN(2) m by (auto simp: s1_def N1_def z0)
    show "nxt N1 t = x"
      using nxt_remove [OF f0 m(3,4), of t x] nx t m by (auto simp: N1_def)
    show "t \<in> N1" "x \<in> N1" using t m by (auto simp: N1_def)
    show "touch b s1 N1 \<subseteq> {t} \<times> {x}"
    proof (cases "stop s x = u")
      case True
      have "touch b (absorb x u s0) (?N0 - {u}) \<subseteq> {(r, y) \<in> touch b s0 ?N0. r \<noteq> x \<and> r \<noteq> u} \<union> {x} \<times> {y. (u, y) \<in> touch b s0 ?N0}"
        using True m xN(2) by (intro absorb_touch [OF w0]) (auto simp: z0)
      then show ?thesis using tc0 m [OF True] True by (fastforce simp: s1_def N1_def)
    next
      case False
      then show ?thesis using tc0 by (auto simp: s1_def N1_def touch_def z0)
    qed
    show "hsize s1 y = hsize s y" if "y \<noteq> x" for y using that by (simp add: s1_def absorb_def z0)
    show "hsize s x \<le> hsize s1 x" using absorb_size(1) [OF w0, of x u] m xN(2) by (auto simp: s1_def z0)
    show "ubrk s1 = ubrk s" by (simp add: s1_def absorb_def z0)
  qed
  define s2 where "s2 = (if stop s1 t = x then absorb t x s1 else s1)"
  define N2 where "N2 = (if stop s1 t = x then N1 - {x} else N1)"
  have tb: "t \<noteq> b" if "stop s1 t = x" using that w1 xN(2) by (auto simp: stop_def weak_inv_def)
  have w2: "weak_inv b lo s2 N2 ?A"
    using w1 absorb_inv [OF w1 i1(1)] tb n1 xN(2) by (auto simp: s2_def N2_def)
  have tc2: "touch b s2 N2 = {}"
  proof (cases "stop s1 t = x")
    case True
    have "touch b (absorb t x s1) (N1 - {x}) \<subseteq> {(r, y) \<in> touch b s1 N1. r \<noteq> t \<and> r \<noteq> x} \<union> {t} \<times> {y. (x, y) \<in> touch b s1 N1}"
      using True tb i1 xN(2) by (intro absorb_touch [OF w1]) auto
    then show ?thesis using tc1 True t(2) by (fastforce simp: s2_def N2_def)
  next
    case False
    then show ?thesis using tc1 by (auto simp: s2_def N2_def touch_def)
  qed
  have z2: "hsize s2 y = hsize s1 y" if "y \<noteq> t" for y using that by (simp add: s2_def absorb_def)
  have "steps N (freep s) t < nodes_max s" using steps_less [OF r(1) fr, of t] nodes_max_ok [OF w] by simp
  then have ff: "free_find (nodes_max s) x (freep s) s = Inr t" using free_find_stops [OF r(5) xN fr] by (simp add: t_def)
  have "freep s \<noteq> 0" using r(3) [OF fr] w by (auto simp: weak_inv_def)
  moreover have "give_back t x s = s2"
  proof -
    have "u \<noteq> x" using u(1) xN(1) by auto
    moreover have "u \<noteq> t" if "stop s x = u" using ub [OF that] t(2) by simp
    ultimately show ?thesis using free_code [of t x u s] t(2) u(2) by (simp add: Let_def s0_def s1_def s2_def)
  qed
  ultimately have "free (x + 16) s = Inr (s2\<lparr>freep := t\<rparr>)" using ff by (simp add: free_def rbind_def)
  moreover have "heap_inv b lo (s2\<lparr>freep := t\<rparr>) N2 ?A" using w2 tc2 i1 t(2) by (auto simp: heap_inv_def N2_def)
  moreover have "hsize s2 y = hsize s y" if "y \<in> ?A" for y
    using z2 [of y] z1(1) [of y] that t(1) w by (auto simp: weak_inv_def)
  moreover have "\<exists>v \<in> N2. hsize s x \<le> hsize s2 v"
  proof (cases "stop s1 t = x")
    case True
    then have "hsize s2 t = hsize s1 t + hsize s1 x" using absorb_size(1) [OF w1 i1(1) tb i1(2)] xN(2) by (simp add: s2_def)
    then show ?thesis using z1(2) i1 t(2) True by (intro bexI [of _ t]) (auto simp: N2_def)
  next
    case False
    then show ?thesis using z1(2) i1 by (intro bexI [of _ x]) (auto simp: s2_def N2_def)
  qed
  moreover have "card N2 \<le> Suc (card N)"
  proof -
    have "N2 \<subseteq> insert x N" by (auto simp: N2_def N1_def)
    then show ?thesis using r(1) xN(1) card_mono [of "insert x N" N2] by simp
  qed
  moreover have "ubrk s2 = ubrk s" using z1(3) by (simp add: s2_def absorb_def)
  ultimately show ?thesis using that [of "s2\<lparr>freep := t\<rparr>" N2] by simp
qed


subsection \<open>Allocating\<close>

text \<open>A node that is large enough gives a block that was nobody's.\<close>

lemma carve_ok:
  assumes w: "weak_inv b lo s N A" and nt: "touch b s N = {}" and p: "p \<in> N" and q: "q \<in> N" "nxt N q = p" and n: "0 < n" "n \<le> hsize s p"
  obtains x s' N' where "carve n q p s = (x + 16, s')" "heap_inv b lo s' N' (insert x A)" "x \<notin> A" "hsize s' x = n"
    "\<And>y. y \<in> A \<Longrightarrow> hsize s' y = hsize s y" "ubrk s' = ubrk s"
proof -
  have r: "finite N" "b \<in> N" "\<And>y. y \<in> N \<Longrightarrow> b \<le> y" "\<And>p. p \<in> N \<Longrightarrow> hptr s p = nxt N p" "hsize s b = 0" "A \<inter> N = {}"
    using w by (auto simp: weak_inv_def free_ring_def)
  have pb: "p \<noteq> b" "p \<notin> A" using n r p by auto
  note P = weak_block [OF w, of p]
  show ?thesis
  proof (cases "hsize s p = n")
    case True
    let ?s = "link q (hptr s p) s"
    have qp: "q \<noteq> p"
    proof
      assume "q = p"
      then have "\<not> b < p" using q(2) r(1-3) p pb nxt_eqI_wrap [of N b p] nxt_cases [OF r(1) p] by (metis less_irrefl_nat Min_least)
      then show False using P p pb by simp
    qed
    have "free_ring b ?s (N - {p})"
      using r q qp p pb nxt_remove [OF r(1-3) p pb(1) _ q] by (auto simp: free_ring_def)
    moreover have "N - {p} - {b} \<union> insert p A = N - {b} \<union> A" using p pb by auto
    ultimately have "weak_inv b lo ?s (N - {p}) (insert p A)" using w by (auto simp: weak_inv_def)
    moreover have "touch b ?s (N - {p}) = {}" using nt by (auto simp: touch_def)
    ultimately have "heap_inv b lo (?s\<lparr>freep := q\<rparr>) (N - {p}) (insert p A)" using q(1) qp by (simp add: heap_inv_def)
    then show ?thesis using True pb by (intro that [of p "?s\<lparr>freep := q\<rparr>"]) (simp_all add: carve_def)
  next
    case False
    let ?m = "hsize s p - n"
    have lt: "hsize s p < 2 ^ 32" using P p pb w by (auto simp: weak_inv_def stop_def)
    then have m: "?m mod 2 ^ 32 = ?m" "n mod 2 ^ 32 = n" using n by auto
    define x where "x = p + 16 * ?m"
    define s1 where "s1 = resize x n (resize p ?m s)"
    have xp: "p < x" "x < stop s p" "stop s p = x + 16 * n" using n False by (auto simp: x_def stop_def)
    have out: "x \<notin> N - {b} \<union> A"
    proof
      assume "x \<in> N - {b} \<union> A"
      then show False using weak_sep [OF w, of p x] p pb xp by auto
    qed
    then have xb: "x \<notin> N" "x \<notin> A" using xp P p pb by auto
    have hs: "hsize s1 = (hsize s)(p := ?m, x := n)" "ubrk s1 = ubrk s" "hptr s1 = hptr s" using m by (simp_all add: s1_def)
    have st: "stop s1 y = (if y = p then x else if y = x then stop s p else stop s y)" for y
      using xp by (auto simp: stop_def x_def hs)
    have "free_ring b s1 N" using r by (simp add: free_ring_def hs)
    moreover have "blocks_ok lo s1 (N - {b} \<union> insert x A)"
    proof -
      have b1: "lo \<le> y \<and> 0 < hsize s1 y \<and> stop s1 y \<le> ubrk s" if "y \<in> N - {b} \<union> insert x A" for y
        using weak_block [OF w, of y] P p pb that xp n False by (auto simp: hs st)
      have b2: "stop s1 y \<le> z" if yz: "y \<in> N - {b} \<union> insert x A" "z \<in> N - {b} \<union> insert x A" "y < z" for y z
      proof -
        consider "z = x" "y \<noteq> p" "y \<noteq> x" | "z = x" "y = p" | "y = x" "z \<noteq> x" | "y = p" "z \<noteq> x" | "y \<noteq> x" "y \<noteq> p" "z \<noteq> x" using yz(3) by auto
        then show ?thesis
        proof cases
          case 1
          have "y \<le> p"
          proof (rule ccontr)
            assume "\<not> y \<le> p"
            then have "stop s p \<le> y" using weak_sep [OF w, of p y] p pb yz 1 by auto
            then show False using 1 yz(3) xp by simp
          qed
          then show ?thesis using weak_sep [OF w, of y p] p pb yz 1 xp by (auto simp: st)
        next
          case 3
          then have "p < z" using yz(3) xp by simp
          then show ?thesis using weak_sep [OF w, of p z] p pb yz 3 xp by (auto simp: st)
        next
          case 4
          then show ?thesis using weak_sep [OF w, of p z] p pb yz xp by (auto simp: st)
        qed (use weak_sep [OF w, of y z] yz xp in \<open>auto simp: st\<close>)
      qed
      have b3: "\<exists>y \<in> N - {b} \<union> insert x A. y \<le> a \<and> a < stop s1 y" if a: "lo \<le> a" "a < ubrk s" for a
      proof -
        obtain y where y: "y \<in> N - {b} \<union> A" "y \<le> a" "a < stop s y" using weak_cover [OF w a] by blast
        show ?thesis
        proof (cases "y = p \<and> x \<le> a")
          case True
          then show ?thesis using y xp by (intro bexI [of _ x]) (auto simp: st)
        next
          case False
          then show ?thesis using y out xp by (intro bexI [of _ y]) (auto simp: st)
        qed
      qed
      show ?thesis unfolding blocks_ok_def hs(2) using b1 b2 b3 by blast
    qed
    ultimately have "weak_inv b lo s1 N (insert x A)" using w xb pb xp P p by (auto simp: weak_inv_def hs)
    moreover have "touch b s1 N = {}" using nt xb by (auto simp: touch_def st)
    ultimately have "heap_inv b lo (s1\<lparr>freep := q\<rparr>) N (insert x A)" using q(1) by (simp add: heap_inv_def)
    moreover have "carve n q p s = (x + 16, s1\<lparr>freep := q\<rparr>)" using False m by (simp add: carve_def Let_def x_def s1_def)
    ultimately show ?thesis using xb pb by (intro that [of x "s1\<lparr>freep := q\<rparr>" N]) (auto simp: hs)
  qed
qed


text \<open>The walk finds a node that is large enough if there is one between \<open>p\<close> and the end of the round.\<close>

lemma loop_finds:
  assumes r: "free_ring b s N" and f: "freep s \<in> N" and v: "v \<in> N" "n \<le> hsize s v"
  shows "p \<in> N \<Longrightarrow> q \<in> N \<Longrightarrow> nxt N q = p \<Longrightarrow> steps N p v \<le> steps N p (freep s) \<Longrightarrow> steps N p v < k \<Longrightarrow>
    \<exists>p' q'. p' \<in> N \<and> q' \<in> N \<and> nxt N q' = p' \<and> n \<le> hsize s p' \<and> malloc_loop k room n q p s = Inr (carve n q' p' s)"
proof (induction k arbitrary: p q)
  case (Suc k)
  have fin: "finite N" "hptr s p = nxt N p" using r Suc.prems(1) by (auto simp: free_ring_def)
  show ?case
  proof (cases "n \<le> hsize s p")
    case True
    then show ?thesis using Suc.prems by (intro exI [of _ p] exI [of _ q]) simp
  next
    case False
    then have pv: "p \<noteq> v" using v by auto
    note sv = steps_nxt [OF fin(1) Suc.prems(1) v(1) pv]
    have pf: "p \<noteq> freep s"
    proof
      assume "p = freep s"
      then have "steps N p (freep s) = 0" by (simp add: steps_def)
      then show False using Suc.prems(4) sv by simp
    qed
    note sf = steps_nxt [OF fin(1) Suc.prems(1) f pf]
    have "\<exists>p' q'. p' \<in> N \<and> q' \<in> N \<and> nxt N q' = p' \<and> n \<le> hsize s p' \<and> malloc_loop k room n p (nxt N p) s = Inr (carve n q' p' s)"
      using Suc.prems sv sf by (intro Suc.IH nxt_in [OF fin(1)]) auto
    then show ?thesis using False pf fin(2) by simp
  qed
qed simp

lemma loop_all:
  assumes r: "free_ring b s N" and f: "freep s \<in> N" and small: "\<And>v. v \<in> N \<Longrightarrow> hsize s v < n"
  shows "p \<in> N \<Longrightarrow> steps N p (freep s) < k \<Longrightarrow>
    malloc_loop k room n q p s = rbind (morecore room n s) (\<lambda>(p1, s1).
      if p1 = 0 then Inr (0, s1) else malloc_loop (k - Suc (steps N p (freep s))) room n p1 (hptr s1 p1) s1)"
proof (induction k arbitrary: p q)
  case (Suc k)
  have fin: "finite N" "hptr s p = nxt N p" using r Suc.prems(1) by (auto simp: free_ring_def)
  show ?case
  proof (cases "p = freep s")
    case True
    then have z: "steps N p (freep s) = 0" by (simp add: steps_def)
    show ?thesis unfolding z diff_Suc_Suc diff_zero using True small [OF f] by simp
  next
    case False
    note sf = steps_nxt [OF fin(1) Suc.prems(1) f False]
    then have "malloc_loop k room n p (nxt N p) s = rbind (morecore room n s) (\<lambda>(p1, s1).
        if p1 = 0 then Inr (0, s1) else malloc_loop (k - Suc (steps N (nxt N p) (freep s))) room n p1 (hptr s1 p1) s1)"
      using Suc.prems by (intro Suc.IH nxt_in [OF fin(1)]) auto
    then show ?thesis unfolding sf [symmetric] diff_Suc_Suc using False fin(2) small [OF Suc.prems(1)] by simp
  qed
qed simp

text \<open>\<^verbatim>\<open>morecore\<close>, as long as the number of bytes fits a signed 32-bit number.\<close>

lemma to_int32_small: "n < 2 ^ 31 \<Longrightarrow> to_int32 n = int n"
  by (simp add: to_int32_def)

lemma to_int32_big: "2 ^ 31 \<le> n \<Longrightarrow> n < 2 ^ 32 \<Longrightarrow> to_int32 n = int n - 2 ^ 32"
proof -
  assume n: "2 ^ 31 \<le> n" "n < 2 ^ 32"
  have "(int n + 2 ^ 31) mod 2 ^ 32 = (int n - 2 ^ 31 + 2 ^ 32) mod 2 ^ 32" by (simp add: add.commute)
  also have "\<dots> = int n - 2 ^ 31" using n by (subst mod_add_self2, intro mod_pos_pos_trivial) auto
  finally show ?thesis by (simp add: to_int32_def)
qed

lemma sbrk_pos: "0 < c \<Longrightarrow> ubrk s + c < 2 ^ 64 \<or> \<not> room (ubrk s) c \<Longrightarrow>
    sbrk room (int c) s = (if room (ubrk s) c then (Some (ubrk s), s\<lparr>ubrk := ubrk s + c\<rparr>) else (None, s))"
proof -
  have "nat ((int a + int c) mod 2 ^ 64) = a + c" if "a + c < 2 ^ 64" for a
    using that by (simp add: mod_pos_pos_trivial nat_int_add del: of_nat_add flip: of_nat_add)
  then show "0 < c \<Longrightarrow> ubrk s + c < 2 ^ 64 \<or> \<not> room (ubrk s) c \<Longrightarrow> ?thesis" by (auto simp: sbrk_def)
qed

lemma morecore_ok:
  assumes h: "heap_inv b lo s N A" and n: "16 * n < 2 ^ 31" and bound: "\<And>a c. room a c \<Longrightarrow> a + c \<le> lo + 2 ^ 31"
  shows "morecore room n s = Inr (0, s) \<and> \<not> room (ubrk s) (16 * max 4096 n) \<or>
    (\<exists>s' N'. morecore room n s = Inr (freep s', s') \<and> heap_inv b lo s' N' A \<and> (\<forall>y \<in> A. hsize s' y = hsize s y) \<and>
       (\<exists>v \<in> N'. n \<le> hsize s' v) \<and> card N' \<le> Suc (card N) \<and> ubrk s \<le> ubrk s')"
proof -
  define nu where "nu = (if n < 4096 then 4096 else n)"
  have nu: "n \<le> nu" "0 < nu" "16 * nu < 2 ^ 31" using n by (auto simp: nu_def)
  have i: "to_int32 (nu * 16) = int (nu * 16)" using nu(3) by (intro to_int32_small) simp
  have mc: "morecore room n s = (case sbrk room (int (nu * 16)) s of (None, s1) \<Rightarrow> Inr (0, s1)
      | (Some cp, s1) \<Rightarrow> rbind (free (cp + 16) (resize cp nu s1)) (\<lambda>s2. Inr (freep s2, s2)))"
    by (simp only: morecore_def Let_def i flip: nu_def)
  show ?thesis
  proof (cases "room (ubrk s) (nu * 16)")
    case False
    moreover have "16 * max 4096 n = nu * 16" by (simp add: nu_def max_def)
    ultimately show ?thesis using sbrk_pos [of "nu * 16" s room] nu(2) unfolding mc by (simp add: mult.commute)
  next
    case True
    have w: "weak_inv b lo s N A" and nt: "touch b s N = {}" and fr: "freep s \<in> N" using h by (auto simp: heap_inv_def)
    have lo: "lo \<le> 2 ^ 38" "lo \<le> ubrk s" using w by (simp_all add: weak_inv_def)
    let ?x = "ubrk s"
    define s2 where "s2 = resize ?x nu (s\<lparr>ubrk := ?x + nu * 16\<rparr>)"
    have top: "?x + nu * 16 \<le> lo + 2 ^ 31" by (rule bound [OF True])
    then have sb: "sbrk room (int (nu * 16)) s = (Some ?x, s\<lparr>ubrk := ?x + nu * 16\<rparr>)"
      using True sbrk_pos [of "nu * 16" s room] nu(2) lo by simp
    have n32: "nu mod 2 ^ 32 = nu" using nu(3) by simp
    have notin: "?x \<notin> N" "?x \<notin> A" "?x \<noteq> b"
      using weak_block [OF w, of ?x] w lo by (auto simp: stop_def weak_inv_def)
    have z: "hsize s2 = (hsize s)(?x := nu)" "ubrk s2 = ?x + nu * 16" "hptr s2 = hptr s" "freep s2 = freep s" using n32 by (simp_all add: s2_def)
    have st: "stop s2 y = (if y = ?x then ?x + nu * 16 else stop s y)" for y by (simp add: stop_def z)
    have h2: "heap_inv b lo s2 N (insert ?x A)"
    proof -
      have "blocks_ok lo s2 (N - {b} \<union> insert ?x A)"
      proof -
        have b1: "lo \<le> y \<and> 0 < hsize s2 y \<and> stop s2 y \<le> ubrk s2" if "y \<in> N - {b} \<union> insert ?x A" for y
          using weak_block [OF w, of y] that lo nu(2) by (auto simp: z st)
        have b2: "stop s2 y \<le> c" if "y \<in> N - {b} \<union> insert ?x A" "c \<in> N - {b} \<union> insert ?x A" "y < c" for y c
          using weak_block [OF w, of y] weak_block [OF w, of c] weak_sep [OF w, of y c] that by (auto simp: stop_def z)
        have b3: "\<exists>y \<in> N - {b} \<union> insert ?x A. y \<le> a \<and> a < stop s2 y" if a: "lo \<le> a" "a < ubrk s2" for a
        proof (cases "a < ?x")
          case True
          then obtain y where "y \<in> N - {b} \<union> A" "y \<le> a" "a < stop s y" using weak_cover [OF w a(1)] by blast
          then show ?thesis using True by (intro bexI [of _ y]) (auto simp: st)
        next
          case False
          then show ?thesis using a by (intro bexI [of _ ?x]) (auto simp: st z)
        qed
        show ?thesis unfolding blocks_ok_def using b1 b2 b3 by blast
      qed
      moreover have "free_ring b s2 N" using w by (simp add: weak_inv_def free_ring_def z)
      ultimately have "weak_inv b lo s2 N (insert ?x A)" using w notin top by (auto simp: weak_inv_def z)
      moreover have "touch b s2 N = {}" using nt notin by (auto simp: touch_def st)
      ultimately show ?thesis using fr by (simp add: heap_inv_def z)
    qed
    obtain s' N' where f: "free (?x + 16) s2 = Inr s'" "heap_inv b lo s' N' (insert ?x A - {?x})"
      "\<And>y. y \<in> insert ?x A - {?x} \<Longrightarrow> hsize s' y = hsize s2 y" "ubrk s' = ubrk s2" "\<exists>w \<in> N'. hsize s2 ?x \<le> hsize s' w" "card N' \<le> Suc (card N)"
      by (rule free_frees [OF h2, of ?x]) auto
    have e: "insert ?x A - {?x} = A" using notin by auto
    have "morecore room n s = Inr (freep s', s')" unfolding mc sb using f(1) by (simp add: rbind_def s2_def)
    moreover have "\<forall>y \<in> A. hsize s' y = hsize s y" using f(3) notin unfolding e z by auto
    moreover have "\<exists>v \<in> N'. n \<le> hsize s' v" using f(5) nu(1) unfolding z by (auto intro: order_trans)
    moreover have "ubrk s \<le> ubrk s'" using f(4) unfolding z by simp
    ultimately show ?thesis using f(2,6) unfolding e by blast
  qed
qed


text \<open>A heap before the first call, or with a ring of free blocks.\<close>

definition uheap_ok :: "nat \<Rightarrow> nat \<Rightarrow> uheap \<Rightarrow> nat set \<Rightarrow> bool" where
  "uheap_ok b lo s A \<longleftrightarrow> (\<exists>N. heap_inv b lo s N A) \<or>
     freep s = 0 \<and> A = {} \<and> ubrk s = lo \<and> 0 < b \<and> b < lo \<and> lo \<le> 2 ^ 38"

lemma first_call:
  assumes "freep s = 0" "ubrk s = lo" "0 < b" "b < lo" "lo \<le> 2 ^ 38"
  shows "heap_inv b lo ((resize b 0 (link b b s))\<lparr>freep := b\<rparr>) {b} {}"
proof -
  have "nxt {b} b = b" by (simp add: nxt_def above_def)
  then show ?thesis using assms by (simp add: heap_inv_def weak_inv_def free_ring_def blocks_ok_def touch_def)
qed

lemma units_small: "nbytes < 2 ^ 31 - 64 \<Longrightarrow> 16 * units nbytes < 2 ^ 31 \<and> nbytes + 16 \<le> 16 * units nbytes \<and> 0 < units nbytes"
proof -
  assume n: "nbytes < 2 ^ 31 - 64"
  then have "(nbytes + 15) div 16 + 1 < 2 ^ 32" by simp
  then have "units nbytes = (nbytes + 15) div 16 + 1" by (simp add: units_def)
  then show ?thesis using n by auto
qed

lemma malloc_inv:
  assumes h: "heap_inv b lo s N A" and n: "nbytes < 2 ^ 31 - 64" and bound: "\<And>a c. room a c \<Longrightarrow> a + c \<le> lo + 2 ^ 31"
    and k: "2 * card N + 2 \<le> k"
  shows "malloc_loop k room (units nbytes) (freep s) (hptr s (freep s)) s = Inr (0, s) \<and> \<not> room (ubrk s) (16 * max 4096 (units nbytes)) \<or>
    (\<exists>x s' N'. malloc_loop k room (units nbytes) (freep s) (hptr s (freep s)) s = Inr (x + 16, s') \<and> heap_inv b lo s' N' (insert x A) \<and>
       x \<notin> A \<and> nbytes + 16 \<le> 16 * hsize s' x \<and> (\<forall>y \<in> A. hsize s' y = hsize s y))"
proof -
  let ?n = "units nbytes"
  note un = units_small [OF n]
  have found: "\<exists>x s' N'. malloc_loop j room ?n (freep r) (hptr r (freep r)) r = Inr (x + 16, s') \<and> heap_inv b lo s' N' (insert x A) \<and>
      x \<notin> A \<and> nbytes + 16 \<le> 16 * hsize s' x \<and> (\<forall>y \<in> A. hsize s' y = hsize r y)"
    if hi: "heap_inv b lo r M A" and v: "v \<in> M" "?n \<le> hsize r v" and j: "card M \<le> j" for r M v j
  proof -
    have w: "weak_inv b lo r M A" "touch b r M = {}" "freep r \<in> M" "free_ring b r M" "finite M" "hptr r (freep r) = nxt M (freep r)"
      using hi by (auto simp: heap_inv_def weak_inv_def free_ring_def)
    let ?p = "nxt M (freep r)"
    have p: "?p \<in> M" by (rule nxt_in [OF w(5,3)])
    have "steps M ?p v \<le> steps M ?p (freep r)" "steps M ?p v < j"
      using steps_less [OF w(5) p, of v] steps_round [OF w(5,3)] j by simp_all
    from loop_finds [OF w(4,3) v p w(3) refl this] obtain p' q' where c: "p' \<in> M" "q' \<in> M" "nxt M q' = p'" "?n \<le> hsize r p'"
      "malloc_loop j room ?n (freep r) ?p r = Inr (carve ?n q' p' r)" by blast
    obtain x s' N' where "carve ?n q' p' r = (x + 16, s')" "heap_inv b lo s' N' (insert x A)" "x \<notin> A" "hsize s' x = ?n"
      "\<And>y. y \<in> A \<Longrightarrow> hsize s' y = hsize r y"
      using carve_ok [OF w(1,2) c(1-3) _ c(4)] un by metis
    then show ?thesis using c(5) un w(6) by auto
  qed
  show ?thesis
  proof (cases "\<exists>v \<in> N. ?n \<le> hsize s v")
    case True
    then show ?thesis using found [OF h] k by fastforce
  next
    case False
    then have small: "hsize s v < ?n" if "v \<in> N" for v using that by (meson not_le)
    have w: "freep s \<in> N" "free_ring b s N" "finite N" "hptr s (freep s) = nxt N (freep s)" using h by (auto simp: heap_inv_def weak_inv_def free_ring_def)
    let ?p = "nxt N (freep s)"
    have p: "?p \<in> N" by (rule nxt_in [OF w(3,1)])
    have st: "steps N ?p (freep s) = card N - 1" "0 < card N" using steps_round [OF w(3,1)] w(1,3) by (auto simp: card_gt_0_iff)
    have l: "malloc_loop k room ?n (freep s) ?p s = rbind (morecore room ?n s) (\<lambda>(p1, s1).
        if p1 = 0 then Inr (0, s1) else malloc_loop (k - Suc (steps N ?p (freep s))) room ?n p1 (hptr s1 p1) s1)"
      using st k by (intro loop_all [OF w(2,1) small p]) auto
    from morecore_ok [OF h _ bound] un consider "morecore room ?n s = Inr (0, s)" "\<not> room (ubrk s) (16 * max 4096 ?n)"
      | s1 M where "morecore room ?n s = Inr (freep s1, s1)" "heap_inv b lo s1 M A" "\<forall>y \<in> A. hsize s1 y = hsize s y"
          "\<exists>v \<in> M. ?n \<le> hsize s1 v" "card M \<le> Suc (card N)" by blast
    then show ?thesis
    proof cases
      case 1
      then show ?thesis using l w(4) by (simp add: rbind_def)
    next
      case 2
      have "freep s1 \<noteq> 0" using 2(2) by (auto simp: heap_inv_def weak_inv_def free_ring_def)
      then have "malloc_loop k room ?n (freep s) ?p s = malloc_loop (k - Suc (steps N ?p (freep s))) room ?n (freep s1) (hptr s1 (freep s1)) s1"
        unfolding l using 2(1) by (simp add: rbind_def)
      moreover have "card M \<le> k - Suc (steps N ?p (freep s))" using 2(5) st k by simp
      ultimately show ?thesis using found [OF 2(2)] 2(3,4) w(4) by metis
    qed
  qed
qed


lemma free_ok:
  assumes "uheap_ok b lo s A" and "x \<in> A"
  shows "\<exists>s'. free (x + 16) s = Inr s' \<and> uheap_ok b lo s' (A - {x}) \<and> (\<forall>y \<in> A - {x}. hsize s' y = hsize s y) \<and> ubrk s' = ubrk s"
proof -
  obtain N where h: "heap_inv b lo s N A" using assms by (auto simp: uheap_ok_def)
  show ?thesis by (rule free_frees [OF h assms(2)]) (auto simp: uheap_ok_def)
qed

text \<open>With nothing handed out the heap is one free block.\<close>

lemma empty_heap:
  assumes h: "heap_inv b lo s N {}" and lt: "lo < ubrk s"
  shows "N = {b, lo} \<and> stop s lo = ubrk s"
proof -
  have w: "weak_inv b lo s N {}" and nt: "touch b s N = {}" using h by (auto simp: heap_inv_def)
  have lo: "lo \<in> N - {b}"
  proof -
    obtain x where x: "x \<in> N - {b} \<union> {}" "x \<le> lo" "lo < stop s x" using weak_cover [OF w le_refl lt] by blast
    then show ?thesis using weak_block [OF w x(1)] by auto
  qed
  have e: "stop s lo = ubrk s"
  proof (rule ccontr)
    assume "stop s lo \<noteq> ubrk s"
    then have l: "lo \<le> stop s lo" "stop s lo < ubrk s" using weak_block [OF w, of lo] lo by (auto simp: stop_def)
    obtain y where y: "y \<in> N - {b} \<union> {}" "y \<le> stop s lo" "stop s lo < stop s y" using weak_cover [OF w l] by blast
    then have "lo < y" using weak_block [OF w y(1)] by (metis nat_less_le)
    then have "y = stop s lo" using weak_sep [OF w, of lo y] lo y by auto
    then show False using nt lo y(1) by (auto simp: touch_def)
  qed
  have "z = lo" if z: "z \<in> N - {b}" for z
  proof (rule ccontr)
    assume "z \<noteq> lo"
    then have "lo < z" using weak_block [OF w, of z] z by auto
    then show False using weak_sep [OF w, of lo z] weak_block [OF w, of z] lo z e by (auto simp: stop_def)
  qed
  moreover have "b \<in> N" using w by (simp add: weak_inv_def free_ring_def)
  ultimately have "N = {b, lo}" using lo by blast
  then show ?thesis using e by simp
qed

subsection \<open>The interface of a heap\<close>

locale block_heap =
  fixes ok :: "'s \<Rightarrow> nat set \<Rightarrow> bool" and rel :: "nat \<Rightarrow> 's \<Rightarrow> 's res" and size_of :: "'s \<Rightarrow> nat"
  assumes rel_ok: "ok s A \<Longrightarrow> x \<in> A \<Longrightarrow> \<exists>s'. rel x s = Inr s' \<and> ok s' (A - {x}) \<and> size_of s' = size_of s"
begin

text \<open>Blocks may be released in any order.\<close>

lemma release_all:
  "ok s (set xs) \<Longrightarrow> distinct xs \<Longrightarrow> \<exists>s'. rfold rel xs s = Inr s' \<and> ok s' {} \<and> size_of s' = size_of s"
proof (induction xs arbitrary: s)
  case (Cons x xs)
  from rel_ok [OF Cons.prems(1), of x] obtain t where t: "rel x s = Inr t" "ok t (set (x # xs) - {x})" "size_of t = size_of s" by auto
  moreover have "set (x # xs) - {x} = set xs" using Cons.prems(2) by auto
  ultimately show ?case using Cons.IH [of t] Cons.prems(2) by (auto simp: rbind_def)
qed simp

end

interpretation uh: block_heap "uheap_ok b lo" "\<lambda>x. free (x + 16)" ubrk for b lo
proof
  fix s A x
  assume "uheap_ok b lo s A" and "x \<in> A"
  then obtain s' where "free (x + 16) s = Inr s'" "uheap_ok b lo s' (A - {x})" "ubrk s' = ubrk s" using free_ok by metis
  then show "\<exists>s'. free (x + 16) s = Inr s' \<and> uheap_ok b lo s' (A - {x}) \<and> ubrk s' = ubrk s" by (intro exI [of _ s'] conjI)
qed

lemma malloc_spec:
  assumes "uheap_ok b lo s A" and "nbytes < 2 ^ 31 - 64" and "\<forall>a c. room a c \<longrightarrow> a + c \<le> lo + 2 ^ 31"
  shows "\<exists>p s'. malloc room b nbytes s = Inr (p, s') \<and> (\<forall>y \<in> A. hsize s' y = hsize s y) \<and>
    (if p = 0 then uheap_ok b lo s' A \<and> \<not> room (ubrk s) (16 * max 4096 (units nbytes))
     else uheap_ok b lo s' (insert (p - 16) A) \<and> p - 16 \<notin> A \<and> p + nbytes \<le> stop s' (p - 16))"
proof -
  define s1 where "s1 = (if freep s = 0 then (resize b 0 (link b b s))\<lparr>freep := b\<rparr> else s)"
  obtain N where h: "heap_inv b lo s1 N A" and z: "ubrk s1 = ubrk s" "\<forall>y \<in> A. hsize s1 y = hsize s y"
  proof (cases "freep s = 0")
    case True
    then have "A = {} \<and> heap_inv b lo s1 {b} A"
      using assms(1) first_call [of s lo b] by (auto simp: uheap_ok_def s1_def heap_inv_def weak_inv_def free_ring_def)
    then show ?thesis using that [of "{b}"] True by (auto simp: s1_def)
  next
    case False
    then show ?thesis using assms(1) that by (auto simp: uheap_ok_def s1_def)
  qed
  have "2 * card N + 2 \<le> 2 * nodes_max s1 + 2" using h nodes_max_ok by (fastforce simp: heap_inv_def)
  note m = malloc_inv [OF h assms(2) _ this, of room]
  have e: "malloc room b nbytes s = malloc_loop (2 * nodes_max s1 + 2) room (units nbytes) (freep s1) (hptr s1 (freep s1)) s1"
    by (simp add: malloc_def s1_def Let_def)
  from m assms(3) consider "malloc room b nbytes s = Inr (0, s1)" "\<not> room (ubrk s) (16 * max 4096 (units nbytes))"
    | x s' M where "malloc room b nbytes s = Inr (x + 16, s')" "heap_inv b lo s' M (insert x A)" "x \<notin> A"
        "nbytes + 16 \<le> 16 * hsize s' x" "\<forall>y \<in> A. hsize s' y = hsize s1 y"
    unfolding e z(1) by blast
  then show ?thesis
  proof cases
    case 1
    then show ?thesis using h z(2) by (auto simp: uheap_ok_def)
  next
    case 2
    then show ?thesis using z(2) by (intro exI [of _ "x + 16"] exI [of _ s']) (auto simp: uheap_ok_def stop_def)
  qed
qed

subsection \<open>Properties\<close>

text \<open>
  C12. \<^verbatim>\<open>malloc\<close> gives every caller memory of its own: unless the kernel refuses to grow the process, a request of less
  than 2 GiB returns a block with room for it. The free blocks and the blocks handed out, the new one included, partition
  the heap again, and no older block changes its size; a refusal leaves the heap as it was.
\<close>

theorem malloc_correct:
  assumes "uheap_ok b lo s A" and "nbytes < 2 ^ 31 - 64" and "\<forall>a c. room a c \<longrightarrow> a + c \<le> lo + 2 ^ 31"
  shows "\<exists>p s'. malloc room b nbytes s = Inr (p, s') \<and> (\<forall>y \<in> A. hsize s' y = hsize s y) \<and>
    (if p = 0 then uheap_ok b lo s' A \<and> \<not> room (ubrk s) (16 * max 4096 (units nbytes))
     else uheap_ok b lo s' (insert (p - 16) A) \<and> p - 16 \<notin> A \<and> p + nbytes \<le> stop s' (p - 16))"
  by (rule malloc_spec [OF assms])

text \<open>A new process: the heap starts on the page behind its data, and the kernel can give it 1 MiB.\<close>

definition demo_uheap :: uheap where
  "demo_uheap = \<lparr>hptr = (\<lambda>_. 0), hsize = (\<lambda>_. 0), freep = 0, ubrk = 0x88002000\<rparr>"

definition demo_room :: "nat \<Rightarrow> nat \<Rightarrow> bool" where
  "demo_room a c \<longleftrightarrow> a + c \<le> 0x88002000 + 0x100000"

lemma demo_uheap_ok: "uheap_ok 0x88001f00 0x88002000 demo_uheap {}"
  by (simp add: uheap_ok_def demo_uheap_def)

theorem malloc_correct_witness:
  "\<exists>p s'. malloc demo_room 0x88001f00 100 demo_uheap = Inr (p, s') \<and> uheap_ok 0x88001f00 0x88002000 s' {p - 16} \<and>
     p + 100 \<le> stop s' (p - 16)"
proof -
  have r: "demo_room (ubrk demo_uheap) (16 * max 4096 (units 100))" by (simp add: demo_room_def demo_uheap_def units_def)
  have "\<forall>a c. demo_room a c \<longrightarrow> a + c \<le> 0x88002000 + 2 ^ 31" by (simp add: demo_room_def)
  from malloc_correct [OF demo_uheap_ok _ this, of 100] r show ?thesis by (auto split: if_splits)
qed

text \<open>
  C35. Freeing every block, in whatever order, gives back the whole heap in one piece: each \<^verbatim>\<open>free\<close> returns, and in the end the
  ring has just one block, from the start of the heap to the break.
\<close>

theorem free_all_coalesces:
  assumes "uheap_ok b lo s (set xs)" and "distinct xs" and "xs \<noteq> []"
  shows "\<exists>s'. rfold (\<lambda>x. free (x + 16)) xs s = Inr s' \<and> heap_inv b lo s' {b, lo} {} \<and> stop s' lo = ubrk s"
proof -
  obtain s' where s': "rfold (\<lambda>x. free (x + 16)) xs s = Inr s'" "uheap_ok b lo s' {}" "ubrk s' = ubrk s"
    using uh.release_all [OF assms(1,2)] by auto
  obtain N where "heap_inv b lo s N (set xs)" using assms by (auto simp: uheap_ok_def)
  then have w: "weak_inv b lo s N (set xs)" by (simp add: heap_inv_def)
  have "hd xs \<in> set xs" using assms(3) by simp
  then have lt: "lo < ubrk s'" using weak_block [OF w, of "hd xs"] s'(3) by (simp add: stop_def)
  then obtain M where "heap_inv b lo s' M {}" using s'(2) by (auto simp: uheap_ok_def)
  then show ?thesis using s' empty_heap [OF _ lt] by auto
qed

text \<open>Two blocks, both in use.\<close>

definition demo_used :: uheap where
  "demo_used = \<lparr>hptr = (\<lambda>_. 0x88001f00), hsize = (\<lambda>_. 0)(0x88002000 := 4, 0x88002040 := 6), freep = 0x88001f00, ubrk = 0x880020a0\<rparr>"

lemma demo_used_ok: "uheap_ok 0x88001f00 0x88002000 demo_used {0x88002000, 0x88002040}"
proof -
  have "blocks_ok 0x88002000 demo_used ({0x88001f00} - {0x88001f00} \<union> {0x88002000, 0x88002040})"
    unfolding blocks_ok_def by (auto simp: demo_used_def stop_def)
  then have "heap_inv 0x88001f00 0x88002000 demo_used {0x88001f00} {0x88002000, 0x88002040}"
    by (auto simp: heap_inv_def weak_inv_def free_ring_def touch_def nxt_def above_def demo_used_def)
  then show ?thesis by (auto simp: uheap_ok_def)
qed

theorem free_all_coalesces_witness:
  "\<exists>s'. rfold (\<lambda>x. free (x + 16)) [0x88002040, 0x88002000] demo_used = Inr s' \<and> stop s' 0x88002000 = 0x880020a0"
proof -
  have "uheap_ok 0x88001f00 0x88002000 demo_used (set [0x88002040, 0x88002000])" using demo_used_ok by (simp add: insert_commute)
  from free_all_coalesces [OF this] have "\<exists>s'. rfold (\<lambda>x. free (x + 16)) [0x88002040, 0x88002000] demo_used = Inr s' \<and>
      heap_inv 0x88001f00 0x88002000 s' {0x88001f00, 0x88002000} {} \<and> stop s' 0x88002000 = ubrk demo_used" by simp
  then show ?thesis by (auto simp: demo_used_def)
qed

text \<open>
  A request of 2 GiB or more is not refused but corrupts the process: the number of bytes becomes negative on the way to \<^verbatim>\<open>sbrk\<close>,
  so the kernel lowers the break, reports success, and \<^verbatim>\<open>malloc\<close> returns a block that lies above the break.
\<close>

theorem malloc_huge_wraps:
  assumes "freep s = 0" and "ubrk s = lo" and "0 < b" and "b < lo" and "lo < 2 ^ 38"
    and "2 ^ 31 \<le> 16 * units nbytes" and "16 * units nbytes < 2 ^ 32" and "2 ^ 32 \<le> lo + 16 * units nbytes"
  shows "\<exists>s'. malloc room b nbytes s = Inr (lo + 16, s') \<and> ubrk s' = lo + 16 * units nbytes - 2 ^ 32 \<and> ubrk s' < lo"
proof -
  define n where "n = units nbytes"
  have n: "4096 \<le> n" "n mod 2 ^ 32 = n" "to_int32 (n * 16) = int (n * 16) - 2 ^ 32"
    using assms(6,7) to_int32_big [of "n * 16"] by (simp_all add: n_def mult.commute)
  define s1 where "s1 = (resize b 0 (link b b s))\<lparr>freep := b\<rparr>"
  have z1: "hptr s1 b = b" "hsize s1 b = 0" "freep s1 = b" "ubrk s1 = lo" using assms(2) by (simp_all add: s1_def)
  have m: "nat ((int lo + (int (n * 16) - 2 ^ 32)) mod 2 ^ 64) = lo + 16 * n - 2 ^ 32"
  proof -
    have "(int lo + (int (n * 16) - 2 ^ 32)) mod 2 ^ 64 = int lo + (int (n * 16) - 2 ^ 32)"
      using assms(5,7,8) by (intro mod_pos_pos_trivial) (auto simp: n_def)
    then show ?thesis by simp
  qed
  define s2 where "s2 = resize lo n (s1\<lparr>ubrk := lo + 16 * n - 2 ^ 32\<rparr>)"
  have "\<not> 0 < int (n * 16) - 2 ^ 32" using assms(7) by (simp add: n_def)
  then have sb: "sbrk room (to_int32 (n * 16)) s1 = (Some lo, s1\<lparr>ubrk := lo + 16 * n - 2 ^ 32\<rparr>)"
    unfolding n(3) sbrk_def z1 m by simp
  have z2: "hptr s2 b = b" "hsize s2 b = 0" "hsize s2 lo = n" "freep s2 = b" "ubrk s2 = lo + 16 * n - 2 ^ 32"
    using z1 n(2) assms(4) by (simp_all add: s2_def)
  have "free_find (nodes_max s2) lo b s2 = Inr b" using z2 assms(4) by (simp add: nodes_max_def)
  then have "free (lo + 16) s2 = Inr ((link b lo (link lo b s2))\<lparr>freep := b\<rparr>)"
    using z2 assms(3,4) by (simp add: free_def give_back_def rbind_def)
  then have mc: "morecore room n s1 = Inr (b, (link b lo (link lo b s2))\<lparr>freep := b\<rparr>)"
    unfolding morecore_def using n(1) sb by (simp add: rbind_def Let_def s2_def)
  have "malloc room b nbytes s = malloc_loop (2 * nodes_max s1 + 2) room n b b s1"
    using assms(1) z1 by (simp add: malloc_def s1_def n_def Let_def)
  also have "\<dots> = Inr (lo + 16, (link b b (link b lo (link lo b s2)))\<lparr>freep := b\<rparr>)"
    using z1 z2 n(1) assms(3,4) mc by (simp add: rbind_def carve_def link_def numeral_2_eq_2)
  finally have "malloc room b nbytes s = Inr (lo + 16, (link b b (link b lo (link lo b s2)))\<lparr>freep := b\<rparr>)" .
  moreover have "lo + 16 * units nbytes - 2 ^ 32 < lo" using assms(3,4,7) by linarith
  ultimately show ?thesis using z2(5) by (simp add: n_def)
qed

theorem malloc_huge_wraps_witness:
  "\<exists>s'. malloc demo_room 0x88001f00 0x80000000 demo_uheap = Inr (0x88002010, s') \<and> ubrk s' = 0x8002010"
  using malloc_huge_wraps [of demo_uheap "0x88002000" "0x88001f00" "0x80000000" demo_room]
  by (auto simp: demo_uheap_def units_def)

end
