(* ===== verification/RV_Strings.thy ===== *)
theory RV_Strings
  imports RV_Prelude
begin

text \<open>
  The string functions of programs (\<^verbatim>\<open>userspace/include/string.c\<close>) and of the kernel (\<^verbatim>\<open>kernelspace/lib/mylibc.c\<close>), on a memory of
  bytes. A loop that runs until it meets a zero byte need not end, so it is a partial function whose value
  \<open>None\<close> means that it never returns; the predicate \<open>cstr\<close> says that a string stands in memory, and then it does.
\<close>

type_synonym bytemem = "u64 \<Rightarrow> u8"

subsection \<open>Definitions\<close>

definition byte_diff :: "u8 \<Rightarrow> u8 \<Rightarrow> int" where
  "byte_diff a b = int (unat a) - int (unat b)"

partial_function (option) strcmp :: "bytemem \<Rightarrow> u64 \<Rightarrow> u64 \<Rightarrow> int option" where
  "strcmp m p q = (if m p \<noteq> 0 \<and> m p = m q then strcmp m (p + 1) (q + 1) else Some (byte_diff (m p) (m q)))"

primrec strncmp_loop :: "nat \<Rightarrow> bytemem \<Rightarrow> u64 \<Rightarrow> u64 \<Rightarrow> int" where
  "strncmp_loop 0 m p q = 0"
| "strncmp_loop (Suc n) m p q =
     (if m p \<noteq> 0 \<and> m p = m q then strncmp_loop n m (p + 1) (q + 1) else byte_diff (m p) (m q))"

definition strncmp :: "bytemem \<Rightarrow> u64 \<Rightarrow> u64 \<Rightarrow> u32 \<Rightarrow> int" where
  "strncmp m p q n = strncmp_loop (unat n) m p q"

partial_function (option) strlen_loop :: "bytemem \<Rightarrow> u64 \<Rightarrow> u32 \<Rightarrow> u32 option" where
  "strlen_loop m s n = (if m (s + ucast n) \<noteq> 0 then strlen_loop m s (n + 1) else Some n)"

definition strlen :: "bytemem \<Rightarrow> u64 \<Rightarrow> u32 option" where
  "strlen m s = strlen_loop m s 0"

primrec memset_loop :: "nat \<Rightarrow> u64 \<Rightarrow> u8 \<Rightarrow> bytemem \<Rightarrow> bytemem" where
  "memset_loop 0 p c m = m"
| "memset_loop (Suc n) p c m = memset_loop n (p + 1) c (m(p := c))"

text \<open>The fill byte is the low byte of an \<^verbatim>\<open>int\<close>.\<close>

definition memset :: "u64 \<Rightarrow> u32 \<Rightarrow> u32 \<Rightarrow> bytemem \<Rightarrow> bytemem" where
  "memset s c n m = memset_loop (unat n) s (ucast c) m"

text \<open>The loop of \<^verbatim>\<open>strcpy\<close> and of the second half of \<^verbatim>\<open>strcat\<close>: the byte is read, written, and tested.\<close>

partial_function (option) copy_loop :: "u64 \<Rightarrow> u64 \<Rightarrow> bytemem \<Rightarrow> bytemem option" where
  "copy_loop s t m = (if m t \<noteq> 0 then copy_loop (s + 1) (t + 1) (m(s := m t)) else Some (m(s := 0)))"

definition strcpy :: "u64 \<Rightarrow> u64 \<Rightarrow> bytemem \<Rightarrow> bytemem option" where
  "strcpy s t m = copy_loop s t m"

partial_function (option) str_end :: "bytemem \<Rightarrow> u64 \<Rightarrow> u64 option" where
  "str_end m s = (if m s \<noteq> 0 then str_end m (s + 1) else Some s)"

definition strcat :: "u64 \<Rightarrow> u64 \<Rightarrow> bytemem \<Rightarrow> bytemem option" where
  "strcat s t m = Option.bind (str_end m s) (\<lambda>e. copy_loop e t m)"

text \<open>The kernel's own: \<^verbatim>\<open>memcpy\<close>, byte by byte upwards, and \<^verbatim>\<open>memcmp\<close>.\<close>

primrec memcpy_loop :: "nat \<Rightarrow> u64 \<Rightarrow> u64 \<Rightarrow> bytemem \<Rightarrow> bytemem" where
  "memcpy_loop 0 d s m = m"
| "memcpy_loop (Suc n) d s m = memcpy_loop n (d + 1) (s + 1) (m(d := m s))"

definition memcpy :: "u64 \<Rightarrow> u64 \<Rightarrow> u32 \<Rightarrow> bytemem \<Rightarrow> bytemem" where
  "memcpy dst src n m = memcpy_loop (unat n) dst src m"

primrec memcmp_loop :: "nat \<Rightarrow> bytemem \<Rightarrow> u64 \<Rightarrow> u64 \<Rightarrow> int" where
  "memcmp_loop 0 m p q = 0"
| "memcmp_loop (Suc n) m p q = (if m p \<noteq> m q then byte_diff (m p) (m q) else memcmp_loop n m (p + 1) (q + 1))"

definition memcmp :: "bytemem \<Rightarrow> u64 \<Rightarrow> u64 \<Rightarrow> u32 \<Rightarrow> int" where
  "memcmp m p q n = memcmp_loop (unat n) m p q"

subsection \<open>Strings in memory\<close>

primrec cstr :: "bytemem \<Rightarrow> u64 \<Rightarrow> u8 list \<Rightarrow> bool" where
  "cstr m p [] \<longleftrightarrow> m p = 0"
| "cstr m p (x # xs) \<longleftrightarrow> x \<noteq> 0 \<and> m p = x \<and> cstr m (p + 1) xs"

text \<open>The bytes of memory \<open>p\<close> to \<open>p + n\<close>, which may wrap around.\<close>

definition span :: "u64 \<Rightarrow> nat \<Rightarrow> u64 set" where
  "span p n = (\<lambda>i. p + of_nat i) ` {..<n}"

lemma span_0 [simp]: "span p 0 = {}"
  by (simp add: span_def)

lemma span_Suc: "span p (Suc n) = insert p (span (p + 1) n)"
proof -
  have "{..<Suc n} = insert 0 (Suc ` {..<n})" by (auto simp: image_iff less_Suc_eq_0_disj)
  then show ?thesis by (auto simp: span_def image_image add.assoc)
qed

lemma span_shift: "span (p + of_nat a) b \<subseteq> span p (a + b)"
proof
  fix x
  assume "x \<in> span (p + of_nat a) b"
  then obtain i where "i < b" "x = p + of_nat (a + i)" by (auto simp: span_def add.assoc)
  then show "x \<in> span p (a + b)" unfolding span_def by (intro image_eqI [of _ _ "a + i"]) simp_all
qed

lemma cstr_frame: "\<forall>a \<in> span p (length xs + 1). m' a = m a \<Longrightarrow> cstr m' p xs = cstr m p xs"
  by (induction xs arbitrary: p) (auto simp: span_Suc)

lemma cstr_unique: "cstr m p xs \<Longrightarrow> cstr m p ys \<Longrightarrow> xs = ys"
proof (induction xs arbitrary: p ys)
  case Nil
  then show ?case by (cases ys) auto
next
  case (Cons x xs)
  then show ?case by (cases ys) auto
qed

lemma cstr_end: "cstr m p xs \<Longrightarrow> m (p + of_nat (length xs)) = 0"
  by (induction xs arbitrary: p) (auto simp flip: add.assoc)

lemma not_in_span:
  assumes "0 < d" and "d + n \<le> 2 ^ 64"
  shows "p \<notin> span (p + of_nat d) n"
proof
  assume "p \<in> span (p + of_nat d) n"
  then obtain i where i: "i < n" "p = p + of_nat d + of_nat i" by (auto simp: span_def)
  then have "of_nat (d + i) = (0 :: u64)" by (simp add: add.assoc)
  then have "2 ^ 64 dvd d + i" unfolding word_of_nat_eq_0_iff by simp
  then show False using assms i(1) by (auto dest: dvd_imp_le)
qed

subsection \<open>Comparison\<close>

fun list_cmp :: "u8 list \<Rightarrow> u8 list \<Rightarrow> int" where
  "list_cmp (x # xs) (y # ys) = (if x = y then list_cmp xs ys else byte_diff x y)"
| "list_cmp xs ys = byte_diff (case xs of [] \<Rightarrow> 0 | x # _ \<Rightarrow> x) (case ys of [] \<Rightarrow> 0 | y # _ \<Rightarrow> y)"

lemma byte_diff_sgn: "byte_diff a b = 0 \<longleftrightarrow> a = b" "byte_diff a b < 0 \<longleftrightarrow> a < b"
  by (auto simp: byte_diff_def word_less_def word_uint_eq_iff)

lemma strcmp_list: "cstr m p xs \<Longrightarrow> cstr m q ys \<Longrightarrow> strcmp m p q = Some (list_cmp xs ys)"
proof (induction xs ys arbitrary: p q rule: list_cmp.induct)
  case (1 x xs y ys)
  then show ?case by (auto simp: strcmp.simps [of m p q])
qed (auto simp: strcmp.simps split: list.split)

lemma list_cmp_order:
  assumes "0 \<notin> set xs" and "0 \<notin> set ys"
  shows "list_cmp xs ys = 0 \<longleftrightarrow> xs = ys" "list_cmp xs ys < 0 \<longleftrightarrow> (xs, ys) \<in> lexord {(a, b). a < b}"
  using assms
proof (induction xs ys rule: list_cmp.induct)
  case (1 x xs y ys)
  { case 1 then show ?case using "1.IH" by (simp add: byte_diff_sgn) }
  { case 2 then show ?case using "1.IH" by (simp add: byte_diff_sgn) }
qed (auto simp: byte_diff_sgn word_neq_0_conv split: list.split)

lemma strncmp_list: "cstr m p xs \<Longrightarrow> cstr m q ys \<Longrightarrow> strncmp_loop n m p q = list_cmp (take n xs) (take n ys)"
proof (induction n arbitrary: p q xs ys)
  case 0
  then show ?case by (simp add: byte_diff_def)
next
  case (Suc n)
  then show ?case by (cases xs; cases ys) auto
qed

subsection \<open>Copying\<close>

text \<open>Copying upwards is right unless the target begins inside the source, behind its first byte.\<close>

lemma copy_loop_ok:
  assumes "cstr m t xs" and "s \<notin> span (t + 1) (length xs)" and "length xs + 2 \<le> 2 ^ 64"
  shows "\<exists>m'. copy_loop s t m = Some m' \<and> cstr m' s xs \<and> (\<forall>a. a \<notin> span s (length xs + 1) \<longrightarrow> m' a = m a)"
  using assms
proof (induction xs arbitrary: s t m)
  case Nil
  then show ?case by (auto simp: copy_loop.simps span_Suc)
next
  case (Cons x xs)
  define m1 where "m1 = m(s := x)"
  have c: "copy_loop s t m = copy_loop (s + 1) (t + 1) m1" using Cons.prems(1) by (simp add: copy_loop.simps [of s t m] m1_def)
  have "cstr m1 (t + 1) xs"
    using Cons.prems(1,2) cstr_frame [of "t + 1" xs m1 m] by (auto simp: m1_def)
  moreover have "s + 1 \<notin> span (t + 1 + 1) (length xs)"
    using Cons.prems(2) by (auto simp: span_def add.assoc image_iff)
  ultimately obtain m' where m': "copy_loop (s + 1) (t + 1) m1 = Some m'" "cstr m' (s + 1) xs"
      "\<forall>a. a \<notin> span (s + 1) (length xs + 1) \<longrightarrow> m' a = m1 a"
    using Cons.IH [of m1 "t + 1" "s + 1"] Cons.prems(3) by auto
  have "s \<notin> span (s + 1) (length xs + 1)" using not_in_span [of 1 "length xs + 1" s] Cons.prems(3) by simp
  then have "m' s = x" using m'(3) by (simp add: m1_def)
  then show ?case using c m' Cons.prems(1) by (auto simp: span_Suc m1_def)
qed

text \<open>Otherwise it copies its own output for ever.\<close>

lemma copy_loop_runs_on:
  assumes "0 < d" and "\<forall>i < d. m (t + of_nat i) \<noteq> 0"
  shows "copy_loop (t + of_nat d) t m = None"
proof (rule ccontr)
  assume "copy_loop (t + of_nat d) t m \<noteq> None"
  then obtain m' where r: "copy_loop (t + of_nat d) t m = Some m'" by auto
  have "\<not> (t + of_nat d = t + of_nat d \<and> (\<forall>i < d. m (t + of_nat i) \<noteq> 0))"
  proof (rule copy_loop.raw_induct [where P = "\<lambda>s t m r. \<not> (s = t + of_nat d \<and> (\<forall>i < d. m (t + of_nat i) \<noteq> 0))", OF _ r])
    fix f s t m r
    assume IH: "\<And>s t m r. f s t m = Some r \<Longrightarrow> \<not> (s = t + of_nat d \<and> (\<forall>i < d. m (t + of_nat i) \<noteq> (0 :: u8)))"
      and eq: "(if m t \<noteq> 0 then f (s + 1) (t + 1) (m(s := m t)) else Some (m(s := 0))) = Some r"
    show "\<not> (s = t + of_nat d \<and> (\<forall>i < d. m (t + of_nat i) \<noteq> 0))"
    proof
      assume inv: "s = t + of_nat d \<and> (\<forall>i < d. m (t + of_nat i) \<noteq> 0)"
      then have z: "m t \<noteq> 0" using assms(1) by fastforce
      have "(m(s := m t)) (t + 1 + of_nat i) \<noteq> 0" if "i < d" for i
      proof (cases "Suc i = d")
        case True
        then show ?thesis using inv z by (auto simp: add.assoc)
      next
        case False
        then have "m (t + of_nat (Suc i)) \<noteq> 0" using inv that by (metis Suc_lessI)
        then show ?thesis using z by (simp add: add.assoc)
      qed
      moreover have "s + 1 = t + 1 + of_nat d" using inv by (simp add: ac_simps)
      moreover have "f (s + 1) (t + 1) (m(s := m t)) = Some r" using eq z by simp
      ultimately show False using IH by blast
    qed
  qed
  then show False using assms(2) by simp
qed

lemma str_end_ok: "cstr m s xs \<Longrightarrow> str_end m s = Some (s + of_nat (length xs))"
  by (induction xs arbitrary: s) (auto simp: str_end.simps add.assoc)

lemma cstr_append:
  "\<forall>i < length xs. m (s + of_nat i) = xs ! i \<Longrightarrow> 0 \<notin> set xs \<Longrightarrow> cstr m (s + of_nat (length xs)) ys \<Longrightarrow> cstr m s (xs @ ys)"
proof (induction xs arbitrary: s)
  case (Cons x xs)
  have "m (s + 1 + of_nat i) = xs ! i" if "i < length xs" for i
    using Cons.prems(1) that by (auto dest: spec [of _ "Suc i"] simp: add.assoc)
  moreover have "m s = x" using Cons.prems(1) by (auto dest: spec [of _ 0])
  ultimately show ?case using Cons by (simp add: add.assoc)
qed simp

lemma cstr_nth: "cstr m s xs \<Longrightarrow> i < length xs \<Longrightarrow> m (s + of_nat i) = xs ! i"
proof (induction xs arbitrary: s i)
  case (Cons x xs)
  then show ?case by (cases i) (auto simp flip: add.assoc)
qed simp

lemma cstr_nonzero: "cstr m s xs \<Longrightarrow> 0 \<notin> set xs"
  by (induction xs arbitrary: s) auto

lemma ucast_index: "k < 2 ^ 32 \<Longrightarrow> ucast (of_nat k :: u32) = (of_nat k :: u64)"
  by (simp add: unsigned_of_nat take_bit_nat_eq_self)

lemma strlen_loop_ok:
  assumes "cstr m (s + of_nat k) xs" and "k + length xs < 2 ^ 32"
  shows "strlen_loop m s (of_nat k) = Some (of_nat (k + length xs))"
  using assms
proof (induction xs arbitrary: k)
  case Nil
  then show ?case using ucast_index [of k] by (simp add: strlen_loop.simps)
next
  case (Cons x xs)
  have "strlen_loop m s (of_nat k + 1) = Some (of_nat (Suc k + length xs))"
    using Cons.IH [of "Suc k"] Cons.prems by (simp add: ac_simps)
  then show ?case using Cons.prems ucast_index [of k] by (simp add: strlen_loop.simps [of m s "of_nat k"])
qed

lemma memset_loop_bytes: "n \<le> 2 ^ 64 \<Longrightarrow> memset_loop n p c m = (\<lambda>a. if a \<in> span p n then c else m a)"
proof (induction n arbitrary: p m)
  case (Suc n)
  then have "memset_loop (Suc n) p c m = (\<lambda>a. if a \<in> span (p + 1) n then c else (m(p := c)) a)" by simp
  then show ?case by (auto simp: span_Suc fun_eq_iff)
qed simp

lemma memcmp_loop_0: "memcmp_loop n m p q = 0 \<longleftrightarrow> (\<forall>i < n. m (p + of_nat i) = m (q + of_nat i))"
proof (induction n arbitrary: p q)
  case (Suc n)
  show ?case unfolding memcmp_loop.simps All_less_Suc2 by (simp add: Suc byte_diff_sgn add.assoc)
qed simp

lemma memcpy_loop_bytes:
  assumes "span s n \<inter> span d n = {}" and "n \<le> 2 ^ 64"
  shows "(\<forall>i < n. memcpy_loop n d s m (d + of_nat i) = m (s + of_nat i)) \<and> (\<forall>a. a \<notin> span d n \<longrightarrow> memcpy_loop n d s m a = m a)"
  using assms
proof (induction n arbitrary: d s m)
  case (Suc n)
  define m1 where "m1 = m(d := m s)"
  have dis: "span (s + 1) n \<inter> span (d + 1) n = {}" "d \<notin> span (s + 1) n" using Suc.prems(1) by (auto simp: span_Suc)
  have d: "d \<notin> span (d + 1) n" using not_in_span [of 1 n d] Suc.prems(2) by simp
  have IH: "\<forall>i < n. memcpy_loop n (d + 1) (s + 1) m1 (d + 1 + of_nat i) = m1 (s + 1 + of_nat i)"
    "\<forall>a. a \<notin> span (d + 1) n \<longrightarrow> memcpy_loop n (d + 1) (s + 1) m1 a = m1 a"
    using Suc.IH [OF dis(1), of m1] Suc.prems(2) by simp_all
  have step: "memcpy_loop (Suc n) d s m = memcpy_loop n (d + 1) (s + 1) m1" by (simp add: m1_def)
  have "memcpy_loop (Suc n) d s m d = m s" unfolding step using IH(2) d by (simp add: m1_def)
  moreover have "memcpy_loop (Suc n) d s m (d + of_nat (Suc i)) = m (s + of_nat (Suc i))" if "i < n" for i
  proof -
    have "s + 1 + of_nat i \<in> span (s + 1) n" using that by (auto simp: span_def)
    then have "m1 (s + 1 + of_nat i) = m (s + 1 + of_nat i)" using dis(2) by (auto simp: m1_def)
    then show ?thesis unfolding step using IH(1) that by (simp add: add.assoc)
  qed
  ultimately show ?case unfolding All_less_Suc2 using IH(2) by (simp add: step span_Suc) (simp add: m1_def)
qed simp

lemma strcpy_copies:
  assumes "cstr m t xs" and "span s (length xs + 1) \<inter> span t (length xs + 1) = {}" and "length xs + 2 \<le> 2 ^ 64"
  shows "\<exists>m'. strcpy s t m = Some m' \<and> cstr m' s xs \<and> cstr m' t xs"
proof -
  have "s \<in> span s (length xs + 1)" by (simp add: span_Suc)
  then have "s \<notin> span (t + 1) (length xs)" using assms(2) span_shift [of t 1 "length xs"] by auto
  then obtain m' where m': "copy_loop s t m = Some m'" "cstr m' s xs" "\<forall>a. a \<notin> span s (length xs + 1) \<longrightarrow> m' a = m a"
    using copy_loop_ok [OF assms(1) _ assms(3)] by blast
  moreover have "cstr m' t xs" using assms(1,2) m'(3) cstr_frame [of t xs m' m] by blast
  ultimately show ?thesis by (simp add: strcpy_def)
qed

subsection \<open>Properties\<close>

text \<open>
  \<^verbatim>\<open>strcmp\<close> compares strings: for two strings in memory it returns, its result is 0 exactly for equal strings and negative exactly
  when the first comes before the second in the lexicographic order of unsigned bytes.
\<close>

theorem strcmp_correct:
  assumes "cstr m p xs" and "cstr m q ys"
  shows "\<exists>r. strcmp m p q = Some r \<and> (r = 0 \<longleftrightarrow> xs = ys) \<and> (r < 0 \<longleftrightarrow> (xs, ys) \<in> lexord {(a, b). a < b})"
  using strcmp_list [OF assms] list_cmp_order [OF cstr_nonzero [OF assms(1)] cstr_nonzero [OF assms(2)]] by auto

definition demo_text :: bytemem where
  "demo_text = (\<lambda>_. 0)(0x1000 := 97, 0x1001 := 98, 0x2000 := 97, 0x2001 := 99)"

theorem strcmp_correct_witness:
  "\<exists>r. strcmp demo_text 0x1000 0x2000 = Some r \<and> r < 0"
proof -
  have "cstr demo_text 0x1000 [97, 98]" "cstr demo_text 0x2000 [97, 99]" by (simp_all add: demo_text_def)
  from strcmp_correct [OF this] show ?thesis by auto
qed

text \<open>
  C39. \<^verbatim>\<open>strcat\<close> appends: with a string \<open>xs\<close> at \<open>s\<close> and a string \<open>ys\<close> at \<open>t\<close> elsewhere it returns, the concatenation stands at \<open>s\<close>, and no byte
  changes but the old terminator and those behind it that are needed. If \<open>t\<close> lies inside the first string it
  never returns, because it overwrites the terminator it is looking for; appending a string to itself is an example.
\<close>

theorem strcat_correct:
  assumes "cstr m s xs" and "length xs + length ys + 2 \<le> 2 ^ 64"
  shows "(cstr m t ys \<longrightarrow> span t (length ys + 1) \<inter> span s (length xs + length ys + 1) = {} \<longrightarrow>
      (\<exists>m'. strcat s t m = Some m' \<and> cstr m' s (xs @ ys) \<and>
         (\<forall>a. a \<notin> span (s + of_nat (length xs)) (length ys + 1) \<longrightarrow> m' a = m a))) \<and>
    (\<forall>i < length xs. t = s + of_nat i \<longrightarrow> strcat s t m = None)"
proof (intro conjI impI allI)
  let ?e = "s + of_nat (length xs)"
  have e: "strcat s t m = copy_loop ?e t m" using str_end_ok [OF assms(1)] by (simp add: strcat_def)
  {
    assume t: "cstr m t ys" and d: "span t (length ys + 1) \<inter> span s (length xs + length ys + 1) = {}"
    have "?e \<in> span s (length xs + length ys + 1)" unfolding span_def by (rule image_eqI [of _ _ "length xs"]) simp_all
    moreover have "span (t + 1) (length ys) \<subseteq> span t (length ys + 1)" using span_shift [of t 1 "length ys"] by simp
    ultimately have "?e \<notin> span (t + 1) (length ys)" using d by blast
    then obtain m' where m': "copy_loop ?e t m = Some m'" "cstr m' ?e ys" "\<forall>a. a \<notin> span ?e (length ys + 1) \<longrightarrow> m' a = m a"
      using copy_loop_ok [OF t] assms(2) by auto
    have "m' (s + of_nat i) = xs ! i" if "i < length xs" for i
    proof -
      have "s + of_nat i \<notin> span (s + of_nat i + of_nat (length xs - i)) (length ys + 1)"
        using that assms(2) by (intro not_in_span) auto
      moreover have "s + of_nat i + of_nat (length xs - i) = ?e" using that by (simp add: add.assoc flip: of_nat_add)
      ultimately show ?thesis using m'(3) cstr_nth [OF assms(1) that] by simp
    qed
    then have "cstr m' s (xs @ ys)" using cstr_append [of xs m' s ys] cstr_nonzero [OF assms(1)] m'(2) by blast
    then show "\<exists>m'. strcat s t m = Some m' \<and> cstr m' s (xs @ ys) \<and> (\<forall>a. a \<notin> span ?e (length ys + 1) \<longrightarrow> m' a = m a)"
      using e m' by auto
  }
  fix i
  assume i: "i < length xs" "t = s + of_nat i"
  have "m (t + of_nat j) \<noteq> 0" if "j < length xs - i" for j
  proof -
    have j: "i + j < length xs" using that by simp
    then have "xs ! (i + j) \<noteq> 0" using cstr_nonzero [OF assms(1)] nth_mem by metis
    then show ?thesis using cstr_nth [OF assms(1) j] i(2) by (simp add: add.assoc)
  qed
  then have "copy_loop (t + of_nat (length xs - i)) t m = None" using i(1) by (intro copy_loop_runs_on) auto
  moreover have "t + of_nat (length xs - i) = ?e" using i by (simp add: add.assoc flip: of_nat_add)
  ultimately show "strcat s t m = None" using e by simp
qed

theorem strcat_correct_witness:
  "(\<exists>m'. strcat 0x1000 0x2000 demo_text = Some m' \<and> cstr m' 0x1000 [97, 98, 97, 99]) \<and> strcat 0x1000 0x1000 demo_text = None"
proof -
  have c: "cstr demo_text 0x1000 [97, 98]" "cstr demo_text 0x2000 [97, 99]" by (simp_all add: demo_text_def)
  have d: "span 0x2000 (length [97, 99 :: u8] + 1) \<inter> span 0x1000 (length [97, 98 :: u8] + length [97, 99 :: u8] + 1) = {}"
    by (simp add: span_Suc)
  show ?thesis using strcat_correct [OF c(1), of "[97, 99]" "0x2000"] strcat_correct [OF c(1), of "[97, 99]" "0x1000"] c(2) d by auto
qed

end
