(* ===== verification/RV_User.thy ===== *)
theory RV_User
  imports RV_Caps
begin

text \<open>
  Programs as processes that call the kernel: a program is a tree whose inner nodes are \<^verbatim>\<open>ecall\<close> instructions, with
  one branch for each answer the kernel may give. Everything a program does to the rest of the system is a call, so a
  statement about all branches holds for every kernel. The wrappers are those of \<^verbatim>\<open>userspace/include/syscall.c\<close>, the
  entry point is that of \<^verbatim>\<open>crt0.c\<close>.

  A pointer argument is the data it points to: a zero-terminated string, counted bytes, or a buffer that the kernel
  fills; the answer carries the register \<^verbatim>\<open>a0\<close> and the bytes the kernel stored.
\<close>

unbundle bit_operations_syntax

subsection \<open>Programs\<close>

datatype uarg = Num u64 | Str string | Data "u8 list" | Buf | Null

datatype ucall = Syscall (call_num: nat) (call_a0: uarg) (call_a1: uarg) (call_a2: uarg)

type_synonym answer = "u64 \<times> u8 list"

datatype 'a prog = Ret 'a | Ecall ucall "answer \<Rightarrow> 'a prog" | Undef string

primrec pbind :: "'a prog \<Rightarrow> ('a \<Rightarrow> 'b prog) \<Rightarrow> 'b prog" where
  "pbind (Ret x) g = g x"
| "pbind (Ecall c f) g = Ecall c (\<lambda>a. pbind (f a) g)"
| "pbind (Undef w) g = Undef w"

definition pseq :: "'a prog \<Rightarrow> 'b prog \<Rightarrow> 'b prog" where
  "pseq p q = pbind p (\<lambda>_. q)"

text \<open>Running a program on a kernel, which answers each call or never returns from it; the calls made are recorded.\<close>

datatype 'a outcome = Done 'a | Stopped | Bad string

primrec exec :: "(ucall \<Rightarrow> 's \<Rightarrow> answer option \<times> 's) \<Rightarrow> 'a prog \<Rightarrow> 's \<Rightarrow> 'a outcome \<times> ucall list \<times> 's" where
  "exec k (Ret x) s = (Done x, [], s)"
| "exec k (Undef w) s = (Bad w, [], s)"
| "exec k (Ecall c f) s =
     (case k c s of
        (None, s1) \<Rightarrow> (Stopped, [c], s1)
      | (Some a, s1) \<Rightarrow> case exec k (f a) s1 of (r, t, s2) \<Rightarrow> (r, c # t, s2))"

text \<open>All calls a program makes on any kernel satisfy \<open>P\<close>.\<close>

primrec all_calls :: "(ucall \<Rightarrow> bool) \<Rightarrow> 'a prog \<Rightarrow> bool" where
  "all_calls P (Ret x) = True"
| "all_calls P (Undef w) = True"
| "all_calls P (Ecall c f) \<longleftrightarrow> P c \<and> (\<forall>a. all_calls P (f a))"

subsection \<open>System calls\<close>

definition syscall :: "nat \<Rightarrow> uarg \<Rightarrow> uarg \<Rightarrow> uarg \<Rightarrow> answer prog" where
  "syscall num a0 a1 a2 = Ecall (Syscall num a0 a1 a2) Ret"

text \<open>Results of type \<^verbatim>\<open>int32\<close> are the low half of the register; \<^verbatim>\<open>int\<close> arguments are extended with their sign.\<close>

definition i32 :: "u64 \<Rightarrow> int" where
  "i32 r = sint (ucast r :: u32)"

definition call_i32 :: "nat \<Rightarrow> uarg \<Rightarrow> uarg \<Rightarrow> uarg \<Rightarrow> int prog" where
  "call_i32 num a0 a1 a2 = pbind (syscall num a0 a1 a2) (\<lambda>(r, _). Ret (i32 r))"

definition call_void :: "nat \<Rightarrow> uarg \<Rightarrow> uarg \<Rightarrow> uarg \<Rightarrow> unit prog" where
  "call_void num a0 a1 a2 = pbind (syscall num a0 a1 a2) (\<lambda>_. Ret ())"

definition ptr :: "string option \<Rightarrow> uarg" where
  "ptr x = (case x of None \<Rightarrow> Null | Some t \<Rightarrow> Str t)"

definition sys_trap_user :: "unit prog" where
  "sys_trap_user = call_void SYS_TRAP (Num 0) (Num 0) (Num 0)"

definition file_open :: "string \<Rightarrow> int \<Rightarrow> int prog" where
  "file_open path mode = call_i32 SYS_CREATE_FILE (Str path) (Num (of_int mode)) (Num 0)"

definition file_read :: "int \<Rightarrow> nat \<Rightarrow> (int \<times> u8 list) prog" where
  "file_read h len =
     pbind (syscall SYS_READ_FILE (Num (of_int h)) Buf (Num (of_nat len))) (\<lambda>(r, bs). Ret (i32 r, bs))"

definition get_cwd :: "nat \<Rightarrow> (int \<times> u8 list) prog" where
  "get_cwd len = pbind (syscall SYS_GETCWD Buf (Num (of_nat len)) (Num 0)) (\<lambda>(r, bs). Ret (i32 r, bs))"

definition file_write :: "int \<Rightarrow> u8 list \<Rightarrow> int prog" where
  "file_write h bs = call_i32 SYS_WRITE_FILE (Num (of_int h)) (Data bs) (Num (of_nat (length bs)))"

definition close_handle :: "int \<Rightarrow> unit prog" where
  "close_handle h = call_void SYS_CLOSE_HANDLE (Num (of_int h)) (Num 0) (Num 0)"

definition exit_process :: "int \<Rightarrow> unit prog" where
  "exit_process status = call_void SYS_EXIT (Num (of_int status)) (Num 0) (Num 0)"

definition get_ticks :: "u32 prog" where
  "get_ticks = pbind (syscall SYS_GET_TICKS (Num 0) (Num 0) (Num 0)) (\<lambda>(r, _). Ret (ucast r))"

definition get_pid :: "int prog" where
  "get_pid = call_i32 SYS_GETPID (Num 0) (Num 0) (Num 0)"

definition spawn_process :: "string \<Rightarrow> string option \<Rightarrow> int prog" where
  "spawn_process path args = call_i32 SYS_SPAWN (Str path) (ptr args) (Num 0)"

definition sandbox :: "string \<Rightarrow> string option \<Rightarrow> u64 \<Rightarrow> int prog" where
  "sandbox path args cap = call_i32 SYS_SANDBOX (Str path) (ptr args) (Num cap)"

definition wait_process :: "int \<Rightarrow> int prog" where
  "wait_process pid = call_i32 SYS_WAIT (Num (of_int pid)) (Num 0) (Num 0)"

definition kill_process :: "int \<Rightarrow> int prog" where
  "kill_process pid = call_i32 SYS_KILL (Num (of_int pid)) (Num 0) (Num 0)"

definition sys_panic_user :: "unit prog" where
  "sys_panic_user = call_void SYS_PANIC (Num 0) (Num 0) (Num 0)"

definition ls :: "unit prog" where
  "ls = call_void SYS_LS (Num 0) (Num 0) (Num 0)"

definition poweroff :: "unit prog" where
  "poweroff = call_void SYS_POWEROFF (Num 0) (Num 0) (Num 0)"

definition reboot :: "unit prog" where
  "reboot = call_void SYS_REBOOT (Num 0) (Num 0) (Num 0)"

definition sleep_user :: "u64 \<Rightarrow> unit prog" where
  "sleep_user time = call_void SYS_SLEEP (Num time) (Num 0) (Num 0)"

definition mkdir :: "string \<Rightarrow> int prog" where
  "mkdir path = call_i32 SYS_MKDIR (Str path) (Num 0) (Num 0)"

definition chdir :: "string \<Rightarrow> int prog" where
  "chdir path = call_i32 SYS_CHDIR (Str path) (Num 0) (Num 0)"

definition unlink :: "string \<Rightarrow> int prog" where
  "unlink path = call_i32 SYS_UNLINK (Str path) (Num 0) (Num 0)"

definition rename :: "string \<Rightarrow> string \<Rightarrow> int prog" where
  "rename oldpath newpath = call_i32 SYS_RENAME (Str oldpath) (Str newpath) (Num 0)"

definition get_version :: "nat \<Rightarrow> (int \<times> u8 list) prog" where
  "get_version len = pbind (syscall SYS_GET_VERSION Buf (Num (of_nat len)) (Num 0)) (\<lambda>(r, bs). Ret (i32 r, bs))"

definition ps_user :: "nat \<Rightarrow> (int \<times> u8 list) prog" where
  "ps_user most = pbind (syscall SYS_PS Buf (Num (of_nat most)) (Num 0)) (\<lambda>(r, bs). Ret (i32 r, bs))"

definition get_abi_info :: "(int \<times> u8 list) prog" where
  "get_abi_info = pbind (syscall SYS_GET_ABI_INFO (Num 0) Buf (Num 0)) (\<lambda>(r, bs). Ret (i32 r, bs))"

definition get_caps :: "u64 prog" where
  "get_caps = pbind (syscall SYS_GETCAPS (Num 0) (Num 0) (Num 0)) (\<lambda>(r, _). Ret r)"

definition trace :: "int \<Rightarrow> int prog" where
  "trace enable = call_i32 SYS_TRACE (Num (of_int enable)) (Num 0) (Num 0)"

text \<open>\<^verbatim>\<open>_start\<close>: the result of \<^verbatim>\<open>main\<close> is the exit status.\<close>

definition start :: "int prog \<Rightarrow> unit prog" where
  "start main = pbind main exit_process"

subsection \<open>Composition\<close>

lemma pbind_Ret [simp]: "pbind p Ret = p"
  by (induction p) auto

lemma pbind_assoc [simp]: "pbind (pbind p g) h = pbind p (\<lambda>x. pbind (g x) h)"
  by (induction p) auto

lemma exec_pbind:
  "exec k (pbind p g) s =
     (case exec k p s of
        (Done x, t, s1) \<Rightarrow> (case exec k (g x) s1 of (r, t', s2) \<Rightarrow> (r, t @ t', s2))
      | (Stopped, t, s1) \<Rightarrow> (Stopped, t, s1)
      | (Bad w, t, s1) \<Rightarrow> (Bad w, t, s1))"
proof (induction p arbitrary: s)
  case (Ecall c f)
  show ?case
  proof (cases "k c s")
    case (Pair r s1)
    then show ?thesis using Ecall [of _ s1] by (cases r) (auto split: prod.splits outcome.splits)
  qed
qed (auto split: prod.splits)

lemma exec_bind: "exec k p s = (Done x, t, s1) \<Longrightarrow> exec k (g x) s1 = (r, t', s2) \<Longrightarrow> exec k (pbind p g) s = (r, t @ t', s2)"
  by (simp add: exec_pbind)

lemma exec_head: "\<exists>r t s'. exec k (Ecall c f) s = (r, c # t, s')"
  by (cases "k c s"; cases "fst (k c s)") (auto split: prod.split)

lemma all_calls_pbind: "all_calls P p \<Longrightarrow> (\<And>x. all_calls P (g x)) \<Longrightarrow> all_calls P (pbind p g)"
  by (induction p) auto

lemma all_calls_pseq: "all_calls P p \<Longrightarrow> all_calls P q \<Longrightarrow> all_calls P (pseq p q)"
  by (simp add: pseq_def all_calls_pbind)

text \<open>What all branches promise holds for the calls of every run.\<close>

lemma all_calls_exec: "all_calls P p \<Longrightarrow> exec k p s = (r, t, s') \<Longrightarrow> c \<in> set t \<Longrightarrow> P c"
proof (induction p arbitrary: s r t)
  case (Ecall c' f)
  show ?case
  proof (cases "k c' s")
    case (Pair a s1)
    then show ?thesis using Ecall by (cases a) (fastforce split: prod.splits)+
  qed
qed auto

lemma all_calls_exec_all: "all_calls P p \<Longrightarrow> list_all P (fst (snd (exec k p s)))"
  using all_calls_exec [of P p k s] by (auto simp: list_all_iff prod_eq_iff)

lemmas wrapper_defs = syscall_def call_i32_def call_void_def

end
