(* ===== verification/RV_Stdio.thy ===== *)
theory RV_Stdio
  imports RV_User
begin

text \<open>
  Input and output of programs, \<^verbatim>\<open>userspace/include/stdio.c\<close>. Output is a sequence of \<^verbatim>\<open>file_write\<close> calls: \<open>says p bs x\<close>
  means that \<open>p\<close> writes \<open>bs\<close> to \<^verbatim>\<open>STDOUT\<close> whatever the kernel answers, makes no other call, and returns \<open>x\<close>. A format string is
  described by its pieces; the main lemma gives the text \<^verbatim>\<open>printf\<close> writes for them.
\<close>

subsection \<open>Definitions\<close>

definition STDIN :: int where [rv_const]: "STDIN = 0"
definition STDOUT :: int where [rv_const]: "STDOUT = 1"

definition bytes :: "string \<Rightarrow> u8 list" where
  "bytes t = map of_char t"

definition print_str :: "string \<Rightarrow> unit prog" where
  "print_str s = pseq (file_write STDOUT (bytes s)) (Ret ())"

text \<open>
  \<^verbatim>\<open>gets\<close>: \<open>acc\<close> is \<^verbatim>\<open>buf\<close> up to \<^verbatim>\<open>i\<close>; backspaces may keep the loop busy for ever, so \<open>n\<close> bounds the number of reads and
  \<open>None\<close> means that more are needed.
\<close>

primrec gets_loop :: "nat \<Rightarrow> nat \<Rightarrow> string \<Rightarrow> string option prog" where
  "gets_loop 0 most acc = Ret None"
| "gets_loop (Suc n) most acc =
     (if \<not> length acc + 1 < most then Ret (Some acc)
      else pbind (file_read STDIN 1) (\<lambda>(cc, bs).
        if cc < 1 then Ret (Some acc)
        else case bs of
          [] \<Rightarrow> Undef ''gets''
        | c # _ \<Rightarrow>
            if c = 8 \<or> c = 127 then gets_loop n most (butlast acc)
            else if c = 10 \<or> c = 13 then Ret (Some (acc @ [char_of (unat c)]))
            else gets_loop n most (acc @ [char_of (unat c)])))"

definition gets :: "nat \<Rightarrow> nat \<Rightarrow> string option prog" where
  "gets n most = gets_loop n most []"

text \<open>The digits of a positive \<^verbatim>\<open>int\<close>, least first.\<close>

function int_digits :: "u32 \<Rightarrow> u8 list" where
  "int_digits n = (if 0 < sint n then (ucast (n mod 10) + of_char CHR ''0'') # int_digits (n div 10) else [])"
  by pat_completeness auto
termination
proof (relation "measure unat", goal_cases)
  case (2 n)
  then have "0 < unat n" by (cases "n = 0") (simp_all add: unat_gt_0)
  then show ?case by (simp add: unat_div)
qed simp

declare int_digits.simps [simp del]

definition print_int :: "u32 \<Rightarrow> unit prog" where
  "print_int n =
     (if n = 0 then print_str ''0''
      else
        let sign = (if sint n < 0 then bytes ''-'' else []);
            m = (if sint n < 0 then - n else n)
        in pseq (file_write STDOUT (sign @ rev (int_digits m))) (Ret ()))"

primrec hex_loop :: "nat \<Rightarrow> u64 \<Rightarrow> unit prog" where
  "hex_loop 0 n = Ret ()"
| "hex_loop (Suc i) n =
     pseq (file_write STDOUT [bytes ''0123456789abcdef'' ! unat (drop_bit (i * 4) n AND 0xf)]) (hex_loop i n)"

definition print_hex :: "u64 \<Rightarrow> unit prog" where
  "print_hex n = pseq (print_str ''0x'') (hex_loop 16 n)"

datatype farg = FInt u32 | FHex u64 | FStr "string option"

definition fmt_flag :: "char \<Rightarrow> bool" where
  "fmt_flag c \<longleftrightarrow> c = CHR ''-'' \<or> (48 \<le> (of_char c :: u8) \<and> (of_char c :: u8) \<le> 57)"

text \<open>\<^verbatim>\<open>printf\<close>; too few arguments, or one of another type, are undefined.\<close>

function printf_user :: "string \<Rightarrow> farg list \<Rightarrow> unit prog" where
  "printf_user [] as = Ret ()"
| "printf_user (c # rest) as =
     (if c \<noteq> CHR ''%'' then pseq (file_write STDOUT (bytes [c])) (printf_user rest as)
      else case dropWhile fmt_flag rest of
        [] \<Rightarrow> Ret ()
      | d # more \<Rightarrow>
          if d = CHR ''d'' then
            (case as of FInt n # bs \<Rightarrow> pseq (print_int n) (printf_user more bs) | _ \<Rightarrow> Undef ''printf'')
          else if d = CHR ''x'' \<or> d = CHR ''p'' then
            (case as of FHex n # bs \<Rightarrow> pseq (print_hex n) (printf_user more bs) | _ \<Rightarrow> Undef ''printf'')
          else if d = CHR ''s'' then
            (case as of
               FStr s # bs \<Rightarrow> pseq (print_str (case s of None \<Rightarrow> ''(null)'' | Some t \<Rightarrow> t)) (printf_user more bs)
             | _ \<Rightarrow> Undef ''printf'')
          else if d = CHR ''%'' then pseq (print_str ''%'') (printf_user more as)
          else printf_user more as)"
  by pat_completeness auto
termination
proof (relation "measure (\<lambda>(fmt, _). length fmt)", goal_cases)
  case 1
  show ?case by simp
next
  case (2 c rest as)
  show ?case by simp
qed (metis (no_types, lifting) Suc_le_lessD case_prod_conv in_measure le_imp_less_Suc length_Cons length_dropWhile_le order_less_imp_le)+

declare printf_user.simps [simp del]

subsection \<open>Output\<close>

definition write_out :: "u8 list \<Rightarrow> ucall" where
  "write_out b = Syscall SYS_WRITE_FILE (Num (of_int STDOUT)) (Data b) (Num (of_nat (length b)))"

inductive says :: "'a prog \<Rightarrow> u8 list \<Rightarrow> 'a \<Rightarrow> bool" where
  says_ret: "says (Ret x) [] x"
| says_write: "(\<And>a. says (f a) bs x) \<Longrightarrow> says (Ecall (write_out b) f) (b @ bs) x"

inductive_cases says_RetE: "says (Ret y) bs x"

lemma says_pbind: "says p bs x \<Longrightarrow> says (g x) cs y \<Longrightarrow> says (pbind p g) (bs @ cs) y"
  by (induction rule: says.induct) (auto intro: says.intros)

lemma says_pseq: "says p bs x \<Longrightarrow> says q cs y \<Longrightarrow> says (pseq p q) (bs @ cs) y"
  by (simp add: pseq_def says_pbind)

lemma says_file_write: "says q cs y \<Longrightarrow> says (pseq (file_write STDOUT b) q) (b @ cs) y"
  by (auto simp: pseq_def file_write_def wrapper_defs case_prod_unfold write_out_def [symmetric] intro: says.says_write)

lemma says_print_str: "says (print_str t) (bytes t) ()"
  using says_file_write [OF says.says_ret, of "bytes t" "()"] by (simp add: print_str_def)

lemma says_all_calls: "says p bs x \<Longrightarrow> (\<And>b. P (write_out b)) \<Longrightarrow> all_calls P p"
  by (induction rule: says.induct) auto

text \<open>The bytes that reach \<^verbatim>\<open>STDOUT\<close> in a run.\<close>

definition written :: "ucall \<Rightarrow> u8 list" where
  "written c = (case c of Syscall num a0 a1 a2 \<Rightarrow>
     if num = SYS_WRITE_FILE \<and> a0 = Num (of_int STDOUT) then case a1 of Data b \<Rightarrow> b | _ \<Rightarrow> [] else [])"

lemma written_write_out [simp]: "written (write_out b) = b"
  by (simp add: written_def write_out_def)

lemma says_exec:
  assumes "says p bs x" and "\<And>b s. fst (k (write_out b) s) \<noteq> None"
  shows "\<exists>t s'. exec k p s = (Done x, t, s') \<and> concat (map written t) = bs \<and> (\<forall>c \<in> set t. \<exists>b. c = write_out b)"
  using assms(1)
proof (induction arbitrary: s rule: says.induct)
  case (says_write f bs x b)
  obtain a s1 where k: "k (write_out b) s = (Some a, s1)" using assms(2) [of b s] by (cases "k (write_out b) s") auto
  obtain t s' where "exec k (f a) s1 = (Done x, t, s')" "concat (map written t) = bs" "\<forall>c \<in> set t. \<exists>b. c = write_out b"
    using says_write.IH by blast
  then show ?case using k by auto
qed auto

subsection \<open>Numbers\<close>

fun dec :: "nat \<Rightarrow> u8 list" where
  "dec n = (if n < 10 then [of_nat n + 48] else dec (n div 10) @ [of_nat (n mod 10) + 48])"

declare dec.simps [simp del]

definition undec :: "u8 list \<Rightarrow> nat" where
  "undec ds = foldl (\<lambda>a d. a * 10 + unat (d - 48)) 0 ds"

lemma undec_dec: "undec (dec n) = n"
proof (induction n rule: dec.induct)
  case (1 n)
  show ?case
  proof (cases "n < 10")
    case True
    then have "unat (of_nat n :: u8) = n" by (intro unat_of_nat_small) simp
    then show ?thesis using True by (simp add: dec.simps [of n] undec_def)
  next
    case False
    have "unat (of_nat (n mod 10) :: u8) = n mod 10" by (intro unat_of_nat_small) simp
    then show ?thesis using False 1 by (simp add: dec.simps [of n] undec_def)
  qed
qed

lemma int_digits_dec: "0 < sint n \<Longrightarrow> rev (int_digits n) = dec (unat n)"
proof (induction n rule: int_digits.induct)
  case (1 n)
  have z: "(of_char CHR ''0'' :: u8) = 48" by simp
  have u: "sint n = int (unat n)" using 1 by (intro sint_unat) simp
  have d: "unat (n div 10) = unat n div 10" "unat (n mod 10) = unat n mod 10" by (simp_all add: unat_div unat_mod)
  have m: "(ucast (n mod 10) :: u8) = of_nat (unat n mod 10)" by (metis d(2) of_nat_unat ucast_eq)
  have s: "sint (n div 10) = int (unat n div 10)"
    using unsigned_less [of n, where ?'a = nat] d(1) sint_small [of "n div 10"] by simp
  show ?case
  proof (cases "unat n < 10")
    case True
    then have "\<not> 0 < sint (n div 10)" using s by simp
    then show ?thesis using 1 True m z by (simp add: int_digits.simps [of n] int_digits.simps [of "n div 10"] dec.simps [of "unat n"])
  next
    case False
    then have "0 < sint (n div 10)" using s by (simp add: div_greater_zero_iff)
    then show ?thesis using 1 False d m z by (simp add: int_digits.simps [of n] dec.simps [of "unat n"])
  qed
qed

definition int_text :: "u32 \<Rightarrow> u8 list" where
  "int_text n = (if n = 0x80000000 then bytes ''-'' else (if sint n < 0 then bytes ''-'' else []) @ dec (nat \<bar>sint n\<bar>))"

lemma int_text_digits:
  assumes "n \<noteq> 0"
  shows "int_text n = (if sint n < 0 then bytes ''-'' else []) @ rev (int_digits (if sint n < 0 then - n else n))"
proof -
  define m where "m = (if sint n < 0 then - n else n)"
  have um: "unat m = nat \<bar>sint n\<bar>" using unat_abs [of n] by (simp add: m_def)
  have "sint n \<noteq> 0" using assms signed_word_eqI [of n 0] by auto
  then have pm: "0 < unat m" using um by simp
  have "rev (int_digits m) = (if n = 0x80000000 then [] else dec (nat \<bar>sint n\<bar>))"
  proof (cases "n = 0x80000000")
    case True
    then have "sint m = - 2147483648" by (simp add: m_def)
    then show ?thesis using True by (simp add: int_digits.simps [of m])
  next
    case ne: False
    have "unat m < 2 ^ 31"
    proof (rule ccontr)
      assume "\<not> unat m < 2 ^ 31"
      moreover have "- (2 ^ 31) \<le> sint n" "sint n < 2 ^ 31" using sint_greater_eq [of n] sint_less [of n] by simp_all
      ultimately have "sint n = - (2 ^ 31)" using um by (simp add: abs_if split: if_splits)
      also have "\<dots> = sint (0x80000000 :: u32)" by simp
      finally have "n = 0x80000000" by (rule signed_word_eqI)
      then show False using ne by simp
    qed
    then have "sint m = int (unat m)" by (rule sint_small)
    then show ?thesis using int_digits_dec [of m] um pm ne by simp
  qed
  then show ?thesis unfolding m_def [symmetric] by (auto simp: int_text_def)
qed

lemma says_print_int: "says (print_int n) (int_text n) ()"
proof (cases "n = 0")
  case True
  have "int_text n = bytes ''0''" using True by (simp add: int_text_def bytes_def dec.simps [of 0])
  then show ?thesis using True says_print_str by (simp add: print_int_def)
next
  case False
  then show ?thesis using says_file_write [OF says.says_ret, of "int_text n" "()"]
    by (simp add: print_int_def Let_def int_text_digits)
qed

text \<open>Hexadecimal: all digits of the 64-bit number.\<close>

primrec hex :: "nat \<Rightarrow> nat \<Rightarrow> u8 list" where
  "hex 0 n = []"
| "hex (Suc k) n = hex k (n div 16) @ [bytes ''0123456789abcdef'' ! (n mod 16)]"

lemma hex_top: "hex (Suc k) n = bytes ''0123456789abcdef'' ! (n div 16 ^ k mod 16) # hex k n"
  by (induction k arbitrary: n) (simp_all add: div_mult2_eq mult.commute)

lemma nibble: "unat (drop_bit (k * 4) n AND 0xf) = unat n div 16 ^ k mod 16" for n :: u64
proof -
  have "drop_bit (k * 4) n AND 0xf = take_bit 4 (drop_bit (k * 4) n)"
    by (simp add: take_bit_eq_mask mask_eq_exp_minus_1)
  then have "unat (drop_bit (k * 4) n AND 0xf) = take_bit 4 (drop_bit (k * 4) (unat n))"
    using take_bit_nat_eq_self [OF unsigned_less [of n, where ?'a = nat]]
    by (simp add: unsigned_take_bit_eq unsigned_drop_bit_eq)
  then show ?thesis by (simp add: take_bit_eq_mod drop_bit_eq_div power_mult mult.commute [of k])
qed

lemma says_hex_loop: "says (hex_loop k n) (hex k (unat n)) ()"
proof (induction k)
  case (Suc k)
  then show ?case
    using says_file_write [OF Suc, of "[bytes ''0123456789abcdef'' ! (unat n div 16 ^ k mod 16)]"]
    by (simp only: hex_loop.simps nibble hex_top append_Cons append_Nil)
qed (simp add: says.says_ret)

lemma says_print_hex: "says (print_hex n) (bytes ''0x'' @ hex 16 (unat n)) ()"
  unfolding print_hex_def by (rule says_pseq [OF says_print_str says_hex_loop])

definition unhex :: "u8 list \<Rightarrow> nat" where
  "unhex ds = foldl (\<lambda>a d. a * 16 + length (takeWhile (\<lambda>e. e \<noteq> d) (bytes ''0123456789abcdef''))) 0 ds"

lemma unhex_hex: "n < 16 ^ k \<Longrightarrow> unhex (hex k n) = n"
proof (induction k arbitrary: n)
  case (Suc k)
  have "\<forall>i \<in> set [0..<16]. length (takeWhile (\<lambda>e. e \<noteq> bytes ''0123456789abcdef'' ! i) (bytes ''0123456789abcdef'')) = i"
    by code_simp
  then have "length (takeWhile (\<lambda>e. e \<noteq> bytes ''0123456789abcdef'' ! (n mod 16)) (bytes ''0123456789abcdef'')) = n mod 16" by simp
  moreover have "unhex (hex k (n div 16)) = n div 16" using Suc.prems by (intro Suc.IH) (simp add: div_less_iff_less_mult)
  ultimately show ?case by (simp add: unhex_def)
qed (simp add: unhex_def)

subsection \<open>Formats\<close>

text \<open>
  The pieces of a format: a plain character, a percent sign, or a conversion with its flags and its argument. Flags
  are accepted and have no effect.
\<close>

datatype piece = Lit char | Percent | DecP string u32 | HexP string u64 | StrP string "string option"

primrec piece_ok :: "piece \<Rightarrow> bool" where
  "piece_ok (Lit c) \<longleftrightarrow> c \<noteq> CHR ''%''"
| "piece_ok Percent \<longleftrightarrow> True"
| "piece_ok (DecP fl n) \<longleftrightarrow> list_all fmt_flag fl"
| "piece_ok (HexP fl n) \<longleftrightarrow> list_all fmt_flag fl"
| "piece_ok (StrP fl t) \<longleftrightarrow> list_all fmt_flag fl"

primrec piece_fmt :: "piece \<Rightarrow> string" where
  "piece_fmt (Lit c) = [c]"
| "piece_fmt Percent = ''%%''"
| "piece_fmt (DecP fl n) = ''%'' @ fl @ ''d''"
| "piece_fmt (HexP fl n) = ''%'' @ fl @ ''x''"
| "piece_fmt (StrP fl t) = ''%'' @ fl @ ''s''"

primrec piece_args :: "piece \<Rightarrow> farg list" where
  "piece_args (Lit c) = []"
| "piece_args Percent = []"
| "piece_args (DecP fl n) = [FInt n]"
| "piece_args (HexP fl n) = [FHex n]"
| "piece_args (StrP fl t) = [FStr t]"

primrec piece_text :: "piece \<Rightarrow> u8 list" where
  "piece_text (Lit c) = bytes [c]"
| "piece_text Percent = bytes ''%''"
| "piece_text (DecP fl n) = int_text n"
| "piece_text (HexP fl n) = bytes ''0x'' @ hex 16 (unat n)"
| "piece_text (StrP fl t) = bytes (case t of None \<Rightarrow> ''(null)'' | Some u \<Rightarrow> u)"

lemma skip_flags: "list_all fmt_flag fl \<Longrightarrow> \<not> fmt_flag c \<Longrightarrow> dropWhile fmt_flag (fl @ c # rest) = c # rest"
  by (induction fl) auto

lemma not_flag [simp]: "\<not> fmt_flag CHR ''d''" "\<not> fmt_flag CHR ''x''" "\<not> fmt_flag CHR ''s''" "\<not> fmt_flag CHR ''%''"
  by (simp_all add: fmt_flag_def)

lemma says_piece:
  assumes "piece_ok p" and "says (printf_user fmt as) bs ()"
  shows "says (printf_user (piece_fmt p @ fmt) (piece_args p @ as)) (piece_text p @ bs) ()"
proof (cases p)
  case (Lit c)
  then show ?thesis using assms says_file_write by (simp add: printf_user.simps)
next
  case Percent
  then show ?thesis using says_pseq [OF says_print_str assms(2)] by (simp add: printf_user.simps)
next
  case (DecP fl n)
  then show ?thesis using assms(1) says_pseq [OF says_print_int assms(2)] by (simp add: printf_user.simps skip_flags)
next
  case (HexP fl n)
  then show ?thesis using assms(1) says_pseq [OF says_print_hex assms(2), of n] by (simp add: printf_user.simps skip_flags)
next
  case (StrP fl t)
  then show ?thesis using assms(1) says_pseq [OF says_print_str assms(2)] by (simp add: printf_user.simps skip_flags)
qed

lemma says_printf:
  "list_all piece_ok ps \<Longrightarrow>
   says (printf_user (concat (map piece_fmt ps)) (concat (map piece_args ps))) (concat (map piece_text ps)) ()"
  by (induction ps) (auto intro: says_piece says.says_ret simp: printf_user.simps)

text \<open>A format of plain characters; what a program says never asks for anything but output.\<close>

definition silent_out :: "'a prog \<Rightarrow> bool" where
  "silent_out p \<longleftrightarrow> all_calls (\<lambda>c. \<exists>b. c = write_out b) p"

lemma out_pseq: "silent_out p \<Longrightarrow> silent_out q \<Longrightarrow> silent_out (pseq p q)"
  by (simp add: silent_out_def all_calls_pseq)

lemma out_says: "says p bs x \<Longrightarrow> silent_out p"
  unfolding silent_out_def by (rule says_all_calls) auto

lemma out_all_calls: "silent_out p \<Longrightarrow> (\<And>b. P (write_out b)) \<Longrightarrow> all_calls P p"
  unfolding silent_out_def by (induction p) auto

lemma out_write: "silent_out q \<Longrightarrow> silent_out (pseq (file_write STDOUT b) q)"
  by (auto simp: silent_out_def pseq_def file_write_def wrapper_defs write_out_def)

lemma out_leaf [simp]: "silent_out (Undef x)" "silent_out (Ret y)"
  by (simp_all add: silent_out_def)

lemmas out_intros = out_write out_pseq [OF out_says [OF says_print_str]] out_pseq [OF out_says [OF says_print_int]]
  out_pseq [OF out_says [OF says_print_hex]]

lemma out_printf: "silent_out (printf_user fmt as)"
proof (induction "length fmt" arbitrary: fmt as rule: less_induct)
  case less
  show ?case
  proof (cases fmt)
    case (Cons c rest)
    have h: "silent_out (printf_user more bs)" if "dropWhile fmt_flag rest = d # more" for d more bs
      using less [of more] length_dropWhile_le [of fmt_flag rest] by (simp add: Cons that)
    have p: "silent_out (pseq (file_write STDOUT (bytes [c])) (printf_user rest as))"
      using less [of rest] by (intro out_write) (simp add: Cons)
    show ?thesis unfolding Cons printf_user.simps(2)
      using p h by (simp add: out_intros split: list.split farg.split)
  qed (simp add: printf_user.simps)
qed

subsection \<open>Input\<close>

definition read_in :: ucall where
  "read_in = Syscall SYS_READ_FILE (Num (of_int STDIN)) Buf (Num (of_nat 1))"

text \<open>A kernel that answers reads of one byte from a queue of pending bytes.\<close>

locale char_source =
  fixes k :: "ucall \<Rightarrow> 's \<Rightarrow> answer option \<times> 's"
    and inv :: "'s \<Rightarrow> bool"
    and pending :: "'s \<Rightarrow> u8 list"
  assumes read_char: "inv s \<Longrightarrow> pending s = c # cs \<Longrightarrow> \<exists>s'. k read_in s = (Some (1, [c]), s') \<and> inv s' \<and> pending s' = cs"
begin

lemma gets_step:
  assumes "inv s" and "pending s = c # cs" and "length acc + 1 < most"
  obtains s1 where "inv s1" "pending s1 = cs"
    "exec k (gets_loop (Suc n) most acc) s =
       (case exec k (if c = 8 \<or> c = 127 then gets_loop n most (butlast acc)
                     else if c = 10 \<or> c = 13 then Ret (Some (acc @ [char_of (unat c)]))
                     else gets_loop n most (acc @ [char_of (unat c)])) s1 of (r, t, s2) \<Rightarrow> (r, read_in # t, s2))"
proof -
  obtain s1 where "k read_in s = (Some (1, [c]), s1)" "inv s1" "pending s1 = cs" using read_char [OF assms(1,2)] by blast
  moreover from this(1) have "k (Syscall SYS_READ_FILE (Num (of_int STDIN)) Buf (Num 1)) s = (Some (1, [c]), s1)"
    by (simp add: read_in_def)
  ultimately show ?thesis using assms(3) by (intro that [of s1]) (simp_all add: file_read_def syscall_def i32_def read_in_def)
qed

text \<open>A line that fits is read to its end, and no further.\<close>

lemma gets_line:
  assumes "inv s" and "pending s = bs @ e # rest" and "\<forall>c \<in> set bs. c \<notin> {8, 10, 13, 127}" and "e \<in> {10, 13}"
    and "length acc + length bs + 1 < most" and "length bs < n"
  shows "\<exists>s'. exec k (gets_loop n most acc) s =
      (Done (Some (acc @ map (char_of \<circ> unat) (bs @ [e]))), replicate (length bs + 1) read_in, s') \<and>
    inv s' \<and> pending s' = rest"
  using assms
proof (induction bs arbitrary: n acc s)
  case Nil
  then obtain m where m: "n = Suc m" by (cases n) auto
  obtain s1 where "inv s1" "pending s1 = rest"
    "exec k (gets_loop (Suc m) most acc) s = (case exec k (if e = 8 \<or> e = 127 then gets_loop m most (butlast acc)
       else if e = 10 \<or> e = 13 then Ret (Some (acc @ [char_of (unat e)]))
       else gets_loop m most (acc @ [char_of (unat e)])) s1 of (r, t, s2) \<Rightarrow> (r, read_in # t, s2))"
    using gets_step [of s e rest acc most m] Nil.prems by auto
  then show ?case using Nil.prems(4) by (auto simp: m)
next
  case (Cons c bs)
  then obtain m where m: "n = Suc m" by (cases n) auto
  obtain s1 where s1: "inv s1" "pending s1 = bs @ e # rest"
    "exec k (gets_loop (Suc m) most acc) s = (case exec k (if c = 8 \<or> c = 127 then gets_loop m most (butlast acc)
       else if c = 10 \<or> c = 13 then Ret (Some (acc @ [char_of (unat c)]))
       else gets_loop m most (acc @ [char_of (unat c)])) s1 of (r, t, s2) \<Rightarrow> (r, read_in # t, s2))"
    using gets_step [of s c "bs @ e # rest" acc most m] Cons.prems by auto
  obtain s' where s': "exec k (gets_loop m most (acc @ [char_of (unat c)])) s1 =
      (Done (Some ((acc @ [char_of (unat c)]) @ map (char_of \<circ> unat) (bs @ [e]))), replicate (length bs + 1) read_in, s')"
      "inv s'" "pending s' = rest"
    using Cons.IH [OF s1(1,2), of "acc @ [char_of (unat c)]" m] Cons.prems m by auto
  have "c \<noteq> 8" "c \<noteq> 127" "c \<noteq> 10" "c \<noteq> 13" using Cons.prems(3) by auto
  then show ?case using s1(3) s' by (simp add: m del: gets_loop.simps)
qed

end

subsection \<open>Properties\<close>

text \<open>
  C38. \<^verbatim>\<open>printf\<close> of a program writes the text of its format, whatever the kernel answers to its writes: plain characters as they are,
  \<^verbatim>\<open>%%\<close> as a percent sign, \<^verbatim>\<open>%x\<close> as sixteen digits that read back as the number, \<^verbatim>\<open>%s\<close> as the string, and \<^verbatim>\<open>%d\<close> as a sign and digits that
  read back as the number, all with any flags in front. It makes no other call and returns. One number is
  printed wrongly: of the smallest \<^verbatim>\<open>int\<close> only the sign appears, because its negation is negative again.
\<close>

theorem printf_correct:
  assumes "list_all piece_ok ps" and "\<forall>b s. fst (k (write_out b) s) \<noteq> None"
  shows "(\<exists>t s'. exec k (printf_user (concat (map piece_fmt ps)) (concat (map piece_args ps))) s = (Done (), t, s') \<and>
      concat (map written t) = concat (map piece_text ps) \<and> (\<forall>c \<in> set t. \<exists>b. c = write_out b)) \<and>
    (\<forall>fl n. piece_text (HexP fl n) = bytes ''0x'' @ hex 16 (unat n) \<and> unhex (hex 16 (unat n)) = unat n) \<and>
    (\<forall>fl n. n \<noteq> 0x80000000 \<longrightarrow> (\<exists>ds. piece_text (DecP fl n) = (if sint n < 0 then bytes ''-'' else []) @ ds \<and>
       int (undec ds) = \<bar>sint n\<bar>)) \<and>
    (\<forall>fl. piece_text (DecP fl 0x80000000) = bytes ''-'')"
proof (intro conjI allI impI)
  show "\<exists>t s'. exec k (printf_user (concat (map piece_fmt ps)) (concat (map piece_args ps))) s = (Done (), t, s') \<and>
      concat (map written t) = concat (map piece_text ps) \<and> (\<forall>c \<in> set t. \<exists>b. c = write_out b)"
    using says_exec [OF says_printf [OF assms(1)], of k s] assms(2) by blast
  show "unhex (hex 16 (unat n)) = unat n" for n :: u64
    using unsigned_less [of n, where ?'a = nat] by (intro unhex_hex) simp
  show "\<exists>ds. piece_text (DecP fl n) = (if sint n < 0 then bytes ''-'' else []) @ ds \<and> int (undec ds) = \<bar>sint n\<bar>"
    if "n \<noteq> 0x80000000" for fl n
    using that by (intro exI [of _ "dec (nat \<bar>sint n\<bar>)"]) (simp add: int_text_def undec_dec)
qed (simp_all add: int_text_def)

theorem printf_correct_witness:
  "\<exists>t s'. exec (\<lambda>c s. (Some (0, []), s)) (printf_user ''%5d %%!'' [FInt (- 42)]) () = (Done (), t, s') \<and>
     concat (map written t) = bytes ''-42 %!''"
proof -
  let ?ps = "[DecP ''5'' (- 42), Lit CHR '' '', Percent, Lit CHR ''!'']"
  have "list_all piece_ok ?ps" by (simp add: fmt_flag_def)
  moreover have "concat (map piece_text ?ps) = bytes ''-42 %!''"
    by (simp add: int_text_def bytes_def dec.simps [of 42] dec.simps [of 4])
  ultimately show ?thesis using printf_correct [of ?ps "\<lambda>c s. (Some (0, []), s)" "()"] by auto
qed

end
