(* ===== verification/RV_Shell.thy ===== *)
theory RV_Shell
  imports RV_Stdio
begin

text \<open>
  The programs that start other programs: the shell (\<^verbatim>\<open>userspace/shell.c\<close>), the first process (\<^verbatim>\<open>syscontroller.c\<close>), and the tools \<^verbatim>\<open>sandbox.c\<close>
  and \<^verbatim>\<open>trace.c\<close>. The shell and the first process run for ever; their definitions describe the first \<open>n\<close> rounds for
  every \<open>n\<close>. Character strings are lists without the terminating zero.
\<close>

unbundle bit_operations_syntax

subsection \<open>Strings\<close>

definition low :: "char \<Rightarrow> u8" where
  "low ch = (let c = of_char ch :: u8 in if 65 \<le> c \<and> c \<le> 90 then c + 32 else c)"

definition head_low :: "string \<Rightarrow> u8" where
  "head_low s = (case s of [] \<Rightarrow> 0 | c # _ \<Rightarrow> low c)"

fun strcasecmp :: "string \<Rightarrow> string \<Rightarrow> int" where
  "strcasecmp (a # as) (b # bs) =
     (if low a \<noteq> low b then int (unat (low a)) - int (unat (low b)) else strcasecmp as bs)"
| "strcasecmp s t = int (unat (head_low s)) - int (unat (head_low t))"

definition ln :: "string \<Rightarrow> string" where
  "ln t = t @ [CHR 0x0A]"

subsection \<open>The shell\<close>

definition help_user :: "unit prog" where
  "help_user = fold (\<lambda>l p. pseq p (printf_user l []))
     [ln ''Available commands:'',
      ln ''  help         - Show this help message'',
      ln ''  cd [dir]     - Change current directory'',
      ln ''  caps         - Show this shell's capabilities'',
      ln ''  exit         - Exit the shell (syscontroller restarts it)'',
      ln ''  [cmd] &      - Run command in background'',
      ln ''  [program]    - Execute a program (searches /usr/ first)'',
      ln [] @ ln ''Capability model:'',
      ''  default spawn '' @ [CHR 0xE2, CHR 0x86, CHR 0x92] @ '' USER_DEFAULT '' @ [CHR 0xE2, CHR 0x88, CHR 0xA9] @ ln '' shell caps'',
      ln ''  privileged tools (ps/kill/...) get elevated subset''] (Ret ())"

definition elev_caps_for :: "string \<Rightarrow> u64" where
  "elev_caps_for cmd =
     (let c = CAP_PROFILE_USER_DEFAULT in
      if strcasecmp cmd ''ps'' = 0 then c OR CAP_PROC_PS
      else if strcasecmp cmd ''kill'' = 0 then c OR CAP_PROC_KILL
      else if strcasecmp cmd ''trace'' = 0 then c OR CAP_PROC_TRACE
      else if strcasecmp cmd ''sandbox'' = 0 then c OR CAP_PROC_SANDBOX
      else if strcasecmp cmd ''poweroff'' = 0 \<or> strcasecmp cmd ''reboot'' = 0 \<or> strcasecmp cmd ''panic'' = 0
        then c OR CAP_SYS_POWER
      else 0)"

definition flag_of :: "u64 \<Rightarrow> u64 \<Rightarrow> farg" where
  "flag_of caps cap = FInt (if caps AND cap \<noteq> 0 then 1 else 0)"

definition print_caps :: "u64 \<Rightarrow> unit prog" where
  "print_caps caps =
     pseq (printf_user (ln ''shell caps=%x'') [FHex caps])
     (pseq (printf_user (ln ''  FS_READ=%d FS_WRITE=%d FS_DIR=%d FS_CWD=%d FS_RENAME=%d'')
        (map (flag_of caps) [CAP_FS_READ, CAP_FS_WRITE, CAP_FS_DIR, CAP_FS_CWD, CAP_FS_RENAME]))
     (pseq (printf_user (ln ''  PROC_BASIC=%d PS=%d KILL=%d SLEEP=%d TRACE=%d SANDBOX=%d'')
        (map (flag_of caps) [CAP_PROC_BASIC, CAP_PROC_PS, CAP_PROC_KILL, CAP_PROC_SLEEP, CAP_PROC_TRACE, CAP_PROC_SANDBOX]))
     (printf_user (ln ''  MEM_SBRK=%d SYS_TIME=%d SYS_POWER=%d'')
        (map (flag_of caps) [CAP_MEM_SBRK, CAP_SYS_TIME, CAP_SYS_POWER]))))"

text \<open>The path \<^verbatim>\<open>cmd_path\<close>, cut at 159 characters.\<close>

definition usr_path :: "string \<Rightarrow> string" where
  "usr_path name = ''/usr/'' @ take 154 name"

definition run_program :: "string \<Rightarrow> string option \<Rightarrow> int prog" where
  "run_program name arg =
     (let elev = elev_caps_for name; cmd_path = usr_path name in
      if elev \<noteq> 0 then
        pbind (sandbox cmd_path arg elev) (\<lambda>pid. if pid < 0 then sandbox name arg elev else Ret pid)
      else
        pbind (spawn_process cmd_path arg) (\<lambda>pid. if pid < 0 then spawn_process name arg else Ret pid))"

text \<open>Trailing characters of a kind removed; a command line split into its parts.\<close>

definition strip_end :: "(char \<Rightarrow> bool) \<Rightarrow> string \<Rightarrow> string" where
  "strip_end P s = rev (dropWhile P (rev s))"

definition is_eol :: "char \<Rightarrow> bool" where
  "is_eol c \<longleftrightarrow> c = CHR 0x0A \<or> c = CHR 0x0D"

definition cut_background :: "string \<Rightarrow> bool \<times> string" where
  "cut_background s =
     (if s \<noteq> [] \<and> last s = CHR ''&'' then (True, strip_end (\<lambda>c. c = CHR '' '') (butlast s)) else (False, s))"

definition split_cmd :: "string \<Rightarrow> string \<times> string option" where
  "split_cmd s =
     (case dropWhile (\<lambda>c. c \<noteq> CHR '' '') s of
        [] \<Rightarrow> (s, None)
      | _ # rest \<Rightarrow>
          let arg = dropWhile (\<lambda>c. c = CHR '' '') rest
          in (takeWhile (\<lambda>c. c \<noteq> CHR '' '') s, if arg = [] then None else Some arg))"

text \<open>What the shell does with a line: \<open>False\<close> when it leaves its loop.\<close>

definition shell_line :: "string \<Rightarrow> bool prog" where
  "shell_line buf0 =
     (let buf1 = strip_end is_eol buf0; (background, buf2) = cut_background buf1; (cmd, arg) = split_cmd buf2 in
      if buf1 = [] \<or> buf2 = [] then Ret True
      else if strcasecmp cmd ''help'' = 0 then pseq help_user (Ret True)
      else if strcasecmp cmd ''cd'' = 0 then
        (case arg of
           Some a \<Rightarrow> pbind (chdir a) (\<lambda>r. if r < 0 then pseq (printf_user (ln ''cd failed'') []) (Ret True) else Ret True)
         | None \<Rightarrow> pseq (chdir ''/'') (Ret True))
      else if strcasecmp cmd ''caps'' = 0 then pbind get_caps (\<lambda>c. pseq (print_caps c) (Ret True))
      else if strcasecmp cmd ''exit'' = 0 then Ret False
      else pbind (run_program cmd arg) (\<lambda>pid.
        if pid < 0 then
          pseq (if pid = i32 WITHOUT_CAP
                then printf_user (ln ''Permission denied (missing capability): %s'') [FStr (Some cmd)]
                else printf_user (ln ''Unknown command: %s'') [FStr (Some cmd)])
            (Ret True)
        else if background then pseq (printf_user (ln ''[PID %d] started in background'') [FInt (of_int pid)]) (Ret True)
        else pseq (wait_process pid) (Ret True)))"

text \<open>The loop that collects ended children; \<open>n\<close> bounds its rounds.\<close>

definition WAIT_NONBLOCK :: int where [rv_const]: "WAIT_NONBLOCK = - 0x1145"

primrec reap_loop :: "nat \<Rightarrow> bool prog" where
  "reap_loop 0 = Ret False"
| "reap_loop (Suc n) = pbind (wait_process WAIT_NONBLOCK) (\<lambda>r. if 0 < r then reap_loop n else Ret True)"

definition c_str :: "u8 list \<Rightarrow> string" where
  "c_str bs = map (char_of \<circ> unat) (takeWhile (\<lambda>b. b \<noteq> 0) bs)"

definition prompt :: "unit prog" where
  "prompt = pbind (get_cwd 128) (\<lambda>(r, bs).
     if r = 0 then printf_user ''[%s] # '' [FStr (Some (c_str bs))] else printf_user ''[] # '' [])"

text \<open>
  One round of the main loop; \<open>n\<close> bounds the rounds of its inner loops. \<open>None\<close> means that an inner loop is not done yet.
\<close>

definition shell_turn :: "nat \<Rightarrow> bool option prog" where
  "shell_turn n =
     pbind (reap_loop n) (\<lambda>ok. if \<not> ok then Ret None else
       pseq prompt
         (pbind (gets n 128) (\<lambda>buf. case buf of
            None \<Rightarrow> Ret None
          | Some b \<Rightarrow> pbind (shell_line (takeWhile (\<lambda>c. c \<noteq> CHR 0x00) b)) (\<lambda>go. Ret (Some go)))))"

primrec shell_loop :: "nat \<Rightarrow> nat \<Rightarrow> bool prog" where
  "shell_loop 0 n = Ret False"
| "shell_loop (Suc m) n =
     pbind (shell_turn n) (\<lambda>r. case r of None \<Rightarrow> Ret False | Some go \<Rightarrow> if go then shell_loop m n else Ret True)"

definition shell_main :: "nat \<Rightarrow> nat \<Rightarrow> unit prog" where
  "shell_main m n =
     pseq (printf_user (ln [] @ ln ''--- RVDOS Shell ---'') [])
     (pseq (printf_user (ln ''Type 'help' for a list of commands.'') [])
     (pbind (shell_loop m n) (\<lambda>left. if left then printf_user (ln ''Shell exiting...'') [] else Ret ())))"

subsection \<open>The first process\<close>







subsection \<open>Tools that start a program\<close>

primrec bin_loop :: "u64 \<Rightarrow> string \<Rightarrow> u64" where
  "bin_loop res [] = res"
| "bin_loop res (c # s) =
     (if c = CHR ''1'' then bin_loop (push_bit 1 res OR 1) s
      else if c = CHR ''0'' then bin_loop (push_bit 1 res) s
      else res)"

definition bin_to_uint64 :: "string option \<Rightarrow> u64" where
  "bin_to_uint64 x =
     (case x of
        None \<Rightarrow> 0
      | Some s \<Rightarrow>
          bin_loop 0 (case s of
            a # b # t \<Rightarrow> if a = CHR ''0'' \<and> (b = CHR ''b'' \<or> b = CHR ''B'') then t else s
          | _ \<Rightarrow> s))"

text \<open>The loop that joins the arguments in \<^verbatim>\<open>args[128]\<close>; one that does not fit is left out.\<close>

primrec join_args :: "string \<Rightarrow> string list \<Rightarrow> string" where
  "join_args acc [] = acc"
| "join_args acc (a # as) =
     join_args (if length acc + length a + 1 < 128 then acc @ a @ (if as = [] then [] else '' '') else acc) as"

text \<open>\<^verbatim>\<open>argv\<close> is the list of arguments with the name of the program in front.\<close>

definition sandbox_main :: "string list \<Rightarrow> int prog" where
  "sandbox_main argv =
     (if length argv < 3 then
        pseq (printf_user (ln ''Usage: sandbox <program> <binary_mask> [args...]'') [])
        (pseq (printf_user (''  Child caps = (this process caps) '' @ [CHR 0xE2, CHR 0x88, CHR 0xA9] @ ln '' mask'') [])
        (pseq (printf_user (ln ''  Requires CAP_PROC_SANDBOX.'') [])
        (pseq (exit_process 0) (Undef ''sandbox: argv''))))
      else
        let msk = bin_to_uint64 (Some (argv ! 2));
            args = join_args [] (drop 3 argv);
            arg = (if args = [] then None else Some args)
        in pbind (sandbox (usr_path (argv ! 1)) arg msk) (\<lambda>pid0.
             pbind (if pid0 < 0 then sandbox (argv ! 1) arg msk else Ret pid0) (\<lambda>pid.
               pseq
                 (if pid < 0 then
                    pseq
                      (if pid = i32 WITHOUT_CAP
                       then printf_user (ln ''sandbox: permission denied (need CAP_PROC_SANDBOX)'') []
                       else printf_user (ln ''sandbox: failed to spawn %s'') [FStr (Some (argv ! 1))])
                      (exit_process (- 1))
                  else Ret ())
                 (pseq (wait_process pid) (pseq (exit_process 0) (Undef ''sandbox: no result''))))))"

definition trace_main :: "string list \<Rightarrow> int prog" where
  "trace_main argv =
     (if length argv < 2 then
        pseq (printf_user (ln ''Usage: trace program [args...]'') []) (pseq (exit_process 0) (Undef ''trace: argv''))
      else
        let args = join_args [] (drop 2 argv)
        in pseq (trace 1)
           (pbind (spawn_process (usr_path (argv ! 1)) (Some args)) (\<lambda>pid0.
             pbind (if pid0 < 0 then spawn_process (argv ! 1) (Some args) else Ret pid0) (\<lambda>pid.
               pseq
                 (if pid < 0 then
                    pseq (printf_user (ln ''trace: failed to spawn %s'') [FStr (Some (argv ! 1))]) (exit_process (- 1))
                  else Ret ())
                 (pseq (wait_process pid) (pseq (exit_process 0) (Undef ''trace: no result'')))))))"

subsection \<open>Names of commands\<close>

lemma low_0: "low c = 0 \<longleftrightarrow> c = CHR 0x00"
proof -
  have "of_char c + 32 \<noteq> (0 :: u8)" if "of_char c \<le> (90 :: u8)"
  proof -
    have "unat (of_char c + 32 :: u8) = unat (of_char c :: u8) + 32"
      using that by (simp add: unat_word_ariths word_le_nat_alt)
    then show ?thesis by (metis add_is_0 unat_0 zero_neq_numeral)
  qed
  moreover have "of_char c = (0 :: u8) \<longleftrightarrow> c = CHR 0x00" using of_char_u8 [of c "CHR 0x00"] by simp
  ultimately show ?thesis by (auto simp: low_def Let_def)
qed

text \<open>Equal without regard to case.\<close>

lemma strcasecmp_0:
  "CHR 0x00 \<notin> set s \<Longrightarrow> CHR 0x00 \<notin> set t \<Longrightarrow> strcasecmp s t = 0 \<longleftrightarrow> map low s = map low t"
proof (induction s arbitrary: t)
  case Nil
  then show ?case by (cases t) (auto simp: head_low_def low_0 uint_0_iff)
next
  case (Cons c s)
  show ?case
  proof (cases t)
    case Nil
    then show ?thesis using Cons.prems by (auto simp: head_low_def low_0 uint_0_iff)
  next
    case t: (Cons d u)
    have "low c \<noteq> low d \<Longrightarrow> int (unat (low c)) - int (unat (low d)) \<noteq> 0" by (simp add: word_uint_eq_iff)
    then show ?thesis using Cons.IH [of u] Cons.prems by (auto simp: t)
  qed
qed

definition extra_cap :: "string \<Rightarrow> u64" where
  "extra_cap cmd =
     (case map_of [(bytes ''ps'', CAP_PROC_PS), (bytes ''kill'', CAP_PROC_KILL), (bytes ''trace'', CAP_PROC_TRACE),
        (bytes ''sandbox'', CAP_PROC_SANDBOX), (bytes ''poweroff'', CAP_SYS_POWER), (bytes ''reboot'', CAP_SYS_POWER),
        (bytes ''panic'', CAP_SYS_POWER)] (map low cmd) of
        None \<Rightarrow> 0 | Some c \<Rightarrow> c)"

lemma elev_caps_extra:
  assumes "CHR 0x00 \<notin> set cmd"
  shows "elev_caps_for cmd = (if extra_cap cmd = 0 then 0 else CAP_PROFILE_USER_DEFAULT OR extra_cap cmd)"
proof -
  have e: "strcasecmp cmd t = 0 \<longleftrightarrow> map low cmd = bytes t"
    if "t \<in> {''ps'', ''kill'', ''trace'', ''sandbox'', ''poweroff'', ''reboot'', ''panic''}" for t
  proof -
    have "map low t = bytes t" "CHR 0x00 \<notin> set t" using that by (auto simp: low_def bytes_def)
    then show ?thesis using strcasecmp_0 [OF assms] by simp
  qed
  show ?thesis
    by (simp add: elev_caps_for_def Let_def e extra_cap_def rv_const)
qed

subsection \<open>What the shell asks for\<close>

text \<open>The calls that start a process, and the capabilities it gets from a caller with capabilities \<open>c\<close>.\<close>

definition starts :: "ucall \<Rightarrow> bool" where
  "starts c \<longleftrightarrow> call_num c = SYS_SPAWN \<or> call_num c = SYS_SANDBOX"

definition child_caps :: "u64 \<Rightarrow> ucall \<Rightarrow> u64 option" where
  "child_caps c call =
     (case call_a2 call of
        Num msk \<Rightarrow>
          if starts call \<and> gate c (of_nat (call_num call)) 0 = Allowed
          then if call_num call = SYS_SPAWN then sys_spawn_caps c msk else sys_sandbox_caps c msk
          else None
      | _ \<Rightarrow> None)"

text \<open>The requests of \<^verbatim>\<open>run_program\<close> for a command.\<close>

definition runs_cmd :: "ucall \<Rightarrow> bool" where
  "runs_cmd c \<longleftrightarrow> starts c \<longrightarrow>
     (\<exists>cmd path arg. CHR 0x00 \<notin> set cmd \<and> path \<in> {usr_path cmd, cmd} \<and>
        c = (if elev_caps_for cmd \<noteq> 0 then Syscall SYS_SANDBOX (Str path) (ptr arg) (Num (elev_caps_for cmd))
             else Syscall SYS_SPAWN (Str path) (ptr arg) (Num 0)))"

lemma starts_Syscall [simp]: "starts (Syscall num a0 a1 a2) \<longleftrightarrow> num = SYS_SPAWN \<or> num = SYS_SANDBOX"
  by (simp add: starts_def)

lemma runs_out: "silent_out p \<Longrightarrow> all_calls runs_cmd p"
  by (erule out_all_calls) (simp add: runs_cmd_def write_out_def rv_const)

lemma runs_calls:
  "num \<noteq> SYS_SPAWN \<Longrightarrow> num \<noteq> SYS_SANDBOX \<Longrightarrow> all_calls runs_cmd (call_i32 num a0 a1 a2)"
  "num \<noteq> SYS_SPAWN \<Longrightarrow> num \<noteq> SYS_SANDBOX \<Longrightarrow> all_calls runs_cmd (call_void num a0 a1 a2)"
  "num \<noteq> SYS_SPAWN \<Longrightarrow> num \<noteq> SYS_SANDBOX \<Longrightarrow> all_calls runs_cmd (syscall num a0 a1 a2)"
  by (auto simp: wrapper_defs runs_cmd_def case_prod_unfold)

lemma runs_wrappers:
  "all_calls runs_cmd (wait_process pid)" "all_calls runs_cmd (chdir t)" "all_calls runs_cmd get_caps"
  "all_calls runs_cmd (get_cwd l)" "all_calls runs_cmd (file_read h l)"
  by (auto simp: wait_process_def chdir_def get_caps_def get_cwd_def file_read_def case_prod_unfold rv_const
      intro!: runs_calls all_calls_pbind)

lemma runs_program:
  assumes "CHR 0x00 \<notin> set cmd"
  shows "all_calls runs_cmd (run_program cmd arg)"
proof -
  have "runs_cmd (Syscall SYS_SANDBOX (Str path) (ptr arg) (Num (elev_caps_for cmd)))"
    if "elev_caps_for cmd \<noteq> 0" "path \<in> {usr_path cmd, cmd}" for path
    using that assms by (auto simp: runs_cmd_def)
  moreover have "runs_cmd (Syscall SYS_SPAWN (Str path) (ptr arg) (Num 0))"
    if "elev_caps_for cmd = 0" "path \<in> {usr_path cmd, cmd}" for path
    using that assms by (auto simp: runs_cmd_def)
  ultimately show ?thesis
    by (auto simp: run_program_def Let_def sandbox_def spawn_process_def wrapper_defs case_prod_unfold)
qed

lemma set_strip_end: "set (strip_end P s) \<subseteq> set s"
  using set_dropWhileD by (fastforce simp: strip_end_def)

lemma set_cut_background: "cut_background s = (b, t) \<Longrightarrow> set t \<subseteq> set s"
  using set_strip_end [of _ "butlast s"] in_set_butlastD by (fastforce simp: cut_background_def split: if_splits)

lemma set_split_cmd: "split_cmd s = (cmd, arg) \<Longrightarrow> set cmd \<subseteq> set s"
  by (auto simp: split_cmd_def Let_def dest: set_takeWhileD split: list.splits)

lemmas runs_intros = all_calls_pbind all_calls_pseq runs_wrappers runs_program runs_out [OF out_printf]

lemma runs_line: "CHR 0x00 \<notin> set buf \<Longrightarrow> all_calls runs_cmd (shell_line buf)"
proof -
  assume b: "CHR 0x00 \<notin> set buf"
  obtain bg buf2 where c: "cut_background (strip_end is_eol buf) = (bg, buf2)" by fastforce
  obtain cmd arg where s: "split_cmd buf2 = (cmd, arg)" by fastforce
  have cmd: "CHR 0x00 \<notin> set cmd"
    using b set_strip_end [of is_eol buf] set_cut_background [OF c] set_split_cmd [OF s] by blast
  have hlp: "all_calls runs_cmd help_user" by (simp add: help_user_def runs_intros)
  have caps: "all_calls runs_cmd (print_caps x)" for x by (simp add: print_caps_def runs_intros)
  show ?thesis
    unfolding shell_line_def Let_def c s prod.case
    using cmd hlp caps by (auto intro!: runs_intros split: option.split)
qed

lemma runs_turn: "all_calls runs_cmd (shell_turn n)"
proof -
  have r: "all_calls runs_cmd (reap_loop n)" for n by (induction n) (auto intro!: runs_intros)
  have g: "all_calls runs_cmd (gets_loop n m acc)" for n m acc
    by (induction n arbitrary: acc) (auto intro!: runs_intros split: list.split)
  have p: "all_calls runs_cmd prompt" by (auto simp: prompt_def intro!: runs_intros)
  have l: "all_calls runs_cmd (shell_line (takeWhile (\<lambda>c. c \<noteq> CHR 0x00) b))" for b
    using set_takeWhileD by (fastforce intro!: runs_line)
  show ?thesis
    unfolding shell_turn_def gets_def by (auto intro!: runs_intros r g p l split: option.split)
qed

lemma runs_shell: "all_calls runs_cmd (shell_main m n)"
proof -
  have "all_calls runs_cmd (shell_loop m n)" by (induction m) (auto intro!: runs_intros runs_turn split: option.split)
  then show ?thesis by (auto simp: shell_main_def intro!: runs_intros)
qed

lemma extra_cap_cases: "extra_cap cmd \<in> {0, CAP_PROC_PS, CAP_PROC_KILL, CAP_PROC_TRACE, CAP_PROC_SANDBOX, CAP_SYS_POWER}"
  by (auto simp: extra_cap_def split: option.split)

lemma elev_caps_child:
  assumes "CHR 0x00 \<notin> set cmd"
  shows "c AND (elev_caps_for cmd AND NOT PROC_CAP_ENABLE) =
    (if elev_caps_for cmd = 0 then 0 else c AND (CAP_PROFILE_USER_DEFAULT OR extra_cap cmd))"
proof -
  have "\<forall>x \<in> set [0, CAP_PROC_PS, CAP_PROC_KILL, CAP_PROC_TRACE, CAP_PROC_SANDBOX, CAP_SYS_POWER].
      (CAP_PROFILE_USER_DEFAULT OR x) AND NOT PROC_CAP_ENABLE = CAP_PROFILE_USER_DEFAULT OR x"
    by code_simp
  then have "(CAP_PROFILE_USER_DEFAULT OR extra_cap cmd) AND NOT PROC_CAP_ENABLE = CAP_PROFILE_USER_DEFAULT OR extra_cap cmd"
    using extra_cap_cases [of cmd] unfolding list.set by blast
  then show ?thesis using elev_caps_extra [OF assms] by simp
qed

subsection \<open>The first process\<close>




subsection \<open>Properties\<close>

text \<open>
  C17. The shell starts programs with the least privilege they need: whatever is typed and whatever the kernel answers, every
  process a shell with capabilities \<open>c\<close> starts is the command of some line, searched for below \<^verbatim>\<open>/usr\<close> or as it is, and it gets of the
  capabilities of the shell those of an ordinary program and the one that the tool of that name needs.
\<close>

theorem shell_least_privilege:
  assumes "exec k (shell_main m n) s = (r, t, s')" and "call \<in> set t" and "child_caps c call = Some e"
  shows "\<exists>cmd. call_a0 call \<in> {Str (usr_path cmd), Str cmd} \<and> e = c AND (CAP_PROFILE_USER_DEFAULT OR extra_cap cmd)"
proof -
  have "runs_cmd call" using all_calls_exec [OF runs_shell assms(1,2)] .
  moreover have st: "starts call" using assms(3) by (auto simp: child_caps_def split: uarg.splits if_splits)
  ultimately obtain cmd path arg where c: "CHR 0x00 \<notin> set cmd" "path \<in> {usr_path cmd, cmd}"
      "call = (if elev_caps_for cmd \<noteq> 0 then Syscall SYS_SANDBOX (Str path) (ptr arg) (Num (elev_caps_for cmd))
               else Syscall SYS_SPAWN (Str path) (ptr arg) (Num 0))"
    unfolding runs_cmd_def by blast
  have "e = c AND (CAP_PROFILE_USER_DEFAULT OR extra_cap cmd)"
  proof (cases "elev_caps_for cmd = 0")
    case True
    then have "extra_cap cmd = 0" using elev_caps_extra [OF c(1)] by (auto simp: or_eq_0_iff rv_const split: if_splits)
    then show ?thesis using assms(3) True c(3)
      by (auto simp: child_caps_def sys_spawn_caps_def resolve_child_caps_def split: if_splits)
  next
    case False
    then have "sys_sandbox_caps c (elev_caps_for cmd) = Some e"
      using assms(3) c(3) by (auto simp: child_caps_def rv_const split: if_splits)
    then show ?thesis using False elev_caps_child [OF c(1), of c]
      by (auto simp: sys_sandbox_caps_def resolve_child_caps_def split: if_splits)
  qed
  then show ?thesis using c(2,3) by (intro exI [of _ cmd]) auto
qed

text \<open>A kernel that answers reads from a script and everything else with 0.\<close>

definition demo_kernel :: "ucall \<Rightarrow> u8 list \<Rightarrow> answer option \<times> u8 list" where
  "demo_kernel c bs =
     (if c = read_in then case bs of [] \<Rightarrow> (None, []) | b # cs \<Rightarrow> (Some (1, [b]), cs) else (Some (0, [47, 0]), bs))"

lemma demo_shell:
  "Syscall SYS_SANDBOX (Str ''/usr/ps'') Null (Num (CAP_PROFILE_USER_DEFAULT OR CAP_PROC_PS)) \<in>
     set (fst (snd (exec demo_kernel (shell_main 1 9) (bytes ''ps'' @ [10]))))"
  by code_simp

theorem shell_least_privilege_witness:
  "\<exists>e. child_caps CAP_PROFILE_SHELL_NORMAL
      (Syscall SYS_SANDBOX (Str ''/usr/ps'') Null (Num (CAP_PROFILE_USER_DEFAULT OR CAP_PROC_PS))) = Some e \<and>
    (\<exists>cmd. Str ''/usr/ps'' \<in> {Str (usr_path cmd), Str cmd} \<and>
       e = CAP_PROFILE_SHELL_NORMAL AND (CAP_PROFILE_USER_DEFAULT OR extra_cap cmd))"
proof -
  let ?call = "Syscall SYS_SANDBOX (Str ''/usr/ps'') Null (Num (CAP_PROFILE_USER_DEFAULT OR CAP_PROC_PS))"
  have c: "child_caps CAP_PROFILE_SHELL_NORMAL ?call = Some (CAP_PROFILE_USER_DEFAULT OR CAP_PROC_PS)" by code_simp
  obtain r t s' where e: "exec demo_kernel (shell_main 1 9) (bytes ''ps'' @ [10]) = (r, t, s')" by (metis prod_cases3)
  then have "?call \<in> set t" using demo_shell by simp
  from shell_least_privilege [OF e this c] show ?thesis using c by auto
qed



end
