(* ===== verification/RV_Terminal.thy ===== *)
theory RV_Terminal
  imports RV_Shell RV_Console RV_Args
begin

text \<open>
  Programs on this kernel: the arguments that \<^verbatim>\<open>trace\<close> and \<^verbatim>\<open>sandbox\<close> pass on are split again by \<^verbatim>\<open>spawn\<close>, and the line that the shell reads
  with \<^verbatim>\<open>gets\<close> comes from the console. The console, seen through the system call, is a source of characters, so the
  lemmas of \<^verbatim>\<open>gets\<close> apply to it.
\<close>

subsection \<open>Joining and splitting\<close>

fun unwords :: "string list \<Rightarrow> string" where
  "unwords [] = []"
| "unwords [w] = w"
| "unwords (w # v # ws) = w @ CHR '' '' # unwords (v # ws)"

lemma words_word: "w \<noteq> [] \<Longrightarrow> CHR '' '' \<notin> set w \<Longrightarrow> words (w @ CHR '' '' # s) = w # words s"
proof -
  assume w: "w \<noteq> []" "CHR '' '' \<notin> set w"
  then have "dropWhile (\<lambda>c. c = CHR '' '') (w @ CHR '' '' # s) = w @ CHR '' '' # s" by (cases w) auto
  moreover have "takeWhile (\<lambda>c. c \<noteq> CHR '' '') (w @ CHR '' '' # s) = w" "dropWhile (\<lambda>c. c \<noteq> CHR '' '') (w @ CHR '' '' # s) = CHR '' '' # s"
    using w(2) by (auto simp: takeWhile_append dropWhile_append)
  moreover have "words (CHR '' '' # s) = words s" using words_blank [of "CHR '' '' # s"] words_blank [of s] by simp
  ultimately show ?thesis by (subst words.simps) (simp add: Let_def)
qed

lemma words_last: "w \<noteq> [] \<Longrightarrow> CHR '' '' \<notin> set w \<Longrightarrow> words w = [w]"
proof -
  assume w: "w \<noteq> []" "CHR '' '' \<notin> set w"
  then have "dropWhile (\<lambda>c. c = CHR '' '') w = w" by (cases w) auto
  moreover have "takeWhile (\<lambda>c. c \<noteq> CHR '' '') w = w" using w(2) by auto
  moreover have "dropWhile (\<lambda>c. c \<noteq> CHR '' '') w = []" using w(2) by auto
  then have "words (dropWhile (\<lambda>c. c \<noteq> CHR '' '') w) = []" by (simp only: words_Nil)
  ultimately show ?thesis using w(1) words.simps [of w] by (simp add: Let_def)
qed

lemma words_unwords: "\<forall>w \<in> set ws. w \<noteq> [] \<and> CHR '' '' \<notin> set w \<Longrightarrow> words (unwords ws) = ws"
  by (induction ws rule: unwords.induct) (simp_all add: words_word words_last)

lemma words_set: "w \<in> set (words s) \<Longrightarrow> w \<noteq> [] \<and> CHR '' '' \<notin> set w \<and> set w \<subseteq> set s"
proof (induction s rule: words.induct)
  case (1 s)
  define t where "t = dropWhile (\<lambda>c. c = CHR '' '') s"
  have t: "t \<noteq> []" using 1(2) by (auto simp: words.simps [of s] Let_def simp flip: t_def)
  let ?d = "dropWhile (\<lambda>c. c \<noteq> CHR '' '') t"
  have s: "words s = takeWhile (\<lambda>c. c \<noteq> CHR '' '') t # words ?d"
    using t by (simp add: words.simps [of s] Let_def flip: t_def)
  have sub: "set t \<subseteq> set s" unfolding t_def using set_dropWhileD by fastforce
  show ?case
  proof (cases "w \<in> set (words ?d)")
    case True
    then show ?thesis using 1(1) [OF t_def t] sub set_dropWhileD by fastforce
  next
    case False
    then have w: "w = takeWhile (\<lambda>c. c \<noteq> CHR '' '') t" using 1(2) s by simp
    obtain c cs where "t = c # cs" using t by (cases t) auto
    moreover have "hd t \<noteq> CHR '' ''" using hd_dropWhile [of "\<lambda>c. c = CHR '' ''" s] t by (simp add: t_def)
    ultimately have "w \<noteq> []" using w by simp
    then show ?thesis using w sub set_takeWhileD by fastforce
  qed
qed

lemma words_room: "length (unwords (words s)) \<le> length (dropWhile (\<lambda>c. c = CHR '' '') s)"
proof (induction s rule: words.induct)
  case (1 s)
  define t where "t = dropWhile (\<lambda>c. c = CHR '' '') s"
  show ?case unfolding t_def [symmetric]
  proof (cases "t = []")
    case False
    let ?w = "takeWhile (\<lambda>c. c \<noteq> CHR '' '') t" and ?d = "dropWhile (\<lambda>c. c \<noteq> CHR '' '') t"
    have s: "words s = ?w # words ?d" using False by (simp add: words.simps [of s] Let_def flip: t_def)
    have IH: "length (unwords (words ?d)) \<le> length (dropWhile (\<lambda>c. c = CHR '' '') ?d)" using 1 t_def False by blast
    have wd: "length ?w + length ?d = length t" by (metis length_append takeWhile_dropWhile_id)
    show "length (unwords (words s)) \<le> length t"
    proof (cases "words ?d")
      case Nil
      then show ?thesis using s wd by simp
    next
      case (Cons v vs)
      have "?d \<noteq> []" using Cons by (metis list.distinct(1) words_Nil)
      then obtain cs where d: "?d = CHR '' '' # cs" using hd_dropWhile [of "\<lambda>c. c \<noteq> CHR '' ''" t] by (cases ?d) auto
      have "length (dropWhile (\<lambda>c. c = CHR '' '') ?d) < length ?d" unfolding d by (simp add: length_dropWhile_le less_Suc_eq_le)
      then show ?thesis using s IH wd Cons by simp
    qed
  qed (simp add: words.simps [of s] Let_def flip: t_def)
qed

lemma length_unwords_Cons: "length (unwords (w # ws)) = length w + (if ws = [] then 0 else 1 + length (unwords ws))"
  by (cases ws) auto

lemma unwords_take: "length (unwords (take n ws)) \<le> length (unwords ws)"
proof (induction ws arbitrary: n)
  case (Cons w ws)
  then show ?case by (cases n) (auto simp: length_unwords_Cons)
qed simp

lemma join_args_unwords: "length acc + length (unwords as) < 127 \<Longrightarrow> join_args acc as = acc @ unwords as"
proof (induction as arbitrary: acc)
  case (Cons a as)
  have "length acc + length a + 1 < 128" using Cons.prems by (simp add: length_unwords_Cons split: if_splits)
  then have "join_args acc (a # as) = join_args (acc @ a @ (if as = [] then [] else '' '')) as" by simp
  also have "\<dots> = acc @ unwords (a # as)"
  proof (cases as)
    case (Cons b bs)
    then show ?thesis using Cons.IH [of "acc @ a @ '' ''"] Cons.prems by (simp add: length_unwords_Cons del: join_args.simps)
  qed simp
  finally show ?case .
qed simp

text \<open>Arguments that \<^verbatim>\<open>spawn\<close> has split come back when they are joined and split again.\<close>

lemma parse_join:
  assumes "parse_args 1 s = (ws @ vs, r)" and "length s \<le> 63"
  shows "length (join_args [] vs) \<le> 63 \<and> parse_args 1 (join_args [] vs) = (vs, None)"
proof -
  define us where "us = words (line_of s)"
  have wv: "ws @ vs = take 14 us" using assms(1) by (simp add: parse_args_words us_def)
  have ok: "w \<noteq> [] \<and> CHR '' '' \<notin> set w \<and> CHR ''>'' \<notin> set w" if "w \<in> set vs" for w
  proof -
    have "w \<in> set us" using that wv by (metis Un_iff in_set_takeD set_append)
    moreover have "CHR ''>'' \<notin> set (line_of s)" unfolding line_of_def using set_takeWhileD by fastforce
    ultimately show ?thesis using words_set [of w "line_of s"] by (auto simp: us_def)
  qed
  have "length (unwords vs) \<le> length (unwords (ws @ vs))"
    by (induction ws) (auto simp: length_unwords_Cons)
  also have "\<dots> \<le> length (unwords us)" unfolding wv by (rule unwords_take)
  also have "\<dots> \<le> length (line_of s)"
    unfolding us_def using words_room [of "line_of s"] length_dropWhile_le le_trans by blast
  also have "\<dots> \<le> 63" using assms(2) length_takeWhile_le [of _ s] unfolding line_of_def by (meson le_trans)
  finally have l: "length (unwords vs) \<le> 63" .
  then have j: "join_args [] vs = unwords vs" using join_args_unwords [of "[]" vs] by simp
  have "CHR ''>'' \<notin> set (unwords vs)" using ok by (induction vs rule: unwords.induct) auto
  then have "line_of (unwords vs) = unwords vs" "dropWhile (\<lambda>c. c \<noteq> CHR ''>'') (unwords vs) = []"
    by (auto simp: line_of_def takeWhile_eq_all_conv)
  moreover from this(2) have "redir_of (unwords vs) = None" by (simp only: redir_of_def list.sel words_Nil list.case)
  moreover have "words (unwords vs) = vs" using ok by (intro words_unwords) blast
  moreover have "length vs \<le> 14" using wv by (metis length_append length_take le_add2 min.cobounded2 order_trans)
  ultimately show ?thesis using l j by (simp add: parse_args_words)
qed

subsection \<open>Masks\<close>

definition is_bin :: "char \<Rightarrow> bool" where
  "is_bin c \<longleftrightarrow> c = CHR ''0'' \<or> c = CHR ''1''"

text \<open>The digits of a mask: after \<^verbatim>\<open>0b\<close>, up to the first character that is no digit.\<close>

definition bin_digits :: "string \<Rightarrow> string" where
  "bin_digits s = takeWhile is_bin (case s of
     a # b # t \<Rightarrow> if a = CHR ''0'' \<and> (b = CHR ''b'' \<or> b = CHR ''B'') then t else s | _ \<Rightarrow> s)"

lemma bin_loop_bits:
  "bit (bin_loop x s) i \<longleftrightarrow> i < 64 \<and>
     (let ds = takeWhile is_bin s in if i < length ds then rev ds ! i = CHR ''1'' else bit x (i - length ds))"
proof (induction s arbitrary: x)
  case Nil
  then show ?case using bit_imp_le_length [of x i] by auto
next
  case (Cons c s)
  let ?ds = "takeWhile is_bin s"
  show ?case
  proof (cases "is_bin c")
    case True
    define y where "y = push_bit 1 x OR (if c = CHR ''1'' then 1 else 0)"
    have b: "bin_loop x (c # s) = bin_loop y s" using True by (auto simp: y_def is_bin_def)
    have y: "bit y j \<longleftrightarrow> j < 64 \<and> (if j = 0 then c = CHR ''1'' else bit x (j - 1))" for j
      unfolding y_def bit_or_iff bit_push_bit_iff using bit_imp_le_length [of x "j - 1"] by (auto simp: bit_1_iff)
    show ?thesis unfolding b Cons.IH [of y] y Let_def
      using True by (auto simp: nth_append not_less le_Suc_eq Suc_diff_le)
  next
    case False
    then show ?thesis using bit_imp_le_length [of x i] by (auto simp: is_bin_def)
  qed
qed

lemma bin_to_uint64_bits:
  "bit (bin_to_uint64 (Some s)) i \<longleftrightarrow> i < 64 \<and> i < length (bin_digits s) \<and> rev (bin_digits s) ! i = CHR ''1''"
  unfolding bin_to_uint64_def option.case bin_loop_bits Let_def bin_digits_def by simp

subsection \<open>What the tools ask for\<close>

text \<open>Every process that a program starts is asked for with the given path, arguments and last argument.\<close>

definition starts_with :: "nat \<Rightarrow> string set \<Rightarrow> uarg \<Rightarrow> u64 \<Rightarrow> ucall \<Rightarrow> bool" where
  "starts_with num paths arg msk c \<longleftrightarrow> starts c \<longrightarrow> (\<exists>path \<in> paths. c = Syscall num (Str path) arg (Num msk))"

lemma starts_with_out: "all_calls (starts_with num paths arg msk) (printf_user fmt as)"
  by (rule out_all_calls [OF out_printf]) (simp add: starts_with_def write_out_def rv_const)

lemma starts_with_wrappers:
  "all_calls (starts_with num paths arg msk) (wait_process pid)" "all_calls (starts_with num paths arg msk) (exit_process st)"
  "all_calls (starts_with num paths arg msk) (trace v)"
  by (auto simp: starts_with_def wait_process_def exit_process_def trace_def wrapper_defs case_prod_unfold rv_const)

lemma starts_with_spawn:
  "path \<in> paths \<Longrightarrow> all_calls (starts_with SYS_SPAWN paths (ptr arg) 0) (spawn_process path arg)"
  "path \<in> paths \<Longrightarrow> all_calls (starts_with SYS_SANDBOX paths (ptr arg) msk) (sandbox path arg msk)"
  by (auto simp: starts_with_def spawn_process_def sandbox_def wrapper_defs case_prod_unfold)

lemmas starts_with_intros = all_calls_pbind all_calls_pseq starts_with_out starts_with_wrappers starts_with_spawn

lemma trace_calls:
  "all_calls (starts_with SYS_SPAWN {usr_path w, w} (Str (join_args [] vs)) 0) (trace_main (p # w # vs))"
  using starts_with_intros(7) [where arg = "Some (join_args [] vs)" and paths = "{usr_path w, w}"]
  unfolding trace_main_def Let_def by (auto simp: ptr_def intro!: starts_with_intros(1-6))

lemma sandbox_calls:
  "all_calls (starts_with SYS_SANDBOX {usr_path w, w} (ptr (if join_args [] vs = [] then None else Some (join_args [] vs)))
     (bin_to_uint64 (Some b))) (sandbox_main (p # w # b # vs))"
  unfolding sandbox_main_def Let_def by (auto intro!: starts_with_intros)

subsection \<open>The console as a source of characters\<close>

text \<open>
  A kernel that answers reads of \<^verbatim>\<open>STDIN\<close> with \<^verbatim>\<open>console_read\<close>, as \<^verbatim>\<open>sys_read_file\<close> does; a read that sleeps has not returned. \<open>other\<close> answers
  all other calls.
\<close>

definition con_kernel :: "(ucall \<Rightarrow> uart \<Rightarrow> answer option \<times> uart) \<Rightarrow> ucall \<Rightarrow> uart \<Rightarrow> answer option \<times> uart" where
  "con_kernel other c s =
     (if c = read_in then
        case console_read 1 s of (bs, slp, s1) \<Rightarrow> (if slp then None else Some (of_nat (length bs), bs), s1)
      else other c s)"

text \<open>The bytes of finished lines, without an end of file among them.\<close>

definition con_ok :: "uart \<Rightarrow> bool" where
  "con_ok s \<longleftrightarrow> cons_inv s \<and> 4 \<notin> set (fst (cons_abs s))"

lemma console_char:
  assumes "con_ok s" and "fst (cons_abs s) = c # cs"
  shows "\<exists>s'. console_read 1 s = ([c], False, s') \<and> con_ok s' \<and> fst (cons_abs s') = cs"
proof -
  obtain bs slp s' where t: "console_take 1 0 s = (bs, slp, s')" by (metis prod_cases3)
  have l: "line_take 1 0 (c # cs) = ([c], False, cs)" using assms by (simp add: con_ok_def)
  have inv: "cons_inv s" using assms(1) by (simp add: con_ok_def)
  note r = ringbuf.get_refines [OF inv, of 1 0, unfolded t prod.case assms(2) l]
  have "cons_inv s'" "(bs, slp, fst (cons_abs s')) = ([c], False, cs)" using r by (rule conjunct1, blast)
  moreover have "console_read 1 s = console_take 1 0 s" by (simp add: console_read_def)
  ultimately show ?thesis using t assms by (simp add: con_ok_def)
qed

lemma con_read:
  assumes "con_ok s" and "fst (cons_abs s) = c # cs"
  shows "\<exists>s'. con_kernel other read_in s = (Some (1, [c]), s') \<and> con_ok s' \<and> fst (cons_abs s') = cs"
proof -
  obtain s' where "console_read 1 s = ([c], False, s')" "con_ok s'" "fst (cons_abs s') = cs" using console_char [OF assms] by blast
  then show ?thesis by (simp add: con_kernel_def)
qed

interpretation con: char_source "con_kernel other" con_ok "\<lambda>s. fst (cons_abs s)" for other
  by unfold_locales (rule con_read)

lemma typed_ready:
  assumes "cons_inv s" and "cons_abs s = ([], [])" and "uart_inited s" and "uart_rx s = cs @ [13]"
    and "\<forall>c \<in> set cs. c \<notin> {0, 4, 8, 10, 13, 127}" and "length cs < 128"
  shows "con_ok (uart_intr h s) \<and> cons_abs (uart_intr h s) = (cs @ [10], [])"
proof -
  have "cons_inv (uart_intr h s) \<and> cons_abs (uart_intr h s) = fold line_key (cs @ [13]) ([], [])"
    using drain_refines [OF assms(1,3), of "Suc (length (uart_rx s))" h] assms(2,4)
    by (simp add: uart_intr_def del: uart_drain.simps)
  then show ?thesis using ringbuf.line_typed [OF assms(5,6)] assms(5) by (auto simp: con_ok_def)
qed

text \<open>A program that never reads and never starts a process leaves the input alone.\<close>

definition aside :: "ucall \<Rightarrow> bool" where
  "aside c \<longleftrightarrow> c \<noteq> read_in \<and> \<not> starts c"

primrec no_undef :: "'a prog \<Rightarrow> bool" where
  "no_undef (Ret x) \<longleftrightarrow> True"
| "no_undef (Undef w) \<longleftrightarrow> False"
| "no_undef (Ecall c f) \<longleftrightarrow> (\<forall>a. no_undef (f a))"

text \<open>The rest of the kernel answers such calls and does not touch the finished lines.\<close>

definition keeps_input :: "(ucall \<Rightarrow> uart \<Rightarrow> answer option \<times> uart) \<Rightarrow> bool" where
  "keeps_input other \<longleftrightarrow> (\<forall>c s. aside c \<longrightarrow> fst (other c s) \<noteq> None \<and>
     (con_ok s \<longrightarrow> con_ok (snd (other c s)) \<and> fst (cons_abs (snd (other c s))) = fst (cons_abs s)))"

lemma exec_aside:
  assumes "keeps_input other" and "all_calls aside p" and "no_undef p" and "con_ok s" and "fst (cons_abs s) = bs"
  shows "\<exists>x t s'. exec (con_kernel other) p s = (Done x, t, s') \<and> list_all aside t \<and> con_ok s' \<and> fst (cons_abs s') = bs"
  using assms(2-5)
proof (induction p arbitrary: s)
  case (Ecall c f)
  have c: "aside c" using Ecall.prems(1) by simp
  obtain a s1 where o: "other c s = (Some a, s1)" "con_ok s1" "fst (cons_abs s1) = bs"
    using assms(1) c Ecall.prems(3,4) unfolding keeps_input_def by (metis not_None_eq prod.exhaust_sel)
  obtain x t s' where "exec (con_kernel other) (f a) s1 = (Done x, t, s') \<and> list_all aside t \<and> con_ok s' \<and> fst (cons_abs s') = bs"
    using Ecall.IH [of "f a" s1] Ecall.prems(1,2) o by (auto simp del: split_paired_All)
  moreover have "con_kernel other c s = (Some a, s1)" using c o(1) by (simp add: con_kernel_def aside_def)
  ultimately show ?case using c by auto
qed auto

lemma says_no_undef: "says p bs x \<Longrightarrow> no_undef p"
  by (induction rule: says.induct) auto

lemma says_aside: "says p bs x \<Longrightarrow> all_calls aside p"
  by (rule says_all_calls) (auto simp: aside_def write_out_def read_in_def rv_const)

lemma prompt_aside: "all_calls aside prompt" "no_undef prompt"
proof -
  have p: "says (printf_user ''[%s] # '' [FStr (Some t)]) (bytes (''['' @ t @ ''] # '')) ()" for t
    using says_printf [of "[Lit CHR ''['', StrP [] (Some t), Lit CHR '']'', Lit CHR '' '', Lit CHR ''#'', Lit CHR '' '']"]
    by (simp add: bytes_def)
  have q: "says (printf_user ''[] # '' []) (bytes ''[] # '') ()"
    using says_printf [of "[Lit CHR ''['', Lit CHR '']'', Lit CHR '' '', Lit CHR ''#'', Lit CHR '' '']"] by (simp add: bytes_def)
  show "all_calls aside prompt" "no_undef prompt"
    using says_aside [OF p] says_aside [OF q] says_no_undef [OF p] says_no_undef [OF q]
    by (auto simp: prompt_def get_cwd_def syscall_def aside_def read_in_def rv_const split: if_splits)
qed

text \<open>The request for a command line.\<close>

definition request :: "string \<Rightarrow> string option \<Rightarrow> ucall" where
  "request cmd arg =
     (if elev_caps_for cmd \<noteq> 0 then Syscall SYS_SANDBOX (Str (usr_path cmd)) (ptr arg) (Num (elev_caps_for cmd))
      else Syscall SYS_SPAWN (Str (usr_path cmd)) (ptr arg) (Num 0))"

lemma run_program_head: "\<exists>f. run_program cmd arg = Ecall (request cmd arg) f"
  by (auto simp: run_program_def request_def sandbox_def spawn_process_def wrapper_defs Let_def)

definition builtin :: "string \<Rightarrow> bool" where
  "builtin cmd \<longleftrightarrow> (\<exists>b \<in> {''help'', ''cd'', ''caps'', ''exit''}. strcasecmp cmd b = 0)"

lemma shell_line_head:
  assumes "strip_end is_eol buf = line" and "line \<noteq> []" and "cut_background line = (bg, l2)" and "l2 \<noteq> []"
    and "split_cmd l2 = (cmd, arg)" and "\<not> builtin cmd"
  shows "\<exists>f. shell_line buf = Ecall (request cmd arg) f"
  using assms run_program_head [of cmd arg] unfolding shell_line_def builtin_def by auto

lemma strip_eol_typed:
  assumes "\<forall>c \<in> set line. c \<notin> {CHR 0x0A, CHR 0x0D}"
  shows "strip_end is_eol (line @ [CHR 0x0A]) = line"
proof -
  have "dropWhile is_eol (rev line) = rev line" using assms by (cases line rule: rev_cases) (auto simp: is_eol_def)
  then show ?thesis by (simp add: strip_end_def is_eol_def)
qed

text \<open>A round of the shell on a line that is waiting in the console.\<close>

lemma turn_runs:
  assumes "keeps_input other" and "\<And>s. \<exists>bs. fst (other (Syscall SYS_WAIT (Num (of_int WAIT_NONBLOCK)) (Num 0) (Num 0)) s) = Some (- 1, bs)"
    and "con_ok s" and "fst (cons_abs s) = bytes line @ [10]" and "\<forall>c \<in> set line. of_char c \<notin> {0, 8, 10, 13, 127 :: u8}"
    and "length line \<le> 126" and "127 \<le> n" and "line \<noteq> []" and "cut_background line = (bg, l2)" and "l2 \<noteq> []"
    and "split_cmd l2 = (cmd, arg)" and "\<not> builtin cmd"
  shows "\<exists>r t1 t2 s'. exec (con_kernel other) (shell_turn n) s = (r, t1 @ request cmd arg # t2, s') \<and> \<not> list_ex starts t1"
proof -
  let ?k = "con_kernel other" and ?wait = "Syscall SYS_WAIT (Num (of_int WAIT_NONBLOCK)) (Num 0) (Num 0)"
  have w: "aside ?wait" by (simp add: aside_def read_in_def rv_const)
  obtain ab s1 where k1: "?k ?wait s = (Some (- 1, ab), s1)" and s1: "con_ok s1" "fst (cons_abs s1) = bytes line @ [10]"
  proof -
    obtain ab where "fst (other ?wait s) = Some (- 1, ab)" using assms(2) by blast
    moreover have "con_ok (snd (other ?wait s))" "fst (cons_abs (snd (other ?wait s))) = bytes line @ [10]"
      using assms(1,3,4) w unfolding keeps_input_def by metis+
    moreover have "?k ?wait s = other ?wait s" using w by (simp add: con_kernel_def aside_def)
    ultimately show ?thesis using that [of ab "snd (other ?wait s)"] by (simp add: prod_eq_iff)
  qed
  obtain m where m: "n = Suc m" using assms(7) by (cases n) auto
  have "i32 (- 1) = - 1" by code_simp
  then have r1: "exec ?k (reap_loop n) s = (Done True, [?wait], s1)"
    using k1 by (simp add: m wait_process_def wrapper_defs)
  obtain u t s2 where r2: "exec ?k prompt s1 = (Done u, t, s2)" "list_all aside t" "con_ok s2" "fst (cons_abs s2) = bytes line @ [10]"
    using exec_aside [OF assms(1) prompt_aside s1] by blast
  obtain s3 where r3: "exec ?k (gets n 128) s2 =
      (Done (Some (map (char_of \<circ> unat) (bytes line @ [10]))), replicate (length line + 1) read_in, s3)"
    using con.gets_line [of s2 "bytes line" 10 "[]" "[]" 128 n other] r2(3,4) assms(5-7)
    by (auto simp: gets_def bytes_def)
  have b: "map (char_of \<circ> unat) (bytes line @ [10]) = line @ [CHR 0x0A]"
  proof -
    have "char_of (unat (10 :: u8)) = CHR 0x0A" using char_of_unat [of "CHR 0x0A"] by simp
    moreover have "map (char_of \<circ> unat) (bytes line) = line" by (simp add: bytes_def comp_def)
    ultimately show ?thesis by simp
  qed
  have "CHR 0x00 \<notin> set line" using assms(5) by force
  then have tw: "takeWhile (\<lambda>c. c \<noteq> CHR 0x00) (line @ [CHR 0x0A]) = line @ [CHR 0x0A]" by (subst takeWhile_append2) auto
  have "\<forall>c \<in> set line. c \<notin> {CHR 0x0A, CHR 0x0D}" using assms(5) by force
  then obtain f where f: "shell_line (line @ [CHR 0x0A]) = Ecall (request cmd arg) f"
    using shell_line_head [OF strip_eol_typed assms(8-12)] by blast
  obtain r t2 s' where r4: "exec ?k (pbind (shell_line (line @ [CHR 0x0A])) (\<lambda>go. Ret (Some go))) s3 = (r, request cmd arg # t2, s')"
    unfolding f pbind.simps using exec_head [of ?k "request cmd arg" _ s3] by metis
  note r3 = r3 [unfolded b]
  have "exec ?k (shell_turn n) s = (r, [?wait] @ t @ replicate (length line + 1) read_in @ request cmd arg # t2, s')"
    unfolding shell_turn_def pseq_def
    by (rule exec_bind [OF r1], simp only: not_True_eq_False if_False, rule exec_bind [OF r2(1)], rule exec_bind [OF r3])
      (simp only: option.case tw r4)
  then have "exec ?k (shell_turn n) s = (r, ([?wait] @ t @ replicate (length line + 1) read_in) @ request cmd arg # t2, s')" by simp
  moreover have "\<not> list_ex starts ([?wait] @ t @ replicate (length line + 1) read_in)"
    using r2(2) w by (auto simp: list_ex_iff list_all_iff aside_def read_in_def rv_const)
  ultimately show ?thesis by blast
qed

subsection \<open>Properties\<close>

text \<open>A command line by its parts: a word, blanks, the text of the arguments, and a sign for the background behind more blanks.\<close>

lemma split_cmd_parts:
  assumes "CHR '' '' \<notin> set w" and "a \<noteq> [] \<longrightarrow> 0 < i \<and> hd a \<noteq> CHR '' ''"
  shows "split_cmd (w @ replicate i (CHR '' '') @ a) = (w, if a = [] then None else Some a)"
proof -
  have w: "dropWhile (\<lambda>c. c \<noteq> CHR '' '') (w @ xs) = dropWhile (\<lambda>c. c \<noteq> CHR '' '') xs"
    "takeWhile (\<lambda>c. c \<noteq> CHR '' '') (w @ xs) = w @ takeWhile (\<lambda>c. c \<noteq> CHR '' '') xs" for xs
    using assms(1) by (auto simp: dropWhile_append takeWhile_append)
  have a: "dropWhile (\<lambda>c. c = CHR '' '') (replicate j (CHR '' '') @ a) = a" for j
    using assms(2) by (induction j) (cases a; simp)+
  show ?thesis
  proof (cases i)
    case 0
    have d: "dropWhile (\<lambda>c. c \<noteq> CHR '' '') w = []" using assms(1) by (auto simp: dropWhile_eq_Nil_conv)
    have e: "w @ replicate i (CHR '' '') @ a = w" and a: "a = []" using assms(2) 0 by auto
    show ?thesis unfolding e split_cmd_def d using a by simp
  next
    case (Suc j)
    then show ?thesis unfolding split_cmd_def w using a [of j] by (simp add: Let_def del: dropWhile_eq_Nil_conv)
  qed
qed

lemma cut_background_parts:
  "x \<noteq> [] \<Longrightarrow> last x \<noteq> CHR ''&'' \<Longrightarrow> cut_background x = (False, x)"
  "x \<noteq> [] \<Longrightarrow> last x \<noteq> CHR '' '' \<Longrightarrow> cut_background (x @ replicate j (CHR '' '') @ ''&'') = (True, x)"
proof -
  show "x \<noteq> [] \<Longrightarrow> last x \<noteq> CHR ''&'' \<Longrightarrow> cut_background x = (False, x)" by (simp add: cut_background_def)
  assume x: "x \<noteq> []" "last x \<noteq> CHR '' ''"
  then have "dropWhile (\<lambda>c. c = CHR '' '') (replicate j (CHR '' '') @ rev x) = rev x"
    by (induction j) (cases x rule: rev_cases; simp)+
  then have "strip_end (\<lambda>c. c = CHR '' '') (x @ replicate j (CHR '' '')) = x" by (simp add: strip_end_def)
  then show "cut_background (x @ replicate j (CHR '' '') @ ''&'') = (True, x)"
    by (simp add: cut_background_def butlast_append flip: append_assoc)
qed

lemma not_builtin:
  assumes "CHR 0x00 \<notin> set w" and "map low w \<notin> {bytes ''help'', bytes ''cd'', bytes ''caps'', bytes ''exit''}"
  shows "\<not> builtin w"
proof -
  have "map low t = bytes t" "CHR 0x00 \<notin> set t" if "t \<in> {''help'', ''cd'', ''caps'', ''exit''}" for t
    using that by (auto simp: low_def bytes_def)
  then show ?thesis using strcasecmp_0 [OF assms(1)] assms(2) unfolding builtin_def by (metis insert_iff singletonD)
qed

lemma request_parts:
  assumes "CHR 0x00 \<notin> set w" and "length w \<le> 126"
  shows "request w (if a = [] then None else Some a) =
    (if extra_cap w = 0 then Syscall SYS_SPAWN (Str (''/usr/'' @ w)) (if a = [] then Null else Str a) (Num 0)
     else Syscall SYS_SANDBOX (Str (''/usr/'' @ w)) (if a = [] then Null else Str a) (Num (CAP_PROFILE_USER_DEFAULT OR extra_cap w)))"
proof -
  have "CAP_PROFILE_USER_DEFAULT \<noteq> 0" by code_simp
  moreover have "(CAP_PROFILE_USER_DEFAULT OR x) AND CAP_PROFILE_USER_DEFAULT = CAP_PROFILE_USER_DEFAULT" for x
    by (rule bit_word_eqI) (auto simp: bit_and_iff bit_or_iff)
  ultimately have "CAP_PROFILE_USER_DEFAULT OR x \<noteq> 0" for x by (metis zero_and_eq)
  then show ?thesis using assms by (simp add: request_def elev_caps_extra usr_path_def ptr_def)
qed

text \<open>
  C14. From the keyboard to the system call: a command line of up to 126 ordinary characters, typed with Enter into an empty console,
  reaches the interrupt handler, is read by the shell byte by byte, and makes the shell ask for the program it names before it asks for any other
  process. The line is a word \<open>w\<close> that is no command of the shell itself, then blanks, then any text \<open>a\<close> of arguments (or none), and at the end possibly
  more blanks and an ampersand. The request names \<open>/usr/\<close> with \<open>w\<close>, passes the whole of \<open>a\<close> unchanged (or null), and asks for the
  capabilities of an ordinary program with the one that the tool of that name needs (\<open>extra_cap\<close>, the table of tools), or, if it needs none, is
  a plain spawn. The rest of the kernel only has to answer other calls and to leave finished lines alone, and
  it reports no ended child.
\<close>

theorem typed_command_runs:
  assumes "cons_inv s" and "cons_abs s = ([], [])" and "uart_inited s" and "uart_rx s = bytes line @ [13]"
    and "\<forall>c \<in> set line. of_char c \<notin> {0, 4, 8, 10, 13, 127 :: u8}" and "length line \<le> 126" and "127 \<le> n"
    and "text = w @ replicate i (CHR '' '') @ a" and "w \<noteq> []" and "CHR '' '' \<notin> set w"
    and "a \<noteq> [] \<longrightarrow> 0 < i \<and> hd a \<noteq> CHR '' ''"
    and "line = text \<and> last text \<noteq> CHR ''&'' \<or> line = text @ replicate j (CHR '' '') @ ''&'' \<and> last text \<noteq> CHR '' ''"
    and "map low w \<notin> {bytes ''help'', bytes ''cd'', bytes ''caps'', bytes ''exit''}"
    and "keeps_input other"
    and "\<forall>s. \<exists>bs. fst (other (Syscall SYS_WAIT (Num (of_int WAIT_NONBLOCK)) (Num 0) (Num 0)) s) = Some (- 1, bs)"
  shows "\<exists>r t1 t2 s'. exec (con_kernel other) (shell_turn n) (uart_intr h s) =
      (r, t1 @
        (if extra_cap w = 0 then Syscall SYS_SPAWN (Str (''/usr/'' @ w)) (if a = [] then Null else Str a) (Num 0)
         else Syscall SYS_SANDBOX (Str (''/usr/'' @ w)) (if a = [] then Null else Str a) (Num (CAP_PROFILE_USER_DEFAULT OR extra_cap w)))
        # t2, s') \<and>
    \<not> list_ex starts t1"
proof -
  have o: "con_ok (uart_intr h s)" "fst (cons_abs (uart_intr h s)) = bytes line @ [10]"
    using typed_ready [OF assms(1-4), of h] assms(5,6) by (auto simp: bytes_def)
  have l: "\<forall>c \<in> set line. of_char c \<notin> {0, 8, 10, 13, 127 :: u8}" using assms(5) by blast
  have t: "text \<noteq> []" "line \<noteq> []" using assms(8,9,12) by auto
  obtain bg where bg: "cut_background line = (bg, text)"
    using assms(12) cut_background_parts [OF t(1)] by auto
  have sub: "set w \<subseteq> set line" "length w \<le> 126" using assms(6,8,12) by auto
  have z: "CHR 0x00 \<notin> set w" using l sub(1) by force
  have c: "split_cmd text = (w, if a = [] then None else Some a)" unfolding assms(8) by (rule split_cmd_parts [OF assms(10,11)])
  show ?thesis
    using turn_runs [OF assms(14) _ o l assms(6,7) t(2) bg t(1) c not_builtin [OF z assms(13)]] assms(15)
    unfolding request_parts [OF z sub(2)] by blast
qed

definition quiet_kernel :: "ucall \<Rightarrow> uart \<Rightarrow> answer option \<times> uart" where
  "quiet_kernel c s = (Some (- 1, []), s)"

theorem typed_command_runs_witness:
  "\<exists>r t1 t2 s'. exec (con_kernel quiet_kernel) (shell_turn 200) (uart_intr 0 (demo_uart (- 2) (bytes ''kill  7 8 &'' @ [13]))) =
     (r, t1 @ Syscall SYS_SANDBOX (Str ''/usr/kill'') (Str ''7 8'') (Num (CAP_PROFILE_USER_DEFAULT OR CAP_PROC_KILL)) # t2, s') \<and>
     \<not> list_ex starts t1"
proof -
  let ?s = "demo_uart (- 2) (bytes ''kill  7 8 &'' @ [13])"
  have e: "extra_cap ''kill'' = CAP_PROC_KILL" "CAP_PROC_KILL \<noteq> 0" by code_simp+
  have m: "map low ''kill'' \<notin> {bytes ''help'', bytes ''cd'', bytes ''caps'', bytes ''exit''}" by code_simp
  have l: "\<forall>c \<in> set ''kill  7 8 &''. of_char c \<notin> {0, 4, 8, 10, 13, 127 :: u8}" by code_simp
  have p: "''7 8'' \<noteq> [] \<longrightarrow> 0 < (2 :: nat) \<and> hd ''7 8'' \<noteq> CHR '' ''" "CHR '' '' \<notin> set ''kill''" by simp_all
  have t: "''kill  7 8'' = ''kill'' @ replicate 2 (CHR '' '') @ ''7 8''" by (simp add: numeral_2_eq_2)
  have "''kill  7 8 &'' = ''kill  7 8'' @ replicate 1 (CHR '' '') @ ''&'' \<and> last ''kill  7 8'' \<noteq> CHR '' ''" by simp
  note line = disjI2 [where P = "''kill  7 8 &'' = ''kill  7 8'' \<and> last ''kill  7 8'' \<noteq> CHR ''&''", OF this]
  have k: "keeps_input quiet_kernel" by (simp add: keeps_input_def quiet_kernel_def)
  have q: "\<forall>s. \<exists>bs. fst (quiet_kernel (Syscall SYS_WAIT (Num (of_int WAIT_NONBLOCK)) (Num 0) (Num 0)) s) = Some (- 1, bs)"
    by (simp add: quiet_kernel_def)
  have u: "cons_inv ?s" "cons_abs ?s = ([], [])" "uart_inited ?s" "uart_rx ?s = bytes ''kill  7 8 &'' @ [13]"
    using demo_uart_ok [of "- 2" "bytes ''kill  7 8 &'' @ [13]"] by simp_all
  have n: "length ''kill  7 8 &'' \<le> 126" "(127 :: nat) \<le> 200" "''kill'' \<noteq> []" by simp_all
  have path: "''/usr/'' @ ''kill'' = ''/usr/kill''" by simp
  from typed_command_runs [OF u l n(1,2) t n(3) p(2,1) line m k q, of 0] show ?thesis
    by (simp only: e if_False list.distinct refl path)
qed

text \<open>
  C36. A traced program gets the arguments it would have got without \<^verbatim>\<open>trace\<close>: of an argument string that the kernel has split for \<^verbatim>\<open>trace\<close>, the first word
  names the program, and the remaining words, joined by \<^verbatim>\<open>trace\<close> and split again by the kernel, come out unchanged, none is lost,
  and the string is short enough for the system call.
\<close>

theorem trace_passes_args:
  assumes "parse_args 1 args = (w # ws, redir)" and "length args \<le> 63"
    and "exec k (trace_main (path # w # ws)) s = (r, t, s')" and "call \<in> set t" and "starts call"
  shows "\<exists>u. call \<in> {Syscall SYS_SPAWN (Str (usr_path w)) (Str u) (Num 0), Syscall SYS_SPAWN (Str w) (Str u) (Num 0)} \<and>
    length u \<le> 63 \<and> parse_args 1 u = (ws, None)"
proof -
  have "starts_with SYS_SPAWN {usr_path w, w} (Str (join_args [] ws)) 0 call"
    using all_calls_exec [OF trace_calls assms(3,4)] .
  then show ?thesis using assms(5) parse_join [of args "[w]" ws redir] assms(1,2) by (auto simp: starts_with_def)
qed

theorem trace_passes_args_witness:
  "\<exists>u. parse_args 1 u = ([''-l'', ''/tmp''], None) \<and>
     Syscall SYS_SPAWN (Str ''/usr/ls'') (Str u) (Num 0) \<in>
       set (fst (snd (exec demo_kernel (trace_main [''trace'', ''ls'', ''-l'', ''/tmp'']) [])))"
proof -
  let ?call = "Syscall SYS_SPAWN (Str ''/usr/ls'') (Str ''-l /tmp'') (Num 0)"
  obtain r t s' where e: "exec demo_kernel (trace_main [''trace'', ''ls'', ''-l'', ''/tmp'']) [] = (r, t, s')" by (metis prod_cases3)
  moreover have "?call \<in> set (fst (snd (exec demo_kernel (trace_main [''trace'', ''ls'', ''-l'', ''/tmp'']) [])))" by code_simp
  ultimately have t: "?call \<in> set t" by simp
  have "parse_args 1 ''ls  -l /tmp > x'' = ([''ls'', ''-l'', ''/tmp''], Some ''x'')" by code_simp
  from trace_passes_args [OF this _ e t] show ?thesis using e t by (auto simp: usr_path_def)
qed

text \<open>
  C37. The tool \<^verbatim>\<open>sandbox\<close> gives the program it starts exactly the capabilities of its mask that it has itself: bit \<open>i\<close> is set if the caller has
  it and the \<open>i\<close>-th digit of the mask from the right is 1; digits beyond the 64th from the right, and bit 63, have no
  effect. The arguments behind the mask reach the program unchanged.
\<close>

theorem sandbox_confines:
  assumes "parse_args 1 args = (w # b # ws, redir)" and "length args \<le> 63"
    and "exec k (sandbox_main (path # w # b # ws)) s = (r, t, s')" and "call \<in> set t" and "child_caps c call = Some e"
  shows "call_a0 call \<in> {Str (usr_path w), Str w} \<and>
    (\<forall>i. bit e i \<longleftrightarrow> bit c i \<and> i < 63 \<and> i < length (bin_digits b) \<and> rev (bin_digits b) ! i = CHR ''1'') \<and>
    (if ws = [] then call_a1 call = Null else \<exists>u. call_a1 call = Str u \<and> length u \<le> 63 \<and> parse_args 1 u = (ws, None))"
proof -
  have "starts call" using assms(5) by (auto simp: child_caps_def split: uarg.splits if_splits)
  with all_calls_exec [OF sandbox_calls assms(3,4)] obtain p where p: "p \<in> {usr_path w, w}"
      "call = Syscall SYS_SANDBOX (Str p) (ptr (if join_args [] ws = [] then None else Some (join_args [] ws))) (Num (bin_to_uint64 (Some b)))"
    by (auto simp: starts_with_def)
  have j: "length (join_args [] ws) \<le> 63" "parse_args 1 (join_args [] ws) = (ws, None)"
    using parse_join [of args "[w, b]" ws redir] assms(1,2) by simp_all
  have n: "join_args [] ws = [] \<longleftrightarrow> ws = []" using j(2) by (auto simp: parse_args_words line_of_def)
  have "sys_sandbox_caps c (bin_to_uint64 (Some b)) = Some e"
    using assms(5) unfolding p(2) by (auto simp: child_caps_def rv_const split: if_splits)
  then have "e = c AND (bin_to_uint64 (Some b) AND NOT (2 ^ 63))"
    by (auto simp: sys_sandbox_caps_def resolve_child_caps_def PROC_CAP_ENABLE_def push_bit_eq_mult split: if_splits)
  then have "bit e i \<longleftrightarrow> bit c i \<and> i < 63 \<and> i < length (bin_digits b) \<and> rev (bin_digits b) ! i = CHR ''1''" for i
    unfolding \<open>e = _\<close> bit_and_iff [of c] bit_andnot_exp bin_to_uint64_bits by auto
  then show ?thesis using p j n by (auto simp: ptr_def)
qed

theorem sandbox_confines_witness:
  "\<exists>e. child_caps CAP_PROFILE_SHELL_NORMAL (Syscall SYS_SANDBOX (Str ''/usr/cat'') (Str ''a b'') (Num 0x101)) = Some e \<and>
     bit e 0 \<and> bit e 8 \<and> \<not> bit e 1"
proof -
  let ?call = "Syscall SYS_SANDBOX (Str ''/usr/cat'') (Str ''a b'') (Num 0x101)"
  let ?argv = "[''sandbox'', ''cat'', ''0b100000001'', ''a'', ''b'']"
  obtain r t s' where e: "exec demo_kernel (sandbox_main ?argv) [] = (r, t, s')" by (metis prod_cases3)
  moreover have "?call \<in> set (fst (snd (exec demo_kernel (sandbox_main ?argv) [])))" by code_simp
  ultimately have t: "?call \<in> set t" by simp
  have c: "child_caps CAP_PROFILE_SHELL_NORMAL ?call = Some 0x101" by code_simp
  have "parse_args 1 ''cat 0b100000001 a  b'' = ([''cat'', ''0b100000001'', ''a'', ''b''], None)" by code_simp
  from sandbox_confines [OF this _ e t c] have "\<forall>i. bit (0x101 :: u64) i \<longleftrightarrow> bit CAP_PROFILE_SHELL_NORMAL i \<and> i < 63 \<and>
      i < length (bin_digits ''0b100000001'') \<and> rev (bin_digits ''0b100000001'') ! i = CHR ''1''" by simp
  moreover have "rev (bin_digits ''0b100000001'') = ''100000001''" by code_simp
  ultimately show ?thesis using c by (simp add: rv_const)
qed

end
