(* ===== verification/RV_Programs.thy ===== *)
theory RV_Programs
  imports RV_Trap RV_Shell "HOL-Library.Signed_Division"
begin

text \<open>
  The other programs under \<^verbatim>\<open>userspace\<close>. Each \<^verbatim>\<open>main\<close> takes \<^verbatim>\<open>argv\<close> as a list of strings and returns its exit status; a \<^verbatim>\<open>main\<close> of type
  \<^verbatim>\<open>void\<close> returns nothing. The theorem shows that \<^verbatim>\<open>ps\<close> prints the processes that the kernel reports.
\<close>

subsection \<open>Small tools\<close>

definition say :: "string \<Rightarrow> farg list \<Rightarrow> unit prog" where
  "say t as = printf_user (ln t) as"

primrec repeat_prog :: "nat \<Rightarrow> unit prog \<Rightarrow> unit prog" where
  "repeat_prog 0 p = Ret ()"
| "repeat_prog (Suc n) p = pseq p (repeat_prog n p)"

definition clear_main :: "int prog" where
  "clear_main = pseq (repeat_prog 50 (say [] [])) (Ret 0)"

definition ls_main :: "unit prog" where "ls_main = ls"
definition panic_main :: "unit prog" where "panic_main = sys_panic_user"
definition poweroff_main :: "int prog" where "poweroff_main = pseq poweroff (Ret 0)"
definition reboot_main :: "int prog" where "reboot_main = pseq reboot (Ret 0)"

definition sleep_main :: "unit prog" where
  "sleep_main = pseq (say ''ready to sleep'' []) (pseq (sleep_user 100) (say ''wake up'' []))"

fun echo_loop :: "string list \<Rightarrow> unit prog" where
  "echo_loop [] = Ret ()"
| "echo_loop [a] = printf_user ''%s'' [FStr (Some a)]"
| "echo_loop (a # b # as) =
     pseq (printf_user ''%s'' [FStr (Some a)]) (pseq (printf_user '' '' []) (echo_loop (b # as)))"

definition echo_main :: "string list \<Rightarrow> int prog" where
  "echo_main argv = pseq (echo_loop (tl argv)) (pseq (say [] []) (Ret 0))"

definition mkdir_main :: "string list \<Rightarrow> int prog" where
  "mkdir_main argv =
     (if length argv < 2 then pseq (say ''Usage: mkdir <dirname>'' []) (Ret (- 1))
      else pbind (mkdir (argv ! 1)) (\<lambda>r. if r < 0 then pseq (say ''mkdir failed'' []) (Ret (- 1)) else Ret 0))"

definition mv_main :: "string list \<Rightarrow> int prog" where
  "mv_main argv =
     (if length argv \<noteq> 3 then pseq (say ''Usage: mv old_path new_path'' []) (Ret (- 1))
      else pbind (rename (argv ! 1) (argv ! 2)) (\<lambda>r.
        if r < 0 then
          pseq (say (''mv: failed to rename '' @ [CHR 0x27] @ ''%s'' @ [CHR 0x27] @ '' to '' @ [CHR 0x27] @ ''%s'' @ [CHR 0x27])
            [FStr (Some (argv ! 1)), FStr (Some (argv ! 2))]) (Ret (- 1))
        else Ret 0))"

definition rm_main :: "string list \<Rightarrow> int prog" where
  "rm_main argv =
     (if length argv < 2 then pseq (say ''Usage: rm <path>'' []) (Ret (- 1))
      else pbind (unlink (argv ! 1)) (\<lambda>r. if r < 0 then pseq (say ''rm failed'' []) (Ret (- 1)) else Ret 0))"

text \<open>\<^verbatim>\<open>atoi\<close> of \<^verbatim>\<open>kill.c\<close>, which wraps around at 32 bits.\<close>

primrec atoi_loop :: "u32 \<Rightarrow> string \<Rightarrow> u32" where
  "atoi_loop n [] = n"
| "atoi_loop n (c # s) =
     (if 48 \<le> (of_char c :: u8) \<and> (of_char c :: u8) \<le> 57 then atoi_loop (n * 10 + (ucast (of_char c :: u8) - 48)) s else n)"

definition atoi :: "string \<Rightarrow> u32" where
  "atoi s = atoi_loop 0 s"

definition kill_main :: "string list \<Rightarrow> int prog" where
  "kill_main argv =
     (if length argv < 2 then pseq (say ''usage: kill pid'' []) (Ret 1)
      else
        let pid = atoi (argv ! 1) in
        if sint pid \<le> 0 then pseq (say ''invalid pid: %s'' [FStr (Some (argv ! 1))]) (Ret 1)
        else pbind (kill_process (sint pid)) (\<lambda>r.
          if r < 0 then pseq (say ''kill %d failed'' [FInt pid]) (Ret 1) else Ret 0))"

text \<open>\<^verbatim>\<open>cat\<close>; the loop ends at the end of the file, and \<open>n\<close> bounds its rounds. A buffer shorter than the count is undefined.\<close>

primrec cat_copy :: "nat \<Rightarrow> int \<Rightarrow> bool prog" where
  "cat_copy 0 h = Ret False"
| "cat_copy (Suc n) h = pbind (file_read h 128) (\<lambda>(r, bs).
     if 0 < r then
       if length bs < nat r then Undef ''cat: buf'' else pseq (file_write STDOUT (take (nat r) bs)) (cat_copy n h)
     else Ret True)"

definition O_RDONLY :: int where [rv_const]: "O_RDONLY = 0"

definition cat_main :: "nat \<Rightarrow> string list \<Rightarrow> int prog" where
  "cat_main n argv =
     (if length argv < 2 then pseq (say ''Usage: cat <file>'' []) (Ret (- 1))
      else pbind (file_open (argv ! 1) O_RDONLY) (\<lambda>h.
        if h = - 1 then pseq (say ''cat: cannot open %s'' [FStr (Some (argv ! 1))]) (Ret (- 1))
        else pseq (cat_copy n h) (pseq (close_handle h) (Ret 0))))"

definition bench_main :: "int prog" where
  "bench_main =
     pseq (say ''Starting benchmark: 1000000 sys_trap calls...'' [])
     (pbind get_ticks (\<lambda>start.
       pseq (repeat_prog 1000000 sys_trap_user)
       (pbind get_ticks (\<lambda>fin.
         pseq (say ''Done.'' [])
         (pseq (say ''Start ticks: %d'' [FInt start])
         (pseq (say ''End ticks: %d'' [FInt fin])
         (pseq (say ''Total ticks: %d'' [FInt (fin - start)]) (Ret 0))))))))"

text \<open>\<^verbatim>\<open>sysinfo\<close>; \<^verbatim>\<open>rvdos_abi_info_t\<close> has the version at offset 0 and the capabilities at offset 8.\<close>

definition mark_of :: "u64 \<Rightarrow> u64 \<Rightarrow> string \<Rightarrow> unit prog" where
  "mark_of caps cap t = printf_user (''[%s] '' @ ln t) [FStr (Some (if caps AND cap \<noteq> 0 then ''X'' else '' ''))]"

definition sysinfo_main :: "int prog" where
  "sysinfo_main = pbind (get_version 32) (\<lambda>(r, ver).
     pseq (if r \<noteq> 0 then say ''Failed to get kernel version'' [] else say ''Kernel: %s'' [FStr (Some (c_str ver))])
     (pbind get_abi_info (\<lambda>(r, info).
       if r \<noteq> 0 then pseq (say ''Failed to get ABI info'' []) (Ret (- 1))
       else
         let caps = ucast (get32 info 8) OR push_bit 32 (ucast (get32 info 12)) in
         pseq (say ''ABI Version: %d'' [FInt (get32 info 0)])
         (pseq (say ''Kernel Supported Capabilities:'' [])
         (pseq (fold (\<lambda>(cap, t) p. pseq p (mark_of caps cap t))
            [(CAP_FS_READ, ''FS_READ''), (CAP_FS_WRITE, ''FS_WRITE''), (CAP_FS_DIR, ''FS_DIR''), (CAP_FS_CWD, ''FS_CWD''),
             (CAP_FS_RENAME, ''FS_RENAME''), (CAP_PROC_BASIC, ''PROC_BASIC''), (CAP_PROC_PS, ''PROC_PS''), (CAP_PROC_KILL, ''PROC_KILL''),
             (CAP_PROC_SLEEP, ''PROC_SLEEP ''), (CAP_PROC_TRACE, ''PROC_TRACE ''), (CAP_PROC_SANDBOX, ''PROC_SANDBOX ''),
             (CAP_MEM_SBRK, ''MEM_SBRK''), (CAP_SYS_TIME, ''SYS_TIME''), (CAP_SYS_POWER, ''SYS_POWER'')] (Ret ()))
         (pbind get_caps (\<lambda>my.
           pseq (printf_user (ln [] @ ln ''This process caps: %x'') [FHex my])
           (pseq (say ''  POWER=%d SANDBOX=%d PS=%d KILL=%d''
              (map (flag_of my) [CAP_SYS_POWER, CAP_PROC_SANDBOX, CAP_PROC_PS, CAP_PROC_KILL]))
           (Ret 0)))))))))"

subsection \<open>The process list\<close>

definition print_spaces :: "nat \<Rightarrow> unit prog" where
  "print_spaces n = repeat_prog n (print_str '' '')"

definition print_str_padded :: "string \<Rightarrow> nat \<Rightarrow> unit prog" where
  "print_str_padded s width =
     pseq (print_str s) (if length s < width then print_spaces (width - length s) else Ret ())"

text \<open>The number of digits of a positive \<^verbatim>\<open>int\<close>.\<close>

function count_digits :: "u32 \<Rightarrow> nat" where
  "count_digits n = (if 0 < sint n then Suc (count_digits (n div 10)) else 0)"
  by pat_completeness auto
termination
proof (relation "measure unat", goal_cases)
  case (2 n)
  then have "0 < unat n" by (cases "n = 0") (simp_all add: unat_gt_0)
  then show ?case by (simp add: unat_div)
qed simp

declare count_digits.simps [simp del]

definition print_int_padded :: "u32 \<Rightarrow> nat \<Rightarrow> unit prog" where
  "print_int_padded n width =
     (let len = (if n = 0 then 1 else if sint n < 0 then Suc (count_digits (- n)) else count_digits n)
      in pseq (print_int n) (if len < width then print_spaces (width - len) else Ret ()))"

definition state_str :: "u32 \<Rightarrow> string" where
  "state_str st =
     (if st = 1 then ''SLEEPING'' else if st = 2 then ''RUNNABLE'' else if st = 3 then ''RUNNING''
      else if st = 4 then ''ZOMBIE'' else ''UNKNOWN'')"

text \<open>One line, from a \<^verbatim>\<open>proc_info_t\<close> of 40 bytes at the head of \<open>b\<close>.\<close>

definition ps_row :: "u8 list \<Rightarrow> unit prog" where
  "ps_row b =
     (let name = c_str (drop 8 b) in
      pseq (print_int_padded (get32 b 0) 6)
      (pseq (print_int_padded (get32 b 4) 16)
      (pseq (print_str_padded (if name \<noteq> [] then name else ''[init]'') 16)
      (pseq (print_int_padded (get32 b 24) 6)
      (pseq (print_int_padded (get32 b 28) 8)
      (pseq (print_str_padded (state_str (get32 b 32)) 12)
      (pseq (print_int_padded (get32 b 36) 8)
      (print_str (ln [])))))))))"

primrec ps_rows :: "nat \<Rightarrow> u8 list \<Rightarrow> unit prog" where
  "ps_rows 0 b = Ret ()"
| "ps_rows (Suc n) b = pseq (ps_row b) (ps_rows n (drop 40 b))"

definition ps_header :: "unit prog" where
  "ps_header =
     pseq (print_str_padded ''PID'' 6) (pseq (print_str_padded ''OWNER-PID'' 16) (pseq (print_str_padded ''NAME'' 16)
     (pseq (print_str_padded ''PRIO'' 6) (pseq (print_str_padded ''E-PRIO'' 8) (pseq (print_str_padded ''STATE'' 12)
     (pseq (print_str_padded ''HANDLES'' 8) (print_str (ln []))))))))"

definition ps_main :: "unit prog" where
  "ps_main = pbind (ps_user 64) (\<lambda>(count, info).
     if count < 0 then say ''ps failed'' []
     else if length info < 40 * nat count then Undef ''ps: info''
     else pseq ps_header (ps_rows (nat count) info))"

subsection \<open>The stress test\<close>

text \<open>\<^verbatim>\<open>itoa\<close>; the digits come out in reverse and are turned round, with the sign.\<close>

lemma sdiv_pos: "0 < n sdiv 10 \<Longrightarrow> 0 < n" for n :: int
  by (auto simp: signed_divide_int_def sgn_if split: if_splits)

function itoa_digits :: "int \<Rightarrow> string" where
  "itoa_digits n = char_of (n smod 10 + 48) # (if 0 < n sdiv 10 then itoa_digits (n sdiv 10) else [])"
  by pat_completeness auto
termination
proof (relation "measure nat", goal_cases)
  case (2 n)
  have "0 < n" using 2 by (rule sdiv_pos)
  then show ?case by (simp add: signed_divide_int_def)
qed simp

declare itoa_digits.simps [simp del]

definition itoa :: "u32 \<Rightarrow> string" where
  "itoa n = rev (itoa_digits (sint (if sint n < 0 then - n else n)) @ (if sint n < 0 then ''-'' else []))"

definition O_RDWR :: int where [rv_const]: "O_RDWR = 2"

definition stress_name :: "u32 \<Rightarrow> string" where
  "stress_name i = ''stress_'' @ itoa i @ ''.tmp''"

definition file_stress_round :: "u32 \<Rightarrow> unit prog" where
  "file_stress_round i =
     (let name = stress_name i; buf = itoa (i * 1234) in
      pbind (file_open name (0x100 + O_RDWR)) (\<lambda>h.
        if h < 0 then say ''Failed to create file %s'' [FStr (Some name)]
        else
          pseq (file_write h (bytes buf)) (pseq (close_handle h) (pbind (file_open name O_RDONLY) (\<lambda>h.
            if h < 0 then say ''Failed to open file %s for reading'' [FStr (Some name)]
            else pbind (file_read h (length buf)) (\<lambda>(n, bs).
              pseq (if n < 0 then say ''Failed to read file %s'' [FStr (Some name)]
                    else if 64 \<le> n then Undef ''stress: read_buf''
                    else let got = c_str (take (nat n) bs)
                         in if got \<noteq> buf then
                              say ''File content mismatch in %s: expected %s, got %s'' [FStr (Some name), FStr (Some buf), FStr (Some got)]
                            else Ret ())
              (pseq (close_handle h) (pbind (unlink name) (\<lambda>r.
                if r < 0 then say ''Failed to unlink %s'' [FStr (Some name)] else Ret ())))))))))"

definition file_stress :: "nat \<Rightarrow> unit prog" where
  "file_stress count =
     pseq (say ''Starting file stress (%d files)...'' [FInt (of_nat count)])
     (pseq (fold (\<lambda>i p. pseq p (file_stress_round (of_nat i))) [0..<count] (Ret ()))
     (say ''File stress done.'' []))"

definition kill_loop_round :: "unit prog" where
  "kill_loop_round = pbind (spawn_process ''/usr/loop'' (Some ''&'')) (\<lambda>pid.
     if 0 < pid then pbind (kill_process pid) (\<lambda>r.
       if r < 0 then say ''Failed to kill process %d'' [FInt (of_int pid)] else say ''Killed process %d'' [FInt (of_int pid)])
     else say ''Failed to spawn loop process'' [])"

definition proc_stress :: "nat \<Rightarrow> unit prog" where
  "proc_stress count =
     pseq (say ''Starting process stress (spawning %d processes)...'' [FInt (of_nat count)])
     (pseq (fold (\<lambda>i p. pseq p (pbind (spawn_process ''/usr/echo'' (Some ''stress_child'')) (\<lambda>pid.
        if pid < 0 then say ''Failed to spawn process %d'' [FInt (of_nat i)] else pseq (wait_process pid) (Ret ()))))
        [0..<count] (Ret ()))
     (pseq (say ''Testing process kill (spawn /usr/loop and kill)...'' [])
     (pseq (repeat_prog 128 kill_loop_round)
     (say ''Process stress done.'' []))))"

text \<open>
  \<^verbatim>\<open>cpu_stress\<close>: the sum \<^verbatim>\<open>a\<close> is an \<^verbatim>\<open>int\<close> that no one reads; where it leaves the range of an \<^verbatim>\<open>int\<close> the program is undefined.
\<close>

definition cpu_add :: "int option \<Rightarrow> int \<Rightarrow> int option" where
  "cpu_add a d = Option.bind a (\<lambda>a. if - (2 ^ 31) \<le> a + d \<and> a + d < 2 ^ 31 then Some (a + d) else None)"

definition cpu_sum :: "nat \<Rightarrow> int option" where
  "cpu_sum iterations =
     foldl (\<lambda>a i. foldl (\<lambda>a j. cpu_add a (int i * int j)) a [0..<10000]) (Some 0) [0..<iterations]"

definition cpu_stress :: "nat \<Rightarrow> unit prog" where
  "cpu_stress iterations =
     pseq (say ''Starting CPU stress (%d iterations)...'' [FInt (of_nat iterations)])
     (case cpu_sum iterations of
        None \<Rightarrow> Undef ''cpu_stress: overflow''
      | Some _ \<Rightarrow> say ''CPU stress done.'' [])"

text \<open>\<^verbatim>\<open>main\<close> divides by zero before the first test.\<close>

definition int_div :: "int \<Rightarrow> int \<Rightarrow> int prog" where
  "int_div a b = (if b = 0 then Undef ''division by zero'' else Ret (a sdiv b))"

definition stress_main :: "int prog" where
  "stress_main =
     pseq (say ''--- 448OS Stress Test ---'' [])
     (pbind (int_div 1 0) (\<lambda>q. pseq (say ''%d'' [FInt (of_int q)])
     (pseq (cpu_stress 0xf)
     (pseq (say ''--- Stress Test Completed Successfully ---'' []) (Ret 0)))))"

subsection \<open>What programs print\<close>

definition pad :: "nat \<Rightarrow> u8 list \<Rightarrow> u8 list" where
  "pad w t = t @ replicate (w - length t) 32"

lemma says_repeat: "says p b () \<Longrightarrow> says (repeat_prog n p) (concat (replicate n b)) ()"
  by (induction n) (auto intro: says_pseq says.intros)

lemma says_spaces: "says (print_spaces n) (replicate n 32) ()"
proof -
  have "concat (replicate n [32 :: u8]) = replicate n 32" by (induction n) auto
  then show ?thesis using says_repeat [OF says_print_str, of n "'' ''"] by (simp add: print_spaces_def bytes_def)
qed

lemma says_padding: "says p t () \<Longrightarrow> length t = n \<Longrightarrow> says (pseq p (if n < w then print_spaces (w - n) else Ret ())) (pad w t) ()"
  unfolding pad_def by (rule says_pseq) (auto intro: says_spaces says.intros)

lemma says_str_padded: "says (print_str_padded t w) (pad w (bytes t)) ()"
  unfolding print_str_padded_def by (rule says_padding [OF says_print_str]) (simp add: bytes_def)

lemma count_digits_length: "count_digits n = length (int_digits n)"
  by (induction n rule: int_digits.induct) (subst count_digits.simps, subst int_digits.simps, simp)

text \<open>The width that \<^verbatim>\<open>ps\<close> counts is that of the text \<^verbatim>\<open>print_int\<close> writes, also for the smallest number.\<close>

lemma says_int_padded: "says (print_int_padded n w) (pad w (int_text n)) ()"
proof -
  have "length (int_text n) = (if n = 0 then 1 else if sint n < 0 then Suc (count_digits (- n)) else count_digits n)"
  proof (cases "n = 0")
    case True
    then show ?thesis by (simp add: int_text_def dec.simps [of 0])
  next
    case False
    then show ?thesis unfolding int_text_digits [OF False] count_digits_length by (simp add: bytes_def)
  qed
  then show ?thesis unfolding print_int_padded_def Let_def by (intro says_padding [OF says_print_int])
qed

lemma i32_small: "n < 2 ^ 31 \<Longrightarrow> i32 (of_nat n) = int n"
proof -
  assume n: "n < 2 ^ 31"
  then have "unat (ucast (of_nat n :: u64) :: u32) = n" by (simp add: unsigned_ucast_eq unsigned_of_nat take_bit_nat_eq_self)
  then show ?thesis using sint_small [of "ucast (of_nat n :: u64) :: u32"] n by (simp add: i32_def)
qed

text \<open>The line of a process.\<close>

definition ps_line :: "pcb \<Rightarrow> u8 list" where
  "ps_line p =
     pad 6 (int_text (p_pid p)) @ pad 16 (int_text (p_owner_pid p)) @
     pad 16 (bytes (if p_name p = [] then ''[init]'' else p_name p)) @
     pad 6 (int_text (word_of_int (p_priority p))) @ pad 8 (int_text (word_of_int (p_effective_priority p))) @
     pad 12 (bytes (state_str (PROC_STATE (p_state p)))) @
     pad 8 (int_text (of_nat (length (filter (\<lambda>f. f \<noteq> 0) (p_handles p))))) @ [10]"

definition ps_title :: "u8 list" where
  "ps_title =
     pad 6 (bytes ''PID'') @ pad 16 (bytes ''OWNER-PID'') @ pad 16 (bytes ''NAME'') @ pad 6 (bytes ''PRIO'') @
     pad 8 (bytes ''E-PRIO'') @ pad 12 (bytes ''STATE'') @ pad 8 (bytes ''HANDLES'') @ [10]"

lemma bytes_ln: "bytes (ln []) = [10]"
  by (simp add: bytes_def ln_def)

lemma says_header: "says ps_header ps_title ()"
  unfolding ps_header_def ps_title_def bytes_ln [symmetric] by (rule says_pseq says_str_padded says_print_str)+

text \<open>A name is a string of at most 15 characters, as \<^verbatim>\<open>spawn\<close> leaves it.\<close>

definition name_ok :: "pcb \<Rightarrow> bool" where
  "name_ok p \<longleftrightarrow> length (p_name p) < 16 \<and> CHR 0x00 \<notin> set (p_name p)"

lemma length_proc_info: "name_ok p \<Longrightarrow> length (proc_info p) = 40"
  by (simp add: proc_info_def name_ok_def)

lemma get32_skip: "get32 (a @ b) off = get32 b (off - length a)" if "length a \<le> off"
  using that by (simp add: get32_def)

lemma get32_here: "get32 (to_le32 v @ b) 0 = v"
  by (simp add: get32_def of_to_le32)

lemma c_str_bytes: "CHR 0x00 \<notin> set t \<Longrightarrow> c_str (map of_char t @ 0 # b) = t"
proof (induction t)
  case (Cons c t)
  have "(of_char c :: u8) \<noteq> 0" using Cons.prems of_char_u8 [of c "CHR 0x00"] by auto
  then show ?case using Cons by (simp add: c_str_def comp_def)
qed (simp add: c_str_def)

lemma says_row:
  assumes "name_ok p"
  shows "says (ps_row (proc_info p @ b)) (ps_line p) ()"
proof -
  define nb :: "u8 list" where "nb = map of_char (p_name p) @ replicate (16 - length (p_name p)) 0"
  have nb: "length nb = 16" using assms by (simp add: nb_def name_ok_def)
  obtain m where m: "16 - length (p_name p) = Suc m" using assms by (cases "16 - length (p_name p)") (auto simp: name_ok_def)
  have pi: "proc_info p = to_le32 (p_pid p) @ to_le32 (p_owner_pid p) @ nb @ to_le32 (word_of_int (p_priority p)) @
      to_le32 (word_of_int (p_effective_priority p)) @ to_le32 (PROC_STATE (p_state p)) @
      to_le32 (of_nat (length (filter (\<lambda>f. f \<noteq> 0) (p_handles p))))"
    by (simp add: proc_info_def nb_def)
  have "c_str (drop 8 (proc_info p @ b)) = p_name p"
    using assms by (simp add: proc_info_def m c_str_bytes name_ok_def)
  moreover have "get32 (proc_info p @ b) 0 = p_pid p" "get32 (proc_info p @ b) 4 = p_owner_pid p"
    "get32 (proc_info p @ b) 24 = word_of_int (p_priority p)" "get32 (proc_info p @ b) 28 = word_of_int (p_effective_priority p)"
    "get32 (proc_info p @ b) 32 = PROC_STATE (p_state p)"
    "get32 (proc_info p @ b) 36 = of_nat (length (filter (\<lambda>f. f \<noteq> 0) (p_handles p)))"
    using nb by (simp_all add: pi get32_here get32_skip)
  ultimately show ?thesis unfolding ps_row_def ps_line_def bytes_ln [symmetric] Let_def
    by (auto intro!: says_pseq [where x = "()"] says_str_padded says_int_padded says_print_str)
qed

lemma says_rows: "\<forall>p \<in> set qs. name_ok p \<Longrightarrow> says (ps_rows (length qs) (concat (map proc_info qs) @ b)) (concat (map ps_line qs)) ()"
proof (induction qs)
  case (Cons p qs)
  then show ?case using says_pseq [OF says_row [of p "concat (map proc_info qs) @ b"]] length_proc_info [of p] by simp
qed (auto intro: says.intros)

text \<open>
  C40. \<^verbatim>\<open>ps\<close> prints the processes of the kernel. On every kernel that answers the call with the entries \<^verbatim>\<open>sys_ps\<close> makes of
  processes \<open>qs\<close> (at most 64, with proper names) and accepts output, the program makes one call for the list, and what it then writes is the title and one line for
  each process in the order of the table: pid, pid of the owner, name, both priorities, state and number of handles, in
  columns whose width counts the sign.
\<close>

theorem ps_prints:
  assumes "\<And>b s. fst (k (write_out b) s) \<noteq> None" and "\<forall>p \<in> set qs. name_ok p" and "length qs \<le> 64"
    and "k (Syscall SYS_PS Buf (Num 64) (Num 0)) s = (Some (of_nat (length qs), concat (map proc_info qs)), s1)"
  shows "\<exists>t s'. exec k ps_main s = (Done (), Syscall SYS_PS Buf (Num 64) (Num 0) # t, s') \<and>
    concat (map written t) = ps_title @ concat (map ps_line qs) \<and> (\<forall>c \<in> set t. \<exists>b. c = write_out b)"
proof -
  have "i32 (of_nat (length qs)) = int (length qs)"
    using assms(3) by (intro i32_small) simp
  moreover have "length (concat (map proc_info qs)) = 40 * length qs"
    using assms(2) length_proc_info by (induction qs) auto
  ultimately have "exec k ps_main s =
      (case exec k (pseq ps_header (ps_rows (length qs) (concat (map proc_info qs)))) s1 of
        (r, t, s') \<Rightarrow> (r, Syscall SYS_PS Buf (Num 64) (Num 0) # t, s'))"
    using assms(4) by (simp add: ps_main_def ps_user_def syscall_def)
  moreover have "\<exists>t s'. exec k (pseq ps_header (ps_rows (length qs) (concat (map proc_info qs)))) s1 = (Done (), t, s') \<and>
      concat (map written t) = ps_title @ concat (map ps_line qs) \<and> (\<forall>c \<in> set t. \<exists>b. c = write_out b)"
    using says_pseq [OF says_header says_rows [OF assms(2), of "[]"]] assms(1) by (intro says_exec) simp_all
  ultimately show ?thesis by auto
qed

definition demo_ps :: "ucall \<Rightarrow> unit \<Rightarrow> answer option \<times> unit" where
  "demo_ps c s = (Some (if call_num c = SYS_PS then (1, proc_info (demo_pcb\<lparr>p_name := ''sh''\<rparr>)) else (0, [])), ())"

theorem ps_prints_witness:
  "\<exists>t s'. exec demo_ps ps_main () = (Done (), t, s') \<and> concat (map written (tl t)) = ps_title @ ps_line (demo_pcb\<lparr>p_name := ''sh''\<rparr>)"
  using ps_prints [of demo_ps "[demo_pcb\<lparr>p_name := ''sh''\<rparr>]" "()" "()"] by (auto simp: demo_ps_def name_ok_def)

end
