(* ===== verification/RV_Files.thy ===== *)
theory RV_Files
  imports RV_Programs
begin

text \<open>
  Programs on the file system: \<^verbatim>\<open>cat\<close> on the kernel's own \<^verbatim>\<open>CreateHandler\<close>, \<^verbatim>\<open>ReadFile\<close>, \<^verbatim>\<open>WriteFile\<close> and \<^verbatim>\<open>CloseHandle\<close>. The interface \<open>block_source\<close> is what
  the copying loop needs of a kernel, and the file system provides it for an open file.
\<close>

subsection \<open>The copying loop\<close>

definition read_block :: "int \<Rightarrow> ucall" where
  "read_block h = Syscall SYS_READ_FILE (Num (of_int h)) Buf (Num 128)"

locale block_source =
  fixes k :: "ucall \<Rightarrow> 's \<Rightarrow> answer option \<times> 's"
    and h :: int
    and inv :: "'s \<Rightarrow> bool"
    and rest :: "'s \<Rightarrow> u8 list"
    and out :: "'s \<Rightarrow> u8 list"
  assumes read_next: "inv s \<Longrightarrow> \<exists>s'. k (read_block h) s = (Some (of_nat (length (take 128 (rest s))), take 128 (rest s)), s') \<and>
      inv s' \<and> rest s' = drop 128 (rest s) \<and> out s' = out s"
    and write_next: "inv s \<Longrightarrow> \<exists>a s'. k (write_out b) s = (Some a, s') \<and> inv s' \<and> rest s' = rest s \<and> out s' = out s @ b"
begin

lemma copy_all:
  assumes "inv s" and "length (rest s) + 128 \<le> 128 * n"
  shows "\<exists>t s'. exec k (cat_copy n h) s = (Done True, t, s') \<and> inv s' \<and> out s' = out s @ rest s"
  using assms
proof (induction n arbitrary: s)
  case (Suc n)
  define b where "b = take 128 (rest s)"
  have lb: "length b \<le> 128" "b = [] \<longleftrightarrow> rest s = []" "b @ drop 128 (rest s) = rest s" by (simp_all add: b_def)
  obtain s1 where s1: "k (read_block h) s = (Some (of_nat (length b), b), s1)" "inv s1" "rest s1 = drop 128 (rest s)" "out s1 = out s"
    using read_next [OF Suc.prems(1)] by (auto simp only: b_def)
  have i: "i32 (of_nat (length b)) = int (length b)" using lb(1) by (intro i32_small) simp
  have e: "exec k (cat_copy (Suc n) h) s =
      (case exec k (if b = [] then Ret True else pseq (file_write STDOUT b) (cat_copy n h)) s1 of
        (r, t, s') \<Rightarrow> (r, read_block h # t, s'))"
    using s1(1) i by (simp add: file_read_def syscall_def read_block_def)
  show ?case
  proof (cases "rest s = []")
    case True
    then show ?thesis using e s1 lb(2) by simp
  next
    case False
    obtain a s2 where s2: "k (write_out b) s1 = (Some a, s2)" "inv s2" "rest s2 = rest s1" "out s2 = out s1 @ b"
      using write_next [OF s1(2)] by blast
    have "length (rest s2) + 128 \<le> 128 * n" using Suc.prems(2) False s1(3) s2(3) by (cases n) auto
    then obtain t s' where t: "exec k (cat_copy n h) s2 = (Done True, t, s')" "inv s'" "out s' = out s2 @ rest s2"
      using Suc.IH [OF s2(2)] by blast
    have "exec k (pseq (file_write STDOUT b) (cat_copy n h)) s1 = (Done True, write_out b # t, s')"
      using s2(1) t(1) by (simp add: pseq_def file_write_def wrapper_defs case_prod_unfold write_out_def)
    then show ?thesis using e t s1 s2 False lb(2,3) by (simp add: append_assoc [symmetric] del: append_assoc) (metis append_assoc)
  qed
qed simp

end

subsection \<open>The file system as a source of blocks\<close>

text \<open>
  What the handlers answer once they have copied the arguments: a path is cut at 63 characters, output to the console handle
  goes to the device. Other calls, and a call in which the kernel stops, have no answer.
\<close>

fun file_kernel :: "nat \<Rightarrow> ucall \<Rightarrow> kernel \<Rightarrow> answer option \<times> kernel" where
  "file_kernel me (Syscall num (Str path) (Num mode) _) s =
     (if num = SYS_CREATE_FILE then
        case CreateHandler me (take 63 path) (ucast mode) s of Inr (r, s1) \<Rightarrow> (Some (of_int r, []), s1) | Inl _ \<Rightarrow> (None, s)
      else (None, s))"
| "file_kernel me (Syscall num (Num h) Buf (Num len)) s =
     (if num = SYS_READ_FILE \<and> handle_of me (ucast h) s \<noteq> - 1 then
        case ReadFile me (ucast h) (ucast len) s of Inr (r, bs, s1) \<Rightarrow> (Some (of_int r, bs), s1) | Inl _ \<Rightarrow> (None, s)
      else (None, s))"
| "file_kernel me (Syscall num (Num h) (Data bs) _) s =
     (if num = SYS_WRITE_FILE \<and> handle_of me (ucast h) s = - 1 then
        case WriteFile me (ucast h) bs s of Inr (r, s1) \<Rightarrow> (Some (of_int r, []), s1) | Inl _ \<Rightarrow> (None, s)
      else (None, s))"
| "file_kernel me (Syscall num (Num h) (Num _) _) s =
     (if num = SYS_CLOSE_HANDLE then
        case CloseHandle me (ucast h) s of Inr s1 \<Rightarrow> (Some (0, []), s1) | Inl _ \<Rightarrow> (None, s)
      else (None, s))"
| "file_kernel me _ s = (None, s)"

lemma handle_arg [simp]: "ucast (of_int h :: u64) = (of_int h :: u32)"
  by transfer simp

lemma handle_arg_nat [simp]: "ucast (of_nat h :: u64) = (of_nat h :: u32)"
  using handle_arg [of "int h"] by simp

lemma puts_out: "uart_inited s \<Longrightarrow> fold uart_putc_no_lock bs s = s\<lparr>uart_out := uart_out s @ bs\<rparr>"
  by (induction bs arbitrary: s) (simp_all add: uart_putc_no_lock_def)

text \<open>
  An open file \<open>x\<close> of which \<open>cs\<close> are the clusters, with handle \<open>h\<close>, in a process whose output is the console; \<open>reading\<close> are the states between
  two calls of the loop.
\<close>

definition opened :: "nat \<Rightarrow> int \<Rightarrow> u64 \<Rightarrow> file_t \<Rightarrow> u32 list \<Rightarrow> kernel \<Rightarrow> bool" where
  "opened me h f x cs s \<longleftrightarrow>
     vol_wf s \<and> handle_of me (of_int h) s = f \<and> f \<noteq> 0 \<and> f \<noteq> - 1 \<and> handle_of me 1 s = - 1 \<and> uart_inited s \<and>
     files s f = Some x \<and> f_readable x \<and> chain_at (fatval s) (f_first_cluster x) cs \<and> distinct cs \<and> (\<forall>c \<in> set cs. in_table s c) \<and>
     unat (f_file_size x) \<le> length (chain_data s cs) \<and> unat (f_file_size x) + 128 < 2 ^ 32"

definition reading :: "u64 \<Rightarrow> file_t \<Rightarrow> kernel \<Rightarrow> kernel \<Rightarrow> bool" where
  "reading f x s0 s \<longleftrightarrow> (\<exists>u out off. same_vol s0 u \<and> off \<le> f_file_size x \<and>
     s = u\<lparr>files := (files s0)(f \<mapsto> x\<lparr>f_offset := off\<rparr>), uart_out := out\<rparr>)"

definition left_over :: "u64 \<Rightarrow> u32 list \<Rightarrow> kernel \<Rightarrow> u8 list" where
  "left_over f cs s = (case files s f of None \<Rightarrow> []
     | Some x \<Rightarrow> drop (unat (f_offset x)) (take (unat (f_file_size x)) (chain_data s cs)))"

text \<open>All that is stored on the volume depends on the device, the disk and the geometry.\<close>

definition same_disk :: "kernel \<Rightarrow> kernel \<Rightarrow> bool" where
  "same_disk s s' \<longleftrightarrow> dev s' = dev s \<and> disk s' = disk s \<and> (\<exists>b. fs s' = (fs s)\<lparr>cache_page := b\<rparr>)"

lemma same_diskD:
  assumes "same_disk s s'"
  shows "vol_wf s' = vol_wf s" "fatval s' = fatval s" "fat_entries s' = fat_entries s" "chain_data s' = chain_data s"
    "dir_entries s' = dir_entries s"
proof -
  obtain b where b: "dev s' = dev s" "disk s' = disk s" "fs s' = (fs s)\<lparr>cache_page := b\<rparr>" using assms by (auto simp: same_disk_def)
  show "vol_wf s' = vol_wf s" "fat_entries s' = fat_entries s" by (auto simp: b vol_wf_def dev_ok_def fat_entries_def)
  show "fatval s' = fatval s" by (simp add: b fatval_def fat_sector_of_def fun_eq_iff)
  have l: "cluster_list s' = cluster_list s" by (simp add: b cluster_list_def cluster_to_sector_def fun_eq_iff)
  have "cluster_data s' = cluster_data s" by (simp add: l b cluster_data_def fun_eq_iff)
  then show "chain_data s' = chain_data s" by (simp only: chain_data_def [abs_def])
  have "sector_entries s' = sector_entries s" by (simp add: b sector_entries_def fun_eq_iff)
  then show "dir_entries s' = dir_entries s" by (simp only: l dir_entries_def [abs_def])
qed

lemma same_disk_self: "same_disk s s"
  by (auto simp: same_disk_def intro: exI [of _ "cache_page (fs s)"])

lemma same_vol_disk: "same_vol s s' \<Longrightarrow> same_disk s s'"
  by (auto simp: same_vol_def same_disk_def)

lemma same_vol_put:
  assumes "same_vol s0 u" and "same_vol (u\<lparr>files := a, uart_out := b\<rparr>) v"
  shows "\<exists>w. same_vol s0 w \<and> v = w\<lparr>files := a, uart_out := b\<rparr>"
proof -
  obtain q r c where u: "u = s0\<lparr>requests := r, vq := q, fs := (fs s0)\<lparr>cache_page := c\<rparr>\<rparr>" using assms(1) by (auto simp: same_vol_def)
  obtain q r c where v: "v = u\<lparr>files := a, uart_out := b, requests := r, vq := q, fs := (fs u)\<lparr>cache_page := c\<rparr>\<rparr>"
    using assms(2) by (auto simp: same_vol_def)
  have "v = (s0\<lparr>requests := r, vq := q, fs := (fs s0)\<lparr>cache_page := c\<rparr>\<rparr>)\<lparr>files := a, uart_out := b\<rparr>"
    unfolding v u by (rule kernel.equality) simp_all
  moreover have "same_vol s0 (s0\<lparr>requests := r, vq := q, fs := (fs s0)\<lparr>cache_page := c\<rparr>\<rparr>)" unfolding same_vol_def by blast
  ultimately show ?thesis by blast
qed

lemma reading_same:
  assumes "opened me h f x cs s0" and "reading f x s0 s"
  obtains u out off where "same_vol s0 u" "off \<le> f_file_size x" "s = u\<lparr>files := (files s0)(f \<mapsto> x\<lparr>f_offset := off\<rparr>), uart_out := out\<rparr>"
    "vol_wf s" "procs s = procs s0" "files s f = Some (x\<lparr>f_offset := off\<rparr>)" "fatval s = fatval s0" "fat_entries s = fat_entries s0"
    "chain_data s = chain_data s0" "uart_inited s"
proof -
  obtain u out off where u: "same_vol s0 u" "off \<le> f_file_size x" "s = u\<lparr>files := (files s0)(f \<mapsto> x\<lparr>f_offset := off\<rparr>), uart_out := out\<rparr>"
    using assms(2) unfolding reading_def by blast
  then have "same_disk s0 s" by (auto simp: same_vol_def same_disk_def)
  moreover have "procs s = procs s0" "uart_inited s = uart_inited s0" using u(1) by (auto simp: u(3) same_vol_def)
  ultimately show ?thesis using that [OF u] assms(1) same_diskD [of s0 s] unfolding u(3) by (simp add: opened_def)
qed

lemma handle_cong: "procs s = procs s0 \<Longrightarrow> handle_of me h s = handle_of me h s0"
  by (simp add: handle_of_def)

lemma file_read_next:
  assumes o: "opened me h f x cs s0" and r: "reading f x s0 s"
  shows "\<exists>s'. file_kernel me (read_block h) s =
      (Some (of_nat (length (take 128 (left_over f cs s))), take 128 (left_over f cs s)), s') \<and>
    reading f x s0 s' \<and> left_over f cs s' = drop 128 (left_over f cs s) \<and> uart_out s' = uart_out s"
proof -
  obtain u out off where u: "same_vol s0 u" "off \<le> f_file_size x" "s = u\<lparr>files := (files s0)(f \<mapsto> x\<lparr>f_offset := off\<rparr>), uart_out := out\<rparr>"
    "vol_wf s" "procs s = procs s0" "files s f = Some (x\<lparr>f_offset := off\<rparr>)" "fatval s = fatval s0" "fat_entries s = fat_entries s0"
    "chain_data s = chain_data s0" "uart_inited s"
    using reading_same [OF o r] by blast
  have h: "handle_of me (of_int h) s = f" using o handle_cong [OF u(5)] by (simp add: opened_def)
  define b where "b = take 128 (left_over f cs s)"
  have lo: "left_over f cs s = drop (unat off) (take (unat (f_file_size x)) (chain_data s cs))" by (simp add: left_over_def u(6))
  have so: "unat off \<le> unat (f_file_size x)" using u(2) by (simp add: word_le_nat_alt)
  have lb: "length b = min 128 (unat (f_file_size x) - unat off)" using o u(9) by (auto simp: b_def lo opened_def)
  obtain v where v: "same_vol s v"
      "ReadFile me (of_int h) 128 s = Inr (ret_count (length b), b, upd_file f (\<lambda>x. x\<lparr>f_offset := f_offset x + of_nat (length b)\<rparr>) v)"
    using read_file_data [OF u(4) h _ u(6), of cs 128] o so unfolding b_def lo by (auto simp: opened_def u(7-9))
  define s' where "s' = upd_file f (\<lambda>x. x\<lparr>f_offset := f_offset x + of_nat (length b)\<rparr>) v"
  obtain w where w: "same_vol s0 w" "v = w\<lparr>files := (files s0)(f \<mapsto> x\<lparr>f_offset := off\<rparr>), uart_out := out\<rparr>"
    using same_vol_put [OF u(1) v(1) [unfolded u(3)]] by blast
  define o' where "o' = off + of_nat (length b)"
  have uo: "unat o' = unat off + length b"
  proof -
    have "length b < 2 ^ 32" "unat off + length b < 2 ^ 32" using so lb o by (simp_all add: opened_def min_def)
    then show ?thesis using unat_add_lem [of off "of_nat (length b)"] unfolding o'_def by (simp add: unat_of_nat_small)
  qed
  have s': "s' = w\<lparr>files := (files s0)(f \<mapsto> x\<lparr>f_offset := o'\<rparr>), uart_out := out\<rparr>"
    by (simp add: s'_def upd_file_def w(2) o'_def)
  have "o' \<le> f_file_size x" using uo lb so by (simp add: word_le_nat_alt)
  then have rd: "reading f x s0 s'" unfolding reading_def using w(1) s' by blast
  have "same_disk w s'" unfolding same_disk_def s' by (auto intro: exI [of _ "cache_page (fs w)"])
  then have "chain_data s' = chain_data s0" using same_diskD(4) [OF same_vol_disk [OF w(1)]] same_diskD(4) [of w s'] by simp
  moreover have "files s' f = Some (x\<lparr>f_offset := o'\<rparr>)" by (simp add: s')
  ultimately have "left_over f cs s' = drop (unat o') (take (unat (f_file_size x)) (chain_data s0 cs))" by (simp add: left_over_def)
  then have "left_over f cs s' = drop 128 (left_over f cs s)"
    unfolding lo u(9) uo using lb so by (auto simp: min_def add.commute)
  moreover have "file_kernel me (read_block h) s = (Some (of_nat (length b), b), s')"
    using v(2) h o lb by (simp add: read_block_def s'_def opened_def ret_count_small)
  ultimately show ?thesis using rd unfolding b_def [symmetric] by (auto simp: s' u(3))
qed

lemma file_write_next:
  assumes o: "opened me h f x cs s0" and r: "reading f x s0 s"
  shows "\<exists>a s'. file_kernel me (write_out b) s = (Some a, s') \<and> reading f x s0 s' \<and> left_over f cs s' = left_over f cs s \<and>
    uart_out s' = uart_out s @ b"
proof -
  obtain u out off where u: "same_vol s0 u" "off \<le> f_file_size x" "s = u\<lparr>files := (files s0)(f \<mapsto> x\<lparr>f_offset := off\<rparr>), uart_out := out\<rparr>"
    "procs s = procs s0" "uart_inited s"
    using reading_same [OF o r] by blast
  define s' where "s' = s\<lparr>uart_out := uart_out s @ b\<rparr>"
  have "handle_of me 1 s = - 1" using o handle_cong [OF u(4)] by (simp add: opened_def)
  then have "file_kernel me (write_out b) s = (Some (of_int (ret_count (length b)), []), s')"
    using u(5) by (simp add: write_out_def rv_const WriteFile_def puts_out s'_def)
  moreover have "reading f x s0 s'" unfolding reading_def s'_def using u(1,2) by (auto simp: u(3) intro!: exI)
  moreover have "chain_data s' = chain_data s" by (rule same_diskD) (auto simp: s'_def same_disk_def intro!: exI [of _ "cache_page (fs s)"])
  moreover have "files s' = files s" "uart_out s' = uart_out s @ b" by (simp_all add: s'_def)
  ultimately show ?thesis unfolding left_over_def by (intro exI conjI) (assumption, assumption, simp_all split: option.splits)
qed

interpretation fil: block_source "file_kernel me" h "\<lambda>s. opened me h f x cs s0 \<and> reading f x s0 s" "left_over f cs" uart_out
  for me h f x cs s0
  by unfold_locales (use file_read_next file_write_next in blast)+

subsection \<open>Opening and closing\<close>

text \<open>
  The conditions under which the current directory of the process holds the file: the entry \<open>e\<close> is the first with that name before the end
  mark of the directory with the clusters \<open>ds\<close>; it is not a directory, and \<open>cs\<close> are the clusters of the file.
\<close>

definition dir_has :: "nat \<Rightarrow> string \<Rightarrow> dirent \<Rightarrow> u32 list \<Rightarrow> u32 list \<Rightarrow> kernel \<Rightarrow> bool" where
  "dir_has me nm e ds cs s \<longleftrightarrow>
     vol_wf s \<and> chain_at (fatval s) (p_cwd_cluster (procs s ! me)) ds \<and> distinct ds \<and> (\<forall>c \<in> set ds. in_table s c) \<and>
     (\<exists>x i. find (\<lambda>(x, i, e). e ! 0 \<noteq> 0xE5 \<and> e_attr e \<noteq> ATTR_LONG_NAME \<and> e_name e = to_fat_name nm)
       (takeWhile (\<lambda>(x, i, e). e ! 0 \<noteq> 0) (dir_entries s ds)) = Some (x, i, e)) \<and>
     e_attr e AND ATTR_DIRECTORY = 0 \<and>
     chain_at (fatval s) (e_cluster e) cs \<and> distinct cs \<and> (\<forall>c \<in> set cs. in_table s c) \<and>
     unat (e_file_size e) \<le> length (chain_data s cs) \<and> unat (e_file_size e) + 128 < 2 ^ 32"

lemma find_free_handle: "free_handle hs = Some h \<Longrightarrow> h < length hs \<and> hs ! h = 0"
  unfolding free_handle_def by (auto simp: find_Some_iff)

lemma path_plain:
  assumes "CHR ''/'' \<notin> set nm" and "length nm < 16"
  shows "name_raw nm = Inr nm" and "dir_part nm = None" and "dir_of me nm s = Inr (p_cwd_cluster (procs s ! me), s)"
proof -
  have "takeWhile (\<lambda>c. c \<noteq> CHR ''/'') (rev nm) = rev nm" using assms(1) by (auto simp: takeWhile_eq_all_conv)
  then have "base_name nm = nm" unfolding base_name_def by (simp only: rev_rev_ident)
  then show "name_raw nm = Inr nm" using assms(2) by (simp add: name_raw_def)
  show "dir_part nm = None" using assms(1) by (simp add: dir_part_def)
  then show "dir_of me nm s = Inr (p_cwd_cluster (procs s ! me), s)" by (simp add: dir_of_def)
qed

definition new_file :: "string \<Rightarrow> dirent \<Rightarrow> file_t" where
  "new_file nm e = \<lparr>f_ref = 1, f_readable = True, f_writable = True, f_offset = 0, f_first_cluster = e_cluster e,
     f_file_size = e_file_size e, f_name = nm\<rparr>"

text \<open>A process that can open one more file, with a free file object in the block at \<open>b\<close>, in RAM, and the handle \<open>h\<close> free.\<close>

definition can_open :: "nat \<Rightarrow> u64 \<Rightarrow> nat \<Rightarrow> kernel \<Rightarrow> bool" where
  "can_open me b h s \<longleftrightarrow>
     (\<exists>sps bs U. cache_wf s (file_cache s) sps (b # bs) U) \<and> me < length (procs s) \<and> uart_inited s \<and>
     length (p_handles (procs s ! me)) = MAX_HANDLES \<and> free_handle (p_handles (procs s ! me)) = Some h \<and>
     handle_of me 1 s = - 1 \<and> 0x80000000 \<le> b"

lemma can_openD:
  assumes "can_open me b h s"
  shows "freelist (file_cache s) = b" "b \<noteq> 0" "b + 8 \<noteq> 0" "b + 8 \<noteq> - 1" "h < 64" "h \<noteq> 1" "me < length (procs s)"
    "length (p_handles (procs s ! me)) = 64" "p_handles (procs s ! me) ! 1 = - 1" "p_handles (procs s ! me) ! h = 0"
    "\<not> b + 8 < 0x80000000"
proof -
  obtain sps bs U where c: "cache_wf s (file_cache s) sps (b # bs) U" using assms unfolding can_open_def by blast
  show "freelist (file_cache s) = b" "b \<noteq> 0" using c by (auto simp: cache_wf_def)
  show "b + 8 \<noteq> 0" using cache_block_payload [OF c] by simp
  have "unat (b + 8) = unat b + 8" "unat b < 0x88000000" using cache_block_low [OF c, of b] unat_add_lem [of b 8] by auto
  then show "\<not> b + 8 < 0x80000000" using assms by (simp add: can_open_def word_less_nat_alt word_le_nat_alt)
  have "unat (b + 8) = unat b + 8" "unat b < 0x88000000" by fact+
  moreover have "unat (- 1 :: u64) = 18446744073709551615" by (simp add: unsigned_minus_1_eq_mask mask_eq_exp_minus_1)
  ultimately have "unat (b + 8) \<noteq> unat (- 1 :: u64)" by simp
  then show "b + 8 \<noteq> - 1" by metis
  show m: "me < length (procs s)" "length (p_handles (procs s ! me)) = 64" using assms by (auto simp: can_open_def rv_const)
  show o: "p_handles (procs s ! me) ! 1 = - 1" using assms m by (simp add: can_open_def handle_of_def rv_const)
  show h: "h < 64" "p_handles (procs s ! me) ! h = 0" using assms find_free_handle [of "p_handles (procs s ! me)" h] m by (auto simp: can_open_def)
  show "h \<noteq> 1" using o h by auto
qed

lemma open_plain:
  assumes d: "dir_has me nm e ds cs s" and o: "can_open me b h s" and n: "CHR ''/'' \<notin> set nm" "length nm < 16"
  shows "\<exists>s1. CreateHandler me nm 0 s = Inr (int h, s1) \<and> opened me (int h) (b + 8) (new_file nm e) cs s1 \<and>
    header_magic (mem s1 b) = MAGIC \<and> uart_out s1 = uart_out s \<and> same_disk s s1 \<and>
    (\<exists>v. mem s1 = (mem s)(b := v)) \<and> file_cache s1 = (file_cache s)\<lparr>freelist := mem s b\<rparr> \<and>
    (\<exists>x. files s1 = (files s)(b + 8 \<mapsto> x)) \<and> procs s1 = procs (set_handle me h (b + 8) s)"
proof -
  note O = can_openD [OF o]
  let ?c = "p_cwd_cluster (procs s ! me)"
  obtain x i u where u: "find_dir_entry ?c (to_fat_name nm) s = Inr (Some (e, x, i), u)" "same_vol s u"
    using find_dir_entry_first [of s ?c ds "to_fat_name nm"] d by (auto simp: dir_has_def)
  obtain q r cp where u': "u = s\<lparr>requests := r, vq := q, fs := (fs s)\<lparr>cache_page := cp\<rparr>\<rparr>" using u(2) by (auto simp: same_vol_def)
  define s1 where "s1 = set_handle me h (b + 8) (u\<lparr>mem := (mem u)(b := header_word (objsize (file_cache u)) MAGIC),
      file_cache := (file_cache u)\<lparr>freelist := mem u b\<rparr>, files := (files u)(b + 8 \<mapsto> new_file nm e)\<rparr>)"
  have "open_file me nm (e_cluster e) (e_file_size e) u = Inr (int h, s1)"
    using O(1-3) o by (simp add: open_file_def file_alloc_def kmem_cache_alloc_def take_block_def u' can_open_def new_file_def s1_def Let_def)
  then have "CreateHandler me nm 0 s = Inr (int h, s1)"
    using d by (simp add: CreateHandler_def path_plain [OF n] u(1) dir_has_def rv_const)
  moreover have sd: "same_disk s s1" by (auto simp: same_disk_def s1_def set_handle_def upd_proc_def u')
  moreover have "opened me (int h) (b + 8) (new_file nm e) cs s1"
  proof -
    have "handle_of me (of_int (int h)) s1 = b + 8" "handle_of me 1 s1 = - 1"
      using O by (simp_all add: handle_of_def rv_const s1_def set_handle_def upd_proc_def u' sint_small unat_of_nat_small)
    then show ?thesis using d O o same_diskD [OF sd]
      by (simp add: opened_def dir_has_def can_open_def new_file_def s1_def set_handle_def upd_proc_def u')
  qed
  ultimately show ?thesis by (intro exI conjI) (auto simp: s1_def set_handle_def upd_proc_def u')
qed

text \<open>Closing gives the object back to its cache and clears the handle.\<close>

lemma close_reading:
  assumes o: "opened me (int h) (b + 8) x cs s0" and r: "reading (b + 8) x s0 s" and "header_magic (mem s0 b) = MAGIC" and "f_ref x = 1"
    and "\<not> b + 8 < 0x80000000" and "h < 64"
  shows "\<exists>s'. file_kernel me (Syscall SYS_CLOSE_HANDLE (Num (of_int (int h))) (Num 0) (Num 0)) s = (Some (0, []), s') \<and>
    uart_out s' = uart_out s \<and> same_disk s s' \<and> mem s' = (mem s0)(b := freelist (file_cache s0)) \<and>
    file_cache s' = (file_cache s0)\<lparr>freelist := b\<rparr> \<and> files s' = (files s0)(b + 8 := None) \<and> procs s' = procs (set_handle me h 0 s0)"
proof -
  obtain u out off where u: "same_vol s0 u" "s = u\<lparr>files := (files s0)(b + 8 \<mapsto> x\<lparr>f_offset := off\<rparr>), uart_out := out\<rparr>" "procs s = procs s0"
    using reading_same [OF o r] by blast
  have m: "mem s = mem s0" "file_cache s = file_cache s0" using u(1) by (auto simp: u(2) same_vol_def)
  have h: "handle_of me (of_int (int h)) s = b + 8" using o handle_cong [OF u(3)] by (simp add: opened_def)
  have nz: "b + 8 \<noteq> 0" "b + 8 \<noteq> - 1" using o by (simp_all add: opened_def)
  have f: "files s (b + 8) = Some (x\<lparr>f_offset := off\<rparr>)" "files s = (files s0)(b + 8 \<mapsto> x\<lparr>f_offset := off\<rparr>)" by (simp_all add: u(2))
  let ?s1 = "s\<lparr>mem := (mem s)(b := freelist (file_cache s)),
        file_cache := (file_cache s)\<lparr>freelist := b\<rparr>, files := (files s)(b + 8 := None)\<rparr>"
  have c: "file_close (b + 8) s = Inr ?s1"
    using assms(3-5) f(1) nz m by (simp add: file_close_def kmem_cache_free_def)
  have "nat (sint (of_int (int h) :: u32)) = h" using assms(6) by (simp add: sint_small unat_of_nat_small)
  then have "CloseHandle me (of_int (int h)) s = Inr (set_handle me h 0 ?s1)"
    using h nz c by (simp add: CloseHandle_def Let_def)
  then show ?thesis using same_disk_self [of s] m u(3) f(2) by (simp add: set_handle_def upd_proc_def same_disk_def)
qed

text \<open>Opening and closing again leaves the process table as it was.\<close>

lemma set_handle_twice:
  assumes "p_handles (procs s ! me) ! h = 0" and "procs s1 = procs (set_handle me h f s)" and "me < length (procs s)"
  shows "procs (set_handle me h 0 s1) = procs s"
proof -
  have "(p_handles (procs s ! me))[h := 0] = p_handles (procs s ! me)" using assms(1) by (metis list_update_id)
  then have "(procs s ! me)\<lparr>p_handles := (p_handles (procs s ! me))[h := 0]\<rparr> = procs s ! me" by simp
  then show ?thesis using assms(2,3) by (simp add: set_handle_def upd_proc_def)
qed

text \<open>
  C5. \<^verbatim>\<open>cat\<close> prints the file. In a process whose current directory has a file of that name, given as a plain name of at most 15 characters, with a free handle, a free
  file object and its output on the console, the program opens it, reads it in blocks of 128 bytes and writes them, closes it and returns
  0: exactly the bytes of the file have come out at the device, the disk is unchanged, and nothing is left open: the file object is gone, its block is
  back in the file cache, and kernel memory and the process table with its handles are as before. The loop
  needs one round for each block and one for the end of the file.
\<close>

theorem cat_prints_file:
  assumes "dir_has me nm e ds cs s" and "can_open me b h s" and "CHR ''/'' \<notin> set nm" and "length nm < 16"
    and "(unat (e_file_size e) + 127) div 128 < n"
  shows "\<exists>t s'. exec (file_kernel me) (cat_main n [cmd, nm]) s = (Done 0, t, s') \<and>
    uart_out s' = uart_out s @ take (unat (e_file_size e)) (chain_data s cs) \<and> disk s' = disk s \<and>
    files s' = (files s)(b + 8 := None) \<and> file_cache s' = file_cache s \<and> mem s' = mem s \<and> procs s' = procs s"
proof -
  note O = can_openD [OF assms(2)]
  define x where "x = new_file nm e"
  obtain s1 where s1: "CreateHandler me nm 0 s = Inr (int h, s1)" "opened me (int h) (b + 8) x cs s1"
      "header_magic (mem s1 b) = MAGIC" "uart_out s1 = uart_out s" "same_disk s s1"
      "\<exists>v. mem s1 = (mem s)(b := v)" "file_cache s1 = (file_cache s)\<lparr>freelist := mem s b\<rparr>"
      "\<exists>x. files s1 = (files s)(b + 8 \<mapsto> x)" "procs s1 = procs (set_handle me h (b + 8) s)"
    using open_plain [OF assms(1-4)] unfolding x_def by blast
  have x: "f_offset x = 0" "f_file_size x = e_file_size e" "f_ref x = 1" by (simp_all add: x_def new_file_def)
  have fx: "files s1 (b + 8) = Some x" using s1(2) by (simp add: opened_def)
  have rd: "reading (b + 8) x s1 s1" unfolding reading_def
    by (intro exI [of _ s1] exI [of _ "uart_out s1"] exI [of _ 0]) (use fx x(1) in \<open>simp add: fun_upd_idem\<close>)
  have lo: "left_over (b + 8) cs s1 = take (unat (e_file_size e)) (chain_data s cs)"
    using fx x same_diskD(4) [OF s1(5)] by (simp add: left_over_def)
  have "length (left_over (b + 8) cs s1) + 128 \<le> 128 * n" unfolding lo using assms(5) by (simp add: min_def) linarith
  then obtain t s2 where t: "exec (file_kernel me) (cat_copy n (int h)) s1 = (Done True, t, s2)" "reading (b + 8) x s1 s2"
      "uart_out s2 = uart_out s1 @ left_over (b + 8) cs s1"
    using fil.copy_all [of me "int h" "b + 8" x cs s1 s1 n] s1(2) rd by blast
  obtain s3 where s3: "file_kernel me (Syscall SYS_CLOSE_HANDLE (Num (of_int (int h))) (Num 0) (Num 0)) s2 = (Some (0, []), s3)"
      "uart_out s3 = uart_out s2" "same_disk s2 s3" "mem s3 = (mem s1)(b := freelist (file_cache s1))"
      "file_cache s3 = (file_cache s1)\<lparr>freelist := b\<rparr>" "files s3 = (files s1)(b + 8 := None)" "procs s3 = procs (set_handle me h 0 s1)"
    using close_reading [OF s1(2) t(2) s1(3) x(3) O(11,5)] by blast
  have bk: "files s3 = (files s)(b + 8 := None)" "file_cache s3 = file_cache s" "mem s3 = mem s" "procs s3 = procs s"
    using s1(6-9) s3(4-7) O(1) set_handle_twice [OF O(10) s1(9) O(7)] by auto
  have "same_disk s1 s2" using t(2) by (auto simp: reading_def same_vol_def same_disk_def)
  then have d: "disk s3 = disk s" using s1(5) s3(3) by (simp add: same_disk_def)
  have hh: "i32 (of_int (int h)) = int h" "h < 64" using can_openD(5) [OF assms(2)] by (auto intro: i32_small)
  have "exec (file_kernel me) (pseq (cat_copy n (int h)) (pseq (close_handle (int h)) (Ret (0 :: int)))) s1 =
      (Done 0, t @ [Syscall SYS_CLOSE_HANDLE (Num (of_int (int h))) (Num 0) (Num 0)], s3)"
    unfolding pseq_def using s3(1)
    by (intro exec_bind [OF t(1)]) (simp add: close_handle_def wrapper_defs)
  moreover have "file_kernel me (Syscall SYS_CREATE_FILE (Str nm) (Num 0) (Num 0)) s = (Some (of_int (int h), []), s1)"
    using s1(1) assms(4) by simp
  ultimately show ?thesis
    using d bk s3(2) t(3) lo s1(4) hh by (simp add: cat_main_def file_open_def wrapper_defs rv_const)
qed

text \<open>
  The demonstration volume in the current directory of a process whose standard handles are the console; the file cache has one slab
  page with one block, which is free.
\<close>

definition demo_cat :: kernel where
  "demo_cat = (RV_Disk.demo_kernel demo_root)
     \<lparr>procs := [demo_pcb\<lparr>p_cwd_cluster := 2, p_handles := [- 1, - 1] @ replicate 62 0\<rparr>],
      mem := (\<lambda>_. 0)(0x87FF9000 := 0x87FFF000), km_start := 0x87FF8000, km_npage := 8, km_bitmap := [0x83],
      file_cache := \<lparr>freelist = 0x87FFF000, objsize = 4088, pages = 0x87FF9000\<rparr>\<rparr>"

lemma demo_cat_disk: "same_disk (RV_Disk.demo_kernel demo_root) demo_cat"
  using same_disk_self [of "RV_Disk.demo_kernel demo_root"] by (simp add: demo_cat_def same_disk_def)

lemma demo_cat_cache: "cache_wf demo_cat (file_cache demo_cat) [(0x87FF9000, 0x87FFF000)] [0x87FFF000] {}"
proof -
  have wf: "phys_wf demo_cat" by (simp add: phys_wf_def demo_cat_def page_used_def rv_const)
  have n: "km_npage demo_cat = 8" "km_bitmap demo_cat = [0x83]" by (simp_all add: demo_cat_def)
  have l: "page_addr demo_cat i \<in> live_pages demo_cat" if "i = 1 \<or> i = 7" for i
  proof -
    have "page_addr demo_cat i \<noteq> page_addr demo_cat j" if "int j < 8" "\<not> page_used [0x83] j" for j
      using page_addr_inj [OF wf, of i j] that \<open>i = 1 \<or> i = 7\<close> n by (auto simp: page_used_def)
    then show ?thesis using that n unfolding live_pages_def pool_pages_def free_pages_def by auto
  qed
  have "page_addr demo_cat 1 = 0x87FF9000" "page_addr demo_cat 7 = 0x87FFF000" by (simp_all add: page_addr_def demo_cat_def rv_const)
  then have "{0x87FF9000, 0x87FFF000} \<subseteq> live_pages demo_cat" using l [of 1] l [of 7] by simp
  moreover have "unat (actual_size (file_cache demo_cat)) = 4096" by (simp add: demo_cat_def actual_size_def ALIGN_UP_def)
  then have "blocks_of (unat (actual_size (file_cache demo_cat))) 0x87FFF000 = [0x87FFF000]" by (simp add: blocks_of_def blk_def)
  moreover have "mem demo_cat = (\<lambda>_. 0)(0x87FF9000 := 0x87FFF000)" "objsize (file_cache demo_cat) = 4088"
    "freelist (file_cache demo_cat) = 0x87FFF000" "pages (file_cache demo_cat) = 0x87FF9000" by (simp_all add: demo_cat_def)
  ultimately show ?thesis using wf by (simp add: cache_wf_def cache_pages_def)
qed

lemma demo_cat_open: "can_open 0 0x87FFF000 2 demo_cat"
proof -
  have h: "procs demo_cat ! 0 = demo_pcb\<lparr>p_cwd_cluster := 2, p_handles := [- 1, - 1] @ replicate 62 0\<rparr>" "length (procs demo_cat) = 1"
    "uart_inited demo_cat" by (simp_all add: demo_cat_def RV_Disk.demo_kernel_def demo_uart_def uart.defs proc_table.defs)
  have "free_handle ([- 1, - 1] @ replicate 62 0) = Some 2" by code_simp
  then show ?thesis using demo_cat_cache h unfolding can_open_def by (auto simp: handle_of_def rv_const)
qed

lemma demo_cat_data: "chain_data demo_cat [4, 6] = replicate 512 65 @ replicate 512 66"
proof -
  let ?k = "RV_Disk.demo_kernel demo_root"
  have "cluster_list ?k 4 = [4]" "cluster_list ?k 6 = [6]" by code_simp+
  moreover have "disk ?k = demo_root" by (simp add: RV_Disk.demo_kernel_def uart.defs)
  ultimately show ?thesis unfolding same_diskD(4) [OF demo_cat_disk] by (simp add: chain_data_def cluster_data_def demo_root_def)
qed

lemma demo_cat_has: "dir_has 0 ''a'' (dir_entry (demo_root 2) 0) [2, 3] [4, 6] demo_cat"
proof -
  note D = same_diskD [OF demo_cat_disk]
  let ?e = "dir_entry (demo_root 2) 0" and ?k = "RV_Disk.demo_kernel demo_root"
  have e: "?e ! 0 \<noteq> 0 \<and> ?e ! 0 \<noteq> 0xE5 \<and> e_attr ?e \<noteq> ATTR_LONG_NAME \<and> e_name ?e = to_fat_name ''a''"
    "e_attr ?e AND ATTR_DIRECTORY = 0" "e_cluster ?e = 4" "e_file_size ?e = 600" by code_simp+
  have c: "chain_at (fatval ?k) 2 [2, 3]" "chain_at (fatval ?k) 4 [4, 6]" by code_simp+
  obtain xs where xs: "dir_entries ?k [2, 3] = (2, 0, ?e) # xs" using demo_root_entries by auto
  have p: "p_cwd_cluster (procs demo_cat ! 0) = 2" by (simp add: demo_cat_def)
  show ?thesis unfolding dir_has_def p e(3,4) demo_cat_data unfolding D xs
    using demo_root_wf e(1,2) c by auto
qed

theorem cat_prints_file_witness:
  "\<exists>t s'. exec (file_kernel 0) (cat_main 6 [''cat'', ''a'']) demo_cat = (Done 0, t, s') \<and>
     uart_out s' = replicate 512 65 @ replicate 88 66 \<and> procs s' = procs demo_cat \<and> file_cache s' = file_cache demo_cat"
proof -
  have e: "e_file_size (dir_entry (demo_root 2) 0) = 600" by code_simp
  have "uart_out demo_cat = []" by (simp add: demo_cat_def RV_Disk.demo_kernel_def demo_uart_def uart.defs proc_table.defs)
  then show ?thesis
    using cat_prints_file [OF demo_cat_has demo_cat_open, of 6 "''cat''"] e demo_cat_data by auto
qed

end
