(* ===== verification/RV_Heapmem.thy ===== *)
theory RV_Heapmem
  imports RV_Malloc RV_Strings RV_Disk
begin

text \<open>
  The heap of a program inside its memory. The headers of \<open>RV_Malloc\<close> are bytes of the program's address space: 8 bytes \<^verbatim>\<open>ptr\<close> and 4 bytes \<^verbatim>\<open>size\<close>, lowest byte
  first, at the start of a block (\<^verbatim>\<open>union header\<close> of \<^verbatim>\<open>userspace/include/stdlib.c\<close>). \<open>heap_of\<close> reads them, and a call of \<^verbatim>\<open>malloc\<close> or \<^verbatim>\<open>free\<close> writes those it changed back, so a store that
  runs over the end of a block changes the header behind it. Shown is that the allocator's stores stay clear of the contents of the blocks handed out, and that stores into
  such a block stay clear of the headers.
\<close>

subsection \<open>Definitions\<close>

record uspace =
  us_freep :: nat
  us_brk :: nat
  us_mem :: bytemem

definition to_le64 :: "u64 \<Rightarrow> u8 list" where
  "to_le64 v = map (\<lambda>k. ucast (drop_bit (8 * k) v)) [0..<8]"

fun of_le64 :: "u8 list \<Rightarrow> u64" where
  "of_le64 [] = 0"
| "of_le64 (b # bs) = ucast b OR push_bit 8 (of_le64 bs)"

definition bytes_at :: "bytemem \<Rightarrow> nat \<Rightarrow> nat \<Rightarrow> u8 list" where
  "bytes_at m a n = map (\<lambda>k. m (of_nat (a + k))) [0..<n]"

text \<open>A pointer in memory.\<close>

definition load_ptr :: "nat \<Rightarrow> uspace \<Rightarrow> nat" where
  "load_ptr a u = unat (of_le64 (bytes_at (us_mem u) a 8))"

definition store_ptr :: "nat \<Rightarrow> nat \<Rightarrow> uspace \<Rightarrow> uspace" where
  "store_ptr a p u =
     u\<lparr>us_mem := (\<lambda>x. if a \<le> unat x \<and> unat x < a + 8 then to_le64 (of_nat p) ! (unat x - a) else us_mem u x)\<rparr>"

definition heap_of :: "uspace \<Rightarrow> uheap" where
  "heap_of u = \<lparr>hptr = (\<lambda>a. load_ptr a u), hsize = (\<lambda>a. unat (of_le (bytes_at (us_mem u) (a + 8) 4))),
     freep = us_freep u, ubrk = us_brk u\<rparr>"

definition header_bytes :: "uheap \<Rightarrow> nat \<Rightarrow> u8 list" where
  "header_bytes s a = to_le64 (of_nat (hptr s a)) @ to_le32 (of_nat (hsize s a))"

definition moved :: "uheap \<Rightarrow> uheap \<Rightarrow> nat \<Rightarrow> bool" where
  "moved s s' a \<longleftrightarrow> hptr s' a \<noteq> hptr s a \<or> hsize s' a \<noteq> hsize s a"

definition put_headers :: "uheap \<Rightarrow> uheap \<Rightarrow> bytemem \<Rightarrow> bytemem" where
  "put_headers s s' m x =
     (case find (moved s s') [unat x - 11..<Suc (unat x)] of None \<Rightarrow> m x | Some a \<Rightarrow> header_bytes s' a ! (unat x - a))"

definition back_in :: "uspace \<Rightarrow> uheap \<Rightarrow> uspace" where
  "back_in u s' = \<lparr>us_freep = freep s', us_brk = ubrk s', us_mem = put_headers (heap_of u) s' (us_mem u)\<rparr>"

definition umalloc :: "(nat \<Rightarrow> nat \<Rightarrow> bool) \<Rightarrow> nat \<Rightarrow> nat \<Rightarrow> uspace \<Rightarrow> (nat \<times> uspace) res" where
  "umalloc room base nbytes u = rbind (malloc room base nbytes (heap_of u)) (\<lambda>(p, s'). Inr (p, back_in u s'))"

definition ufree :: "nat \<Rightarrow> uspace \<Rightarrow> uspace res" where
  "ufree ap u = rbind (free ap (heap_of u)) (\<lambda>s'. Inr (back_in u s'))"

subsection \<open>Bytes\<close>

lemma of_to_le64: "of_le64 (to_le64 v) = v"
proof -
  have e: "[0..<8] = [0, 1, 2, 3, 4, 5, 6, 7 :: nat]" by (simp add: upt_rec)
  show ?thesis
  proof (rule bit_word_eqI)
    fix n assume "n < LENGTH(64)"
    then have "n < 64" by simp
    then consider "n < 8" | "8 \<le> n \<and> n < 16" | "16 \<le> n \<and> n < 24" | "24 \<le> n \<and> n < 32" | "32 \<le> n \<and> n < 40" | "40 \<le> n \<and> n < 48"
      | "48 \<le> n \<and> n < 56" | "56 \<le> n" by linarith
    then show "bit (of_le64 (to_le64 v)) n = bit v n"
      using \<open>n < 64\<close> unfolding to_le64_def e by cases (auto simp: bit_simps)
  qed
qed

lemma length_to_le64 [simp]: "length (to_le64 v) = 8"
  by (simp add: to_le64_def)

lemma bytes_at_eq: "(\<And>k. k < n \<Longrightarrow> m (of_nat (a + k)) = bs ! k) \<Longrightarrow> length bs = n \<Longrightarrow> bytes_at m a n = bs"
  by (rule nth_equalityI) (simp_all add: bytes_at_def)

lemma bytes_at_cong: "(\<And>k. k < n \<Longrightarrow> m' (of_nat (a + k)) = m (of_nat (a + k))) \<Longrightarrow> bytes_at m' a n = bytes_at m a n"
  by (simp add: bytes_at_def)

lemma load_ptr_cong: "(\<And>k. k < 8 \<Longrightarrow> us_mem u' (of_nat (a + k)) = us_mem u (of_nat (a + k))) \<Longrightarrow> load_ptr a u' = load_ptr a u"
  unfolding load_ptr_def using bytes_at_cong [of 8 "us_mem u'" a "us_mem u"] by simp

lemma store_ptr_mem: "x < 2 ^ 64 \<Longrightarrow> us_mem (store_ptr a p u) (of_nat x) =
    (if a \<le> x \<and> x < a + 8 then to_le64 (of_nat p) ! (x - a) else us_mem u (of_nat x))"
  by (simp add: store_ptr_def unat_of_nat_small)

lemma load_store_ptr:
  assumes "a + 8 \<le> 2 ^ 64" and "p < 2 ^ 64"
  shows "load_ptr a (store_ptr a p u) = p"
proof -
  have "bytes_at (us_mem (store_ptr a p u)) a 8 = to_le64 (of_nat p)"
    by (rule bytes_at_eq) (use assms(1) in \<open>simp_all add: store_ptr_mem del: of_nat_add\<close>)
  then show ?thesis using assms(2) by (simp add: load_ptr_def of_to_le64 unat_of_nat_small)
qed

subsection \<open>Where the allocator stores\<close>

text \<open>Addresses a multiple of 16 from the start of the heap that are not inside a block of \<open>A\<close>, and the static header.\<close>

definition spots :: "nat \<Rightarrow> nat \<Rightarrow> uheap \<Rightarrow> nat set \<Rightarrow> nat set" where
  "spots b lo s A = {a. a = b \<or> lo \<le> a \<and> a \<le> lo + 2 ^ 31 \<and> 16 dvd (a - lo) \<and> (\<forall>y \<in> A. a \<le> y \<or> stop s y \<le> a)}"

lemma spots_cong: "\<forall>y \<in> A. hsize s' y = hsize s y \<Longrightarrow> spots b lo s' A = spots b lo s A"
  by (simp add: spots_def stop_def)

lemma aligned_add: "lo \<le> y \<Longrightarrow> 16 dvd (y - lo) \<Longrightarrow> 16 dvd (y + 16 * n - lo :: nat)"
proof -
  assume "lo \<le> y" and d: "16 dvd (y - lo)"
  then have "y + 16 * n - lo = (y - lo) + 16 * n" by simp
  then show ?thesis using d by simp
qed

lemma blocks_aligned:
  assumes w: "weak_inv b lo s N A"
  shows "x \<in> N - {b} \<union> A \<Longrightarrow> 16 dvd (x - lo)"
proof (induction x rule: less_induct)
  case (less x)
  note B = weak_block [OF w less.prems]
  show ?case
  proof (cases "x = lo")
    case False
    then have "lo \<le> x - 1" "x - 1 < ubrk s" using B by (auto simp: stop_def)
    then obtain y where y: "y \<in> N - {b} \<union> A" "y \<le> x - 1" "x - 1 < stop s y" using weak_cover [OF w] by blast
    then have "y < x" using False B by linarith
    then have "stop s y \<le> x" using weak_sep [OF w y(1) less.prems] by simp
    then have x: "x = y + 16 * hsize s y" using y(3) by (simp add: stop_def)
    show ?thesis unfolding x by (rule aligned_add) (use weak_block [OF w y(1)] less.IH [OF \<open>y < x\<close> y(1)] in simp_all)
  qed simp
qed

lemma block_spots: "weak_inv b lo s N A \<Longrightarrow> x \<in> N \<union> A \<Longrightarrow> x \<in> spots b lo s A"
proof -
  assume w: "weak_inv b lo s N A" and x: "x \<in> N \<union> A"
  show ?thesis
  proof (cases "x = b")
    case False
    then have x': "x \<in> N - {b} \<union> A" using x by auto
    have "x \<le> lo + 2 ^ 31" using weak_block [OF w x'] w by (simp add: weak_inv_def stop_def)
    moreover have "x \<le> y \<or> stop s y \<le> x" if "y \<in> A" for y using weak_sep [OF w, of y x] x' that by (cases "y < x") auto
    ultimately show ?thesis using weak_block [OF w x'] blocks_aligned [OF w x'] by (simp add: spots_def)
  qed (simp add: spots_def)
qed

lemma brk_spots: "weak_inv b lo s N A \<Longrightarrow> ubrk s \<in> spots b lo s A"
proof -
  assume w: "weak_inv b lo s N A"
  then have l: "lo \<le> ubrk s" "ubrk s \<le> lo + 2 ^ 31" by (simp_all add: weak_inv_def)
  have "16 dvd (ubrk s - lo)"
  proof (cases "ubrk s = lo")
    case False
    then have "lo \<le> ubrk s - 1" "ubrk s - 1 < ubrk s" using l by linarith+
    then obtain y where y: "y \<in> N - {b} \<union> A" "y \<le> ubrk s - 1" "ubrk s - 1 < stop s y" using weak_cover [OF w] by blast
    then have e: "ubrk s = y + 16 * hsize s y" using weak_block [OF w y(1)] by (simp add: stop_def) linarith
    show ?thesis unfolding e by (rule aligned_add) (use weak_block [OF w y(1)] blocks_aligned [OF w y(1)] in simp_all)
  qed simp
  moreover have "stop s y \<le> ubrk s" if "y \<in> A" for y using weak_block [OF w, of y] that by simp
  ultimately show ?thesis using l by (simp add: spots_def)
qed

lemma free_find_in: "free_find n bp p s = Inr q \<Longrightarrow> p \<in> N \<Longrightarrow> \<forall>p \<in> N. hptr s p \<in> N \<Longrightarrow> q \<in> N"
  by (induction n arbitrary: p) (auto split: if_splits)

lemma free_moved:
  assumes "free (x + 16) s = Inr s'" and "freep s \<in> N" and "\<forall>p \<in> N. hptr s p \<in> N" and "moved s s' a"
  shows "a = x \<or> a \<in> N"
proof -
  obtain p where p: "free_find (nodes_max s) x (freep s) s = Inr p" "s' = (give_back p x s)\<lparr>freep := p\<rparr>"
    using assms(1) by (auto simp: free_def Let_def rbind_def split: if_splits sum.splits)
  then have "p \<in> N" using free_find_in assms(2,3) by blast
  moreover have "a = p \<or> a = x" using assms(4) unfolding p(2) by (auto simp: moved_def give_back_def Let_def split: if_splits)
  ultimately show ?thesis by blast
qed

lemma ring_closed: "heap_inv b lo s N A \<Longrightarrow> freep s \<in> N \<and> (\<forall>p \<in> N. hptr s p \<in> N)"
  by (auto simp: heap_inv_def weak_inv_def free_ring_def intro: nxt_in)

lemma morecore_moved:
  assumes "heap_inv b lo s N A" and "morecore room n s = Inr (p, s')" and "moved s s' a"
  shows "a = ubrk s \<or> a \<in> N"
proof -
  define nu where "nu = (if n < 4096 then 4096 else n)"
  have m: "morecore room n s = (case sbrk room (to_int32 (nu * 16)) s of (None, s1) \<Rightarrow> Inr (0, s1)
      | (Some cp, s1) \<Rightarrow> rbind (free (cp + 16) (resize cp nu s1)) (\<lambda>s2. Inr (freep s2, s2)))"
    by (simp only: morecore_def Let_def flip: nu_def)
  have "s' \<noteq> s" using assms(3) by (auto simp: moved_def)
  then obtain c where c: "sbrk room (to_int32 (nu * 16)) s = (Some (ubrk s), s\<lparr>ubrk := c\<rparr>)"
    using assms(2) unfolding m by (auto simp: sbrk_def split: if_splits)
  let ?r = "resize (ubrk s) nu (s\<lparr>ubrk := c\<rparr>)"
  have f: "free (ubrk s + 16) ?r = Inr s'" using assms(2) unfolding m c by (auto simp: rbind_def split: sum.splits)
  show ?thesis
  proof (cases "moved ?r s' a")
    case True
    then show ?thesis using free_moved [OF f, of N a] ring_closed [OF assms(1)] by simp
  next
    case False
    then show ?thesis using assms(3) by (auto simp: moved_def split: if_splits)
  qed
qed

lemma carve_moved:
  assumes w: "weak_inv b lo s N A" and "p \<in> N" and "q \<in> N" and n: "0 < n" "n \<le> hsize s p" and "carve n q p s = (r, s')" and "moved s s' a"
  shows "a \<in> spots b lo s A"
proof -
  have pb: "p \<in> N - {b} \<union> A" using assms(2) n w by (auto simp: weak_inv_def)
  let ?q = "p + 16 * ((hsize s p - n) mod 2 ^ 32)"
  have q: "p \<le> ?q" "?q \<le> stop s p" "16 dvd (?q - lo)" "lo \<le> p" "stop s p \<le> lo + 2 ^ 31"
  proof -
    have "(hsize s p - n) mod 2 ^ 32 \<le> hsize s p" using mod_less_eq_dividend [of "hsize s p - n" "2 ^ 32"] by linarith
    then show "p \<le> ?q" "?q \<le> stop s p" by (simp_all add: stop_def)
    show l: "lo \<le> p" "stop s p \<le> lo + 2 ^ 31" using weak_block [OF w pb] w by (simp_all add: weak_inv_def)
    show "16 dvd (?q - lo)" by (rule aligned_add) (use l blocks_aligned [OF w pb] in simp_all)
  qed
  have "?q \<le> y \<or> stop s y \<le> ?q" if "y \<in> A" for y
  proof -
    have "y \<noteq> p" using that assms(2) w by (auto simp: weak_inv_def)
    then show ?thesis using weak_sep [OF w, of y p] weak_sep [OF w, of p y] pb that q by (cases "y < p") auto
  qed
  then have "?q \<in> spots b lo s A" using q by (simp add: spots_def)
  moreover have "a \<in> {p, q, ?q}" using assms(6,7) by (auto simp: carve_def moved_def Let_def split: if_splits)
  ultimately show ?thesis using block_spots [OF w] assms(2,3) by auto
qed

lemma moved_trans: "moved s s' a \<Longrightarrow> moved s r a \<or> moved r s' a"
  by (auto simp: moved_def)

lemma loop_moved:
  assumes "16 * n < 2 ^ 31" and "0 < n" and bound: "\<And>a c. room a c \<Longrightarrow> a + c \<le> lo + 2 ^ 31"
  shows "heap_inv b lo s N A \<Longrightarrow> q \<in> N \<Longrightarrow> p \<in> N \<Longrightarrow> malloc_loop k room n q p s = Inr (r, s') \<Longrightarrow> moved s s' a \<Longrightarrow> a \<in> spots b lo s A"
proof (induction k arbitrary: q p s N)
  case (Suc k)
  have w: "weak_inv b lo s N A" using Suc.prems(1) by (simp add: heap_inv_def)
  note R = ring_closed [OF Suc.prems(1)]
  consider "n \<le> hsize s p" | "\<not> n \<le> hsize s p" "p \<noteq> freep s" | "\<not> n \<le> hsize s p" "p = freep s" by blast
  then show ?case
  proof cases
    case 1
    then have "carve n q p s = (r, s')" using Suc.prems(4) by simp
    then show ?thesis using carve_moved [OF w Suc.prems(3,2) assms(2) 1] Suc.prems(5) by blast
  next
    case 2
    then have "malloc_loop k room n p (hptr s p) s = Inr (r, s')" using Suc.prems(4) by simp
    then show ?thesis using Suc.IH [OF Suc.prems(1,3)] R Suc.prems(3,5) by blast
  next
    case 3
    from morecore_ok [OF Suc.prems(1) assms(1) bound] consider "morecore room n s = Inr (0, s)"
      | s1 N1 where "morecore room n s = Inr (freep s1, s1)" "heap_inv b lo s1 N1 A" "\<forall>y \<in> A. hsize s1 y = hsize s y" by blast
    then show ?thesis
    proof cases
      case 1
      then show ?thesis using 3 Suc.prems(4,5) by (auto simp: moved_def)
    next
      case 2
      note R1 = ring_closed [OF 2(2)]
      have sp: "c \<in> spots b lo s A" if "moved s s1 c" for c
        using morecore_moved [OF Suc.prems(1) 2(1) that] block_spots [OF w] brk_spots [OF w] by auto
      consider "s' = s1" | "malloc_loop k room n (freep s1) (hptr s1 (freep s1)) s1 = Inr (r, s')"
        using 2(1) 3 Suc.prems(4) by (auto split: if_splits)
      then show ?thesis
      proof cases
        case 1
        then show ?thesis using sp Suc.prems(5) by simp
      next
        case l: 2
        show ?thesis using moved_trans [OF Suc.prems(5), of s1]
        proof
          assume "moved s1 s' a"
          then have "a \<in> spots b lo s1 A" using Suc.IH [OF 2(2) _ _ l] R1 by blast
          then show ?thesis using spots_cong [OF 2(3)] by simp
        qed (rule sp)
      qed
    qed
  qed
qed simp

lemma malloc_moved:
  assumes "uheap_ok b lo s A" and "nbytes < 2 ^ 31 - 64" and "\<And>a c. room a c \<Longrightarrow> a + c \<le> lo + 2 ^ 31"
    and "malloc room b nbytes s = Inr (p, s')" and "moved s s' a"
  shows "a \<in> spots b lo s A"
proof -
  define s1 where "s1 = (if freep s = 0 then (resize b 0 (link b b s))\<lparr>freep := b\<rparr> else s)"
  obtain N where h: "heap_inv b lo s1 N A" and z: "\<forall>y \<in> A. hsize s1 y = hsize s y"
  proof (cases "freep s = 0")
    case True
    then have "A = {} \<and> heap_inv b lo s1 {b} A"
      using assms(1) first_call [of s lo b] by (auto simp: uheap_ok_def s1_def heap_inv_def weak_inv_def free_ring_def)
    then show ?thesis using that [of "{b}"] True by (auto simp: s1_def)
  next
    case False
    then show ?thesis using assms(1) that by (auto simp: uheap_ok_def s1_def)
  qed
  have l: "malloc_loop (2 * nodes_max s1 + 2) room (units nbytes) (freep s1) (hptr s1 (freep s1)) s1 = Inr (p, s')"
    using assms(4) by (simp add: malloc_def s1_def Let_def)
  show ?thesis using moved_trans [OF assms(5), of s1]
  proof
    assume "moved s s1 a"
    then show ?thesis by (auto simp: moved_def s1_def spots_def split: if_splits)
  next
    assume "moved s1 s' a"
    then have "a \<in> spots b lo s1 A" using loop_moved [OF _ _ assms(3) h _ _ l] ring_closed [OF h] units_small [OF assms(2)] by blast
    then show ?thesis using spots_cong [OF z] by simp
  qed
qed

subsection \<open>Writing the headers back\<close>

text \<open>A program whose heap is in order; the static header is 16 bytes below the heap or further down.\<close>

definition uspace_ok :: "nat \<Rightarrow> nat \<Rightarrow> uspace \<Rightarrow> nat set \<Rightarrow> bool" where
  "uspace_ok b lo u A \<longleftrightarrow> uheap_ok b lo (heap_of u) A \<and> b + 16 \<le> lo \<and> lo \<le> 2 ^ 38"

text \<open>The contents of a block, and that all blocks of \<open>A\<close> keep their size and contents.\<close>

definition inside :: "uspace \<Rightarrow> nat \<Rightarrow> nat set" where
  "inside u y = {y + 16..<stop (heap_of u) y}"

definition keeps :: "nat set \<Rightarrow> uspace \<Rightarrow> uspace \<Rightarrow> bool" where
  "keeps A u u' \<longleftrightarrow> (\<forall>y \<in> A. hsize (heap_of u') y = hsize (heap_of u) y \<and>
     (\<forall>a \<in> inside u y. us_mem u' (of_nat a) = us_mem u (of_nat a)))"

lemma spots_apart:
  "a \<in> spots b lo s A \<Longrightarrow> c \<in> spots b lo s' A' \<Longrightarrow> b + 16 \<le> lo \<Longrightarrow> c \<le> a + k \<Longrightarrow> a + k \<le> c + 11 \<Longrightarrow> k < 12 \<Longrightarrow> c = a"
proof -
  assume a: "a \<in> spots b lo s A" "c \<in> spots b lo s' A'" and b: "b + 16 \<le> lo" and k: "c \<le> a + k" "a + k \<le> c + 11" "k < 12"
  consider "a = b" "c = b" | "a = b" "lo \<le> c" | "c = b" "lo \<le> a" | "lo \<le> a" "lo \<le> c" "16 dvd (a - lo)" "16 dvd (c - lo)"
    using a by (auto simp: spots_def)
  then show ?thesis
  proof cases
    case 4
    then obtain i j where "a = lo + 16 * i" "c = lo + 16 * j" by (metis dvdE le_add_diff_inverse)
    moreover from this have "i \<le> j" "j \<le> i" using k by linarith+
    ultimately show ?thesis by simp
  qed (use b k in simp_all)
qed

lemma find_SomeD: "find P xs = Some c \<Longrightarrow> c \<in> set xs \<and> P c"
  by (induction xs) (auto split: if_splits)

lemma put_headers_spot:
  assumes "\<And>c. moved s s' c \<Longrightarrow> c \<in> spots b lo r A" and "a \<in> spots b lo r' A'" and "b + 16 \<le> lo" and "lo \<le> 2 ^ 38" and "k < 12"
  shows "put_headers s s' m (of_nat (a + k)) = (if moved s s' a then header_bytes s' a ! k else m (of_nat (a + k)))"
proof -
  have "a \<le> 2 ^ 38 + 2 ^ 31" using assms(2-4) by (auto simp: spots_def)
  then have u: "unat (of_nat (a + k) :: u64) = a + k" using assms(5) by (simp add: unat_of_nat_small del: of_nat_add)
  have only: "c = a" if "find (moved s s') [a + k - 11..<Suc (a + k)] = Some c" for c
    using find_SomeD [OF that] spots_apart [OF assms(2) assms(1) assms(3) _ _ assms(5), of c] by auto
  show ?thesis
  proof (cases "moved s s' a")
    case True
    moreover have "a \<in> set [a + k - 11..<Suc (a + k)]" using assms(5) by auto
    ultimately have "find (moved s s') [a + k - 11..<Suc (a + k)] \<noteq> None" by (auto simp: find_None_iff)
    then obtain c where c: "find (moved s s') [a + k - 11..<Suc (a + k)] = Some c" by blast
    show ?thesis unfolding put_headers_def u c using only [OF c] True by simp
  next
    case False
    have "find (moved s s') [a + k - 11..<Suc (a + k)] = None"
    proof (rule ccontr)
      assume "find (moved s s') [a + k - 11..<Suc (a + k)] \<noteq> None"
      then obtain c where c: "find (moved s s') [a + k - 11..<Suc (a + k)] = Some c" by blast
      then have "moved s s' c" using find_SomeD [OF c] by simp
      then show False using only [OF c] False by simp
    qed
    then show ?thesis unfolding put_headers_def u using False by simp
  qed
qed

lemma put_headers_inside:
  assumes "\<And>c. moved s s' c \<Longrightarrow> c \<in> spots b lo s A" and "y \<in> A" and "y + 16 \<le> a" and "a < stop s y" and "lo \<le> y" and "b + 16 \<le> lo" and "a < 2 ^ 64"
  shows "put_headers s s' m (of_nat a) = m (of_nat a)"
proof -
  have u: "unat (of_nat a :: u64) = a" using assms(7) by (simp add: unat_of_nat_small)
  have "\<not> moved s s' c" if "c \<in> set [a - 11..<Suc a]" for c
  proof
    assume "moved s s' c"
    then have "c \<in> spots b lo s A" by (rule assms(1))
    then have "c = b \<or> c \<le> y \<or> stop s y \<le> c" using assms(2) by (auto simp: spots_def)
    then show False using that assms(3-6) by auto
  qed
  then have "find (moved s s') [a - 11..<Suc a] = None" by (auto simp: find_None_iff)
  then show ?thesis using u by (simp add: put_headers_def)
qed

text \<open>The invariant depends on the links of the free blocks and the sizes of all blocks only.\<close>

lemma heap_inv_cong:
  assumes "heap_inv b lo s N A" and "\<And>a. a \<in> N \<Longrightarrow> hptr s' a = hptr s a" and "\<And>a. a \<in> N \<union> A \<Longrightarrow> hsize s' a = hsize s a"
    and "freep s' = freep s" and "ubrk s' = ubrk s"
  shows "heap_inv b lo s' N A"
proof -
  have st: "stop s' a = stop s a" if "a \<in> N \<union> A" for a using assms(3) [OF that] by (simp add: stop_def)
  have r: "free_ring b s' N" "b \<in> N" using assms(1,2) by (auto simp: heap_inv_def weak_inv_def free_ring_def)
  have B: "blocks_ok lo s' B = blocks_ok lo s B" if "B \<subseteq> N \<union> A" for B
    unfolding blocks_ok_def assms(5) using st assms(3) that by (intro arg_cong2 [where f = "(\<and>)"] ball_cong all_cong bex_cong refl) (auto simp: subset_iff)
  have "blocks_ok lo s' (N - {b} \<union> A) = blocks_ok lo s (N - {b} \<union> A)" by (rule B) auto
  moreover have "touch b s' N = touch b s N" using st by (auto simp: touch_def)
  ultimately show ?thesis using assms(1,4,5) assms(3) [of b] r by (simp add: heap_inv_def weak_inv_def)
qed

lemma heap_small:
  assumes "heap_inv b lo s N A" and "a \<in> N \<union> A"
  shows "hsize s a < 2 ^ 32" and "a \<in> N \<Longrightarrow> hptr s a < 2 ^ 64" and "stop s a < 2 ^ 64"
proof -
  have w: "weak_inv b lo s N A" using assms(1) by (simp add: heap_inv_def)
  have z: "hsize s b = 0" "b < lo" "lo \<le> 2 ^ 38" "ubrk s \<le> lo + 2 ^ 31" using w by (simp_all add: weak_inv_def)
  have st: "stop s c \<le> lo + 2 ^ 31 \<and> hsize s c < 2 ^ 32" if "c \<in> N \<union> A" for c
  proof (cases "c = b")
    case False
    then show ?thesis using weak_block [OF w, of c] that z(4) by (auto simp: stop_def)
  qed (use z in \<open>simp add: stop_def\<close>)
  show "hsize s a < 2 ^ 32" "stop s a < 2 ^ 64" using st [OF assms(2)] z(3) by simp_all
  assume "a \<in> N"
  then have "hptr s a \<in> N" using ring_closed [OF assms(1)] by blast
  then have "stop s (hptr s a) \<le> lo + 2 ^ 31" using st by blast
  then show "hptr s a < 2 ^ 64" using z(3) by (simp add: stop_def)
qed

lemma heap_of_simps [simp]: "freep (heap_of u) = us_freep u" "ubrk (heap_of u) = us_brk u" "hptr (heap_of u) a = load_ptr a u"
  "hsize (heap_of u) a = unat (of_le (bytes_at (us_mem u) (a + 8) 4))"
  by (simp_all add: heap_of_def)

lemma back_in_fields [simp]: "us_freep (back_in u s) = freep s" "us_brk (back_in u s) = ubrk s" "us_mem (back_in u s) = put_headers (heap_of u) s (us_mem u)"
  by (simp_all add: back_in_def)

text \<open>What the allocator wrote is what it reads later.\<close>

lemma back_in_header:
  assumes "\<And>c. moved (heap_of u) s' c \<Longrightarrow> c \<in> spots b lo r A" and "a \<in> spots b lo r' A'" and "b + 16 \<le> lo" and "lo \<le> 2 ^ 38"
  shows "hptr s' a < 2 ^ 64 \<Longrightarrow> hptr (heap_of (back_in u s')) a = hptr s' a" and "hsize s' a < 2 ^ 32 \<Longrightarrow> hsize (heap_of (back_in u s')) a = hsize s' a"
proof -
  let ?m = "us_mem (back_in u s')" and ?M = "moved (heap_of u) s' a"
  have byte: "?m (of_nat (a + k)) = (if ?M then header_bytes s' a ! k else us_mem u (of_nat (a + k)))" if "k < 12" for k
    unfolding back_in_fields by (rule put_headers_spot [OF assms that])
  have p: "bytes_at ?m a 8 = (if ?M then to_le64 (of_nat (hptr s' a)) else bytes_at (us_mem u) a 8)"
    by (rule bytes_at_eq) (use byte in \<open>auto simp: header_bytes_def nth_append bytes_at_def simp del: of_nat_add\<close>)
  have "?m (of_nat (a + 8 + k)) = (if ?M then to_le32 (of_nat (hsize s' a)) ! k else us_mem u (of_nat (a + 8 + k)))" if "k < 4" for k
    using byte [of "8 + k"] that by (simp add: header_bytes_def nth_append add.assoc del: of_nat_add)
  then have z: "bytes_at ?m (a + 8) 4 = (if ?M then to_le32 (of_nat (hsize s' a)) else bytes_at (us_mem u) (a + 8) 4)"
    by (intro bytes_at_eq) (auto simp: bytes_at_def simp del: of_nat_add)
  show "hptr (heap_of (back_in u s')) a = hptr s' a" if "hptr s' a < 2 ^ 64"
    using that unfolding heap_of_simps load_ptr_def p by (auto simp: of_to_le64 unat_of_nat_small moved_def load_ptr_def)
  show "hsize (heap_of (back_in u s')) a = hsize s' a" if "hsize s' a < 2 ^ 32"
    using that unfolding heap_of_simps z by (auto simp: of_to_le32 unat_of_nat_small moved_def)
qed

lemma back_in_ok:
  assumes "uspace_ok b lo u A" and "uheap_ok b lo s' A'" and mv: "\<And>c. moved (heap_of u) s' c \<Longrightarrow> c \<in> spots b lo (heap_of u) A"
    and "\<And>y. y \<in> A \<inter> A' \<Longrightarrow> hsize s' y = hsize (heap_of u) y"
  shows "uspace_ok b lo (back_in u s') A'" and "keeps (A \<inter> A') u (back_in u s')" and "\<forall>y \<in> A'. hsize (heap_of (back_in u s')) y = hsize s' y"
proof -
  have bl: "b + 16 \<le> lo" "lo \<le> 2 ^ 38" using assms(1) by (simp_all add: uspace_ok_def)
  note H = back_in_header [OF mv _ bl]
  have "uheap_ok b lo (heap_of (back_in u s')) A' \<and> (\<forall>y \<in> A'. hsize (heap_of (back_in u s')) y = hsize s' y)"
  proof (cases "\<exists>N. heap_inv b lo s' N A'")
    case True
    then obtain N where h: "heap_inv b lo s' N A'" by blast
    then have sp: "a \<in> spots b lo s' A'" if "a \<in> N \<union> A'" for a using block_spots that by (auto simp: heap_inv_def)
    have z: "hsize (heap_of (back_in u s')) a = hsize s' a" if "a \<in> N \<union> A'" for a
      using H(2) [OF _ sp [OF that]] heap_small(1) [OF h that] by blast
    have "hptr (heap_of (back_in u s')) a = hptr s' a" if "a \<in> N" for a
      using H(1) [OF _ sp] heap_small(2) [OF h, of a] that by blast
    then have "heap_inv b lo (heap_of (back_in u s')) N A'" using z by (intro heap_inv_cong [OF h]) simp_all
    then show ?thesis using z by (auto simp: uheap_ok_def)
  next
    case False
    then show ?thesis using assms(2) by (auto simp: uheap_ok_def)
  qed
  then show ok: "uspace_ok b lo (back_in u s') A'" and z: "\<forall>y \<in> A'. hsize (heap_of (back_in u s')) y = hsize s' y" using bl by (simp_all add: uspace_ok_def)
  have "us_mem (back_in u s') (of_nat a) = us_mem u (of_nat a)" if y: "y \<in> A \<inter> A'" "a \<in> inside u y" for y a
  proof -
    obtain N where h: "heap_inv b lo (heap_of u) N A" using assms(1) y(1) by (auto simp: uspace_ok_def uheap_ok_def)
    then have "lo \<le> y" using weak_block [of b lo "heap_of u" N A y] y(1) by (auto simp: heap_inv_def)
    moreover have "a < 2 ^ 64" using heap_small(3) [OF h, of y] y by (simp add: inside_def)
    ultimately show ?thesis using y bl unfolding back_in_fields by (intro put_headers_inside [OF mv, where y = y]) (auto simp: inside_def)
  qed
  then show "keeps (A \<inter> A') u (back_in u s')" using z assms(4) by (auto simp: keeps_def)
qed

subsection \<open>The calls\<close>

text \<open>A pointer handed out is 16 bytes behind the start of a new block with room for the request.\<close>

lemma umalloc_block:
  assumes "uspace_ok b lo u A" and "sz < 2 ^ 31 - 64" and "\<forall>a c. room a c \<longrightarrow> a + c \<le> lo + 2 ^ 31"
  obtains u' where "umalloc room b sz u = Inr (0, u')" "uspace_ok b lo u' A" "keeps A u u'"
  | x u' where "umalloc room b sz u = Inr (x + 16, u')" "uspace_ok b lo u' (insert x A)" "x \<notin> A" "keeps A u u'" "x + 16 + sz \<le> stop (heap_of u') x"
proof -
  let ?s = "heap_of u"
  have ok: "uheap_ok b lo ?s A" using assms(1) by (simp add: uspace_ok_def)
  obtain p s' where m: "malloc room b sz ?s = Inr (p, s')" "\<forall>y \<in> A. hsize s' y = hsize ?s y"
    "if p = 0 then uheap_ok b lo s' A \<and> \<not> room (ubrk ?s) (16 * max 4096 (units sz))
     else uheap_ok b lo s' (insert (p - 16) A) \<and> p - 16 \<notin> A \<and> p + sz \<le> stop s' (p - 16)"
    using malloc_spec [OF ok assms(2,3)] by blast
  have mv: "c \<in> spots b lo ?s A" if "moved ?s s' c" for c using malloc_moved [OF ok assms(2) _ m(1) that] assms(3) by blast
  have c: "umalloc room b sz u = Inr (p, back_in u s')" using m(1) by (simp add: umalloc_def)
  show ?thesis
  proof (cases "p = 0")
    case True
    then have "uheap_ok b lo s' A" using m(3) by simp
    note B = back_in_ok [OF assms(1) this mv]
    show ?thesis using that(1) [of "back_in u s'"] B c m(2) True by simp
  next
    case False
    let ?x = "p - 16"
    have n: "uheap_ok b lo s' (insert ?x A)" "?x \<notin> A" "p + sz \<le> stop s' ?x" using m(3) False by simp_all
    note B = back_in_ok [OF assms(1) n(1) mv]
    have i: "A \<inter> insert ?x A = A" by blast
    obtain N where w: "weak_inv b lo s' N (insert ?x A)" using n(1) by (auto simp: uheap_ok_def heap_inv_def)
    have "p = ?x + 16" using weak_block [OF w, of ?x] by auto
    moreover have "stop (heap_of (back_in u s')) ?x = stop s' ?x" using B(3) m(2) by (simp add: stop_def del: heap_of_simps)
    ultimately show ?thesis using that(2) [of ?x "back_in u s'"] B(1,2) c m(2) n(2,3) unfolding i by simp
  qed
qed

lemma ufree_ok:
  assumes "uspace_ok b lo u A" and "x \<in> A"
  shows "\<exists>u'. ufree (x + 16) u = Inr u' \<and> uspace_ok b lo u' (A - {x}) \<and> keeps (A - {x}) u u'"
proof -
  let ?s = "heap_of u"
  have ok: "uheap_ok b lo ?s A" using assms(1) by (simp add: uspace_ok_def)
  obtain N where h: "heap_inv b lo ?s N A" using ok assms(2) by (auto simp: uheap_ok_def)
  then have w: "weak_inv b lo ?s N A" by (simp add: heap_inv_def)
  obtain s' where f: "free (x + 16) ?s = Inr s'" "uheap_ok b lo s' (A - {x})" "\<forall>y \<in> A - {x}. hsize s' y = hsize ?s y"
    using free_ok [OF ok assms(2)] by blast
  have mv: "c \<in> spots b lo ?s A" if "moved ?s s' c" for c
  proof -
    have "c = x \<or> c \<in> N" using free_moved [OF f(1) _ _ that, of N] ring_closed [OF h] by blast
    then show ?thesis using block_spots [OF w, of c] assms(2) by blast
  qed
  have i: "A \<inter> (A - {x}) = A - {x}" by blast
  note B = back_in_ok [OF assms(1) f(2) mv]
  show ?thesis using B(1,2) f(1,3) unfolding i by (simp add: ufree_def)
qed

text \<open>A program that stores into a block it was given changes no header and no other block.\<close>

lemma space_block:
  assumes "uspace_ok b lo u A" and "y \<in> A"
  shows "stop (heap_of u) y < 2 ^ 64" and "0 < y"
proof -
  obtain N where h: "heap_inv b lo (heap_of u) N A" using assms by (auto simp: uspace_ok_def uheap_ok_def)
  then have w: "weak_inv b lo (heap_of u) N A" by (simp add: heap_inv_def)
  show "stop (heap_of u) y < 2 ^ 64" using heap_small(3) [OF h, of y] assms(2) by simp
  show "0 < y" using weak_block [OF w, of y] assms(2) by auto
qed

lemma inside_disjoint: "uspace_ok b lo u A \<Longrightarrow> x \<in> A \<Longrightarrow> y \<in> A \<Longrightarrow> x \<noteq> y \<Longrightarrow> a \<in> inside u x \<Longrightarrow> a \<notin> inside u y"
proof -
  assume ok: "uspace_ok b lo u A" and xy: "x \<in> A" "y \<in> A" "x \<noteq> y" and a: "a \<in> inside u x"
  then obtain N where w: "weak_inv b lo (heap_of u) N A" by (auto simp: uspace_ok_def uheap_ok_def heap_inv_def)
  have "stop (heap_of u) x \<le> y \<or> stop (heap_of u) y \<le> x" using weak_sep [OF w, of x y] weak_sep [OF w, of y x] xy by (cases "x < y") auto
  then show ?thesis using a by (auto simp: inside_def)
qed

lemma write_ok:
  assumes ok: "uspace_ok b lo u A" and y: "y \<in> A" and m: "\<And>a. a < 2 ^ 64 \<Longrightarrow> a \<notin> inside u y \<Longrightarrow> m' (of_nat a) = us_mem u (of_nat a)"
  shows "uspace_ok b lo (u\<lparr>us_mem := m'\<rparr>) A" and "keeps (A - {y}) u (u\<lparr>us_mem := m'\<rparr>)"
    and "\<forall>x \<in> A. hsize (heap_of (u\<lparr>us_mem := m'\<rparr>)) x = hsize (heap_of u) x"
proof -
  let ?u = "u\<lparr>us_mem := m'\<rparr>"
  obtain N where h: "heap_inv b lo (heap_of u) N A" using ok y by (auto simp: uspace_ok_def uheap_ok_def)
  then have w: "weak_inv b lo (heap_of u) N A" by (simp add: heap_inv_def)
  have hd: "m' (of_nat (a + k)) = us_mem u (of_nat (a + k))" if "a \<in> N \<union> A" "k < 12" for a k
  proof (rule m)
    have sp: "a \<in> spots b lo (heap_of u) A" by (rule block_spots [OF w that(1)])
    have bl: "b + 16 \<le> lo" "lo \<le> 2 ^ 38" using ok by (simp_all add: uspace_ok_def)
    show "a + k < 2 ^ 64" using sp bl that(2) by (auto simp: spots_def)
    have "a = b \<or> a \<le> y \<or> stop (heap_of u) y \<le> a" using sp y by (auto simp: spots_def)
    moreover have "lo \<le> y" using weak_block [OF w, of y] y by simp
    ultimately show "a + k \<notin> inside u y" using that(2) bl by (auto simp: inside_def)
  qed
  have z: "hsize (heap_of ?u) a = hsize (heap_of u) a" if "a \<in> N \<union> A" for a
    using hd [OF that, of "8 + _"] bytes_at_cong [of 4 m' "a + 8" "us_mem u"] by (simp add: add.assoc)
  have "load_ptr a ?u = load_ptr a u" if "a \<in> N" for a using hd [of a] that by (intro load_ptr_cong) simp
  then have "heap_inv b lo (heap_of ?u) N A" using z by (intro heap_inv_cong [OF h]) (simp_all del: heap_of_simps(4))
  then show "uspace_ok b lo ?u A" using ok by (auto simp: uspace_ok_def uheap_ok_def)
  show zA: "\<forall>x \<in> A. hsize (heap_of ?u) x = hsize (heap_of u) x" using z by blast
  have "m' (of_nat a) = us_mem u (of_nat a)" if "x \<in> A - {y}" "a \<in> inside u x" for x a
  proof (rule m)
    show "a < 2 ^ 64" using space_block(1) [OF ok, of x] that by (simp add: inside_def)
    show "a \<notin> inside u y" using inside_disjoint [OF ok, of x y a] that y by blast
  qed
  then show "keeps (A - {y}) u ?u" using zA by (simp add: keeps_def del: heap_of_simps)
qed

lemma keeps_trans: "keeps A u v \<Longrightarrow> keeps A v w \<Longrightarrow> keeps A u w"
  by (simp add: keeps_def inside_def stop_def del: heap_of_simps)

lemma keeps_subset: "keeps A u v \<Longrightarrow> B \<subseteq> A \<Longrightarrow> keeps B u v"
  by (auto simp: keeps_def simp del: heap_of_simps)

lemma keepsD: "keeps A u v \<Longrightarrow> y \<in> A \<Longrightarrow> hsize (heap_of v) y = hsize (heap_of u) y \<and> stop (heap_of v) y = stop (heap_of u) y \<and> inside v y = inside u y"
  by (simp add: keeps_def inside_def stop_def del: heap_of_simps)

lemma keeps_mem: "keeps A u v \<Longrightarrow> y \<in> A \<Longrightarrow> a \<in> inside u y \<Longrightarrow> us_mem v (of_nat a) = us_mem u (of_nat a)"
  by (simp add: keeps_def)

end
