(* ===== verification/RV_Stress.thy ===== *)
theory RV_Stress
  imports RV_Heapmem RV_Programs
begin

text \<open>
  The memory test of \<^verbatim>\<open>userspace/stress.c\<close>, on the allocator in the program's memory of \<open>RV_Heapmem\<close> and the \<^verbatim>\<open>memset\<close> of \<open>RV_Strings\<close>. The array \<^verbatim>\<open>ptrs\<close> is in a block of
  the heap: its pointers are stored there and loaded again where the source names \<^verbatim>\<open>ptrs[i]\<close>. What the program prints is the list of its \<^verbatim>\<open>printf\<close> calls.
\<close>

unbundle bit_operations_syntax

subsection \<open>Definitions\<close>

type_synonym message = "string \<times> farg list"

text \<open>The first loop: \<open>n\<close> blocks are left, the next has number \<open>i\<close>; the result has the new value of \<^verbatim>\<open>blocks\<close>.\<close>

primrec alloc_blocks ::
    "(nat \<Rightarrow> nat \<Rightarrow> bool) \<Rightarrow> nat \<Rightarrow> nat \<Rightarrow> nat \<Rightarrow> nat \<Rightarrow> nat \<Rightarrow> uspace \<Rightarrow> (nat \<times> message list \<times> uspace) res" where
  "alloc_blocks avail b ptrs sz 0 i u = Inr (i, [], u)"
| "alloc_blocks avail b ptrs sz (Suc n) i u =
     rbind (umalloc avail b sz u) (\<lambda>(p, u1).
       let u2 = store_ptr (ptrs + 8 * i) p u1 in
       if load_ptr (ptrs + 8 * i) u2 = 0 then Inr (i, [(ln ''Failed to allocate block %d'', [FInt (of_nat i)])], u2)
       else alloc_blocks avail b ptrs sz n (Suc i)
              (u2\<lparr>us_mem := memset (of_nat (load_ptr (ptrs + 8 * i) u2)) (of_nat i AND 0xFF) (of_nat sz) (us_mem u2)\<rparr>))"

text \<open>The offset of the first byte of a block that is not its number.\<close>

definition first_bad :: "bytemem \<Rightarrow> nat \<Rightarrow> nat \<Rightarrow> nat \<Rightarrow> nat option" where
  "first_bad m p i sz = find (\<lambda>j. unat (m (of_nat p + of_nat j)) \<noteq> unat ((of_nat i :: u32) AND 0xFF)) [0..<sz]"

primrec check_blocks :: "nat \<Rightarrow> nat \<Rightarrow> nat \<Rightarrow> nat \<Rightarrow> uspace \<Rightarrow> (message list \<times> uspace) res" where
  "check_blocks ptrs sz 0 i u = Inr ([], u)"
| "check_blocks ptrs sz (Suc n) i u =
     (let l = (case first_bad (us_mem u) (load_ptr (ptrs + 8 * i) u) i sz of
                 None \<Rightarrow> []
               | Some j \<Rightarrow> [(ln ''Memory corruption at block %d, offset %d'', [FInt (of_nat i), FInt (of_nat j)])])
      in rbind (ufree (load_ptr (ptrs + 8 * i) u) u) (\<lambda>u1.
           rbind (check_blocks ptrs sz n (Suc i) u1) (\<lambda>(ls, u2). Inr (l @ ls, u2))))"

definition mem_stress :: "(nat \<Rightarrow> nat \<Rightarrow> bool) \<Rightarrow> nat \<Rightarrow> nat \<Rightarrow> nat \<Rightarrow> uspace \<Rightarrow> (message list \<times> uspace) res" where
  "mem_stress avail b blocks sz u =
     (let l = (ln ''Starting memory stress (%d blocks of %d bytes)...'', [FInt (of_nat blocks), FInt (of_nat sz)]) in
      rbind (umalloc avail b (8 * blocks) u) (\<lambda>(ptrs, u1).
        if ptrs = 0 then Inr ([l, (ln ''Failed to allocate pointers array'', [])], u1)
        else
          rbind (alloc_blocks avail b ptrs sz blocks 0 u1) (\<lambda>(n, ls, u2).
          rbind (check_blocks ptrs sz n 0 u2) (\<lambda>(ls2, u3).
          rbind (ufree ptrs u3) (\<lambda>u4. Inr (l # ls @ ls2 @ [(ln ''Memory stress done.'', [])], u4))))))"

text \<open>
  \<^verbatim>\<open>loop.c\<close>: a block is taken and given back, then the program counts for ever; \<open>None\<close> is a loop that does not end. The test in the loop has an empty body.
\<close>

partial_function (option) busy_loop :: "u32 \<Rightarrow> unit option" where
  "busy_loop count = busy_loop (count + 1)"

definition loop_main :: "(nat \<Rightarrow> nat \<Rightarrow> bool) \<Rightarrow> nat \<Rightarrow> uheap \<Rightarrow> (message list \<times> uheap \<times> unit option) res" where
  "loop_main avail b s =
     (let l = (ln ''Loop program started. I will run a busy loop and malloc memory.'', []) in
      rbind (malloc avail b 1024 s) (\<lambda>(p, s1).
        if p \<noteq> 0 then
          rbind (free p s1) (\<lambda>s2. Inr ([l, (ln ''Successfully allocated 1024 bytes at %p'', [FHex (of_nat p)])], s2, busy_loop 0))
        else Inr ([l, (ln ''Malloc failed!'', [])], s1, busy_loop 0)))"

subsection \<open>Filling\<close>

lemma memset_fill:
  assumes "p + sz \<le> 2 ^ 64" and "sz < 2 ^ 31" and "a < 2 ^ 64"
  shows "memset (of_nat p) c (of_nat sz) m (of_nat a) = (if p \<le> a \<and> a < p + sz then ucast c else m (of_nat a))"
proof -
  have "(of_nat a :: u64) \<in> span (of_nat p) sz \<longleftrightarrow> p \<le> a \<and> a < p + sz"
  proof
    assume "(of_nat a :: u64) \<in> span (of_nat p) sz"
    then obtain i where i: "i < sz" "(of_nat a :: u64) = of_nat (p + i)" by (auto simp: span_def)
    then have "a = p + i" using assms(1,3) unat_of_nat_small [of a, where 'a = 64] unat_of_nat_small [of "p + i", where 'a = 64] by simp
    then show "p \<le> a \<and> a < p + sz" using i(1) by simp
  next
    assume "p \<le> a \<and> a < p + sz"
    then have "a - p < sz" "(of_nat a :: u64) = of_nat p + of_nat (a - p)" by (auto simp flip: of_nat_add)
    then show "(of_nat a :: u64) \<in> span (of_nat p) sz" unfolding span_def by blast
  qed
  moreover have "unat (of_nat sz :: u32) = sz" using assms(2) by (simp add: unat_of_nat_small)
  ultimately show ?thesis using assms(2) by (simp add: memset_def memset_loop_bytes)
qed

lemma low_byte: "ucast ((of_nat i :: u32) AND 0xFF) = (of_nat i :: u8)"
proof -
  have m: "(0xFF :: u32) = mask 8" by (simp add: mask_eq_exp_minus_1)
  have "ucast ((of_nat i :: u32) AND 0xFF) = (ucast (of_nat i :: u32) :: u8)"
    unfolding m by (rule bit_word_eqI) (simp add: bit_unsigned_iff bit_and_iff bit_mask_iff)
  also have "\<dots> = of_nat i" by transfer simp
  finally show ?thesis .
qed

lemma unat_low_byte: "unat (ucast (x AND 0xFF :: u32) :: u8) = unat (x AND 0xFF)"
proof -
  have "x AND 0xFF = take_bit 8 x" by (simp add: take_bit_eq_mask mask_eq_exp_minus_1)
  then show ?thesis by (simp add: unsigned_ucast_eq unsigned_take_bit_eq)
qed

subsection \<open>The blocks and their array\<close>

text \<open>
  The array is in block \<open>t\<close>; block \<open>xs ! k\<close> is the one of number \<open>k\<close>: the array points to it, it has room for \<open>sz\<close> bytes, and each of them is the number.
\<close>

definition numbered :: "nat \<Rightarrow> nat \<Rightarrow> nat \<Rightarrow> uspace \<Rightarrow> bool" where
  "numbered sz k x u \<longleftrightarrow> x + 16 + sz \<le> stop (heap_of u) x \<and> (\<forall>j < sz. us_mem u (of_nat (x + 16 + j)) = of_nat k)"

definition filled :: "nat \<Rightarrow> nat \<Rightarrow> nat list \<Rightarrow> uspace \<Rightarrow> bool" where
  "filled t sz xs u \<longleftrightarrow> (\<forall>k < length xs. load_ptr (t + 16 + 8 * k) u = xs ! k + 16 \<and> numbered sz k (xs ! k) u)"

lemma array_keeps:
  assumes "keeps A u u'" and "t \<in> A" and "t + 16 + 8 * n \<le> stop (heap_of u) t" and "k < n"
  shows "load_ptr (t + 16 + 8 * k) u' = load_ptr (t + 16 + 8 * k) u"
  by (rule load_ptr_cong, rule keeps_mem [OF assms(1,2)]) (use assms(3,4) in \<open>simp add: inside_def del: heap_of_simps\<close>)

lemma numbered_keeps: "numbered sz k x u \<Longrightarrow> keeps A u u' \<Longrightarrow> x \<in> A \<Longrightarrow> numbered sz k x u'"
proof -
  assume n: "numbered sz k x u" and kp: "keeps A u u'" "x \<in> A"
  have "us_mem u' (of_nat (x + 16 + j)) = of_nat k" if "j < sz" for j
    using keeps_mem [OF kp, of "x + 16 + j"] n that by (simp add: numbered_def inside_def del: of_nat_add heap_of_simps)
  then show ?thesis using n keepsD [OF kp] by (simp add: numbered_def del: of_nat_add)
qed

lemma filled_keeps:
  assumes "filled t sz xs u" and "keeps A u u'" and "insert t (set xs) \<subseteq> A" and "t + 16 + 8 * length xs \<le> stop (heap_of u) t"
  shows "filled t sz xs u'"
  using assms(1) array_keeps [OF assms(2) _ assms(4)] numbered_keeps [OF _ assms(2)] assms(3) unfolding filled_def by (auto simp: subset_iff)

text \<open>The pointer of a block is put into the array.\<close>

lemma array_store:
  assumes ok: "uspace_ok b lo u A" and t: "t \<in> A" and room: "t + 16 + 8 * Suc i \<le> stop (heap_of u) t" and p: "p < 2 ^ 64"
  defines "v \<equiv> store_ptr (t + 16 + 8 * i) p u"
  shows "uspace_ok b lo v A" and "keeps (A - {t}) u v" and "load_ptr (t + 16 + 8 * i) v = p" and "stop (heap_of v) t = stop (heap_of u) t"
    and "k < i \<Longrightarrow> load_ptr (t + 16 + 8 * k) v = load_ptr (t + 16 + 8 * k) u"
proof -
  have top: "stop (heap_of u) t < 2 ^ 64" by (rule space_block(1) [OF ok t])
  have v: "v = u\<lparr>us_mem := us_mem v\<rparr>" by (simp add: v_def store_ptr_def)
  have m: "us_mem v (of_nat a) = us_mem u (of_nat a)" if "a < 2 ^ 64" "a \<notin> inside u t" for a
    using that room unfolding v_def by (auto simp: store_ptr_mem inside_def simp del: heap_of_simps)
  note W = write_ok [OF ok t, of "us_mem v", OF m]
  show "uspace_ok b lo v A" "keeps (A - {t}) u v" using W(1,2) v by simp_all
  show "stop (heap_of v) t = stop (heap_of u) t" using W(3) t v by (simp add: stop_def del: heap_of_simps)
  show "load_ptr (t + 16 + 8 * i) v = p" unfolding v_def by (rule load_store_ptr [OF _ p]) (use room top in simp)
  show "load_ptr (t + 16 + 8 * k) v = load_ptr (t + 16 + 8 * k) u" if "k < i"
  proof (rule load_ptr_cong)
    fix j :: nat assume "j < 8"
    then show "us_mem v (of_nat (t + 16 + 8 * k + j)) = us_mem u (of_nat (t + 16 + 8 * k + j))"
      using that room top unfolding v_def by (subst store_ptr_mem) auto
  qed
qed

text \<open>A block is filled with its number.\<close>

lemma block_fill:
  fixes i j :: nat
  assumes ok: "uspace_ok b lo u A" and x: "x \<in> A" "x + 16 + sz \<le> stop (heap_of u) x" and sz: "sz < 2 ^ 31"
  defines "v \<equiv> u\<lparr>us_mem := memset (of_nat (x + 16)) (of_nat i AND 0xFF) (of_nat sz) (us_mem u)\<rparr>"
  shows "uspace_ok b lo v A" and "keeps (A - {x}) u v" and "stop (heap_of v) x = stop (heap_of u) x"
    and "j < sz \<Longrightarrow> us_mem v (of_nat (x + 16 + j)) = of_nat i"
proof -
  have top: "x + 16 + sz \<le> 2 ^ 64" using space_block(1) [OF ok x(1)] x(2) by simp
  have fill: "us_mem v (of_nat a) = (if x + 16 \<le> a \<and> a < x + 16 + sz then of_nat i else us_mem u (of_nat a))" if "a < 2 ^ 64" for a
    unfolding v_def using memset_fill [OF top sz that] by (simp add: low_byte)
  have m: "us_mem v (of_nat a) = us_mem u (of_nat a)" if "a < 2 ^ 64" "a \<notin> inside u x" for a
    using that fill x(2) by (auto simp: inside_def simp del: heap_of_simps)
  have v: "v = u\<lparr>us_mem := us_mem v\<rparr>" by (simp add: v_def)
  note W = write_ok [OF ok x(1), of "us_mem v", OF m]
  show "uspace_ok b lo v A" "keeps (A - {x}) u v" using W(1,2) v by simp_all
  show "stop (heap_of v) x = stop (heap_of u) x" using W(3) x(1) v by (simp add: stop_def del: heap_of_simps)
  show "us_mem v (of_nat (x + 16 + j)) = of_nat i" if "j < sz" using fill [of "x + 16 + j"] top that by simp
qed

subsection \<open>The loops\<close>

lemma alloc_step:
  assumes ok: "uspace_ok b lo u1 (insert x (set xs \<union> insert t A))" and d: "set xs \<inter> insert t A = {}" "distinct xs" "t \<notin> A" "x \<notin> set xs \<union> insert t A"
    and x: "x + 16 + sz \<le> stop (heap_of u1) x" "sz < 2 ^ 31" and f: "filled t sz xs u1" and i: "i = length xs" "t + 16 + 8 * Suc i \<le> stop (heap_of u1) t"
  defines "u2 \<equiv> store_ptr (t + 16 + 8 * i) (x + 16) u1"
  defines "u3 \<equiv> u2\<lparr>us_mem := memset (of_nat (x + 16)) (of_nat i AND 0xFF) (of_nat sz) (us_mem u2)\<rparr>"
  shows "load_ptr (t + 16 + 8 * i) u2 = x + 16" and "uspace_ok b lo u3 (set (xs @ [x]) \<union> insert t A)" and "filled t sz (xs @ [x]) u3"
    and "keeps A u1 u3" and "stop (heap_of u3) t = stop (heap_of u1) t"
proof -
  let ?B = "insert x (set xs \<union> insert t A)"
  have p: "x + 16 < 2 ^ 64" using space_block(1) [OF ok, of x] x(1) by simp
  have t: "t \<in> ?B" "x \<in> ?B" by simp_all
  note S = array_store [OF ok t(1) i(2) p, folded u2_def]
  show l: "load_ptr (t + 16 + 8 * i) u2 = x + 16" by (rule S(3))
  have x2: "x + 16 + sz \<le> stop (heap_of u2) x" using x(1) keepsD [OF S(2), of x] d(4) by simp
  note F = block_fill [OF S(1) t(2) x2 x(2), where i = i, folded u3_def]
  have k3: "keeps (?B - {x}) u2 u3" by (rule F(2))
  show "uspace_ok b lo u3 (set (xs @ [x]) \<union> insert t A)" using F(1) by (simp add: Un_commute)
  show s: "stop (heap_of u3) t = stop (heap_of u1) t" using keepsD [OF k3, of t] d(4) S(4) by auto
  show "keeps A u1 u3"
    using keeps_trans [of A u1 u2 u3] keeps_subset [OF S(2), of A] keeps_subset [OF k3, of A] d(3,4) by blast
  have k13: "keeps (set xs) u1 u3"
    using keeps_trans [of "set xs" u1 u2 u3] keeps_subset [OF S(2), of "set xs"] keeps_subset [OF k3, of "set xs"] d(1,4) by blast
  have arr: "load_ptr (t + 16 + 8 * k) u3 = load_ptr (t + 16 + 8 * k) u2" if "k < Suc i" for k
    by (rule array_keeps [OF k3 _ _ that]) (use d(4) S(4) i(2) in \<open>auto simp del: heap_of_simps\<close>)
  show "filled t sz (xs @ [x]) u3"
    unfolding filled_def
  proof (intro allI impI)
    fix k assume "k < length (xs @ [x])"
    then consider "k < i" | "k = i" using i(1) by force
    then show "load_ptr (t + 16 + 8 * k) u3 = (xs @ [x]) ! k + 16 \<and> numbered sz k ((xs @ [x]) ! k) u3"
    proof cases
      case 1
      then have k: "(xs @ [x]) ! k = xs ! k" "xs ! k \<in> set xs" using i(1) by (simp_all add: nth_append)
      have g: "load_ptr (t + 16 + 8 * k) u1 = xs ! k + 16" "numbered sz k (xs ! k) u1" using f 1 i(1) by (auto simp: filled_def)
      have "load_ptr (t + 16 + 8 * k) u3 = xs ! k + 16" using arr [of k] S(5) [OF 1] g(1) 1 by simp
      then show ?thesis unfolding k(1) using numbered_keeps [OF g(2) k13 k(2)] by simp
    next
      case 2
      then have "(xs @ [x]) ! k = x" using i(1) by simp
      then show ?thesis using 2 arr [of i] l F(3,4) x2 by (simp add: numbered_def del: of_nat_add heap_of_simps)
    qed
  qed
qed

lemma alloc_blocks_ok:
  assumes "sz < 2 ^ 31 - 64" and "\<forall>a c. avail a c \<longrightarrow> a + c \<le> lo + 2 ^ 31" and "t \<notin> A"
  shows "uspace_ok b lo u (set xs \<union> insert t A) \<Longrightarrow> set xs \<inter> insert t A = {} \<Longrightarrow> distinct xs \<Longrightarrow> filled t sz xs u \<Longrightarrow>
    t + 16 + 8 * (length xs + n) \<le> stop (heap_of u) t \<Longrightarrow>
    \<exists>ys ls u'. alloc_blocks avail b (t + 16) sz n (length xs) u = Inr (length ys, ls, u') \<and> uspace_ok b lo u' (set ys \<union> insert t A) \<and>
      set ys \<inter> insert t A = {} \<and> distinct ys \<and> filled t sz ys u' \<and> t + 16 + 8 * length ys \<le> stop (heap_of u') t \<and> keeps A u u' \<and>
      (\<forall>l \<in> set ls. fst l = ln ''Failed to allocate block %d'')"
proof (induction n arbitrary: u xs)
  case 0
  then show ?case by (intro exI [of _ xs] exI [of _ "[]"] exI [of _ u]) (simp add: keeps_def)
next
  case (Suc n)
  let ?B = "set xs \<union> insert t A" and ?i = "length xs"
  have small: "sz < 2 ^ 31" using assms(1) by simp
  show ?case
  proof (rule umalloc_block [OF Suc.prems(1) assms(1,2)])
    fix u1
    assume u1: "umalloc avail b sz u = Inr (0, u1)" "uspace_ok b lo u1 ?B" "keeps ?B u u1"
    have st: "stop (heap_of u1) t = stop (heap_of u) t" using keepsD [OF u1(3), of t] by simp
    have f: "filled t sz xs u1" by (rule filled_keeps [OF Suc.prems(4) u1(3)]) (use Suc.prems(5) in auto)
    have tB: "t \<in> ?B" by simp
    have r: "t + 16 + 8 * Suc ?i \<le> stop (heap_of u1) t" using st Suc.prems(5) by simp
    let ?u2 = "store_ptr (t + 16 + 8 * ?i) 0 u1"
    have z: "(0 :: nat) < 2 ^ 64" by simp
    note S = array_store [OF u1(2) tB r z]
    have "numbered sz k (xs ! k) ?u2" if "k < length xs" for k
    proof (rule numbered_keeps [OF _ S(2)])
      show "numbered sz k (xs ! k) u1" using f that by (simp add: filled_def)
      show "xs ! k \<in> ?B - {t}" using nth_mem [OF that] Suc.prems(2) by auto
    qed
    then have "filled t sz xs ?u2" using f S(5) by (simp add: filled_def)
    moreover have "keeps A u ?u2" using keeps_trans [of A u u1 ?u2] keeps_subset [OF u1(3), of A] keeps_subset [OF S(2), of A] assms(3) by auto
    moreover have "alloc_blocks avail b (t + 16) sz (Suc n) ?i u = Inr (?i, [(ln ''Failed to allocate block %d'', [FInt (of_nat ?i)])], ?u2)"
      using u1(1) S(3) by (simp add: Let_def)
    ultimately show ?case using S(1,4) Suc.prems(2,3) r
      by (intro exI [of _ xs] exI [of _ "[(ln ''Failed to allocate block %d'', [FInt (of_nat ?i)])]"] exI [of _ ?u2]) (simp del: heap_of_simps)
  next
    fix x u1
    assume u1: "umalloc avail b sz u = Inr (x + 16, u1)" "uspace_ok b lo u1 (insert x ?B)" "x \<notin> ?B" "keeps ?B u u1" "x + 16 + sz \<le> stop (heap_of u1) x"
    have st: "stop (heap_of u1) t = stop (heap_of u) t" using keepsD [OF u1(4), of t] by simp
    have f: "filled t sz xs u1" by (rule filled_keeps [OF Suc.prems(4) u1(4)]) (use Suc.prems(5) in auto)
    have r: "t + 16 + 8 * Suc ?i \<le> stop (heap_of u1) t" using st Suc.prems(5) by simp
    let ?u2 = "store_ptr (t + 16 + 8 * ?i) (x + 16) u1"
    let ?u3 = "?u2\<lparr>us_mem := memset (of_nat (x + 16)) (of_nat ?i AND 0xFF) (of_nat sz) (us_mem ?u2)\<rparr>"
    note T = alloc_step [OF u1(2) Suc.prems(2,3) assms(3) u1(3,5) small f refl r]
    have "set (xs @ [x]) \<inter> insert t A = {}" "distinct (xs @ [x])" using Suc.prems(2,3) u1(3) by auto
    moreover have "t + 16 + 8 * (length (xs @ [x]) + n) \<le> stop (heap_of ?u3) t" using T(5) st Suc.prems(5) by simp
    ultimately obtain ys ls u' where y: "alloc_blocks avail b (t + 16) sz n (length (xs @ [x])) ?u3 = Inr (length ys, ls, u')" "uspace_ok b lo u' (set ys \<union> insert t A)"
        "set ys \<inter> insert t A = {}" "distinct ys" "filled t sz ys u'" "t + 16 + 8 * length ys \<le> stop (heap_of u') t" "keeps A ?u3 u'"
        "\<forall>l \<in> set ls. fst l = ln ''Failed to allocate block %d''"
      using Suc.IH [OF T(2) _ _ T(3)] by blast
    have "alloc_blocks avail b (t + 16) sz (Suc n) ?i u = Inr (length ys, ls, u')"
      using u1(1) T(1) y(1) by (simp add: Let_def)
    moreover have "keeps A u u'" using keeps_trans [of A u u1 u'] keeps_trans [OF T(4) y(7)] keeps_subset [OF u1(4), of A] by blast
    ultimately show ?case using y(2-6,8) by blast
  qed
qed

text \<open>The second loop: the blocks from number \<open>i\<close> on are left.\<close>

lemma check_blocks_ok:
  assumes "t \<notin> A"
  shows "i \<le> length xs \<Longrightarrow> n = length xs - i \<Longrightarrow> uspace_ok b lo u (set (drop i xs) \<union> insert t A) \<Longrightarrow> set xs \<inter> insert t A = {} \<Longrightarrow> distinct xs \<Longrightarrow>
    \<forall>k. i \<le> k \<and> k < length xs \<longrightarrow> load_ptr (t + 16 + 8 * k) u = xs ! k + 16 \<and> numbered sz k (xs ! k) u \<Longrightarrow>
    t + 16 + 8 * length xs \<le> stop (heap_of u) t \<Longrightarrow>
    \<exists>u'. check_blocks (t + 16) sz n i u = Inr ([], u') \<and> uspace_ok b lo u' (insert t A) \<and> keeps A u u'"
proof (induction n arbitrary: i u)
  case 0
  then show ?case by (simp add: keeps_def)
next
  case (Suc n)
  then have i: "i < length xs" "n = length xs - Suc i" by simp_all
  let ?x = "xs ! i"
  have h: "load_ptr (t + 16 + 8 * i) u = ?x + 16" "\<And>j. j < sz \<Longrightarrow> us_mem u (of_nat (?x + 16 + j)) = of_nat i"
    using Suc.prems(6) i(1) by (auto simp: numbered_def)
  have "unat (us_mem u (of_nat (?x + 16) + of_nat j)) = unat ((of_nat i :: u32) AND 0xFF)" if "j < sz" for j
  proof -
    have "us_mem u (of_nat (?x + 16) + of_nat j) = ucast ((of_nat i :: u32) AND 0xFF)" using h(2) [OF that] by (simp add: low_byte)
    then show ?thesis by (simp only: unat_low_byte)
  qed
  then have good: "first_bad (us_mem u) (?x + 16) i sz = None" by (simp add: first_bad_def find_None_iff)
  have dr: "drop i xs = ?x # drop (Suc i) xs" using i(1) by (simp add: Cons_nth_drop_Suc)
  let ?B = "set (drop i xs) \<union> insert t A"
  have "?x \<in> ?B" unfolding dr by simp
  then obtain u1 where u1: "ufree (?x + 16) u = Inr u1" "uspace_ok b lo u1 (?B - {?x})" "keeps (?B - {?x}) u u1" using ufree_ok [OF Suc.prems(3)] by blast
  have nx: "?x \<notin> insert t A" "?x \<notin> set (drop (Suc i) xs)"
    using Suc.prems(4) nth_mem [OF i(1)] distinct_drop [OF Suc.prems(5), of i] unfolding dr by auto
  have B: "?B - {?x} = set (drop (Suc i) xs) \<union> insert t A" using nx unfolding dr by auto
  have t: "stop (heap_of u1) t = stop (heap_of u) t" using keepsD [OF u1(3), of t] unfolding B by simp
  have "load_ptr (t + 16 + 8 * k) u1 = xs ! k + 16 \<and> numbered sz k (xs ! k) u1" if k: "Suc i \<le> k" "k < length xs" for k
  proof -
    have x: "xs ! k \<in> ?B - {?x}" unfolding B using k by (auto simp: in_set_conv_nth intro!: exI [of _ "k - Suc i"])
    have l: "load_ptr (t + 16 + 8 * k) u1 = load_ptr (t + 16 + 8 * k) u" by (rule array_keeps [OF u1(3) _ Suc.prems(7) k(2)]) (use B in blast)
    have q: "load_ptr (t + 16 + 8 * k) u = xs ! k + 16" "numbered sz k (xs ! k) u" using Suc.prems(6) k by auto
    show ?thesis using l q(1) numbered_keeps [OF q(2) u1(3) x] by simp
  qed
  then obtain u' where u': "check_blocks (t + 16) sz n (Suc i) u1 = Inr ([], u')" "uspace_ok b lo u' (insert t A)" "keeps A u1 u'"
    using Suc.IH [of "Suc i" u1] i Suc.prems(4,5,7) u1(2) t unfolding B by auto
  have "keeps A u u1" by (rule keeps_subset [OF u1(3)]) (use B in blast)
  then show ?case using u' keeps_trans h(1) good u1(1) by (auto simp del: of_nat_add)
qed

text \<open>
  C15. The memory test finds nothing and damages nothing: in a program whose heap is in order, with sizes below 2 GiB less 64 bytes and a kernel that may refuse memory at any call, \<^verbatim>\<open>mem_stress\<close> ends, never
  reports a corruption, and gives back every block it took. All that is handed out afterwards was so before, with the same contents. The array of pointers, the blocks and the
  headers of the allocator share one memory: a store beyond the array or a block would hit a header or another block.
\<close>

theorem mem_stress_no_corruption:
  assumes "uspace_ok b lo u A" and "8 * blocks < 2 ^ 31 - 64" and "sz < 2 ^ 31 - 64" and "\<forall>a c. avail a c \<longrightarrow> a + c \<le> lo + 2 ^ 31"
  shows "\<exists>ls u'. mem_stress avail b blocks sz u = Inr (ls, u') \<and> uspace_ok b lo u' A \<and> keeps A u u' \<and>
    (\<forall>l \<in> set ls. fst l \<noteq> ln ''Memory corruption at block %d, offset %d'')"
proof (rule umalloc_block [OF assms(1,2,4)])
  fix u1
  assume "umalloc avail b (8 * blocks) u = Inr (0, u1)" "uspace_ok b lo u1 A" "keeps A u u1"
  then show ?thesis by (simp add: mem_stress_def ln_def)
next
  fix t u1
  assume t: "umalloc avail b (8 * blocks) u = Inr (t + 16, u1)" "uspace_ok b lo u1 (insert t A)" "t \<notin> A" "keeps A u u1"
    "t + 16 + 8 * blocks \<le> stop (heap_of u1) t"
  obtain ys ls u2 where y: "alloc_blocks avail b (t + 16) sz blocks 0 u1 = Inr (length ys, ls, u2)" "uspace_ok b lo u2 (set ys \<union> insert t A)"
      "set ys \<inter> insert t A = {}" "distinct ys" "filled t sz ys u2" "t + 16 + 8 * length ys \<le> stop (heap_of u2) t" "keeps A u1 u2"
      "\<forall>l \<in> set ls. fst l = ln ''Failed to allocate block %d''"
    using alloc_blocks_ok [OF assms(3,4) t(3), where xs = "[]" and u = u1 and n = blocks and b = b] t(2,5) by (simp add: filled_def) blast
  obtain u3 where u3: "check_blocks (t + 16) sz (length ys) 0 u2 = Inr ([], u3)" "uspace_ok b lo u3 (insert t A)" "keeps A u2 u3"
    using check_blocks_ok [OF t(3), where i = 0 and xs = ys and n = "length ys" and u = u2 and sz = sz and b = b and lo = lo] y(2-6) by (auto simp: filled_def)
  obtain u4 where u4: "ufree (t + 16) u3 = Inr u4" "uspace_ok b lo u4 (insert t A - {t})" "keeps (insert t A - {t}) u3 u4"
    using ufree_ok [OF u3(2), of t] by blast
  have e: "insert t A - {t} = A" using t(3) by simp
  have "keeps A u u4" using keeps_trans [OF keeps_trans [OF t(4) y(7)] keeps_trans [OF u3(3)]] u4(3) unfolding e by blast
  then show ?thesis using t(1) y(1,8) u3(1) u4 unfolding e by (auto simp: mem_stress_def ln_def)
qed

text \<open>A new program, with nothing in its memory.\<close>

definition demo_space :: uspace where
  "demo_space = \<lparr>us_freep = 0, us_brk = 0x88002000, us_mem = (\<lambda>_. 0)\<rparr>"

theorem mem_stress_no_corruption_witness:
  "\<exists>ls u'. mem_stress demo_room 0x88001f00 20 4096 demo_space = Inr (ls, u') \<and> uspace_ok 0x88001f00 0x88002000 u' {} \<and>
     ln ''Memory corruption at block %d, offset %d'' \<notin> fst ` set ls"
proof -
  have "uspace_ok 0x88001f00 0x88002000 demo_space {}" by (simp add: uspace_ok_def uheap_ok_def demo_space_def)
  moreover have "\<forall>a c. demo_room a c \<longrightarrow> a + c \<le> 0x88002000 + 2 ^ 31" by (simp add: demo_room_def)
  ultimately show ?thesis using mem_stress_no_corruption [where u = demo_space and A = "{}" and blocks = 20 and sz = 4096 and avail = demo_room] by fastforce
qed

text \<open>The busy loop gives the processor back only when it is interrupted.\<close>

lemma busy_loop_runs: "busy_loop c = None"
proof (rule ccontr)
  assume "busy_loop c \<noteq> None"
  then obtain y where y: "busy_loop c = Some y" by blast
  show False by (rule busy_loop.raw_induct [where P = "\<lambda>_ _. False", OF _ y]) blast
qed

end
