(* ===== verification/Spec2Isabelle.thy ===== *)
theory Spec2Isabelle
  imports RV_Boot RV_Malloc RV_Strings RV_Terminal RV_Files RV_Stress
begin

text \<open>
  \<^bold>\<open>RVDOS, a RISC-V operating system, as a verification library.\<close>

  RVDOS is a small kernel for 64-bit RISC-V (Sv39, several harts, SBI firmware) with a FAT32 volume on a
  virtio disk, a capability mask per process, and a userspace of small programs. The kernel is under
  \<^verbatim>\<open>src/kernelspace\<close>, the headers it shares with programs under \<^verbatim>\<open>src/include\<close>, the programs under
  \<^verbatim>\<open>src/userspace\<close>. A trap brings a process into the kernel, where \<^verbatim>\<open>syscall_dispatcher\<close> checks its mask and calls a
  handler; handlers use the file system, the console, the process functions and, below them, the
  address spaces, the slab allocator and the page allocator; a process that has to wait gives its hart back to
  the scheduler.

  \<^bold>\<open>How the code is modelled.\<close> Each C function is one definition, named after it, that takes
  the state and returns the new one; \<^verbatim>\<open>panic\<close> and undefined behaviour (an array overrun, a null dereference, an endless
  loop on a damaged structure) are \<open>Inl (Panic ..)\<close> and \<open>Inl (Undefined ..)\<close> of the result type \<open>'a res\<close>. Integers keep their width:
  \<open>u8\<close>, \<open>u16\<close>, \<open>u32\<close> and \<open>u64\<close> are words, and a C \<^verbatim>\<open>int\<close> is a word read with \<open>sint\<close>, or an \<open>int\<close> where it cannot overflow.
  The state is one record that each layer extends: \<open>phys\<close> (memory and the bitmap), \<open>kheap\<close> (the slab
  buckets), \<open>proc_table\<close> (processes, pids, harts, ticks), \<open>uart\<close> (console ring and device), \<open>kernel\<close> (disk, cache page, file
  objects). Memory is a function from 8-byte aligned addresses to 64-bit words; \<open>RV_Bytes\<close> reads and writes bytes in it. Page tables,
  slab pages, saved registers and user pages live in it; process control blocks and file objects are records beside it.
  A section under a lock is one step. Where the interleaving matters it is a step relation: \<open>lstep\<close> for the spinlock
  itself, \<open>pstep\<close> for the process table on several harts, \<open>kstep\<close> for whole traps, \<open>bstep\<close> for the boot.
  A user program is a tree of system calls (\<open>prog\<close>): it has no state of its own beside its variables, and theorems about all branches hold on every kernel.

  \<^bold>\<open>The theories\<close>, in the order in which they build on each other.

  \<^item> \<open>RV_Prelude\<close>: types, the result monad, generic lemmas, the collections of simplification rules.
  \<^item> \<open>RV_Arch\<close> (\<^verbatim>\<open>include/arch/riscv.h\<close>): the address-space layout and the page-table entry macros, with their bit-level laws.
  \<^item> \<open>RV_Kalloc\<close> (\<^verbatim>\<open>mm/kalloc.c\<close>): the bitmap allocator. The abstraction is the set of free pages; the interface
    \<open>page_allocator\<close> is interpreted on \<^verbatim>\<open>kalloc\<close> and \<^verbatim>\<open>kfree\<close>.
  \<^item> \<open>RV_Pagetable\<close>, \<open>RV_Vm\<close> (\<^verbatim>\<open>mm/pagetable.c\<close>): \<^verbatim>\<open>walk\<close>, \<^verbatim>\<open>mappages\<close>, \<^verbatim>\<open>uvmunmap\<close>, \<^verbatim>\<open>freewalk\<close>, \<^verbatim>\<open>kvminit\<close>, \<^verbatim>\<open>uvmcreate\<close>, \<^verbatim>\<open>uvmfree\<close>. The
    abstraction is the function \<open>leaf\<close> from index triples to last-level entries; \<open>pt_wf\<close> is the invariant of the tree of
    tables. Shown: what each operation does to every translation, that a new address space gives user mode nothing, that
    tearing it down returns every page, and when the teardown panics.
  \<^item> \<open>RV_Kmalloc\<close> (\<^verbatim>\<open>mm/kmalloc.c\<close>): slab caches and buckets; \<open>cache_wf\<close> partitions the blocks of the slab pages into free and
    handed-out ones; interface \<open>object_pool\<close>.
  \<^item> \<open>RV_Locks\<close> (\<^verbatim>\<open>core/intr.c\<close>, \<^verbatim>\<open>lib/lock.c\<close>): the spinlock at the grain of its memory accesses, with mutual exclusion
    over every interleaving, and the spurious panic of a zeroed lock.
  \<^item> \<open>RV_Caps\<close> (\<^verbatim>\<open>include/abi/capability.h\<close>, \<^verbatim>\<open>include/abi/syscall.h\<close>, the head of \<^verbatim>\<open>core/trap.c\<close>): masks, profiles, the gate, inheritance.
  \<^item> \<open>RV_Sched\<close> (\<^verbatim>\<open>core/process.c\<close>, \<^verbatim>\<open>include/proc.h\<close>): choice of a process, accounting, aging, pids, \<^verbatim>\<open>sched\<close>, \<^verbatim>\<open>yield\<close>, \<^verbatim>\<open>sleep\<close>, \<^verbatim>\<open>wakeup\<close>, \<^verbatim>\<open>kill\<close>.
  \<^item> \<open>RV_Console\<close> (\<^verbatim>\<open>drivers/uart.c\<close>): the driver, line editing and \<^verbatim>\<open>printf\<close>; the ring refines the interface \<open>line_input\<close> over two byte lists.
  \<^item> \<open>RV_Disk\<close>, \<open>RV_Fat\<close> (\<^verbatim>\<open>fs/fs.c\<close>, \<^verbatim>\<open>fs/fs.h\<close>): the virtio driver down to descriptors and registers, the allocation table (interface
    \<open>fat_table\<close>), names, directories, open files, reading, writing, listing, moving and removing. The device may fail any request.
  \<^item> \<open>RV_Bytes\<close>, \<open>RV_Args\<close>, \<open>RV_Proc\<close>, \<open>RV_Spawn\<close> (\<^verbatim>\<open>core/process.c\<close>, \<^verbatim>\<open>include/elf.h\<close>): bytes of memory (interface \<open>byte_memory\<close>), the arguments on the new
    stack, \<^verbatim>\<open>procinit\<close>, \<^verbatim>\<open>allocproc\<close>, the ELF loader, \<^verbatim>\<open>spawn\<close>, \<^verbatim>\<open>growproc\<close>, \<^verbatim>\<open>exit\<close>, \<^verbatim>\<open>wait\<close>; what a successful \<^verbatim>\<open>spawn\<close> leaves behind.
  \<^item> \<open>RV_Trap\<close> (\<^verbatim>\<open>core/trap.c\<close>, \<^verbatim>\<open>drivers/plic.c\<close>): every system call handler, the dispatcher, both trap handlers, interrupts, the
    way back to user mode. \<open>RV_Confine\<close> has the frame lemmas of all operations a handler calls, \<open>RV_Traps\<close> the properties of whole traps.
  \<^item> \<open>RV_Boot\<close> (\<^verbatim>\<open>core/main.c\<close>, \<^verbatim>\<open>lib/sbi.c\<close>): \<^verbatim>\<open>main\<close> on every hart as a step relation, up to the call of \<^verbatim>\<open>scheduler\<close>; the initialisation is a list of steps that call
    the initialisers of the other theories. Shown: the steps run once and in order whatever the other harts do, and what a hart finds when it enters the scheduler.
  \<^item> \<open>RV_Malloc\<close> (\<^verbatim>\<open>userspace/include/stdlib.c\<close>): the heap of a program, a ring of free blocks ordered by address (interface \<open>block_heap\<close>): blocks
    handed out and free blocks partition the heap, and releasing everything leaves one block.
  \<^item> \<open>RV_Strings\<close> (\<^verbatim>\<open>userspace/include/string.c\<close>, \<^verbatim>\<open>lib/mylibc.c\<close>): the string functions on a memory of bytes; a scan for a zero byte is a partial
    function, and it is shown when it returns and when it cannot.
  \<^item> \<open>RV_User\<close> (\<^verbatim>\<open>userspace/include/syscall.c\<close>, \<^verbatim>\<open>crt0.c\<close>): programs as trees of system calls with a branch for every answer, and their runs on a kernel.
  \<^item> \<open>RV_Stdio\<close> (\<^verbatim>\<open>userspace/include/stdio.c\<close>): \<^verbatim>\<open>printf\<close> and \<^verbatim>\<open>gets\<close>; the interface \<open>char_source\<close> is a kernel that answers reads from a queue.
  \<^item> \<open>RV_Shell\<close> (\<^verbatim>\<open>shell.c\<close>, \<^verbatim>\<open>syscontroller.c\<close>, \<^verbatim>\<open>sandbox.c\<close>, \<^verbatim>\<open>trace.c\<close>): the programs that start programs, and the capabilities their children get on any kernel.
  \<^item> \<open>RV_Terminal\<close>: programs on this kernel. The console of \<open>RV_Console\<close> is a \<open>char_source\<close>; a line is followed from the keyboard to the
    system call, and arguments from one program through \<^verbatim>\<open>spawn\<close> to the next.

  \<^item> \<open>RV_Programs\<close> (\<^verbatim>\<open>ps.c\<close>, \<^verbatim>\<open>cat.c\<close>, \<^verbatim>\<open>kill.c\<close>, \<^verbatim>\<open>echo.c\<close>, \<^verbatim>\<open>sysinfo.c\<close>, \<^verbatim>\<open>stress.c\<close> and the small tools): the other programs, and what \<^verbatim>\<open>ps\<close> prints.
  \<^item> \<open>RV_Stress\<close> (\<^verbatim>\<open>stress.c\<close>, \<^verbatim>\<open>loop.c\<close>): the memory test on the allocator and on \<^verbatim>\<open>memset\<close>; it never finds a corruption.
  \<^item> \<open>RV_Files\<close>: programs on the file system. The interface \<open>block_source\<close> is interpreted on an open file of \<open>RV_Fat\<close>; \<^verbatim>\<open>cat\<close> is followed from
    the directory entry over the clusters to the bytes at the console device.

  \<^bold>\<open>Fuel and bounds.\<close> A loop over a linked structure that the code trusts has the size of the structure as fuel, so running out of it is
  the endless loop of the code on a cyclic structure: the number of entries of the allocation table
  for cluster chains (\<open>fat_entries\<close>; a chain without a cycle is not longer), the number of managed pages for slab page records, three levels for \<^verbatim>\<open>freewalk\<close>, the
  bytes received for the console, the units below the break for the ring of free blocks. The shell and the first process run for ever: their definitions describe the
  first rounds for any number of them, and \<^verbatim>\<open>gets\<close> any number of reads. Loops with a count (pages of a segment, ticks, characters of a path) recurse on the count.
  Theorems about such loops show that the fuel is enough for the well-formed structure and give the result.

  \<^bold>\<open>What code outside the sources supplies\<close> is an argument: the linker's symbols (\<open>image\<close>, \<open>kenv\<close>), the size of a \<^verbatim>\<open>PCB\<close>, the disk
  with its failures (\<open>device\<close>), the registers of the interrupt controller and the clock (\<open>inputs\<close>, \<open>benv\<close>), and which harts the firmware starts.

  \<^bold>\<open>Limits.\<close> Process control blocks are not in the modelled memory, so a store through a user pointer that hits one is not
  seen in the process table; \<open>sys_getcwd_kernel_store\<close> shows that such stores are possible, and the theorem on capabilities is about the
  handlers' own stores. Reads of device registers through a user pointer read memory. Interrupts taken inside a
  handler are separate steps of \<open>kstep\<close> and do not split it. Memory is sequentially consistent.

  \<^bold>\<open>Not modelled.\<close> \<^verbatim>\<open>entry.S\<close>, \<^verbatim>\<open>core/trapvec.S\<close> (assembly: register save and restore, the switch), the firmware behind the
  SBI calls, the register accessors of \<^verbatim>\<open>riscv.h\<close> (inline assembly), and the message \<^verbatim>\<open>panic\<close>
  prints before it stops.
\<close>

end
